(* ===== verification/Prelude.thy ===== *)
theory Prelude
  imports Main "HOL-Library.Word"
begin

text \<open>
  Shared ground of the development: the machine integer types of the Rust code, its
  \<open>Result\<close> values as sums (\<open>Inl\<close> the error), checked arithmetic, and the big-endian byte
  codings \<open>to_be_bytes\<close> / \<open>from_be_bytes\<close> with their length and inverse lemmas. The
  collection \<open>be_simps\<close> carries the codec proofs of every wire and file format.
\<close>

unbundle bit_operations_syntax

named_theorems be_simps \<open>lengths and inverses of the byte codings\<close>

named_theorems res_simps \<open>unfolding of the result combinators\<close>

section \<open>Machine integers\<close>

type_synonym u8 = "8 word"
type_synonym u16 = "16 word"
type_synonym u32 = "32 word"
type_synonym u64 = "64 word"
type_synonym byte = "8 word"
type_synonym bytes = "8 word list"

text \<open>\<open>u64::checked_add\<close> and \<open>checked_sub\<close>; \<open>usize\<close> values are naturals below $2^{64}$.\<close>

definition u64_checked_add :: "u64 \<Rightarrow> u64 \<Rightarrow> u64 option" where
  "u64_checked_add a b = (if unat a + unat b < 2 ^ 64 then Some (a + b) else None)"

definition u64_checked_sub :: "u64 \<Rightarrow> u64 \<Rightarrow> u64 option" where
  "u64_checked_sub a b = (if b \<le> a then Some (a - b) else None)"

definition saturating_add :: "u64 \<Rightarrow> nat \<Rightarrow> u64" where
  "saturating_add a n = (case u64_checked_add a (word_of_nat n) of Some c \<Rightarrow> c | None \<Rightarrow> - 1)"

definition usize_checked_add :: "nat \<Rightarrow> nat \<Rightarrow> nat option" where
  "usize_checked_add a b = (if a + b < 2 ^ 64 then Some (a + b) else None)"

lemma unat_u64_lt [simp]: "unat (w :: u64) < 18446744073709551616"
  using unsigned_less [of w] by simp

lemma unat_u32_lt [simp]: "unat (w :: u32) < 4294967296"
  using unsigned_less [of w] by simp

lemma unat_u16_lt [simp]: "unat (w :: u16) < 65536"
  using unsigned_less [of w] by simp

lemma unat_u8_lt [simp]: "unat (w :: u8) < 256"
  using unsigned_less [of w] by simp

lemma u64_checked_add_Some:
  "u64_checked_add a b = Some c \<longleftrightarrow> unat a + unat b < 2 ^ 64 \<and> c = a + b"
  by (auto simp: u64_checked_add_def)

lemma u64_checked_add_unat:
  "u64_checked_add a b = Some c \<Longrightarrow> unat c = unat a + unat b"
  by (auto simp: u64_checked_add_def unat_word_ariths split: if_splits)

lemma u64_checked_add_None:
  "u64_checked_add a b = None \<longleftrightarrow> 2 ^ 64 \<le> unat a + unat b"
  by (auto simp: u64_checked_add_def)

lemma u64_checked_sub_unat:
  "u64_checked_sub a b = Some c \<Longrightarrow> unat c = unat a - unat b \<and> unat b \<le> unat a"
  by (auto simp: u64_checked_sub_def unat_sub word_le_nat_alt split: if_splits)

lemma u64_eqI: "unat (a :: u64) = unat b \<Longrightarrow> a = b"
  by (simp add: word_unat_eq_iff)

section \<open>Results\<close>

text \<open>Rust's \<open>?\<close> on a \<open>Result\<close>, \<open>map_err\<close>, \<open>ok_or\<close> and \<open>is_err\<close>.\<close>

definition rbind :: "'e + 'a \<Rightarrow> ('a \<Rightarrow> 'e + 'b) \<Rightarrow> 'e + 'b" where
  "rbind r f = (case r of Inl e \<Rightarrow> Inl e | Inr a \<Rightarrow> f a)"

definition map_err :: "('e \<Rightarrow> 'f) \<Rightarrow> 'e + 'a \<Rightarrow> 'f + 'a" where
  "map_err f r = (case r of Inl e \<Rightarrow> Inl (f e) | Inr a \<Rightarrow> Inr a)"

definition map_ok :: "('a \<Rightarrow> 'b) \<Rightarrow> 'e + 'a \<Rightarrow> 'e + 'b" where
  "map_ok f r = (case r of Inl e \<Rightarrow> Inl e | Inr a \<Rightarrow> Inr (f a))"

definition ok_or :: "'e \<Rightarrow> 'a option \<Rightarrow> 'e + 'a" where
  "ok_or e x = (case x of None \<Rightarrow> Inl e | Some a \<Rightarrow> Inr a)"

definition is_err :: "'e + 'a \<Rightarrow> bool" where
  "is_err r = (case r of Inl _ \<Rightarrow> True | Inr _ \<Rightarrow> False)"

lemma rbind_simps [simp, res_simps]:
  "rbind (Inl e) f = Inl e"
  "rbind (Inr a) f = f a"
  by (simp_all add: rbind_def)

lemma map_err_simps [simp, res_simps]:
  "map_err g (Inl e) = Inl (g e)"
  "map_err g (Inr a) = Inr a"
  by (simp_all add: map_err_def)

lemma map_ok_simps [simp, res_simps]:
  "map_ok g (Inl e) = Inl e"
  "map_ok g (Inr a) = Inr (g a)"
  by (simp_all add: map_ok_def)

lemma ok_or_simps [simp, res_simps]:
  "ok_or e None = Inl e"
  "ok_or e (Some a) = Inr a"
  by (simp_all add: ok_or_def)

lemma is_err_simps [simp, res_simps]:
  "is_err (Inl e)"
  "\<not> is_err (Inr a)"
  by (simp_all add: is_err_def)

lemma rbind_Inr_iff: "rbind r f = Inr b \<longleftrightarrow> (\<exists>a. r = Inr a \<and> f a = Inr b)"
  by (cases r) auto

lemma rbind_Inl_iff: "rbind r f = Inl e \<longleftrightarrow> r = Inl e \<or> (\<exists>a. r = Inr a \<and> f a = Inl e)"
  by (cases r) auto

lemma map_err_Inr_iff [simp]: "map_err g r = Inr b \<longleftrightarrow> r = Inr b"
  by (cases r) auto

lemma map_ok_Inr_iff: "map_ok g r = Inr b \<longleftrightarrow> (\<exists>a. r = Inr a \<and> b = g a)"
  by (cases r) auto

lemma map_ok_Inl_iff [simp]: "map_ok g r = Inl e \<longleftrightarrow> r = Inl e"
  by (cases r) auto

lemma ok_or_Inr_iff [simp]: "ok_or e x = Inr a \<longleftrightarrow> x = Some a"
  by (cases x) auto

lemma ok_or_Inl_iff: "ok_or e x = Inl e' \<longleftrightarrow> x = None \<and> e' = e"
  by (cases x) auto

section \<open>Big-endian bytes\<close>

text \<open>
  \<open>be_bytes n v\<close> is the \<open>n\<close>-byte big-endian image of \<open>v\<close> (reduced modulo $256^n$),
  \<open>be_nat\<close> reads a byte string as a number.
\<close>

fun be_bytes :: "nat \<Rightarrow> nat \<Rightarrow> bytes" where
  "be_bytes 0 v = []"
| "be_bytes (Suc n) v = be_bytes n (v div 256) @ [word_of_nat v]"

definition be_nat :: "bytes \<Rightarrow> nat" where
  "be_nat bs = foldl (\<lambda>a b. a * 256 + unat b) 0 bs"

definition to_be16 :: "u16 \<Rightarrow> bytes" where
  "to_be16 w = be_bytes 2 (unat w)"

definition to_be32 :: "u32 \<Rightarrow> bytes" where
  "to_be32 w = be_bytes 4 (unat w)"

definition to_be64 :: "u64 \<Rightarrow> bytes" where
  "to_be64 w = be_bytes 8 (unat w)"

definition from_be16 :: "bytes \<Rightarrow> u16" where
  "from_be16 bs = word_of_nat (be_nat bs)"

definition from_be32 :: "bytes \<Rightarrow> u32" where
  "from_be32 bs = word_of_nat (be_nat bs)"

definition from_be64 :: "bytes \<Rightarrow> u64" where
  "from_be64 bs = word_of_nat (be_nat bs)"

lemma length_be_bytes [simp, be_simps]: "length (be_bytes n v) = n"
  by (induction n arbitrary: v) auto

lemma be_nat_Nil [simp]: "be_nat [] = 0"
  by (simp add: be_nat_def)

lemma be_nat_snoc [simp]: "be_nat (bs @ [b]) = be_nat bs * 256 + unat b"
  by (simp add: be_nat_def)

lemma be_nat_lt: "be_nat bs < 256 ^ length bs"
proof (induction bs rule: rev_induct)
  case Nil
  then show ?case by simp
next
  case (snoc b bs)
  have "be_nat bs * 256 + unat b < (be_nat bs + 1) * 256" by simp
  also have "\<dots> \<le> 256 ^ length bs * 256" using snoc by (intro mult_right_mono) auto
  finally show ?case by (simp add: mult.commute)
qed

lemma be_nat_be_bytes: "be_nat (be_bytes n v) = v mod 256 ^ n"
proof (induction n arbitrary: v)
  case 0
  then show ?case by simp
next
  case (Suc n)
  have "v mod 256 ^ Suc n = v div 256 mod 256 ^ n * 256 + v mod 256"
    by (simp add: mod_mult2_eq mult.commute)
  with Suc show ?case by (simp add: unat_of_nat)
qed

lemma be_bytes_be_nat: "be_bytes (length bs) (be_nat bs) = bs"
proof (induction bs rule: rev_induct)
  case Nil
  then show ?case by simp
next
  case (snoc b bs)
  have z: "(256 :: byte) = 0" by simp
  have "word_of_nat (be_nat bs * 256 + unat b) = (word_of_nat (be_nat bs) * 256 + b :: byte)"
    by simp
  then have "word_of_nat (be_nat bs * 256 + unat b) = b" by (simp only: z mult_zero_right add_0)
  with snoc show ?case by simp
qed

lemma be_bytes_be_nat_n: "length bs = n \<Longrightarrow> be_bytes n (be_nat bs) = bs"
  using be_bytes_be_nat by blast

lemma length_to_be [simp, be_simps]:
  "length (to_be16 a) = 2" "length (to_be32 b) = 4" "length (to_be64 c) = 8"
  by (simp_all add: to_be16_def to_be32_def to_be64_def)

lemma from_to_be [simp, be_simps]:
  "from_be16 (to_be16 a) = a" "from_be32 (to_be32 b) = b" "from_be64 (to_be64 c) = c"
  by (simp_all add: to_be16_def to_be32_def to_be64_def from_be16_def from_be32_def
      from_be64_def be_nat_be_bytes)

lemma unat_from_be:
  "length bs = 2 \<Longrightarrow> unat (from_be16 bs) = be_nat bs"
  "length bs = 4 \<Longrightarrow> unat (from_be32 bs) = be_nat bs"
  "length bs = 8 \<Longrightarrow> unat (from_be64 bs) = be_nat bs"
  using be_nat_lt [of bs]
  by (simp_all add: from_be16_def from_be32_def from_be64_def unat_of_nat)

lemma to_from_be16 [simp, be_simps]: "length bs = 2 \<Longrightarrow> to_be16 (from_be16 bs) = bs"
  by (simp add: to_be16_def unat_from_be be_bytes_be_nat_n)

lemma to_from_be32 [simp, be_simps]: "length bs = 4 \<Longrightarrow> to_be32 (from_be32 bs) = bs"
  by (simp add: to_be32_def unat_from_be be_bytes_be_nat_n)

lemma to_from_be64 [simp, be_simps]: "length bs = 8 \<Longrightarrow> to_be64 (from_be64 bs) = bs"
  by (simp add: to_be64_def unat_from_be be_bytes_be_nat_n)

lemma to_be_inject [simp]:
  "to_be16 a = to_be16 a' \<longleftrightarrow> a = a'"
  "to_be32 b = to_be32 b' \<longleftrightarrow> b = b'"
  "to_be64 c = to_be64 c' \<longleftrightarrow> c = c'"
  by (metis from_to_be)+

section \<open>Slices\<close>

text \<open>\<open>slice_of i j xs\<close> is Rust's \<open>&xs[i..j]\<close> where \<open>i \<le> j \<le> xs.len()\<close>.\<close>

definition slice_of :: "nat \<Rightarrow> nat \<Rightarrow> 'a list \<Rightarrow> 'a list" where
  "slice_of i j xs = take (j - i) (drop i xs)"

lemma length_slice [simp]: "j \<le> length xs \<Longrightarrow> length (slice_of i j xs) = j - i"
  by (simp add: slice_of_def)

lemma slice_append_drop: "i \<le> j \<Longrightarrow> slice_of i j xs @ drop j xs = drop i xs"
  by (simp add: slice_of_def) (metis add.commute append_take_drop_id drop_drop le_add_diff_inverse2)

lemma slice_slice: "i \<le> j \<Longrightarrow> j \<le> k \<Longrightarrow> slice_of i j xs @ slice_of j k xs = slice_of i k xs"
proof -
  assume "i \<le> j" "j \<le> k"
  then have "k - i = (j - i) + (k - j)" and "drop (j - i) (drop i xs) = drop j xs" by simp_all
  then show ?thesis by (simp only: slice_of_def take_add)
qed

lemma slice_whole: "length xs = k \<Longrightarrow> slice_of 0 k xs = xs"
  by (simp add: slice_of_def)

lemma slice_append1: "j \<le> length xs \<Longrightarrow> slice_of i j (xs @ ys) = slice_of i j xs"
  by (simp add: slice_of_def)

lemma slice_append2:
  "length xs \<le> i \<Longrightarrow> slice_of i j (xs @ ys) = slice_of (i - length xs) (j - length xs) ys"
  by (simp add: slice_of_def)

lemma slice_exact: "length xs = i \<Longrightarrow> length ys = j - i \<Longrightarrow> slice_of i j (xs @ ys @ zs) = ys"
  by (simp add: slice_of_def)

lemma split_at: "length xs = a + b \<Longrightarrow> \<exists>ys zs. xs = ys @ zs \<and> length ys = a \<and> length zs = b"
  by (rule exI [of _ "take a xs"], rule exI [of _ "drop a xs"]) simp

lemma split_prefix:
  assumes "n \<le> length xs"
  obtains ys zs where "xs = ys @ zs" "length ys = n" "length zs = length xs - n"
  by (rule that [of "take n xs" "drop n xs"]) (use assms in simp_all)

end
