(* ===== verification/OtpTypes.thy ===== *)
theory OtpTypes
  imports Prelude
begin

text \<open>
  The crate \<open>otp-types\<close> (\<open>crates/otp-types/src/lib.rs\<close>): layout constants, the newtypes of
  the protocol and their checked steps. \<open>SegmentIndex\<close>, \<open>Sequence\<close> and \<open>Epoch\<close> wrap an
  unsigned integer that the code reads back with \<open>get\<close>; they are the words themselves here.
  \<open>Generation\<close> keeps its constructor and carries the derived order as an instance of
  \<open>linorder\<close>. \<open>[u8; N]\<close> arrays are byte lists, with the length as a well-formedness
  condition. A panic is the value \<open>None\<close>.
\<close>

section \<open>Layout constants\<close>

definition SEGMENT_LEN :: nat where "SEGMENT_LEN = 64"
definition DIRECTION_KEY_LEN :: nat where "DIRECTION_KEY_LEN = 32"
definition TAG_LEN :: nat where "TAG_LEN = 16"
definition NONCE_LEN :: nat where "NONCE_LEN = 12"

lemmas layout_defs = SEGMENT_LEN_def DIRECTION_KEY_LEN_def TAG_LEN_def NONCE_LEN_def

section \<open>Newtypes\<close>

type_synonym book_id = bytes
type_synonym nonce16 = bytes
type_synonym segment_index = u64
type_synonym seqno = u64
type_synonym epoch = u32

text \<open>\<open>SegmentIndex::next\<close> panics instead of wrapping.\<close>

definition seg_next :: "segment_index \<Rightarrow> segment_index option" where
  "seg_next i = u64_checked_add i 1"

datatype generation = Generation (gen_get: u64)

text \<open>\<open>Generation::succ\<close> panics instead of wrapping.\<close>

definition gen_succ :: "generation \<Rightarrow> generation option" where
  "gen_succ g = map_option Generation (u64_checked_add (gen_get g) 1)"

text \<open>\<open>Sequence::next\<close> reports the overflow as \<open>None\<close>, without a panic.\<close>

definition seq_next :: "seqno \<Rightarrow> seqno option" where
  "seq_next s = u64_checked_add s 1"

instantiation generation :: linorder
begin

definition less_eq_generation :: "generation \<Rightarrow> generation \<Rightarrow> bool" where
  "less_eq_generation g h \<longleftrightarrow> gen_get g \<le> gen_get h"

definition less_generation :: "generation \<Rightarrow> generation \<Rightarrow> bool" where
  "less_generation g h \<longleftrightarrow> gen_get g < gen_get h"

instance
  by standard (auto simp: less_eq_generation_def less_generation_def intro: generation.expand)

end

section \<open>Directions and roles\<close>

datatype direction = ClientToServer | ServerToClient

fun opposite :: "direction \<Rightarrow> direction" where
  "opposite ClientToServer = ServerToClient"
| "opposite ServerToClient = ClientToServer"

datatype role = Client | Server

fun send_direction :: "role \<Rightarrow> direction" where
  "send_direction Client = ClientToServer"
| "send_direction Server = ServerToClient"

text \<open>The error classes of the audit log.\<close>

datatype error_category =
    CatBook | CatCodec | CatAnchor | CatAllocation | CatRecovery | CatHandshake
  | CatSession | CatTransport | CatTerminal | CatPlatform | CatInternal

section \<open>Facts\<close>

lemma opposite_opposite [simp]: "opposite (opposite d) = d"
  by (cases d) auto

lemma opposite_neq [simp]: "opposite d \<noteq> d" "d \<noteq> opposite d"
  by (cases d, auto)+

lemma seg_next_Some: "seg_next i = Some j \<Longrightarrow> unat j = unat i + 1"
  by (drule u64_checked_add_unat [of i 1 j, unfolded seg_next_def [symmetric]]) simp

lemma seg_next_below: "unat i < unat (n :: u64) \<Longrightarrow> seg_next i = Some (i + 1)"
proof -
  assume "unat i < unat n"
  then have "unat i + 1 < 18446744073709551616" using unat_u64_lt [of n] by linarith
  then show ?thesis by (simp add: seg_next_def u64_checked_add_def)
qed

lemma seq_next_Some: "seq_next i = Some j \<Longrightarrow> unat j = unat i + 1"
  by (drule u64_checked_add_unat [of i 1 j, unfolded seq_next_def [symmetric]]) simp

lemma seq_next_iff: "seq_next i = Some j \<longleftrightarrow> unat j = unat i + 1"
proof
  assume j: "unat j = unat i + 1"
  then have "unat i + 1 < 2 ^ 64" using unat_u64_lt [of j] by simp
  moreover from this have "unat (i + 1) = unat i + 1" by (simp add: unat_word_ariths)
  ultimately show "seq_next i = Some j"
    using j by (simp add: seq_next_def u64_checked_add_def word_unat_eq_iff)
qed (rule seq_next_Some)

lemma seq_next_None: "seq_next i = None \<longleftrightarrow> i = -1"
proof -
  have "unat (-1 :: u64) = 18446744073709551615"
    by (simp add: unsigned_minus_1_eq_mask mask_eq_exp_minus_1)
  then have "i = -1 \<longleftrightarrow> unat i = 18446744073709551615" by (simp only: word_unat_eq_iff)
  moreover have "\<not> unat i + 1 < 18446744073709551616 \<longleftrightarrow> unat i = 18446744073709551615"
    using unat_u64_lt [of i] by linarith
  ultimately show ?thesis by (simp add: seq_next_def u64_checked_add_def)
qed

lemma seq_next_inj: "seq_next i = Some k \<Longrightarrow> seq_next j = Some k \<Longrightarrow> i = j"
  by (auto simp: seq_next_iff word_unat_eq_iff)

lemma gen_succ_less: "gen_succ g = Some h \<Longrightarrow> g < h"
  by (cases g) (auto simp: gen_succ_def less_generation_def word_less_nat_alt
      dest!: u64_checked_add_unat)

end
