(* ===== verification/Codec.thy ===== *)
theory Codec
  imports OtpTypes
begin

text \<open>
  The crate \<open>otp-codec\<close> (\<open>crates/otp-codec/src\<close>): the error code registry (\<open>error.rs\<close>), the
  message data model (\<open>message.rs\<close>), the canonical encoder (\<open>encode.rs\<close>) and the strict
  decoder with its cursor (\<open>decode.rs\<close>). The lemmas show that the decoder accepts exactly
  the images of the encoder, returns the encoded message, and answers every other input with
  one of the eight codec codes.
\<close>

section \<open>Error codes\<close>

text \<open>\<open>ErrorCode(pub u16)\<close> is its code; the associated constants are the registry.\<close>

type_synonym error_code = u16

definition BOOK_MISMATCH :: error_code where "BOOK_MISMATCH = 0x0100"
definition EXHAUSTED :: error_code where "EXHAUSTED = 0x0101"
definition CLIENT_AHEAD :: error_code where "CLIENT_AHEAD = 0x0102"
definition SERVER_AHEAD :: error_code where "SERVER_AHEAD = 0x0103"
definition AUTH_FAILED :: error_code where "AUTH_FAILED = 0x0200"
definition TAG_INVALID :: error_code where "TAG_INVALID = 0x0201"
definition SEGMENT_BINDING :: error_code where "SEGMENT_BINDING = 0x0202"
definition NONCE_MISMATCH :: error_code where "NONCE_MISMATCH = 0x0203"
definition SEQ_REPLAY :: error_code where "SEQ_REPLAY = 0x0204"
definition PROTOCOL_VIOLATION :: error_code where "PROTOCOL_VIOLATION = 0x0300"
definition BAD_VERSION :: error_code where "BAD_VERSION = 0x0301"
definition BAD_LENGTH :: error_code where "BAD_LENGTH = 0x0302"
definition TRAILING_BYTES :: error_code where "TRAILING_BYTES = 0x0303"
definition BAD_ENUM :: error_code where "BAD_ENUM = 0x0304"
definition UNKNOWN_MSG_TYPE :: error_code where "UNKNOWN_MSG_TYPE = 0x0305"
definition WRONG_DIRECTION :: error_code where "WRONG_DIRECTION = 0x0306"
definition ISSUE_POINTER_MISMATCH :: error_code where "ISSUE_POINTER_MISMATCH = 0x0307"
definition FRAME_TRUNCATED :: error_code where "FRAME_TRUNCATED = 0x0308"
definition BAD_ORDER :: error_code where "BAD_ORDER = 0x0309"
definition EPOCH_MISMATCH :: error_code where "EPOCH_MISMATCH = 0x030A"
definition SEQ_UNEXPECTED :: error_code where "SEQ_UNEXPECTED = 0x030B"
definition INTERNAL :: error_code where "INTERNAL = 0x0400"
definition IO_ERROR :: error_code where "IO_ERROR = 0x0401"
definition PERSISTENCE_UNVERIFIED :: error_code where "PERSISTENCE_UNVERIFIED = 0x0402"
definition CSPRNG_FAILURE :: error_code where "CSPRNG_FAILURE = 0x0403"

lemmas error_code_defs =
  BOOK_MISMATCH_def EXHAUSTED_def CLIENT_AHEAD_def SERVER_AHEAD_def AUTH_FAILED_def
  TAG_INVALID_def SEGMENT_BINDING_def NONCE_MISMATCH_def SEQ_REPLAY_def PROTOCOL_VIOLATION_def
  BAD_VERSION_def BAD_LENGTH_def TRAILING_BYTES_def BAD_ENUM_def UNKNOWN_MSG_TYPE_def
  WRONG_DIRECTION_def ISSUE_POINTER_MISMATCH_def FRAME_TRUNCATED_def BAD_ORDER_def
  EPOCH_MISMATCH_def SEQ_UNEXPECTED_def INTERNAL_def IO_ERROR_def PERSISTENCE_UNVERIFIED_def
  CSPRNG_FAILURE_def

definition error_registry :: "(error_code \<times> string) list" where
  "error_registry =
    [(0x0100, ''BOOK_MISMATCH''), (0x0101, ''EXHAUSTED''), (0x0102, ''CLIENT_AHEAD''),
     (0x0103, ''SERVER_AHEAD''), (0x0200, ''AUTH_FAILED''), (0x0201, ''TAG_INVALID''),
     (0x0202, ''SEGMENT_BINDING''), (0x0203, ''NONCE_MISMATCH''), (0x0204, ''SEQ_REPLAY''),
     (0x0300, ''PROTOCOL_VIOLATION''), (0x0301, ''BAD_VERSION''), (0x0302, ''BAD_LENGTH''),
     (0x0303, ''TRAILING_BYTES''), (0x0304, ''BAD_ENUM''), (0x0305, ''UNKNOWN_MSG_TYPE''),
     (0x0306, ''WRONG_DIRECTION''), (0x0307, ''ISSUE_POINTER_MISMATCH''),
     (0x0308, ''FRAME_TRUNCATED''), (0x0309, ''BAD_ORDER''), (0x030A, ''EPOCH_MISMATCH''),
     (0x030B, ''SEQ_UNEXPECTED''), (0x0400, ''INTERNAL''), (0x0401, ''IO_ERROR''),
     (0x0402, ''PERSISTENCE_UNVERIFIED''), (0x0403, ''CSPRNG_FAILURE'')]"

text \<open>\<open>ErrorCode::name\<close>: the match of the source, as a lookup in the table of its arms.\<close>

definition error_name :: "error_code \<Rightarrow> string" where
  "error_name c = (case map_of error_registry c of Some n \<Rightarrow> n | None \<Rightarrow> ''UNKNOWN'')"

definition error_code_category :: "error_code \<Rightarrow> u8" where
  "error_code_category c = ucast (drop_bit 8 c)"

definition is_codec_reject :: "error_code \<Rightarrow> bool" where
  "is_codec_reject c \<longleftrightarrow> 0x0301 \<le> c \<and> c \<le> 0x0308"

section \<open>Messages\<close>

definition VERSION :: u16 where "VERSION = 0x0002"
definition FRAME_HEADER_LEN :: nat where "FRAME_HEADER_LEN = 8"
definition MAX_APP_PLAINTEXT :: nat where "MAX_APP_PLAINTEXT = 65536"
definition MAX_DATA_FIELD :: nat where "MAX_DATA_FIELD = 65552"
definition MIN_DATA_FIELD :: nat where "MIN_DATA_FIELD = 16"
definition MAX_FRAME_PAYLOAD :: nat where "MAX_FRAME_PAYLOAD = 65568"
definition MIN_FRAME_PAYLOAD :: nat where "MIN_FRAME_PAYLOAD = 32"
definition MAX_FRAME :: nat where "MAX_FRAME = 65576"
definition HELLO_PAYLOAD_LEN :: nat where "HELLO_PAYLOAD_LEN = 44"
definition ARBITRATE_PAYLOAD_LEN :: nat where "ARBITRATE_PAYLOAD_LEN = 25"
definition ISSUE_PAYLOAD_LEN :: nat where "ISSUE_PAYLOAD_LEN = 40"
definition CONFIRM_PAYLOAD_LEN :: nat where "CONFIRM_PAYLOAD_LEN = 139"
definition SEALED_LEN :: nat where "SEALED_LEN = 103"
definition CONFIRM_BODY_LEN :: nat where "CONFIRM_BODY_LEN = 87"
definition CONFIRM_LABEL_LEN :: nat where "CONFIRM_LABEL_LEN = 14"

lemmas codec_len_defs =
  FRAME_HEADER_LEN_def MAX_APP_PLAINTEXT_def MAX_DATA_FIELD_def MIN_DATA_FIELD_def
  MAX_FRAME_PAYLOAD_def MIN_FRAME_PAYLOAD_def MAX_FRAME_def HELLO_PAYLOAD_LEN_def
  ARBITRATE_PAYLOAD_LEN_def ISSUE_PAYLOAD_LEN_def CONFIRM_PAYLOAD_LEN_def SEALED_LEN_def
  CONFIRM_BODY_LEN_def CONFIRM_LABEL_LEN_def

definition has_reconnect :: "u32 \<Rightarrow> bool" where
  "has_reconnect flags \<longleftrightarrow> flags AND 0x00000001 \<noteq> 0"

datatype msg_type = MTHello | MTArbitrate | MTIssueRequest | MTConfirmC2s | MTConfirmS2c | MTData

fun msg_type_wire :: "msg_type \<Rightarrow> u16" where
  "msg_type_wire MTHello = 0x0001"
| "msg_type_wire MTArbitrate = 0x0002"
| "msg_type_wire MTIssueRequest = 0x0003"
| "msg_type_wire MTConfirmC2s = 0x0004"
| "msg_type_wire MTConfirmS2c = 0x0005"
| "msg_type_wire MTData = 0x0006"

definition msg_type_from_wire :: "u16 \<Rightarrow> msg_type option" where
  "msg_type_from_wire v =
    (if v = 0x0001 then Some MTHello
     else if v = 0x0002 then Some MTArbitrate
     else if v = 0x0003 then Some MTIssueRequest
     else if v = 0x0004 then Some MTConfirmC2s
     else if v = 0x0005 then Some MTConfirmS2c
     else if v = 0x0006 then Some MTData
     else None)"

fun msg_send_direction :: "msg_type \<Rightarrow> direction option" where
  "msg_send_direction MTHello = Some ClientToServer"
| "msg_send_direction MTIssueRequest = Some ClientToServer"
| "msg_send_direction MTConfirmC2s = Some ClientToServer"
| "msg_send_direction MTArbitrate = Some ServerToClient"
| "msg_send_direction MTConfirmS2c = Some ServerToClient"
| "msg_send_direction MTData = None"

fun payload_len_range :: "msg_type \<Rightarrow> nat \<times> nat" where
  "payload_len_range MTHello = (HELLO_PAYLOAD_LEN, HELLO_PAYLOAD_LEN)"
| "payload_len_range MTArbitrate = (ARBITRATE_PAYLOAD_LEN, ARBITRATE_PAYLOAD_LEN)"
| "payload_len_range MTIssueRequest = (ISSUE_PAYLOAD_LEN, ISSUE_PAYLOAD_LEN)"
| "payload_len_range MTConfirmC2s = (CONFIRM_PAYLOAD_LEN, CONFIRM_PAYLOAD_LEN)"
| "payload_len_range MTConfirmS2c = (CONFIRM_PAYLOAD_LEN, CONFIRM_PAYLOAD_LEN)"
| "payload_len_range MTData = (MIN_FRAME_PAYLOAD, MAX_FRAME_PAYLOAD)"

datatype arbitrate_result = ArbOk | ArbServerAhead | ArbExhausted | ArbBookMismatch | ArbClientAhead

fun arb_wire :: "arbitrate_result \<Rightarrow> u8" where
  "arb_wire ArbOk = 0x00"
| "arb_wire ArbServerAhead = 0x01"
| "arb_wire ArbExhausted = 0x02"
| "arb_wire ArbBookMismatch = 0x03"
| "arb_wire ArbClientAhead = 0x04"

definition arb_from_wire :: "u8 \<Rightarrow> arbitrate_result option" where
  "arb_from_wire v =
    (if v = 0x00 then Some ArbOk
     else if v = 0x01 then Some ArbServerAhead
     else if v = 0x02 then Some ArbExhausted
     else if v = 0x03 then Some ArbBookMismatch
     else if v = 0x04 then Some ArbClientAhead
     else None)"

datatype message =
    Hello book_id nonce16 segment_index u32
  | Arbitrate nonce16 segment_index arbitrate_result
  | IssueRequest segment_index nonce16 nonce16
  | ConfirmC2s segment_index nonce16 epoch seqno bytes
  | ConfirmS2c segment_index nonce16 epoch seqno bytes
  | Data epoch seqno bytes

fun msg_type_of :: "message \<Rightarrow> msg_type" where
  "msg_type_of (Hello _ _ _ _) = MTHello"
| "msg_type_of (Arbitrate _ _ _) = MTArbitrate"
| "msg_type_of (IssueRequest _ _ _) = MTIssueRequest"
| "msg_type_of (ConfirmC2s _ _ _ _ _) = MTConfirmC2s"
| "msg_type_of (ConfirmS2c _ _ _ _ _) = MTConfirmS2c"
| "msg_type_of (Data _ _ _) = MTData"

definition msg_direction :: "message \<Rightarrow> direction option" where
  "msg_direction m = msg_send_direction (msg_type_of m)"

text \<open>The lengths the Rust array types fix.\<close>

fun wf_message :: "message \<Rightarrow> bool" where
  "wf_message (Hello b c _ _) \<longleftrightarrow> length b = 16 \<and> length c = 16"
| "wf_message (Arbitrate s _ _) \<longleftrightarrow> length s = 16"
| "wf_message (IssueRequest _ c s) \<longleftrightarrow> length c = 16 \<and> length s = 16"
| "wf_message (ConfirmC2s _ z _ _ x) \<longleftrightarrow> length z = 16 \<and> length x = SEALED_LEN"
| "wf_message (ConfirmS2c _ z _ _ x) \<longleftrightarrow> length z = 16 \<and> length x = SEALED_LEN"
| "wf_message (Data _ _ _) \<longleftrightarrow> True"

record confirm_body =
  cb_book_id :: book_id
  cb_segment_index :: segment_index
  cb_client_nonce :: nonce16
  cb_server_nonce :: nonce16
  cb_direction :: direction
  cb_epoch :: epoch
  cb_seq :: seqno
  cb_msg_type :: u16
  cb_label :: bytes

definition wf_confirm_body :: "confirm_body \<Rightarrow> bool" where
  "wf_confirm_body b \<longleftrightarrow> length (cb_book_id b) = 16 \<and> length (cb_client_nonce b) = 16 \<and>
    length (cb_server_nonce b) = 16 \<and> length (cb_label b) = CONFIRM_LABEL_LEN"

fun body_direction_wire :: "direction \<Rightarrow> u8" where
  "body_direction_wire ClientToServer = 0x01"
| "body_direction_wire ServerToClient = 0x02"

definition body_direction_from_wire :: "u8 \<Rightarrow> direction option" where
  "body_direction_from_wire v =
    (if v = 0x01 then Some ClientToServer
     else if v = 0x02 then Some ServerToClient
     else None)"

definition plen_ok :: "msg_type \<Rightarrow> u32 \<Rightarrow> bool" where
  "plen_ok t plen =
    (case payload_len_range t of (mn, mx) \<Rightarrow> mn \<le> unat plen \<and> unat plen \<le> mx)"

section \<open>Encoding\<close>

definition payload_len_of :: "message \<Rightarrow> nat" where
  "payload_len_of m = (case m of
     Data _ _ d \<Rightarrow> 16 + length d
   | _ \<Rightarrow> fst (payload_len_range (msg_type_of m)))"

definition encode_check :: "message \<Rightarrow> error_code + unit" where
  "encode_check m = (case m of
     Arbitrate _ sp r \<Rightarrow>
       if r = ArbBookMismatch \<and> sp \<noteq> 0 then Inl BAD_ENUM else Inr ()
   | Data _ _ d \<Rightarrow>
       if \<not> (MIN_DATA_FIELD \<le> length d \<and> length d \<le> MAX_DATA_FIELD) then Inl BAD_LENGTH
       else Inr ()
   | _ \<Rightarrow> Inr ())"

fun encode_payload :: "message \<Rightarrow> bytes" where
  "encode_payload (Hello b c p f) = b @ c @ to_be64 p @ to_be32 f"
| "encode_payload (Arbitrate s p r) = s @ to_be64 p @ [arb_wire r]"
| "encode_payload (IssueRequest p c s) = to_be64 p @ c @ s"
| "encode_payload (ConfirmC2s i z e q x) = to_be64 i @ z @ to_be32 e @ to_be64 q @ x"
| "encode_payload (ConfirmS2c i z e q x) = to_be64 i @ z @ to_be32 e @ to_be64 q @ x"
| "encode_payload (Data e q d) = to_be32 e @ to_be64 q @ to_be32 (word_of_nat (length d)) @ d"

text \<open>
  \<open>encode_into\<close> appends to a buffer and returns the buffer beside the result: an error
  leaves it as it was.
\<close>

definition encode_into :: "message \<Rightarrow> bytes \<Rightarrow> (error_code + unit) \<times> bytes" where
  "encode_into m out = (case encode_check m of
     Inl e \<Rightarrow> (Inl e, out)
   | Inr _ \<Rightarrow>
       (Inr (), out @ to_be16 VERSION @ to_be16 (msg_type_wire (msg_type_of m))
          @ to_be32 (word_of_nat (payload_len_of m)) @ encode_payload m))"

definition encode :: "message \<Rightarrow> error_code + bytes" where
  "encode m = (case encode_into m [] of (r, out) \<Rightarrow> map_ok (\<lambda>_. out) r)"

definition encode_confirm_body :: "confirm_body \<Rightarrow> error_code + bytes" where
  "encode_confirm_body b = Inr
    (to_be16 VERSION @ cb_book_id b @ to_be64 (cb_segment_index b) @ cb_client_nonce b
     @ cb_server_nonce b @ [body_direction_wire (cb_direction b)] @ to_be32 (cb_epoch b)
     @ to_be64 (cb_seq b) @ to_be16 (cb_msg_type b) @ cb_label b)"

section \<open>Decoding\<close>

record cursor =
  cur_buf :: bytes
  cur_pos :: nat

definition cur_new :: "bytes \<Rightarrow> cursor" where
  "cur_new b = \<lparr>cur_buf = b, cur_pos = 0\<rparr>"

definition cur_take :: "nat \<Rightarrow> cursor \<Rightarrow> error_code + bytes \<times> cursor" where
  "cur_take n c = (case usize_checked_add (cur_pos c) n of
     None \<Rightarrow> Inl BAD_LENGTH
   | Some e \<Rightarrow>
       if e \<le> length (cur_buf c)
       then Inr (slice_of (cur_pos c) e (cur_buf c), c\<lparr>cur_pos := e\<rparr>)
       else Inl BAD_LENGTH)"

definition cur_done :: "cursor \<Rightarrow> error_code + unit" where
  "cur_done c = (if cur_pos c = length (cur_buf c) then Inr () else Inl TRAILING_BYTES)"

definition cur_u8 :: "cursor \<Rightarrow> error_code + u8 \<times> cursor" where
  "cur_u8 c = map_ok (\<lambda>(s, c'). (s ! 0, c')) (cur_take 1 c)"

definition cur_u16 :: "cursor \<Rightarrow> error_code + u16 \<times> cursor" where
  "cur_u16 c = map_ok (\<lambda>(s, c'). (from_be16 s, c')) (cur_take 2 c)"

definition cur_u32 :: "cursor \<Rightarrow> error_code + u32 \<times> cursor" where
  "cur_u32 c = map_ok (\<lambda>(s, c'). (from_be32 s, c')) (cur_take 4 c)"

definition cur_u64 :: "cursor \<Rightarrow> error_code + u64 \<times> cursor" where
  "cur_u64 c = map_ok (\<lambda>(s, c'). (from_be64 s, c')) (cur_take 8 c)"

definition cur_fixed16 :: "cursor \<Rightarrow> error_code + bytes \<times> cursor" where
  "cur_fixed16 c = cur_take 16 c"

definition decode_hello :: "bytes \<Rightarrow> error_code + message" where
  "decode_hello p =
    rbind (cur_fixed16 (cur_new p)) (\<lambda>(bid, c).
    rbind (cur_fixed16 c) (\<lambda>(cn, c).
    rbind (cur_u64 c) (\<lambda>(cp, c).
    rbind (cur_u32 c) (\<lambda>(fl, c).
    rbind (cur_done c) (\<lambda>_.
    Inr (Hello bid cn cp fl))))))"

definition decode_arbitrate :: "bytes \<Rightarrow> error_code + message" where
  "decode_arbitrate p =
    rbind (cur_fixed16 (cur_new p)) (\<lambda>(sn, c).
    rbind (cur_u64 c) (\<lambda>(sp, c).
    rbind (cur_u8 c) (\<lambda>(rb, c).
    rbind (ok_or BAD_ENUM (arb_from_wire rb)) (\<lambda>r.
    rbind (cur_done c) (\<lambda>_.
    if r = ArbBookMismatch \<and> sp \<noteq> 0 then Inl BAD_ENUM
    else Inr (Arbitrate sn sp r))))))"

definition decode_issue :: "bytes \<Rightarrow> error_code + message" where
  "decode_issue p =
    rbind (cur_u64 (cur_new p)) (\<lambda>(cp, c).
    rbind (cur_fixed16 c) (\<lambda>(cn, c).
    rbind (cur_fixed16 c) (\<lambda>(sn, c).
    rbind (cur_done c) (\<lambda>_.
    Inr (IssueRequest cp cn sn)))))"

definition decode_confirm ::
  "bytes \<Rightarrow> error_code + segment_index \<times> nonce16 \<times> epoch \<times> seqno \<times> bytes" where
  "decode_confirm p =
    rbind (cur_u64 (cur_new p)) (\<lambda>(i, c).
    rbind (cur_fixed16 c) (\<lambda>(z, c).
    rbind (cur_u32 c) (\<lambda>(e, c).
    rbind (cur_u64 c) (\<lambda>(q, c).
    rbind (cur_take SEALED_LEN c) (\<lambda>(x, c).
    rbind (cur_done c) (\<lambda>_.
    Inr (i, z, e, q, x)))))))"

definition decode_data :: "bytes \<Rightarrow> error_code + message" where
  "decode_data p =
    rbind (cur_u32 (cur_new p)) (\<lambda>(e, c).
    rbind (cur_u64 c) (\<lambda>(q, c).
    rbind (cur_u32 c) (\<lambda>(lw, c).
    if \<not> (MIN_DATA_FIELD \<le> unat lw \<and> unat lw \<le> MAX_DATA_FIELD) then Inl BAD_LENGTH
    else
    rbind (cur_take (unat lw) c) (\<lambda>(d, c).
    rbind (cur_done c) (\<lambda>_.
    Inr (Data e q d))))))"

definition decode_payload :: "msg_type \<Rightarrow> bytes \<Rightarrow> error_code + message" where
  "decode_payload t p = (case t of
     MTHello \<Rightarrow> decode_hello p
   | MTArbitrate \<Rightarrow> decode_arbitrate p
   | MTIssueRequest \<Rightarrow> decode_issue p
   | MTConfirmC2s \<Rightarrow> map_ok (\<lambda>(i, z, e, q, x). ConfirmC2s i z e q x) (decode_confirm p)
   | MTConfirmS2c \<Rightarrow> map_ok (\<lambda>(i, z, e, q, x). ConfirmS2c i z e q x) (decode_confirm p)
   | MTData \<Rightarrow> decode_data p)"

definition direction_rejects :: "role \<Rightarrow> msg_type \<Rightarrow> bool" where
  "direction_rejects r t = (case msg_send_direction t of
     Some ClientToServer \<Rightarrow> r \<noteq> Server
   | Some ServerToClient \<Rightarrow> r \<noteq> Client
   | None \<Rightarrow> False)"

definition decode :: "role \<Rightarrow> bytes \<Rightarrow> error_code + message" where
  "decode r buf =
    (if length buf < FRAME_HEADER_LEN then Inl FRAME_TRUNCATED
     else if from_be16 [buf ! 0, buf ! 1] \<noteq> VERSION then Inl BAD_VERSION
     else case msg_type_from_wire (from_be16 [buf ! 2, buf ! 3]) of
       None \<Rightarrow> Inl UNKNOWN_MSG_TYPE
     | Some t \<Rightarrow>
         let plen = from_be32 [buf ! 4, buf ! 5, buf ! 6, buf ! 7] in
         if \<not> plen_ok t plen then Inl BAD_LENGTH
         else case usize_checked_add FRAME_HEADER_LEN (unat plen) of
           None \<Rightarrow> Inl BAD_LENGTH
         | Some e \<Rightarrow>
             if length buf < e then Inl FRAME_TRUNCATED
             else if e < length buf then Inl TRAILING_BYTES
             else if direction_rejects r t then Inl WRONG_DIRECTION
             else decode_payload t (slice_of FRAME_HEADER_LEN e buf))"

definition decode_confirm_body :: "bytes \<Rightarrow> error_code + confirm_body" where
  "decode_confirm_body buf =
    (if length buf \<noteq> CONFIRM_BODY_LEN then Inl BAD_LENGTH
     else
     rbind (cur_u16 (cur_new buf)) (\<lambda>(v, c).
     if v \<noteq> VERSION then Inl BAD_VERSION
     else
     rbind (cur_fixed16 c) (\<lambda>(bid, c).
     rbind (cur_u64 c) (\<lambda>(i, c).
     rbind (cur_fixed16 c) (\<lambda>(cn, c).
     rbind (cur_fixed16 c) (\<lambda>(sn, c).
     rbind (cur_u8 c) (\<lambda>(db, c).
     rbind (ok_or BAD_ENUM (body_direction_from_wire db)) (\<lambda>d.
     rbind (cur_u32 c) (\<lambda>(e, c).
     rbind (cur_u64 c) (\<lambda>(q, c).
     rbind (cur_u16 c) (\<lambda>(mt, c).
     rbind (cur_take CONFIRM_LABEL_LEN c) (\<lambda>(l, c).
     rbind (cur_done c) (\<lambda>_.
     Inr \<lparr>cb_book_id = bid, cb_segment_index = i, cb_client_nonce = cn, cb_server_nonce = sn,
          cb_direction = d, cb_epoch = e, cb_seq = q, cb_msg_type = mt, cb_label = l\<rparr>)))))))))))))"

section \<open>The cursor\<close>

text \<open>
  \<open>cur_at pre rest\<close> is the cursor that has read \<open>pre\<close> and has \<open>rest\<close> before it. Every
  cursor the decoder reaches has this form; reading is then splitting \<open>rest\<close>.
\<close>

definition cur_at :: "bytes \<Rightarrow> bytes \<Rightarrow> cursor" where
  "cur_at pre rest = \<lparr>cur_buf = pre @ rest, cur_pos = length pre\<rparr>"

lemma cur_new_at: "cur_new b = cur_at [] b"
  by (simp add: cur_new_def cur_at_def)

lemma cur_take_at:
  "cur_take n (cur_at pre rest) =
    (if length pre + n < 2 ^ 64 \<and> n \<le> length rest
     then Inr (take n rest, cur_at (pre @ take n rest) (drop n rest)) else Inl BAD_LENGTH)"
  by (auto simp: cur_take_def cur_at_def usize_checked_add_def slice_of_def)

lemma cur_take_Inr:
  assumes "cur_take n (cur_at pre rest) = Inr (s, c)"
  obtains rest' where "rest = s @ rest'" "length s = n" "c = cur_at (pre @ s) rest'"
  using assms that [of "drop n rest"] by (auto simp: cur_take_at split: if_splits)

lemma cur_done_Inr: "cur_done (cur_at pre rest) = Inr () \<longleftrightarrow> rest = []"
  by (simp add: cur_done_def cur_at_def)

lemma cur_fixed16_Inr:
  assumes "cur_fixed16 (cur_at pre rest) = Inr (s, c)"
  obtains rest' where "rest = s @ rest'" "length s = 16" "c = cur_at (pre @ s) rest'"
  using assms unfolding cur_fixed16_def by (rule cur_take_Inr)

lemma cur_u8_Inr:
  assumes "cur_u8 (cur_at pre rest) = Inr (v, c)"
  obtains rest' where "rest = [v] @ rest'" "c = cur_at (pre @ [v]) rest'"
proof -
  from assms obtain s where "cur_take 1 (cur_at pre rest) = Inr (s, c)" "v = s ! 0"
    by (cases "cur_take 1 (cur_at pre rest)") (auto simp: cur_u8_def)
  then show thesis using that by (auto elim!: cur_take_Inr simp: length_Suc_conv)
qed

lemma cur_u16_Inr:
  assumes "cur_u16 (cur_at pre rest) = Inr (v, c)"
  obtains rest' where "rest = to_be16 v @ rest'" "c = cur_at (pre @ to_be16 v) rest'"
proof -
  from assms obtain s where "cur_take 2 (cur_at pre rest) = Inr (s, c)" "v = from_be16 s"
    by (cases "cur_take 2 (cur_at pre rest)") (auto simp: cur_u16_def)
  then show thesis using that by (auto elim!: cur_take_Inr)
qed

lemma cur_u32_Inr:
  assumes "cur_u32 (cur_at pre rest) = Inr (v, c)"
  obtains rest' where "rest = to_be32 v @ rest'" "c = cur_at (pre @ to_be32 v) rest'"
proof -
  from assms obtain s where "cur_take 4 (cur_at pre rest) = Inr (s, c)" "v = from_be32 s"
    by (cases "cur_take 4 (cur_at pre rest)") (auto simp: cur_u32_def)
  then show thesis using that by (auto elim!: cur_take_Inr)
qed

lemma cur_u64_Inr:
  assumes "cur_u64 (cur_at pre rest) = Inr (v, c)"
  obtains rest' where "rest = to_be64 v @ rest'" "c = cur_at (pre @ to_be64 v) rest'"
proof -
  from assms obtain s where "cur_take 8 (cur_at pre rest) = Inr (s, c)" "v = from_be64 s"
    by (cases "cur_take 8 (cur_at pre rest)") (auto simp: cur_u64_def)
  then show thesis using that by (auto elim!: cur_take_Inr)
qed

lemmas cur_elims = cur_take_Inr cur_fixed16_Inr cur_u8_Inr cur_u16_Inr cur_u32_Inr cur_u64_Inr

text \<open>Reading what was written; \<open>cur_fwd\<close> runs a decoder over an encoded payload.\<close>

named_theorems cur_fwd \<open>reading a field off the front of the rest\<close>

lemma cur_take_fwd [cur_fwd]:
  "length s = n \<Longrightarrow> length pre + n < 2 ^ 64 \<Longrightarrow>
    cur_take n (cur_at pre (s @ rest)) = Inr (s, cur_at (pre @ s) rest)"
  by (simp add: cur_take_at)

lemma cur_take_fwd_last [cur_fwd]:
  "length s = n \<Longrightarrow> length pre + n < 2 ^ 64 \<Longrightarrow>
    cur_take n (cur_at pre s) = Inr (s, cur_at (pre @ s) [])"
  by (simp add: cur_take_at)

lemma cur_fixed16_fwd [cur_fwd]:
  "length s = 16 \<Longrightarrow> length pre + 16 < 2 ^ 64 \<Longrightarrow>
    cur_fixed16 (cur_at pre (s @ rest)) = Inr (s, cur_at (pre @ s) rest)"
  "length s = 16 \<Longrightarrow> length pre + 16 < 2 ^ 64 \<Longrightarrow>
    cur_fixed16 (cur_at pre s) = Inr (s, cur_at (pre @ s) [])"
  by (simp_all add: cur_fixed16_def cur_fwd)

lemma cur_u8_fwd [cur_fwd]:
  "length pre + 1 < 2 ^ 64 \<Longrightarrow>
    cur_u8 (cur_at pre (b # rest)) = Inr (b, cur_at (pre @ [b]) rest)"
  by (simp add: cur_u8_def cur_take_at)

lemma cur_u16_fwd [cur_fwd]:
  "length pre + 2 < 2 ^ 64 \<Longrightarrow>
    cur_u16 (cur_at pre (to_be16 v @ rest)) = Inr (v, cur_at (pre @ to_be16 v) rest)"
  by (simp add: cur_u16_def cur_fwd)

lemma cur_u32_fwd [cur_fwd]:
  "length pre + 4 < 2 ^ 64 \<Longrightarrow>
    cur_u32 (cur_at pre (to_be32 v @ rest)) = Inr (v, cur_at (pre @ to_be32 v) rest)"
  "length pre + 4 < 2 ^ 64 \<Longrightarrow>
    cur_u32 (cur_at pre (to_be32 v)) = Inr (v, cur_at (pre @ to_be32 v) [])"
  by (simp_all add: cur_u32_def cur_fwd)

lemma cur_u64_fwd [cur_fwd]:
  "length pre + 8 < 2 ^ 64 \<Longrightarrow>
    cur_u64 (cur_at pre (to_be64 v @ rest)) = Inr (v, cur_at (pre @ to_be64 v) rest)"
  by (simp add: cur_u64_def cur_fwd)

lemma cur_done_fwd [cur_fwd]: "cur_done (cur_at pre []) = Inr ()"
  by (simp add: cur_done_Inr)

section \<open>Payload round trips\<close>

lemma msg_type_from_to_wire [simp]: "msg_type_from_wire (msg_type_wire t) = Some t"
  by (cases t) (simp_all add: msg_type_from_wire_def)

lemma msg_type_to_from_wire: "msg_type_from_wire v = Some t \<Longrightarrow> msg_type_wire t = v"
  by (auto simp: msg_type_from_wire_def split: if_splits)

lemma arb_from_to_wire [simp]: "arb_from_wire (arb_wire r) = Some r"
  by (cases r) (simp_all add: arb_from_wire_def)

lemma arb_to_from_wire: "arb_from_wire v = Some r \<Longrightarrow> arb_wire r = v"
  by (auto simp: arb_from_wire_def split: if_splits)

lemma body_direction_from_to_wire [simp]:
  "body_direction_from_wire (body_direction_wire d) = Some d"
  by (cases d) (simp_all add: body_direction_from_wire_def)

lemma body_direction_to_from_wire:
  "body_direction_from_wire v = Some d \<Longrightarrow> body_direction_wire d = v"
  by (auto simp: body_direction_from_wire_def split: if_splits)

lemma decode_hello_Inr:
  "decode_hello p = Inr m \<Longrightarrow>
    encode_payload m = p \<and> wf_message m \<and> msg_type_of m = MTHello \<and> encode_check m = Inr ()"
  by (auto simp: decode_hello_def cur_new_at rbind_Inr_iff cur_done_Inr encode_check_def
      elim!: cur_elims)

lemma decode_arbitrate_Inr:
  "decode_arbitrate p = Inr m \<Longrightarrow>
    encode_payload m = p \<and> wf_message m \<and> msg_type_of m = MTArbitrate \<and> encode_check m = Inr ()"
  by (auto simp: decode_arbitrate_def cur_new_at rbind_Inr_iff cur_done_Inr encode_check_def
      arb_to_from_wire elim!: cur_elims split: if_splits)

lemma decode_issue_Inr:
  "decode_issue p = Inr m \<Longrightarrow>
    encode_payload m = p \<and> wf_message m \<and> msg_type_of m = MTIssueRequest \<and>
    encode_check m = Inr ()"
  by (auto simp: decode_issue_def cur_new_at rbind_Inr_iff cur_done_Inr encode_check_def
      elim!: cur_elims)

lemma decode_confirm_Inr:
  "decode_confirm p = Inr (i, z, e, q, x) \<Longrightarrow>
    to_be64 i @ z @ to_be32 e @ to_be64 q @ x = p \<and> length z = 16 \<and> length x = SEALED_LEN"
  by (auto simp: decode_confirm_def cur_new_at rbind_Inr_iff cur_done_Inr elim!: cur_elims)

lemma decode_data_Inr:
  "decode_data p = Inr m \<Longrightarrow>
    encode_payload m = p \<and> wf_message m \<and> msg_type_of m = MTData \<and> encode_check m = Inr ()"
  by (auto simp: decode_data_def cur_new_at rbind_Inr_iff cur_done_Inr encode_check_def
      elim!: cur_elims split: if_splits)

lemma decode_payload_Inr:
  "decode_payload t p = Inr m \<Longrightarrow>
    encode_payload m = p \<and> wf_message m \<and> msg_type_of m = t \<and> encode_check m = Inr ()"
  by (cases t)
     (auto simp: decode_payload_def map_ok_Inr_iff encode_check_def
       dest!: decode_hello_Inr decode_arbitrate_Inr decode_issue_Inr decode_data_Inr
       decode_confirm_Inr)

lemma decode_payload_encode:
  assumes "wf_message m" and "encode_check m = Inr ()"
  shows "decode_payload (msg_type_of m) (encode_payload m) = Inr m"
proof (cases m)
  case (Data e q d)
  then have len: "16 \<le> length d" "length d \<le> 65552"
    using assms(2) by (auto simp: encode_check_def codec_len_defs split: if_splits)
  then have "unat (word_of_nat (length d) :: u32) = length d"
    by (simp add: unat_of_nat)
  with len Data show ?thesis
    by (simp add: decode_payload_def decode_data_def cur_new_at cur_fwd codec_len_defs)
qed (use assms in \<open>simp_all add: decode_payload_def decode_hello_def decode_arbitrate_def
    decode_issue_def decode_confirm_def cur_new_at cur_fwd codec_len_defs encode_check_def
    split: if_splits\<close>)

section \<open>Frames\<close>

definition frame_of :: "message \<Rightarrow> bytes" where
  "frame_of m = to_be16 VERSION @ to_be16 (msg_type_wire (msg_type_of m))
    @ to_be32 (word_of_nat (payload_len_of m)) @ encode_payload m"

lemma encode_Inr_iff: "encode m = Inr bs \<longleftrightarrow> encode_check m = Inr () \<and> bs = frame_of m"
  by (cases "encode_check m") (auto simp: encode_def encode_into_def frame_of_def)

lemma length_encode_payload:
  "wf_message m \<Longrightarrow> length (encode_payload m) = payload_len_of m"
  by (cases m) (simp_all add: payload_len_of_def codec_len_defs)

lemma encode_check_Data:
  "encode_check (Data e q d) = Inr () \<longleftrightarrow> 16 \<le> length d \<and> length d \<le> 65552"
  by (auto simp: encode_check_def codec_len_defs split: if_splits)

lemma payload_len_range_ok:
  assumes "encode_check m = Inr ()"
  shows "payload_len_of m \<le> 65568"
    and "fst (payload_len_range (msg_type_of m)) \<le> payload_len_of m"
    and "payload_len_of m \<le> snd (payload_len_range (msg_type_of m))"
  using assms by (cases m; auto simp: payload_len_of_def codec_len_defs encode_check_Data)+

lemma plen_ok_encode:
  assumes "encode_check m = Inr ()"
  shows "plen_ok (msg_type_of m) (word_of_nat (payload_len_of m))"
    and "unat (word_of_nat (payload_len_of m) :: u32) = payload_len_of m"
  using payload_len_range_ok [OF assms]
  by (auto simp: plen_ok_def unat_of_nat split: prod.split)

lemma length_frame_of:
  "wf_message m \<Longrightarrow> length (frame_of m) = FRAME_HEADER_LEN + payload_len_of m"
  by (simp add: frame_of_def length_encode_payload FRAME_HEADER_LEN_def)

text \<open>The header fields as the decoder picks them out of the buffer.\<close>

lemma nth_pairs:
  "length xs = 2 \<Longrightarrow> xs = [xs ! 0, xs ! 1]"
  "length ys = 4 \<Longrightarrow> ys = [ys ! 0, ys ! 1, ys ! 2, ys ! 3]"
  by (auto simp: length_Suc_conv numeral_2_eq_2 numeral_eq_Suc)

lemma header_fields:
  assumes "length v = 2" "length t = 2" "length l = 4" and buf_def: "buf = v @ t @ l @ p"
  shows "[buf ! 0, buf ! 1] = v" "[buf ! 2, buf ! 3] = t"
    "[buf ! 4, buf ! 5, buf ! 6, buf ! 7] = l" "slice_of 8 (length buf) buf = p"
proof -
  obtain v0 v1 t0 t1 l0 l1 l2 l3 where
    "v = [v0, v1]" "t = [t0, t1]" "l = [l0, l1, l2, l3]"
    using nth_pairs(1) [OF assms(1)] nth_pairs(1) [OF assms(2)] nth_pairs(2) [OF assms(3)]
    by blast
  then show "[buf ! 0, buf ! 1] = v" "[buf ! 2, buf ! 3] = t"
    "[buf ! 4, buf ! 5, buf ! 6, buf ! 7] = l" "slice_of 8 (length buf) buf = p"
    by (simp_all add: buf_def slice_of_def)
qed

lemma split_header:
  assumes "8 \<le> length buf"
  shows "buf = [buf ! 0, buf ! 1] @ [buf ! 2, buf ! 3]
    @ [buf ! 4, buf ! 5, buf ! 6, buf ! 7] @ slice_of 8 (length buf) buf"
proof -
  obtain b0 b1 b2 b3 b4 b5 b6 b7 p where "buf = b0 # b1 # b2 # b3 # b4 # b5 # b6 # b7 # p"
    using assms by (auto simp: numeral_eq_Suc Suc_le_length_iff)
  then show ?thesis by (simp add: slice_of_def)
qed

text \<open>The decoder of a buffer given by its fields: steps 1 to 8 without the indexing.\<close>

lemma decode_fields:
  "decode r (to_be16 v @ to_be16 t @ to_be32 l @ p) =
    (if v \<noteq> VERSION then Inl BAD_VERSION
     else case msg_type_from_wire t of None \<Rightarrow> Inl UNKNOWN_MSG_TYPE
     | Some mt \<Rightarrow>
       if \<not> plen_ok mt l then Inl BAD_LENGTH
       else if length p < unat l then Inl FRAME_TRUNCATED
       else if unat l < length p then Inl TRAILING_BYTES
       else if direction_rejects r mt then Inl WRONG_DIRECTION
       else decode_payload mt p)"
proof -
  note h = header_fields [where v = "to_be16 v" and t = "to_be16 t" and l = "to_be32 l" and p = p,
      simplified]
  have "8 + unat l < 18446744073709551616" using unat_u32_lt [of l] by linarith
  then have "usize_checked_add FRAME_HEADER_LEN (unat l) = Some (8 + unat l)"
    by (simp add: usize_checked_add_def FRAME_HEADER_LEN_def)
  then show ?thesis
    using h by (auto simp: decode_def FRAME_HEADER_LEN_def Let_def split: option.split)
qed

lemma decode_frame_of:
  assumes "wf_message m" and "encode_check m = Inr ()"
  shows "decode r (frame_of m) =
    (if direction_rejects r (msg_type_of m) then Inl WRONG_DIRECTION else Inr m)"
  unfolding frame_of_def decode_fields
  by (simp add: plen_ok_encode [OF assms(2)] length_encode_payload [OF assms(1)]
      decode_payload_encode [OF assms])

lemma decode_short: "length buf < 8 \<Longrightarrow> decode r buf = Inl FRAME_TRUNCATED"
  by (simp add: decode_def FRAME_HEADER_LEN_def)

lemma decode_Inr_frame_of:
  assumes "decode r buf = Inr m"
  shows "buf = frame_of m \<and> wf_message m \<and> encode_check m = Inr () \<and>
    \<not> direction_rejects r (msg_type_of m)"
proof -
  have 8: "8 \<le> length buf"
    using assms decode_short [of buf r] by (cases "length buf < 8") auto
  define v t l p where "v = from_be16 [buf ! 0, buf ! 1]" and "t = from_be16 [buf ! 2, buf ! 3]"
    and "l = from_be32 [buf ! 4, buf ! 5, buf ! 6, buf ! 7]" and "p = slice_of 8 (length buf) buf"
  have buf: "buf = to_be16 v @ to_be16 t @ to_be32 l @ p"
    using split_header [OF 8] by (simp add: v_def t_def l_def p_def)
  from assms have "decode r (to_be16 v @ to_be16 t @ to_be32 l @ p) = Inr m"
    using buf by simp
  then obtain mt where mt: "v = VERSION" "msg_type_from_wire t = Some mt" "plen_ok mt l"
    "length p = unat l" "\<not> direction_rejects r mt" and m: "decode_payload mt p = Inr m"
    unfolding decode_fields by (auto split: if_splits option.splits)
  from decode_payload_Inr [OF m] have m': "encode_payload m = p" "wf_message m"
    "msg_type_of m = mt" "encode_check m = Inr ()" by simp_all
  have "l = word_of_nat (payload_len_of m)"
    using length_encode_payload [OF m'(2)] m'(1) mt(4) by (metis of_nat_unat ucast_id)
  moreover have "t = msg_type_wire (msg_type_of m)"
    using msg_type_to_from_wire [OF mt(2)] m'(3) by simp
  ultimately have "buf = frame_of m"
    using buf mt(1) m'(1) by (simp add: frame_of_def)
  with mt(5) m' show ?thesis by simp
qed

section \<open>Rejections\<close>

lemma cur_take_Inl [dest]: "cur_take n c = Inl e \<Longrightarrow> e = BAD_LENGTH"
  by (auto simp: cur_take_def split: option.splits if_splits)

lemma cur_read_Inl [dest]:
  "cur_fixed16 c = Inl e \<Longrightarrow> e = BAD_LENGTH" "cur_u8 c = Inl e \<Longrightarrow> e = BAD_LENGTH"
  "cur_u16 c = Inl e \<Longrightarrow> e = BAD_LENGTH" "cur_u32 c = Inl e \<Longrightarrow> e = BAD_LENGTH"
  "cur_u64 c = Inl e \<Longrightarrow> e = BAD_LENGTH"
  by (auto simp: cur_fixed16_def cur_u8_def cur_u16_def cur_u32_def cur_u64_def)

lemma cur_done_Inl [dest]: "cur_done c = Inl e \<Longrightarrow> e = TRAILING_BYTES"
  by (auto simp: cur_done_def split: if_splits)

lemma decode_payload_Inl:
  "decode_payload t p = Inl e \<Longrightarrow> e \<in> {BAD_LENGTH, TRAILING_BYTES, BAD_ENUM}"
  by (cases t)
     (auto simp: decode_payload_def decode_hello_def decode_arbitrate_def decode_issue_def
       decode_confirm_def decode_data_def rbind_Inl_iff ok_or_Inl_iff split: if_splits)

section \<open>Properties of the codec\<close>

text \<open>
  C11. The decoder accepts exactly the canonical frames: a buffer decodes to a message if and
  only if it is that message's encoding, the message has the lengths its type fixes, and its
  direction fits the receiver. So \<open>decode (encode m) = m\<close>, \<open>encode (decode bs) = bs\<close>, and no
  message has two encodings.
\<close>

theorem codec_accepts_exactly:
  "decode r bs = Inr m \<longleftrightarrow>
    encode m = Inr bs \<and> wf_message m \<and> \<not> direction_rejects r (msg_type_of m)"
  using decode_Inr_frame_of [of r bs m] decode_frame_of [of m r]
  by (auto simp: encode_Inr_iff)

lemma accepted_fields:
  assumes "decode r bs = Inr m"
  obtains v t l p mt where "bs = to_be16 v @ to_be16 t @ to_be32 l @ p" "v = VERSION"
    "msg_type_from_wire t = Some mt" "plen_ok mt l" "length p = unat l"
proof -
  from decode_Inr_frame_of [OF assms] have m: "bs = frame_of m" "wf_message m"
    "encode_check m = Inr ()" by simp_all
  show thesis
    by (rule that [of VERSION "msg_type_wire (msg_type_of m)" "word_of_nat (payload_len_of m)"
          "encode_payload m" "msg_type_of m"])
       (simp_all add: m frame_of_def plen_ok_encode length_encode_payload)
qed

text \<open>
  The accepted frames are prefix free, and the two framing errors tell which side of the
  boundary was missed: every proper prefix of an accepted frame is answered
  \<open>FRAME_TRUNCATED\<close> and every proper extension \<open>TRAILING_BYTES\<close>, whoever receives it.
\<close>

theorem decode_frame_boundaries:
  assumes "decode r bs = Inr m" and "k < length bs" and "xs \<noteq> []"
  shows "decode r' (take k bs) = Inl FRAME_TRUNCATED \<and> decode r' (bs @ xs) = Inl TRAILING_BYTES"
proof -
  obtain v t l p mt where bs: "bs = to_be16 v @ to_be16 t @ to_be32 l @ p" "v = VERSION"
    "msg_type_from_wire t = Some mt" "plen_ok mt l" "length p = unat l"
    using assms(1) by (rule accepted_fields)
  have "decode r' (take k bs) = Inl FRAME_TRUNCATED"
  proof (cases "k < 8")
    case True
    then show ?thesis by (simp add: decode_short)
  next
    case False
    then have "take k bs = to_be16 v @ to_be16 t @ to_be32 l @ take (k - 8) p"
      and "k - 8 < unat l"
      using assms(2) by (auto simp: bs(1,5))
    moreover from this(2) have
      "decode r' (to_be16 v @ to_be16 t @ to_be32 l @ take (k - 8) p) = Inl FRAME_TRUNCATED"
      unfolding decode_fields using bs by simp
    ultimately show ?thesis by (simp only:)
  qed
  moreover have "decode r' (bs @ xs) = Inl TRAILING_BYTES"
    using bs assms(3) decode_fields [of r' v t l "p @ xs"] by simp
  ultimately show ?thesis ..
qed

theorem decode_frame_boundaries_witness:
  "decode Server (take 3 (frame_of (Hello (replicate 16 0) (replicate 16 1) 5 0)))
     = Inl FRAME_TRUNCATED \<and>
   decode Server (frame_of (Hello (replicate 16 0) (replicate 16 1) 5 0) @ [7])
     = Inl TRAILING_BYTES"
proof -
  let ?m = "Hello (replicate 16 0) (replicate 16 1) 5 0"
  have "wf_message ?m" "encode_check ?m = Inr ()" by (simp_all add: encode_check_def)
  then have "decode Server (frame_of ?m) = Inr ?m" "3 < length (frame_of ?m)"
    by (simp_all add: decode_frame_of direction_rejects_def length_frame_of FRAME_HEADER_LEN_def)
  then show ?thesis by (intro decode_frame_boundaries) auto
qed

text \<open>
  Every rejection of the decoder is one of the eight codec codes 0x0301 to 0x0308, and no
  accepted frame is longer than \<open>MAX_FRAME\<close>.
\<close>

theorem decode_rejects_with_codec_code:
  "(\<exists>e. decode r bs = Inl e \<and> is_codec_reject e) \<or>
   (\<exists>m. decode r bs = Inr m \<and> length bs \<le> MAX_FRAME)"
proof (cases "decode r bs")
  case (Inl e)
  then have "e \<in> {FRAME_TRUNCATED, BAD_VERSION, UNKNOWN_MSG_TYPE, BAD_LENGTH, TRAILING_BYTES,
      WRONG_DIRECTION, BAD_ENUM}"
    using decode_payload_Inl
    by (fastforce simp: decode_def Let_def split: if_splits option.splits)
  then show ?thesis using Inl by (auto simp: is_codec_reject_def error_code_defs)
next
  case (Inr m)
  note m = decode_Inr_frame_of [OF Inr]
  then have "length bs = 8 + payload_len_of m"
    using length_frame_of [of m] by (simp add: FRAME_HEADER_LEN_def)
  then show ?thesis
    using Inr payload_len_range_ok(1) [of m] m by (auto simp: MAX_FRAME_def)
qed

lemma decode_confirm_body_iff:
  "decode_confirm_body bs = Inr b \<longleftrightarrow> encode_confirm_body b = Inr bs \<and> wf_confirm_body b"
proof
  assume "decode_confirm_body bs = Inr b"
  then show "encode_confirm_body b = Inr bs \<and> wf_confirm_body b"
    by (auto simp: decode_confirm_body_def cur_new_at rbind_Inr_iff cur_done_Inr
        encode_confirm_body_def wf_confirm_body_def body_direction_to_from_wire
        elim!: cur_elims split: if_splits)
next
  assume r: "encode_confirm_body b = Inr bs \<and> wf_confirm_body b"
  then have "length bs = CONFIRM_BODY_LEN"
    by (auto simp: encode_confirm_body_def wf_confirm_body_def codec_len_defs)
  with r show "decode_confirm_body bs = Inr b"
    by (auto simp: decode_confirm_body_def encode_confirm_body_def wf_confirm_body_def
        cur_new_at cur_fwd codec_len_defs)
qed

text \<open>
  The inner confirmation body: \<open>decode_confirm_body\<close> accepts exactly the 87-byte images
  of \<open>encode_confirm_body\<close> on bodies with the array lengths of the type.
\<close>

theorem confirm_body_roundtrip:
  "decode_confirm_body bs = Inr b \<longleftrightarrow> encode_confirm_body b = Inr bs \<and> wf_confirm_body b"
  by (rule decode_confirm_body_iff)

end
