(* ===== verification/Session.thy ===== *)
theory Session
  imports OtpTypes
begin

text \<open>
  The record layer (\<open>crates/otp-session\<close>: \<open>aad.rs\<close>, \<open>nonce.rs\<close>, \<open>keys.rs\<close>, \<open>session.rs\<close>): key split,
  nonces, associated data, and the sealing and opening of records with their sequence
  discipline. ChaCha20-Poly1305 is a parameter: the record \<open>aead\<close> of the two detached
  operations. An operation on a session is \<open>None\<close> where the code panics.
\<close>

section \<open>Nonces and associated data\<close>

datatype message_type = MtClientConfirm | MtServerConfirm | MtData

definition SESSION_VERSION :: u16 where "SESSION_VERSION = 2"

definition mt_wire_code :: "message_type \<Rightarrow> u16" where
  "mt_wire_code mt = (case mt of MtClientConfirm \<Rightarrow> 4 | MtServerConfirm \<Rightarrow> 5 | MtData \<Rightarrow> 6)"

definition confirm_direction :: "message_type \<Rightarrow> direction option" where
  "confirm_direction mt = (case mt of
     MtClientConfirm \<Rightarrow> Some ClientToServer
   | MtServerConfirm \<Rightarrow> Some ServerToClient
   | MtData \<Rightarrow> None)"

definition is_confirm :: "message_type \<Rightarrow> bool" where
  "is_confirm mt \<longleftrightarrow> mt \<noteq> MtData"

definition direction_wire :: "direction \<Rightarrow> u8" where
  "direction_wire d = (case d of ClientToServer \<Rightarrow> 1 | ServerToClient \<Rightarrow> 2)"

definition direction_from_wire :: "u8 \<Rightarrow> direction option" where
  "direction_from_wire b =
    (if b = 1 then Some ClientToServer else if b = 2 then Some ServerToClient else None)"

definition record_nonce :: "bytes \<Rightarrow> direction \<Rightarrow> seqno \<Rightarrow> bytes" where
  "record_nonce domain d s = domain @ [direction_wire d] @ to_be64 s"

record session_context =
  cx_role :: role
  cx_book_id :: book_id
  cx_segment :: segment_index
  cx_client_nonce :: nonce16
  cx_server_nonce :: nonce16

definition session_nonce :: "session_context \<Rightarrow> nonce16" where
  "session_nonce cx = map2 (XOR) (cx_client_nonce cx) (cx_server_nonce cx)"

definition nonce_domain :: "session_context \<Rightarrow> bytes" where
  "nonce_domain cx = take 3 (session_nonce cx)"

definition build_aad :: "session_context \<Rightarrow> message_type \<Rightarrow> direction \<Rightarrow> epoch \<Rightarrow> seqno \<Rightarrow> bytes" where
  "build_aad cx mt d e s = to_be16 SESSION_VERSION @ to_be16 (mt_wire_code mt) @ [direction_wire d]
    @ cx_book_id cx @ to_be64 (cx_segment cx) @ cx_client_nonce cx @ cx_server_nonce cx
    @ to_be32 e @ to_be64 s"

section \<open>Keys\<close>

record session_keys =
  sk_c2s :: bytes
  sk_s2c :: bytes

definition split_keys :: "bytes \<Rightarrow> session_keys" where
  "split_keys seg = \<lparr>sk_c2s = take DIRECTION_KEY_LEN seg, sk_s2c = drop DIRECTION_KEY_LEN seg\<rparr>"

definition key_for :: "session_keys \<Rightarrow> direction \<Rightarrow> bytes" where
  "key_for k d = (case d of ClientToServer \<Rightarrow> sk_c2s k | ServerToClient \<Rightarrow> sk_s2c k)"

section \<open>Sessions\<close>

datatype session_error =
    AuthenticationFailed | SequenceReplay | SequenceUnexpected | SequenceOverflow
  | WrongDirection | SesClosed

definition session_wire_code :: "session_error \<Rightarrow> u16 option" where
  "session_wire_code e = (case e of
     AuthenticationFailed \<Rightarrow> Some 0x0201
   | SequenceReplay \<Rightarrow> Some 0x0204
   | SequenceUnexpected \<Rightarrow> Some 0x030B
   | SequenceOverflow \<Rightarrow> Some 0x030B
   | WrongDirection \<Rightarrow> Some 0x0306
   | SesClosed \<Rightarrow> None)"

datatype termination_reason = TmOverflow | TmAuthentication | TmSequence | TmMisuse | TmClosed

record session =
  ss_ctx :: session_context
  ss_domain :: bytes
  ss_keys :: "session_keys option"
  ss_send :: "direction \<Rightarrow> seqno"
  ss_recv :: "direction \<Rightarrow> seqno option"
  ss_terminated :: "termination_reason option"

record sealed_record =
  sr_sequence :: seqno
  sr_sealed :: bytes

text \<open>
  The cipher: \<open>ae_seal key nonce aad plaintext\<close> gives ciphertext and tag or fails,
  \<open>ae_open key nonce aad ciphertext tag\<close> the plaintext of an authentic pair.
\<close>

record aead =
  ae_seal :: "bytes \<Rightarrow> bytes \<Rightarrow> bytes \<Rightarrow> bytes \<Rightarrow> (bytes \<times> bytes) option"
  ae_open :: "bytes \<Rightarrow> bytes \<Rightarrow> bytes \<Rightarrow> bytes \<Rightarrow> bytes \<Rightarrow> bytes option"

definition pairing_valid :: "message_type \<Rightarrow> direction \<Rightarrow> bool" where
  "pairing_valid mt d = (case (mt, d) of
     (MtClientConfirm, ClientToServer) \<Rightarrow> True
   | (MtServerConfirm, ServerToClient) \<Rightarrow> True
   | (MtData, _) \<Rightarrow> True
   | _ \<Rightarrow> False)"

definition session_new :: "bytes \<Rightarrow> session_context \<Rightarrow> session" where
  "session_new seg cx = \<lparr>ss_ctx = cx, ss_domain = nonce_domain cx, ss_keys = Some (split_keys seg),
    ss_send = (\<lambda>_. 0), ss_recv = (\<lambda>_. None), ss_terminated = None\<rparr>"

definition is_active :: "session \<Rightarrow> bool" where
  "is_active s \<longleftrightarrow> ss_terminated s = None"

definition next_send_sequence :: "session \<Rightarrow> seqno" where
  "next_send_sequence s = ss_send s (send_direction (cx_role (ss_ctx s)))"

definition last_accepted :: "session \<Rightarrow> direction \<Rightarrow> seqno option" where
  "last_accepted s d = ss_recv s d"

definition ensure_active :: "session \<Rightarrow> session_error + unit" where
  "ensure_active s = (case ss_terminated s of
     None \<Rightarrow> Inr ()
   | Some TmOverflow \<Rightarrow> Inl SequenceOverflow
   | Some _ \<Rightarrow> Inl SesClosed)"

definition terminate :: "termination_reason \<Rightarrow> session \<Rightarrow> session" where
  "terminate r s = s\<lparr>ss_keys := None, ss_terminated := Some r\<rparr>"

text \<open>Nonce, associated data and key of one call; the missing key of a dead session panics.\<close>

definition aead_material ::
  "session \<Rightarrow> message_type \<Rightarrow> direction \<Rightarrow> seqno \<Rightarrow> (bytes \<times> bytes \<times> bytes) option" where
  "aead_material s mt d sq = (case ss_keys s of
     None \<Rightarrow> None
   | Some k \<Rightarrow> Some (record_nonce (ss_domain s) d sq, build_aad (ss_ctx s) mt d 0 sq, key_for k d))"

definition seq_discipline :: "message_type \<Rightarrow> seqno \<Rightarrow> bool" where
  "seq_discipline mt sq \<longleftrightarrow> (if is_confirm mt then sq = 0 else 1 \<le> sq)"

definition session_seal ::
  "aead \<Rightarrow> message_type \<Rightarrow> bytes \<Rightarrow> session \<Rightarrow> ((session_error + sealed_record) \<times> session) option" where
  "session_seal ae mt pt s = (case ensure_active s of
     Inl e \<Rightarrow> Some (Inl e, s)
   | Inr _ \<Rightarrow>
     let d = send_direction (cx_role (ss_ctx s)) in
     if \<not> pairing_valid mt d then Some (Inl WrongDirection, terminate TmMisuse s)
     else let sq = ss_send s d in
     if \<not> seq_discipline mt sq then Some (Inl SequenceUnexpected, terminate TmSequence s)
     else (case aead_material s mt d sq of
       None \<Rightarrow> None
     | Some (nonce, aad, key) \<Rightarrow> (case ae_seal ae key nonce aad pt of
         None \<Rightarrow> Some (Inl AuthenticationFailed, terminate TmAuthentication s)
       | Some (ct, tag) \<Rightarrow>
         Some (Inr \<lparr>sr_sequence = sq, sr_sealed = ct @ tag\<rparr>,
           (case seq_next sq of
              Some n \<Rightarrow> s\<lparr>ss_send := (ss_send s)(d := n)\<rparr>
            | None \<Rightarrow> terminate TmOverflow s)))))"

definition session_open ::
  "aead \<Rightarrow> message_type \<Rightarrow> seqno \<Rightarrow> bytes \<Rightarrow> session \<Rightarrow> ((session_error + bytes) \<times> session) option" where
  "session_open ae mt sq sealed s = (case ensure_active s of
     Inl e \<Rightarrow> Some (Inl e, s)
   | Inr _ \<Rightarrow>
     let d = opposite (send_direction (cx_role (ss_ctx s))) in
     if \<not> pairing_valid mt d then Some (Inl WrongDirection, terminate TmMisuse s)
     else if \<not> seq_discipline mt sq then Some (Inl SequenceUnexpected, terminate TmSequence s)
     else let last = ss_recv s d in
     if last = Some sq then Some (Inl SequenceReplay, terminate TmSequence s)
     else if (case last of None \<Rightarrow> Some 0 | Some l \<Rightarrow> seq_next l) \<noteq> Some sq
     then Some (Inl SequenceUnexpected, terminate TmSequence s)
     else if length sealed < TAG_LEN
     then Some (Inl AuthenticationFailed, terminate TmAuthentication s)
     else (case aead_material s mt d sq of
       None \<Rightarrow> None
     | Some (nonce, aad, key) \<Rightarrow>
       let cut = length sealed - TAG_LEN in
       (case ae_open ae key nonce aad (take cut sealed) (drop cut sealed) of
          Some pt \<Rightarrow> Some (Inr pt, s\<lparr>ss_recv := (ss_recv s)(d \<mapsto> sq)\<rparr>)
        | None \<Rightarrow> Some (Inl AuthenticationFailed, terminate TmAuthentication s))))"

definition session_close :: "session \<Rightarrow> session" where
  "session_close s = (if ss_terminated s = None then terminate TmClosed s else s)"

section \<open>Runs\<close>

datatype session_op =
    OpSeal message_type bytes
  | OpOpen message_type seqno bytes
  | OpClose

datatype session_event =
    EvSealed message_type bytes sealed_record
  | EvOpened message_type seqno bytes
  | EvError session_error
  | EvClosed

definition session_step ::
  "aead \<Rightarrow> session_op \<Rightarrow> session \<Rightarrow> (session_event \<times> session) option" where
  "session_step ae op s = (case op of
     OpSeal mt pt \<Rightarrow> map_option (\<lambda>(r, s'). (case_sum EvError (EvSealed mt pt) r, s'))
       (session_seal ae mt pt s)
   | OpOpen mt sq sealed \<Rightarrow> map_option (\<lambda>(r, s'). (case_sum EvError (EvOpened mt sq) r, s'))
       (session_open ae mt sq sealed s)
   | OpClose \<Rightarrow> Some (EvClosed, session_close s))"

fun session_run ::
  "aead \<Rightarrow> session_op list \<Rightarrow> session \<Rightarrow> (session_event list \<times> session) option" where
  "session_run ae [] s = Some ([], s)"
| "session_run ae (op # ops) s = (case session_step ae op s of
     None \<Rightarrow> None
   | Some (ev, s) \<Rightarrow> map_option (\<lambda>(evs, s). (ev # evs, s)) (session_run ae ops s))"

fun sealed_events :: "session_event list \<Rightarrow> (message_type \<times> bytes \<times> sealed_record) list" where
  "sealed_events [] = []"
| "sealed_events (EvSealed mt pt r # evs) = (mt, pt, r) # sealed_events evs"
| "sealed_events (_ # evs) = sealed_events evs"

fun opened_events :: "session_event list \<Rightarrow> (message_type \<times> seqno \<times> bytes) list" where
  "opened_events [] = []"
| "opened_events (EvOpened mt sq pt # evs) = (mt, sq, pt) # opened_events evs"
| "opened_events (_ # evs) = opened_events evs"

section \<open>The nonce and the associated data are injective\<close>

lemma direction_wire_inject [simp]: "direction_wire d = direction_wire d' \<longleftrightarrow> d = d'"
  by (cases d; cases d') (simp_all add: direction_wire_def)

lemma mt_wire_code_inject [simp]: "mt_wire_code m = mt_wire_code m' \<longleftrightarrow> m = m'"
  by (cases m; cases m') (simp_all add: mt_wire_code_def)

lemma record_nonce_inject [simp]:
  "record_nonce dm d sq = record_nonce dm d' sq' \<longleftrightarrow> d = d' \<and> sq = sq'"
  by (simp add: record_nonce_def)

definition wf_context :: "session_context \<Rightarrow> bool" where
  "wf_context cx \<longleftrightarrow> length (cx_book_id cx) = 16 \<and> length (cx_client_nonce cx) = 16 \<and>
    length (cx_server_nonce cx) = 16"

lemma build_aad_fields:
  assumes "wf_context cx" "wf_context cx'"
  shows "build_aad cx mt d e sq = build_aad cx' mt' d' e' sq' \<longleftrightarrow>
    mt = mt' \<and> d = d' \<and> e = e' \<and> sq = sq' \<and> cx_book_id cx = cx_book_id cx' \<and>
    cx_segment cx = cx_segment cx' \<and> cx_client_nonce cx = cx_client_nonce cx' \<and>
    cx_server_nonce cx = cx_server_nonce cx'"
  using assms by (auto simp: build_aad_def wf_context_def append_eq_append_conv)

text \<open>
  C18. The nonce is 12 bytes and the associated data 73, and both bind what they name: within
  one session, two records with the same nonce have the same direction and sequence number;
  equal associated data means equal type, direction, epoch, sequence number, book, segment and
  handshake nonces.
\<close>

theorem nonce_and_aad_bind:
  assumes "wf_context cx" "wf_context cx'"
  shows "length (record_nonce (nonce_domain cx) d sq) = NONCE_LEN \<and>
    length (build_aad cx mt d e sq) = 73 \<and>
    (record_nonce (nonce_domain cx) d sq = record_nonce (nonce_domain cx) d' sq' \<longleftrightarrow>
      d = d' \<and> sq = sq') \<and>
    (build_aad cx mt d e sq = build_aad cx' mt' d' e' sq' \<longleftrightarrow>
      mt = mt' \<and> d = d' \<and> e = e' \<and> sq = sq' \<and> cx_book_id cx = cx_book_id cx' \<and>
      cx_segment cx = cx_segment cx' \<and> cx_client_nonce cx = cx_client_nonce cx' \<and>
      cx_server_nonce cx = cx_server_nonce cx')"
  using assms unfolding build_aad_fields [OF assms]
  by (simp add: record_nonce_def nonce_domain_def session_nonce_def wf_context_def build_aad_def
      NONCE_LEN_def)

definition ctx0 :: session_context where
  "ctx0 = \<lparr>cx_role = Client, cx_book_id = replicate 16 1, cx_segment = 0,
    cx_client_nonce = replicate 16 2, cx_server_nonce = replicate 16 3\<rparr>"

lemma wf_ctx0 [simp]: "wf_context ctx0" "wf_context (ctx0\<lparr>cx_segment := 1\<rparr>)"
  by (simp_all add: ctx0_def wf_context_def)

theorem nonce_and_aad_bind_witness:
  "build_aad ctx0 MtData ClientToServer 0 1 \<noteq> build_aad (ctx0\<lparr>cx_segment := 1\<rparr>) MtData ClientToServer 0 1"
  using nonce_and_aad_bind [OF wf_ctx0, where d = ClientToServer and d' = ClientToServer and sq = 1
      and sq' = 1 and mt = MtData and mt' = MtData and e = 0 and e' = 0]
  by (simp add: ctx0_def)

section \<open>Termination\<close>

definition keyed :: "session \<Rightarrow> bool" where
  "keyed s \<longleftrightarrow> (ss_terminated s = None \<longleftrightarrow> ss_keys s \<noteq> None)"

lemma keyed_new [simp]: "keyed (session_new seg cx)"
  by (simp add: keyed_def session_new_def)

lemma terminate_simps [simp]:
  "ss_keys (terminate r s) = None" "ss_terminated (terminate r s) = Some r"
  "ss_ctx (terminate r s) = ss_ctx s" "ss_domain (terminate r s) = ss_domain s"
  "ss_send (terminate r s) = ss_send s" "ss_recv (terminate r s) = ss_recv s" "keyed (terminate r s)"
  by (simp_all add: terminate_def keyed_def)

lemma seal_cases:
  assumes "keyed s"
  obtains (dead) r e where "ss_terminated s = Some r" "session_seal ae mt pt s = Some (Inl e, s)"
  | (fail) e r where "ss_terminated s = None" "session_seal ae mt pt s = Some (Inl e, terminate r s)"
  | (ok) k c t s' where "ss_terminated s = None" "ss_keys s = Some k"
      "pairing_valid mt (send_direction (cx_role (ss_ctx s)))" "seq_discipline mt (next_send_sequence s)"
      "ae_seal ae (key_for k (send_direction (cx_role (ss_ctx s))))
         (record_nonce (ss_domain s) (send_direction (cx_role (ss_ctx s))) (next_send_sequence s))
         (build_aad (ss_ctx s) mt (send_direction (cx_role (ss_ctx s))) 0 (next_send_sequence s)) pt
       = Some (c, t)"
      "session_seal ae mt pt s = Some (Inr \<lparr>sr_sequence = next_send_sequence s, sr_sealed = c @ t\<rparr>, s')"
      "s' = (case seq_next (next_send_sequence s) of
         Some n \<Rightarrow> s\<lparr>ss_send := (ss_send s)(send_direction (cx_role (ss_ctx s)) := n)\<rparr>
       | None \<Rightarrow> terminate TmOverflow s)"
proof (cases "ss_terminated s")
  case (Some r)
  then show thesis
    using dead by (cases r) (simp_all add: session_seal_def ensure_active_def)
next
  case None
  then obtain k where k: "ss_keys s = Some k" using assms by (auto simp: keyed_def)
  let ?d = "send_direction (cx_role (ss_ctx s))"
  let ?r = "ae_seal ae (key_for k ?d) (record_nonce (ss_domain s) ?d (ss_send s ?d))
    (build_aad (ss_ctx s) mt ?d 0 (ss_send s ?d)) pt"
  note defs = session_seal_def ensure_active_def Let_def aead_material_def next_send_sequence_def
  show thesis
  proof (cases "pairing_valid mt ?d \<and> seq_discipline mt (ss_send s ?d)")
    case False
    then show ?thesis
      using fail [OF None, of WrongDirection TmMisuse] fail [OF None, of SequenceUnexpected TmSequence]
        None by (cases "pairing_valid mt ?d") (simp_all add: defs)
  next
    case True
    show ?thesis
    proof (cases ?r)
      case c: None
      then show ?thesis
        using fail [OF None, of AuthenticationFailed TmAuthentication] True None k by (simp add: defs)
    next
      case (Some ct)
      then show ?thesis
        using ok [OF None k _ _ _ _ refl, of "fst ct" "snd ct"] True None k
        by (cases ct) (simp add: defs)
    qed
  qed
qed

lemma open_cases:
  assumes "keyed s"
  obtains (dead) r e where "ss_terminated s = Some r" "session_open ae mt sq x s = Some (Inl e, s)"
  | (fail) e r where "ss_terminated s = None" "session_open ae mt sq x s = Some (Inl e, terminate r s)"
  | (ok) k pt where "ss_terminated s = None" "ss_keys s = Some k"
      "pairing_valid mt (opposite (send_direction (cx_role (ss_ctx s))))" "seq_discipline mt sq"
      "(case ss_recv s (opposite (send_direction (cx_role (ss_ctx s)))) of
         None \<Rightarrow> Some 0 | Some l \<Rightarrow> seq_next l) = Some sq" "TAG_LEN \<le> length x"
      "ae_open ae (key_for k (opposite (send_direction (cx_role (ss_ctx s)))))
         (record_nonce (ss_domain s) (opposite (send_direction (cx_role (ss_ctx s)))) sq)
         (build_aad (ss_ctx s) mt (opposite (send_direction (cx_role (ss_ctx s)))) 0 sq)
         (take (length x - TAG_LEN) x) (drop (length x - TAG_LEN) x) = Some pt"
      "session_open ae mt sq x s = Some (Inr pt,
        s\<lparr>ss_recv := (ss_recv s)(opposite (send_direction (cx_role (ss_ctx s))) \<mapsto> sq)\<rparr>)"
proof (cases "ss_terminated s")
  case (Some r)
  then show thesis
    using dead by (cases r) (simp_all add: session_open_def ensure_active_def)
next
  case None
  then obtain k where k: "ss_keys s = Some k" using assms by (auto simp: keyed_def)
  let ?d = "opposite (send_direction (cx_role (ss_ctx s)))"
  let ?e = "case ss_recv s ?d of None \<Rightarrow> Some 0 | Some l \<Rightarrow> seq_next l"
  let ?r = "ae_open ae (key_for k ?d) (record_nonce (ss_domain s) ?d sq)
    (build_aad (ss_ctx s) mt ?d 0 sq) (take (length x - TAG_LEN) x) (drop (length x - TAG_LEN) x)"
  note defs = session_open_def ensure_active_def Let_def aead_material_def
  show thesis
  proof (cases "pairing_valid mt ?d \<and> seq_discipline mt sq \<and> ss_recv s ?d \<noteq> Some sq \<and>
      ?e = Some sq \<and> TAG_LEN \<le> length x")
    case False
    then consider "\<not> pairing_valid mt ?d" | "pairing_valid mt ?d" "\<not> seq_discipline mt sq"
      | "pairing_valid mt ?d" "seq_discipline mt sq" "ss_recv s ?d = Some sq"
      | "pairing_valid mt ?d" "seq_discipline mt sq" "ss_recv s ?d \<noteq> Some sq" "?e \<noteq> Some sq"
      | "pairing_valid mt ?d" "seq_discipline mt sq" "ss_recv s ?d \<noteq> Some sq" "?e = Some sq"
        "length x < TAG_LEN" by force
    then show ?thesis
    proof cases
      case 1
      show ?thesis by (rule fail [OF None, of WrongDirection TmMisuse]) (simp add: defs None 1)
    next
      case 2
      show ?thesis by (rule fail [OF None, of SequenceUnexpected TmSequence]) (simp add: defs None 2)
    next
      case 3
      show ?thesis by (rule fail [OF None, of SequenceReplay TmSequence]) (simp add: defs None 3)
    next
      case 4
      show ?thesis
        by (rule fail [OF None, of SequenceUnexpected TmSequence]) (simp only: defs None 4 option.case sum.case if_True if_False simp_thms)
    next
      case 5
      show ?thesis
        by (rule fail [OF None, of AuthenticationFailed TmAuthentication]) (simp only: defs None 5 option.case sum.case if_True if_False simp_thms)
    qed
  next
    case True
    show ?thesis
    proof (cases ?r)
      case c: None
      then show ?thesis
        by (intro fail [OF None, of AuthenticationFailed TmAuthentication])
          (use True in \<open>simp add: defs None k not_less\<close>)
    next
      case (Some pt)
      show ?thesis
      proof (rule ok [OF None k, of pt])
        show "session_open ae mt sq x s = Some (Inr pt, s\<lparr>ss_recv := (ss_recv s)(?d \<mapsto> sq)\<rparr>)"
          using True Some by (simp add: defs None k not_less)
      qed (use True Some in simp_all)
    qed
  qed
qed

section \<open>The streams of a run\<close>

definition confirm_of :: "role \<Rightarrow> message_type" where
  "confirm_of r = (case r of Client \<Rightarrow> MtClientConfirm | Server \<Rightarrow> MtServerConfirm)"

definition peer_of :: "role \<Rightarrow> role" where
  "peer_of r = (case r of Client \<Rightarrow> Server | Server \<Rightarrow> Client)"

text \<open>The one well-formed stream of length \<open>n\<close> that role \<open>r\<close> can send: types and numbers.\<close>

definition stream :: "role \<Rightarrow> nat \<Rightarrow> (message_type \<times> nat) list" where
  "stream r n = map (\<lambda>i. (if i = 0 then confirm_of r else MtData, i)) [0..<n]"

definition sealed_stream :: "session_event list \<Rightarrow> (message_type \<times> nat) list" where
  "sealed_stream evs = map (\<lambda>(mt, pt, r). (mt, unat (sr_sequence r))) (sealed_events evs)"

definition opened_stream :: "session_event list \<Rightarrow> (message_type \<times> nat) list" where
  "opened_stream evs = map (\<lambda>(mt, sq, pt). (mt, unat sq)) (opened_events evs)"

lemma stream_Suc: "stream r (Suc n) = stream r n @ [(if n = 0 then confirm_of r else MtData, n)]"
  by (simp add: stream_def)

lemma length_stream [simp]: "length (stream r n) = n"
  by (simp add: stream_def)

lemma typed_by_number:
  assumes "pairing_valid mt (send_direction r)" "seq_discipline mt sq"
  shows "mt = (if unat sq = 0 then confirm_of r else MtData)"
  using assms by (cases r; cases mt)
    (auto simp: pairing_valid_def seq_discipline_def is_confirm_def confirm_of_def unat_eq_0
      split: if_splits)

lemma opposite_send: "opposite (send_direction r) = send_direction (peer_of r)"
  by (cases r) (simp_all add: peer_of_def)

definition run_inv :: "role \<Rightarrow> session_event list \<Rightarrow> session \<Rightarrow> bool" where
  "run_inv r evs s \<longleftrightarrow> keyed s \<and> cx_role (ss_ctx s) = r \<and>
    (\<exists>n. sealed_stream evs = stream r n \<and>
      (ss_terminated s = None \<longrightarrow> unat (next_send_sequence s) = n)) \<and>
    (\<exists>m. opened_stream evs = stream (peer_of r) m \<and>
      (case ss_recv s (opposite (send_direction r)) of None \<Rightarrow> m = 0 | Some l \<Rightarrow> m = Suc (unat l)))"

lemma events_append [simp]:
  "sealed_events (xs @ ys) = sealed_events xs @ sealed_events ys"
  "opened_events (xs @ ys) = opened_events xs @ opened_events ys"
  by (induction xs rule: sealed_events.induct) simp_all

lemma stream_append [simp]:
  "sealed_stream (xs @ ys) = sealed_stream xs @ sealed_stream ys"
  "opened_stream (xs @ ys) = opened_stream xs @ opened_stream ys"
  by (simp_all add: sealed_stream_def opened_stream_def)

lemma stream_of_event [simp]:
  "sealed_stream [EvError e] = []" "opened_stream [EvError e] = []"
  "sealed_stream [EvClosed] = []" "opened_stream [EvClosed] = []"
  "sealed_stream [EvSealed mt pt x] = [(mt, unat (sr_sequence x))]" "opened_stream [EvSealed mt pt x] = []"
  "sealed_stream [EvOpened mt sq pt] = []" "opened_stream [EvOpened mt sq pt] = [(mt, unat sq)]"
  by (simp_all add: sealed_stream_def opened_stream_def)

lemma run_inv_terminate: "run_inv r evs s \<Longrightarrow> run_inv r evs (terminate t s)"
  by (auto simp: run_inv_def)

lemma run_inv_quiet:
  "run_inv r evs s \<Longrightarrow> sealed_stream [ev] = [] \<Longrightarrow> opened_stream [ev] = [] \<Longrightarrow> run_inv r (evs @ [ev]) s"
  by (auto simp: run_inv_def)

lemma run_inv_seal:
  assumes inv: "run_inv r evs s"
  shows "\<exists>y s'. session_seal ae mt pt s = Some (y, s') \<and>
    run_inv r (evs @ [case_sum EvError (EvSealed mt pt) y]) s'"
proof -
  from inv have k: "keyed s" and r: "cx_role (ss_ctx s) = r" by (simp_all add: run_inv_def)
  from k show ?thesis
  proof (cases rule: seal_cases [of _ ae mt pt])
    case (dead t e)
    then show ?thesis using run_inv_quiet [OF inv] by simp
  next
    case (fail e t)
    then show ?thesis using run_inv_quiet [OF run_inv_terminate [OF inv]] by simp
  next
    case (ok key c t s')
    let ?q = "next_send_sequence s"
    from inv ok(1) have st: "sealed_stream evs = stream r (unat ?q)" by (auto simp: run_inv_def)
    have mt: "mt = (if unat ?q = 0 then confirm_of r else MtData)"
      by (rule typed_by_number) (use ok r in auto)
    let ?evs = "evs @ [EvSealed mt pt \<lparr>sr_sequence = ?q, sr_sealed = c @ t\<rparr>]"
    have new: "sealed_stream ?evs = stream r (Suc (unat ?q))" using st mt by (simp add: stream_Suc)
    have "run_inv r ?evs s'"
    proof (cases "seq_next ?q")
      case None
      then show ?thesis
        using inv new ok(7) unfolding run_inv_def by auto
    next
      case (Some n)
      then have s': "s' = s\<lparr>ss_send := (ss_send s)(send_direction r := n)\<rparr>" using ok(7) r by simp
      have "keyed s'" "cx_role (ss_ctx s') = r" "next_send_sequence s' = n" "ss_recv s' = ss_recv s"
        using k r by (simp_all add: s' keyed_def next_send_sequence_def)
      then show ?thesis
        using inv new seq_next_Some [OF Some] unfolding run_inv_def by auto
    qed
    then show ?thesis using ok(6) by simp
  qed
qed

lemma run_inv_open:
  assumes inv: "run_inv r evs s"
  shows "\<exists>y s'. session_open ae mt sq x s = Some (y, s') \<and>
    run_inv r (evs @ [case_sum EvError (EvOpened mt sq) y]) s'"
proof -
  from inv have k: "keyed s" and r: "cx_role (ss_ctx s) = r" by (simp_all add: run_inv_def)
  let ?d = "opposite (send_direction r)"
  from k show ?thesis
  proof (cases rule: open_cases [of _ ae mt sq x])
    case (dead t e)
    then show ?thesis using run_inv_quiet [OF inv] by simp
  next
    case (fail e t)
    then show ?thesis using run_inv_quiet [OF run_inv_terminate [OF inv]] by simp
  next
    case (ok key pt)
    from inv have st: "opened_stream evs = stream (peer_of r)
        (case ss_recv s ?d of None \<Rightarrow> 0 | Some l \<Rightarrow> Suc (unat l))"
      by (auto simp: run_inv_def split: option.splits)
    moreover have "(case ss_recv s ?d of None \<Rightarrow> 0 | Some l \<Rightarrow> Suc (unat l)) = unat sq"
      using ok(5) r by (auto simp: seq_next_iff split: option.splits)
    moreover have "mt = (if unat sq = 0 then confirm_of (peer_of r) else MtData)"
      by (rule typed_by_number) (use ok r in \<open>auto simp: opposite_send\<close>)
    ultimately have new: "opened_stream (evs @ [EvOpened mt sq pt]) = stream (peer_of r) (Suc (unat sq))"
      by (simp add: stream_Suc)
    let ?s = "s\<lparr>ss_recv := (ss_recv s)(?d \<mapsto> sq)\<rparr>"
    have "keyed ?s" "next_send_sequence ?s = next_send_sequence s"
      using k by (simp_all add: keyed_def next_send_sequence_def)
    then have "run_inv r (evs @ [EvOpened mt sq pt]) ?s"
      using inv new r unfolding run_inv_def by auto
    then show ?thesis using ok(8) r by simp
  qed
qed

lemma run_inv_step:
  assumes inv: "run_inv r evs s"
  shows "\<exists>ev s'. session_step ae op s = Some (ev, s') \<and> run_inv r (evs @ [ev]) s'"
proof (cases op)
  case (OpSeal mt pt)
  then show ?thesis using run_inv_seal [OF inv, of ae mt pt] by (auto simp: session_step_def)
next
  case (OpOpen mt sq x)
  then show ?thesis using run_inv_open [OF inv, of ae mt sq x] by (auto simp: session_step_def)
next
  case OpClose
  then show ?thesis
    using run_inv_quiet [OF inv, of EvClosed] run_inv_quiet [OF run_inv_terminate [OF inv], of EvClosed]
    by (auto simp: session_step_def session_close_def)
qed

lemma run_inv_run:
  "run_inv r evs s \<Longrightarrow>
    \<exists>evs' s'. session_run ae ops s = Some (evs', s') \<and> run_inv r (evs @ evs') s'"
proof (induction ops arbitrary: evs s)
  case (Cons op ops)
  obtain ev s1 where 1: "session_step ae op s = Some (ev, s1)" "run_inv r (evs @ [ev]) s1"
    using run_inv_step [OF Cons.prems] by blast
  from Cons.IH [OF 1(2)] obtain evs' s' where
    "session_run ae ops s1 = Some (evs', s')" "run_inv r (evs @ ev # evs') s'" by auto
  with 1 show ?case by auto
qed simp

lemma run_inv_new: "run_inv (cx_role cx) [] (session_new seg cx)"
  by (simp add: run_inv_def session_new_def keyed_def sealed_stream_def opened_stream_def stream_def
      next_send_sequence_def)

lemma run_new:
  obtains evs s where "session_run ae ops (session_new seg cx) = Some (evs, s)"
    "run_inv (cx_role cx) evs s"
  using run_inv_run [OF run_inv_new [of cx seg], of ae ops] by auto

text \<open>
  C10. Whatever is asked of a session, in any order and with any input from the network, it
  never panics; what it has sealed is exactly the first records of its stream (CONFIRM with
  number 0, then DATA 1, 2, 3 and so on), so no nonce is ever used twice; and what it has
  accepted is exactly the first records of the peer's stream, so nothing is accepted twice, out
  of order or with a gap.
\<close>

theorem session_streams:
  "case session_run ae ops (session_new seg cx) of None \<Rightarrow> False | Some (evs, s) \<Rightarrow>
    sealed_stream evs = stream (cx_role cx) (length (sealed_events evs)) \<and>
    opened_stream evs = stream (peer_of (cx_role cx)) (length (opened_events evs)) \<and>
    distinct (map (\<lambda>(mt, pt, r). record_nonce (nonce_domain cx) (send_direction (cx_role cx))
      (sr_sequence r)) (sealed_events evs))"
proof -
  obtain evs s where run: "session_run ae ops (session_new seg cx) = Some (evs, s)"
    and inv: "run_inv (cx_role cx) evs s" by (rule run_new)
  from inv obtain n m where n: "sealed_stream evs = stream (cx_role cx) n"
    and m: "opened_stream evs = stream (peer_of (cx_role cx)) m" by (auto simp: run_inv_def)
  from n have ln: "length (sealed_events evs) = n"
    using length_stream [of "cx_role cx" n] by (metis length_map sealed_stream_def)
  from m have lm: "length (opened_events evs) = m"
    using length_stream [of "peer_of (cx_role cx)" m] by (metis length_map opened_stream_def)
  have "map snd (sealed_stream evs) = [0..<n]" by (simp add: n stream_def comp_def)
  then have "map (\<lambda>(mt, pt, r). unat (sr_sequence r)) (sealed_events evs) = [0..<n]"
    by (simp add: sealed_stream_def comp_def case_prod_unfold)
  then have "distinct (map (\<lambda>(mt, pt, r). unat (sr_sequence r)) (sealed_events evs))"
    by (metis distinct_upt)
  then have "distinct (map (\<lambda>(mt, pt, r). record_nonce (nonce_domain cx) (send_direction (cx_role cx))
      (sr_sequence r)) (sealed_events evs))"
    by (auto simp: distinct_map inj_on_def case_prod_beta)
  then show ?thesis using run n m ln lm by simp
qed

section \<open>Failing closed\<close>

lemma dead_step:
  assumes "ss_terminated s = Some t" "keyed s"
  shows "\<exists>ev. session_step ae op s = Some (ev, s) \<and> sealed_stream [ev] = [] \<and> opened_stream [ev] = []"
proof (cases op)
  case (OpSeal mt pt)
  from assms(2) show ?thesis
    by (cases rule: seal_cases [of _ ae mt pt])
       (use assms(1) OpSeal in \<open>auto simp: session_step_def\<close>)
next
  case (OpOpen mt sq x)
  from assms(2) show ?thesis
    by (cases rule: open_cases [of _ ae mt sq x])
       (use assms(1) OpOpen in \<open>auto simp: session_step_def\<close>)
qed (use assms in \<open>simp add: session_step_def session_close_def\<close>)

lemma dead_run:
  assumes "ss_terminated s = Some t" "keyed s"
  shows "\<exists>evs. session_run ae ops s = Some (evs, s) \<and> sealed_stream evs = [] \<and> opened_stream evs = []"
proof (induction ops)
  case (Cons op ops)
  from dead_step [OF assms] obtain ev where
    ev: "session_step ae op s = Some (ev, s)" "sealed_stream [ev] = []" "opened_stream [ev] = []" by blast
  with Cons.IH show ?case
    using stream_append [of "[ev]"] by auto
qed (simp add: sealed_stream_def opened_stream_def)

lemma step_error_dead:
  assumes "keyed s" "session_step ae op s = Some (EvError e, s')"
  shows "keyed s' \<and> ss_terminated s' \<noteq> None"
proof (cases op)
  case (OpSeal mt pt)
  from assms(1) show ?thesis
    by (cases rule: seal_cases [of _ ae mt pt])
       (use assms OpSeal in \<open>auto simp: session_step_def\<close>)
next
  case (OpOpen mt sq x)
  from assms(1) show ?thesis
    by (cases rule: open_cases [of _ ae mt sq x])
       (use assms OpOpen in \<open>auto simp: session_step_def\<close>)
qed (use assms in \<open>simp add: session_step_def\<close>)

lemma run_append:
  "session_run ae (xs @ ys) s = (case session_run ae xs s of
     None \<Rightarrow> None
   | Some (evs, s) \<Rightarrow> map_option (\<lambda>(evs', s). (evs @ evs', s)) (session_run ae ys s))"
proof (induction xs arbitrary: s)
  case Nil
  show ?case by (cases "session_run ae ys s") auto
next
  case (Cons op xs)
  then show ?case
    by (cases "session_step ae op s")
       (auto simp: option.map_comp comp_def case_prod_unfold split: option.splits)
qed

text \<open>
  C17. A session fails closed: after the first operation that returns an error the keys are
  gone, and nothing asked of it later seals or opens anything or changes its state.
\<close>

theorem session_fails_closed:
  assumes "session_run ae ops (session_new seg cx) = Some (evs, s)"
    and "session_step ae op s = Some (EvError e, s')"
  shows "ss_keys s' = None \<and> \<not> is_active s' \<and>
    (\<exists>evs'. session_run ae later s' = Some (evs', s') \<and> sealed_events evs' = [] \<and> opened_events evs' = [])"
proof -
  have "keyed s" using run_new [of ae ops seg cx] assms(1) by (auto simp: run_inv_def)
  from step_error_dead [OF this assms(2)] obtain t where d: "keyed s'" "ss_terminated s' = Some t"
    by auto
  then have "ss_keys s' = None" by (simp add: keyed_def)
  then show ?thesis
    using dead_run [OF d(2,1), of ae later] d(2)
    by (auto simp: is_active_def sealed_stream_def opened_stream_def)
qed

section \<open>Two ends of a channel\<close>

text \<open>The documented laws of the cipher: what was sealed opens to the plaintext; tags are 16 bytes.\<close>

definition aead_correct :: "aead \<Rightarrow> bool" where
  "aead_correct ae \<longleftrightarrow> (\<forall>k n a p c t. ae_seal ae k n a p = Some (c, t) \<longrightarrow>
    length t = TAG_LEN \<and> length c = length p \<and> ae_open ae k n a c t = Some p)"

definition open_all :: "(message_type \<times> bytes \<times> sealed_record) list \<Rightarrow> session_op list" where
  "open_all = map (\<lambda>(mt, pt, r). OpOpen mt (sr_sequence r) (sr_sealed r))"

definition expected_seq :: "session \<Rightarrow> direction \<Rightarrow> seqno option" where
  "expected_seq s d = (case ss_recv s d of None \<Rightarrow> Some 0 | Some l \<Rightarrow> seq_next l)"

text \<open>The receiver \<open>r\<close> follows the sender \<open>s\<close>: same keys and context, and in step.\<close>

definition follows :: "session_keys \<Rightarrow> session \<Rightarrow> session \<Rightarrow> bool" where
  "follows k s r \<longleftrightarrow> keyed s \<and> keyed r \<and> ss_terminated r = None \<and> ss_keys r = Some k \<and>
    ss_ctx r = (ss_ctx s)\<lparr>cx_role := peer_of (cx_role (ss_ctx s))\<rparr> \<and> ss_domain r = ss_domain s \<and>
    (ss_terminated s = None \<longrightarrow> ss_keys s = Some k \<and>
      expected_seq r (send_direction (cx_role (ss_ctx s))) = Some (next_send_sequence s))"

lemma peer_of_peer [simp]: "peer_of (peer_of r) = r"
  by (cases r) (simp_all add: peer_of_def)

lemma build_aad_role [simp]: "build_aad (cx\<lparr>cx_role := r\<rparr>) mt d e sq = build_aad cx mt d e sq"
  by (simp add: build_aad_def)

lemma seq_next_neq: "seq_next q = Some q' \<Longrightarrow> q' \<noteq> q"
  by (auto simp: seq_next_iff)

lemma follows_seal:
  assumes ae: "aead_correct ae" and f: "follows k s r"
    and run: "session_seal ae mt pt s = Some (Inr x, s')"
  shows "\<exists>r'. session_open ae mt (sr_sequence x) (sr_sealed x) r = Some (Inr pt, r') \<and> follows k s' r'"
proof -
  let ?d = "send_direction (cx_role (ss_ctx s))"
  let ?q = "next_send_sequence s"
  have ks: "keyed s" using f by (simp add: follows_def)
  obtain key c t where s: "ss_terminated s = None" "ss_keys s = Some key" "pairing_valid mt ?d"
      "seq_discipline mt ?q"
    and c: "ae_seal ae (key_for key ?d) (record_nonce (ss_domain s) ?d ?q)
      (build_aad (ss_ctx s) mt ?d 0 ?q) pt = Some (c, t)"
    and x: "x = \<lparr>sr_sequence = ?q, sr_sealed = c @ t\<rparr>"
    and s': "s' = (case seq_next ?q of
         Some n \<Rightarrow> s\<lparr>ss_send := (ss_send s)(?d := n)\<rparr> | None \<Rightarrow> terminate TmOverflow s)"
    using ks
  proof (cases rule: seal_cases [of _ ae mt pt])
    case (ok key c t s1)
    with that [of key c t] run show thesis by simp
  qed (use run in auto)
  have r: "ss_terminated r = None" "ss_keys r = Some k" "key = k" "ss_domain r = ss_domain s"
    "ss_ctx r = (ss_ctx s)\<lparr>cx_role := peer_of (cx_role (ss_ctx s))\<rparr>" "keyed r"
    "expected_seq r ?d = Some ?q"
    using f s by (auto simp: follows_def)
  have d: "opposite (send_direction (cx_role (ss_ctx r))) = ?d" by (simp add: r(5) opposite_send)
  have nr: "ss_recv r ?d \<noteq> Some ?q"
    using r(7) seq_next_neq by (auto simp: expected_seq_def split: option.splits)
  have l: "length t = TAG_LEN" "ae_open ae (key_for k ?d) (record_nonce (ss_domain s) ?d ?q)
      (build_aad (ss_ctx s) mt ?d 0 ?q) c t = Some pt"
    using ae c r(3) by (auto simp: aead_correct_def)
  let ?r = "r\<lparr>ss_recv := (ss_recv r)(?d \<mapsto> ?q)\<rparr>"
  have o: "session_open ae mt ?q (c @ t) r = Some (Inr pt, ?r)"
    using r(1,2,4,7) s(3,4) l nr
    by (simp add: session_open_def ensure_active_def d Let_def aead_material_def expected_seq_def)
       (simp add: r(5))
  have "follows k s' ?r"
  proof (cases "seq_next ?q")
    case None
    then show ?thesis using f r by (simp add: s' follows_def keyed_def)
  next
    case (Some n)
    then show ?thesis
      using f r s by (simp add: s' follows_def keyed_def expected_seq_def next_send_sequence_def)
  qed
  then show ?thesis using o x by simp
qed

lemma follows_other:
  assumes f: "follows k s r" and st: "session_step ae op s = Some (ev, s')"
    and ev: "sealed_events [ev] = []"
  shows "follows k s' r"
proof -
  have ks: "keyed s" using f by (simp add: follows_def)
  have t: "follows k (terminate x s) r" for x using f by (simp add: follows_def)
  show ?thesis
  proof (cases op)
    case (OpSeal mt pt)
    from ks show ?thesis
      by (cases rule: seal_cases [of _ ae mt pt]) (use st ev f t OpSeal in \<open>auto simp: session_step_def\<close>)
  next
    case (OpOpen mt sq x)
    from ks show ?thesis
    proof (cases rule: open_cases [of _ ae mt sq x])
      case (ok key pt)
      then show ?thesis
        using st OpOpen f by (auto simp: session_step_def follows_def keyed_def next_send_sequence_def)
    qed (use st f t OpOpen in \<open>auto simp: session_step_def\<close>)
  qed (use st f t in \<open>auto simp: session_step_def session_close_def\<close>)
qed

lemma sealed_step:
  assumes "session_step ae op s = Some (ev, s')"
  shows "sealed_events [ev] = [] \<or> (\<exists>mt pt x. op = OpSeal mt pt \<and> ev = EvSealed mt pt x \<and>
    session_seal ae mt pt s = Some (Inr x, s'))"
proof (cases op)
  case (OpSeal mt pt)
  with assms obtain y where "session_seal ae mt pt s = Some (y, s')" "ev = case_sum EvError (EvSealed mt pt) y"
    by (auto simp: session_step_def)
  then show ?thesis using OpSeal by (cases y) simp_all
next
  case (OpOpen mt sq x)
  with assms obtain y where "ev = case_sum EvError (EvOpened mt sq) y" by (auto simp: session_step_def)
  then show ?thesis by (cases y) simp_all
qed (use assms in \<open>auto simp: session_step_def\<close>)

lemma channel_run:
  "aead_correct ae \<Longrightarrow> follows k s r \<Longrightarrow> session_run ae ops s = Some (evs, s') \<Longrightarrow>
    \<exists>evs' r'. session_run ae (open_all (sealed_events evs)) r = Some (evs', r') \<and> follows k s' r' \<and>
      opened_events evs' = map (\<lambda>(mt, pt, x). (mt, sr_sequence x, pt)) (sealed_events evs)"
proof (induction ops arbitrary: s r evs)
  case (Cons op ops)
  from Cons.prems(3) obtain ev s1 evs1 where st: "session_step ae op s = Some (ev, s1)"
    and rest: "session_run ae ops s1 = Some (evs1, s')" and evs: "evs = ev # evs1"
    by (auto split: option.splits)
  show ?case
  proof (cases "sealed_events [ev] = []")
    case True
    then have "sealed_events evs = sealed_events evs1"
      using events_append(1) [of "[ev]" evs1] by (simp add: evs)
    then show ?thesis
      using Cons.IH [OF Cons.prems(1) follows_other [OF Cons.prems(2) st True] rest] by simp
  next
    case False
    with sealed_step [OF st] obtain mt pt x where ev: "ev = EvSealed mt pt x"
      "session_seal ae mt pt s = Some (Inr x, s1)" by blast
    from follows_seal [OF Cons.prems(1,2) ev(2)] obtain r1 where
      o: "session_open ae mt (sr_sequence x) (sr_sealed x) r = Some (Inr pt, r1)" and f1: "follows k s1 r1"
      by blast
    from Cons.IH [OF Cons.prems(1) f1 rest] o show ?thesis
      by (auto simp: evs ev open_all_def session_step_def)
  qed
qed (simp_all add: open_all_def)

lemma follows_new:
  "follows (split_keys seg) (session_new seg cx)
    (session_new seg (cx\<lparr>cx_role := peer_of (cx_role cx)\<rparr>))"
  by (simp add: follows_def session_new_def keyed_def nonce_domain_def session_nonce_def
      expected_seq_def next_send_sequence_def)

text \<open>
  Two sessions over the same segment and handshake, one for each role, are a channel: the
  records that one seals, whatever else it does meanwhile, are all accepted by the other in
  that order, with the types, the numbers and the plaintexts that were sealed.
\<close>

theorem session_channel:
  assumes "aead_correct ae"
    and "session_run ae ops (session_new seg cx) = Some (evs, s)"
  shows "\<exists>evs' r. session_run ae (open_all (sealed_events evs))
      (session_new seg (cx\<lparr>cx_role := peer_of (cx_role cx)\<rparr>)) = Some (evs', r) \<and>
    opened_events evs' = map (\<lambda>(mt, pt, x). (mt, sr_sequence x, pt)) (sealed_events evs) \<and>
    is_active r"
  using channel_run [OF assms(1) follows_new assms(2)] by (auto simp: follows_def is_active_def)

text \<open>
  A cipher for the examples, without any secrecy: the tag is the associated data and the nonce
  folded to 16 bytes.
\<close>

definition fold16 :: "bytes \<Rightarrow> bytes" where
  "fold16 bs = replicate 15 0 @ [sum_list bs]"

definition plain_aead :: aead where
  "plain_aead = \<lparr>ae_seal = (\<lambda>k n a p. Some (p, fold16 (n @ a @ p))),
    ae_open = (\<lambda>k n a c t. if t = fold16 (n @ a @ c) then Some c else None)\<rparr>"

lemma plain_aead_correct: "aead_correct plain_aead"
  by (simp add: aead_correct_def plain_aead_def fold16_def TAG_LEN_def)

lemma plain_run:
  "\<exists>r1 r2 s. session_run plain_aead [OpSeal MtClientConfirm [9], OpSeal MtData [7]]
    (session_new (replicate 64 5) ctx0) =
      Some ([EvSealed MtClientConfirm [9] r1, EvSealed MtData [7] r2], s)"
  by (simp add: session_step_def session_seal_def session_new_def ensure_active_def ctx0_def
      pairing_valid_def seq_discipline_def is_confirm_def aead_material_def plain_aead_def
      seq_next_def u64_checked_add_def Let_def)

theorem session_channel_witness:
  "\<exists>(r1 :: sealed_record) (r2 :: sealed_record) evs' r. session_run plain_aead
      [OpOpen MtClientConfirm (sr_sequence r1) (sr_sealed r1), OpOpen MtData (sr_sequence r2) (sr_sealed r2)]
      (session_new (replicate 64 5) (ctx0\<lparr>cx_role := Server\<rparr>)) = Some (evs', r) \<and>
    map (snd \<circ> snd) (opened_events evs') = [[9], [7]]"
proof -
  obtain r1 r2 s where run: "session_run plain_aead [OpSeal MtClientConfirm [9], OpSeal MtData [7]]
    (session_new (replicate 64 5) ctx0) =
      Some ([EvSealed MtClientConfirm [9] r1, EvSealed MtData [7] r2], s)"
    using plain_run by blast
  let ?evs = "[EvSealed MtClientConfirm [9] r1, EvSealed MtData [7] r2]"
  have p: "peer_of (cx_role ctx0) = Server" by (simp add: ctx0_def peer_of_def)
  have ops: "open_all (sealed_events ?evs) =
      [OpOpen MtClientConfirm (sr_sequence r1) (sr_sealed r1), OpOpen MtData (sr_sequence r2) (sr_sealed r2)]"
    by (simp add: open_all_def)
  from session_channel [OF plain_aead_correct run, unfolded ops p] obtain evs' r where
    a: "session_run plain_aead
      [OpOpen MtClientConfirm (sr_sequence r1) (sr_sealed r1), OpOpen MtData (sr_sequence r2) (sr_sealed r2)]
      (session_new (replicate 64 5) (ctx0\<lparr>cx_role := Server\<rparr>)) = Some (evs', r)"
    and b: "opened_events evs' = map (\<lambda>(mt, pt, x). (mt, sr_sequence x, pt)) (sealed_events ?evs)"
    by blast
  from b have "map (snd \<circ> snd) (opened_events evs') = [[9], [7]]" by simp
  with a show ?thesis by (intro exI conjI)
qed

theorem session_fails_closed_witness:
  "\<exists>evs s s'. session_run plain_aead [OpSeal MtClientConfirm [9]] (session_new (replicate 64 5) ctx0)
      = Some (evs, s) \<and>
    session_step plain_aead (OpSeal MtClientConfirm [9]) s = Some (EvError SequenceUnexpected, s') \<and>
    ss_keys s' = None"
proof -
  obtain evs s s' where r: "session_run plain_aead [OpSeal MtClientConfirm [9]]
      (session_new (replicate 64 5) ctx0) = Some (evs, s)"
    and e: "session_step plain_aead (OpSeal MtClientConfirm [9]) s = Some (EvError SequenceUnexpected, s')"
    by (simp add: session_step_def session_seal_def session_new_def ensure_active_def ctx0_def
      pairing_valid_def seq_discipline_def is_confirm_def aead_material_def plain_aead_def
      seq_next_def u64_checked_add_def Let_def)
  with session_fails_closed [OF r e] show ?thesis by blast
qed

section \<open>Authenticity\<close>

text \<open>
  What the sender's cipher was called with and gave: nonce, associated data and sealed bytes of
  every record of the run. A delivered record is a forgery when its bytes open under the sender's
  key with the nonce and the associated data the receiver rebuilds for it, although the sender's
  cipher never gave these bytes for that nonce and associated data.
\<close>

definition sealed_calls :: "session_context \<Rightarrow> session_event list \<Rightarrow> (bytes \<times> bytes \<times> bytes) list" where
  "sealed_calls cx evs = (let d = send_direction (cx_role cx) in
    map (\<lambda>(mt, pt, r). (record_nonce (nonce_domain cx) d (sr_sequence r),
      build_aad cx mt d 0 (sr_sequence r), sr_sealed r)) (sealed_events evs))"

definition opens_for :: "aead \<Rightarrow> bytes \<Rightarrow> session_context \<Rightarrow> message_type \<Rightarrow> seqno \<Rightarrow> bytes \<Rightarrow> bytes option" where
  "opens_for ae seg cx mt sq x = (let d = send_direction (cx_role cx); cut = length x - TAG_LEN in
    if length x < TAG_LEN then None
    else ae_open ae (key_for (split_keys seg) d) (record_nonce (nonce_domain cx) d sq)
      (build_aad cx mt d 0 sq) (take cut x) (drop cut x))"

fun forgery :: "aead \<Rightarrow> bytes \<Rightarrow> session_context \<Rightarrow> session_event list \<Rightarrow> session_op \<Rightarrow> bool" where
  "forgery ae seg cx evs (OpOpen mt sq x) = (opens_for ae seg cx mt sq x \<noteq> None \<and>
    (record_nonce (nonce_domain cx) (send_direction (cx_role cx)) sq,
     build_aad cx mt (send_direction (cx_role cx)) 0 sq, x) \<notin> set (sealed_calls cx evs))"
| "forgery ae seg cx evs _ = False"

text \<open>Everything a receiver accepts was delivered to it and opened under its own number.\<close>

definition delivered ::
  "aead \<Rightarrow> bytes \<Rightarrow> session_context \<Rightarrow> session_op list \<Rightarrow> message_type \<times> seqno \<times> bytes \<Rightarrow> bool" where
  "delivered ae seg cx ops y = (case y of (mt, sq, pt) \<Rightarrow>
    (\<exists>x. OpOpen mt sq x \<in> set ops \<and> opens_for ae seg cx mt sq x = Some pt))"

text \<open>The session of the role \<open>r\<close> over the context, alive or dead.\<close>

definition of_role :: "bytes \<Rightarrow> session_context \<Rightarrow> role \<Rightarrow> session \<Rightarrow> bool" where
  "of_role seg cx r s \<longleftrightarrow> keyed s \<and> (ss_keys s = None \<or> ss_keys s = Some (split_keys seg)) \<and>
    ss_domain s = nonce_domain cx \<and> ss_ctx s = cx\<lparr>cx_role := r\<rparr>"

lemma of_role_new: "of_role seg cx r (session_new seg (cx\<lparr>cx_role := r\<rparr>))"
  by (simp add: of_role_def session_new_def keyed_def nonce_domain_def session_nonce_def)

lemma rx_step:
  assumes inv: "of_role seg cx (peer_of (cx_role cx)) s" and st: "session_step ae op s = Some (ev, s')"
  shows "of_role seg cx (peer_of (cx_role cx)) s' \<and>
    list_all (delivered ae seg cx [op]) (opened_events [ev])"
proof (cases op)
  case (OpSeal mt pt)
  have ks: "keyed s" using inv by (simp add: of_role_def)
  from ks show ?thesis
    by (cases rule: seal_cases [of _ ae mt pt])
       (use inv st OpSeal in \<open>auto simp: session_step_def of_role_def keyed_def split: option.splits\<close>)
next
  case (OpOpen mt sq x)
  have ks: "keyed s" using inv by (simp add: of_role_def)
  from ks show ?thesis
  proof (cases rule: open_cases [of _ ae mt sq x])
    case (ok key pt)
    have r: "key = split_keys seg" "ss_domain s = nonce_domain cx"
      "ss_ctx s = cx\<lparr>cx_role := peer_of (cx_role cx)\<rparr>"
      "opposite (send_direction (cx_role (ss_ctx s))) = send_direction (cx_role cx)"
      using inv ok(2) by (auto simp: of_role_def opposite_send)
    have "opens_for ae seg cx mt sq x = Some pt"
      using ok(6,7) unfolding r(4) by (simp add: opens_for_def r(1-3) not_less)
    then show ?thesis
      using ok(8) st OpOpen inv by (auto simp: session_step_def delivered_def of_role_def keyed_def)
  qed (use inv st OpOpen in \<open>auto simp: session_step_def of_role_def\<close>)
qed (use inv st in \<open>auto simp: session_step_def session_close_def of_role_def split: if_splits\<close>)

lemma delivered_mono: "delivered ae seg cx ops y \<Longrightarrow> set ops \<subseteq> set ops' \<Longrightarrow> delivered ae seg cx ops' y"
  by (auto simp: delivered_def split: prod.splits)

lemma rx_run:
  "session_run ae ops s = Some (evs, s') \<Longrightarrow> of_role seg cx (peer_of (cx_role cx)) s \<Longrightarrow>
    \<forall>y \<in> set (opened_events evs). delivered ae seg cx ops y"
proof (induction ops arbitrary: s evs)
  case (Cons op ops)
  from Cons.prems(1) obtain ev s1 evs1 where st: "session_step ae op s = Some (ev, s1)"
    and rest: "session_run ae ops s1 = Some (evs1, s')" and evs: "evs = ev # evs1"
    by (auto split: option.splits)
  note x = rx_step [OF Cons.prems(2) st]
  have "opened_events evs = opened_events [ev] @ opened_events evs1"
    using events_append(2) [of "[ev]" evs1] by (simp add: evs)
  then show ?case
    using x Cons.IH [OF rest conjunct1 [OF x]] by (auto simp: list_all_iff intro: delivered_mono)
qed simp

text \<open>Everything the sender sealed is the cipher's answer for its plaintext.\<close>

definition ciphered :: "aead \<Rightarrow> bytes \<Rightarrow> session_context \<Rightarrow> message_type \<times> bytes \<times> sealed_record \<Rightarrow> bool" where
  "ciphered ae seg cx y = (case y of (mt, pt, r) \<Rightarrow> let d = send_direction (cx_role cx) in
    (\<exists>c t. sr_sealed r = c @ t \<and> ae_seal ae (key_for (split_keys seg) d)
      (record_nonce (nonce_domain cx) d (sr_sequence r)) (build_aad cx mt d 0 (sr_sequence r)) pt = Some (c, t)))"

lemma tx_step:
  assumes inv: "of_role seg cx (cx_role cx) s" and st: "session_step ae op s = Some (ev, s')"
  shows "of_role seg cx (cx_role cx) s' \<and> (\<forall>y \<in> set (sealed_events [ev]). ciphered ae seg cx y)"
proof (cases op)
  case (OpSeal mt pt)
  have ks: "keyed s" using inv by (simp add: of_role_def)
  from ks show ?thesis
  proof (cases rule: seal_cases [of _ ae mt pt])
    case (ok k c t s1)
    have r: "k = split_keys seg" "ss_domain s = nonce_domain cx" "ss_ctx s = cx"
      using inv ok(2) by (auto simp: of_role_def)
    have ev: "ev = EvSealed mt pt \<lparr>sr_sequence = next_send_sequence s, sr_sealed = c @ t\<rparr>" "s1 = s'"
      using st OpSeal ok(6) by (auto simp: session_step_def)
    have "of_role seg cx (cx_role cx) s'"
      using inv ev(2) ok(7) by (auto simp: of_role_def keyed_def split: option.splits)
    then show ?thesis using ok(5) ev(1) by (simp add: ciphered_def r Let_def)
  qed (use inv st OpSeal in \<open>auto simp: session_step_def of_role_def\<close>)
next
  case (OpOpen mt sq x)
  have ks: "keyed s" using inv by (simp add: of_role_def)
  from ks show ?thesis
    by (cases rule: open_cases [of _ ae mt sq x])
       (use inv st OpOpen in \<open>auto simp: session_step_def of_role_def keyed_def\<close>)
qed (use inv st in \<open>auto simp: session_step_def session_close_def of_role_def split: if_splits\<close>)

lemma tx_run:
  "session_run ae ops s = Some (evs, s') \<Longrightarrow> of_role seg cx (cx_role cx) s \<Longrightarrow>
    \<forall>y \<in> set (sealed_events evs). ciphered ae seg cx y"
proof (induction ops arbitrary: s evs)
  case (Cons op ops)
  from Cons.prems(1) obtain ev s1 evs1 where st: "session_step ae op s = Some (ev, s1)"
    and rest: "session_run ae ops s1 = Some (evs1, s')" and evs: "evs = ev # evs1"
    by (auto split: option.splits)
  note x = tx_step [OF Cons.prems(2) st]
  have "sealed_events evs = sealed_events [ev] @ sealed_events evs1"
    using events_append(1) [of "[ev]" evs1] by (simp add: evs)
  then show ?case using x Cons.IH [OF rest conjunct1 [OF x]] by auto
qed simp

lemma run_lengths:
  assumes "session_run ae ops (session_new seg cx) = Some (evs, s)"
  shows "sealed_stream evs = stream (cx_role cx) (length (sealed_events evs))"
    "opened_stream evs = stream (peer_of (cx_role cx)) (length (opened_events evs))"
proof -
  from run_new [of ae ops seg cx] assms have "run_inv (cx_role cx) evs s" by auto
  then obtain n m where n: "sealed_stream evs = stream (cx_role cx) n"
    and m: "opened_stream evs = stream (peer_of (cx_role cx)) m" by (auto simp: run_inv_def)
  then show "sealed_stream evs = stream (cx_role cx) (length (sealed_events evs))"
    "opened_stream evs = stream (peer_of (cx_role cx)) (length (opened_events evs))"
    by (metis length_map length_stream sealed_stream_def, metis length_map length_stream opened_stream_def)
qed

lemma opened_number:
  assumes "session_run ae ops (session_new seg cx) = Some (evs, s)" "i < length (opened_events evs)"
  shows "unat (fst (snd (opened_events evs ! i))) = i"
proof -
  have "opened_stream evs ! i = stream (peer_of (cx_role cx)) (length (opened_events evs)) ! i"
    using run_lengths(2) [OF assms(1)] by simp
  then show ?thesis using assms(2) by (simp add: opened_stream_def stream_def case_prod_unfold)
qed

lemma sealed_number:
  assumes "session_run ae ops (session_new seg cx) = Some (evs, s)" "i < length (sealed_events evs)"
  shows "unat (sr_sequence (snd (snd (sealed_events evs ! i)))) = i"
proof -
  have "sealed_stream evs ! i = stream (cx_role cx) (length (sealed_events evs)) ! i"
    using run_lengths(1) [OF assms(1)] by simp
  then show ?thesis using assms(2) by (simp add: sealed_stream_def stream_def case_prod_unfold)
qed

lemma sealed_bytes_open:
  assumes "aead_correct ae" "ciphered ae seg cx (mt, pt, r)"
  shows "opens_for ae seg cx mt (sr_sequence r) (sr_sealed r) = Some pt"
  using assms by (fastforce simp: ciphered_def aead_correct_def opens_for_def Let_def)

lemma build_aad_type: "build_aad cx mt d e sq = build_aad cx mt' d e sq \<longleftrightarrow> mt = mt'"
  by (simp add: build_aad_def)

lemma no_forgery_prefix:
  assumes ae: "aead_correct ae"
    and tx: "session_run ae ops (session_new seg cx) = Some (evs, s)"
    and rx: "session_run ae ops' (session_new seg (cx\<lparr>cx_role := peer_of (cx_role cx)\<rparr>)) = Some (evs', s')"
    and nf: "\<not> list_ex (forgery ae seg cx evs) ops'"
  shows "opened_events evs' = take (length (opened_events evs'))
    (map (\<lambda>(mt, pt, r). (mt, sr_sequence r, pt)) (sealed_events evs)) \<and>
    length (opened_events evs') \<le> length (sealed_events evs)"
proof -
  let ?O = "opened_events evs'" and ?S = "sealed_events evs"
  have sent: "\<forall>y \<in> set ?S. ciphered ae seg cx y"
    by (rule tx_run [OF tx]) (use of_role_new [of seg cx "cx_role cx"] in simp)
  have each: "i < length ?S \<and> ?O ! i = (case ?S ! i of (mt, pt, r) \<Rightarrow> (mt, sr_sequence r, pt))"
    if i: "i < length ?O" for i
  proof -
    obtain mt sq pt where y: "?O ! i = (mt, sq, pt)" by (metis surj_pair)
    have sq: "unat sq = i" using opened_number [OF rx i] y by simp
    have "delivered ae seg cx ops' (?O ! i)" using rx_run [OF rx of_role_new] nth_mem [OF i] by blast
    then obtain x where x: "OpOpen mt sq x \<in> set ops'" "opens_for ae seg cx mt sq x = Some pt"
      by (auto simp: y delivered_def)
    with nf have "(record_nonce (nonce_domain cx) (send_direction (cx_role cx)) sq,
        build_aad cx mt (send_direction (cx_role cx)) 0 sq, x) \<in> set (sealed_calls cx evs)"
      by (fastforce simp: list_ex_iff)
    then obtain mt' pt' r where r: "(mt', pt', r) \<in> set ?S" "sr_sequence r = sq" "mt' = mt" "sr_sealed r = x"
      by (auto simp: sealed_calls_def Let_def build_aad_type)
    then obtain j where j: "j < length ?S" "?S ! j = (mt', pt', r)" by (metis in_set_conv_nth)
    have "j = i" using sealed_number [OF tx j(1)] j(2) r(2) sq by simp
    moreover have "pt' = pt"
      using sealed_bytes_open [OF ae bspec [OF sent r(1)]] x(2) by (simp add: r(2-4))
    ultimately show ?thesis using j r y by simp
  qed
  then have len: "length ?O \<le> length ?S"
    by (metis (no_types) linorder_not_less order.strict_trans2 less_irrefl)
  have "?O = take (length ?O) (map (\<lambda>(mt, pt, r). (mt, sr_sequence r, pt)) ?S)"
    by (rule nth_equalityI) (use each len in auto)
  with len show ?thesis by blast
qed

text \<open>
  C13. Whatever the network delivers to the receiver, in whatever order, changed, repeated or
  dropped: either what the receiver accepted is a prefix of what the sender sealed, with the same
  types, numbers and plaintexts, or one of the delivered records is a forgery, bytes that open
  under the sender's key for a nonce and associated data for which the sender's cipher never gave
  them. The only law of the cipher used is that what was sealed opens to its plaintext; that a
  forgery cannot be made is not assumed but named.
\<close>

theorem receiver_accepts_sent_or_forged:
  assumes "aead_correct ae"
    and "session_run ae ops (session_new seg cx) = Some (evs, s)"
    and "session_run ae ops' (session_new seg (cx\<lparr>cx_role := peer_of (cx_role cx)\<rparr>)) = Some (evs', s')"
  shows "(\<exists>n \<le> length (sealed_events evs). opened_events evs' =
      take n (map (\<lambda>(mt, pt, r). (mt, sr_sequence r, pt)) (sealed_events evs))) \<or>
    list_ex (forgery ae seg cx evs) ops'"
  using no_forgery_prefix [OF assms] by blast

lemmas run_defs = session_step_def session_seal_def session_open_def session_new_def
  ensure_active_def pairing_valid_def seq_discipline_def is_confirm_def aead_material_def
  seq_next_def u64_checked_add_def Let_def

theorem receiver_accepts_sent_or_forged_witness:
  "\<exists>evs s evs' s' x. session_run plain_aead [OpSeal MtClientConfirm [9], OpSeal MtData [7]]
      (session_new (replicate 64 5) ctx0) = Some (evs, s) \<and>
    session_run plain_aead [OpOpen MtClientConfirm 0 x, OpOpen MtClientConfirm 0 x]
      (session_new (replicate 64 5) (ctx0\<lparr>cx_role := Server\<rparr>)) = Some (evs', s') \<and>
    \<not> list_ex (forgery plain_aead (replicate 64 5) ctx0 evs)
        [OpOpen MtClientConfirm 0 x, OpOpen MtClientConfirm 0 x] \<and>
    opened_events evs' = [(MtClientConfirm, 0, [9])] \<and>
    (\<exists>n \<le> length (sealed_events evs). opened_events evs' =
      take n (map (\<lambda>(mt, pt, r). (mt, sr_sequence r, pt)) (sealed_events evs)))"
proof -
  have p: "peer_of (cx_role ctx0) = Server" by (simp add: ctx0_def peer_of_def)
  have c: "cx_role ctx0 = Client" "nonce_domain (ctx0\<lparr>cx_role := Server\<rparr>) = nonce_domain ctx0"
    by (simp_all add: ctx0_def nonce_domain_def session_nonce_def)
  let ?t = "fold16 (record_nonce (nonce_domain ctx0) ClientToServer 0 @
    build_aad ctx0 MtClientConfirm ClientToServer 0 0 @ [9])"
  let ?x = "9 # ?t" and ?ops = "\<lambda>x. [OpOpen MtClientConfirm 0 x, OpOpen MtClientConfirm 0 x]"
  have t: "length ?t = 16" by (simp add: fold16_def)
  obtain evs s r2 where tx: "session_run plain_aead [OpSeal MtClientConfirm [9], OpSeal MtData [7]]
      (session_new (replicate 64 5) ctx0) = Some (evs, s)"
    and evs: "evs = [EvSealed MtClientConfirm [9] \<lparr>sr_sequence = 0, sr_sealed = ?x\<rparr>,
      EvSealed MtData [7] r2]"
    by (simp add: run_defs c plain_aead_def)
  obtain evs' s' where rx: "session_run plain_aead (?ops ?x)
      (session_new (replicate 64 5) (ctx0\<lparr>cx_role := Server\<rparr>)) = Some (evs', s')"
    and y: "opened_events evs' = [(MtClientConfirm, 0, [9])]"
    using t by (simp add: run_defs c plain_aead_def TAG_LEN_def del: One_nat_def)
  have nf: "\<not> list_ex (forgery plain_aead (replicate 64 5) ctx0 evs) (?ops ?x)"
    by (simp add: evs sealed_calls_def c)
  from receiver_accepts_sent_or_forged [OF plain_aead_correct tx, unfolded p, OF rx] nf tx rx y
  show ?thesis by blast
qed

end
