(* ===== verification/AnchorSpec.thy ===== *)
theory AnchorSpec
  imports OtpTypes "HOL-Library.Product_Lexorder"
begin

text \<open>
  The crate \<open>otp-anchor-spec\<close> (\<open>crates/otp-anchor-spec/src/lib.rs\<close>): the 104-byte anchor
  record, its canonical coding and the decision table over the two anchor copies. SHA-256 is
  the crate \<open>sha2\<close>, not part of the repository: it is the parameter \<open>sha\<close>, of which the
  proofs use that digests are 32 bytes long (\<open>digest32\<close>).
\<close>

section \<open>Records\<close>

definition ANCHOR_RECORD_LEN :: nat where "ANCHOR_RECORD_LEN = 104"
definition PREFIX_LEN :: nat where "PREFIX_LEN = 72"
definition ANCHOR_MAGIC :: bytes where "ANCHOR_MAGIC = [79, 84, 80, 65]"
definition ANCHOR_VERSION :: u16 where "ANCHOR_VERSION = 2"

lemmas anchor_consts = ANCHOR_RECORD_LEN_def PREFIX_LEN_def ANCHOR_MAGIC_def ANCHOR_VERSION_def

definition digest32 :: "(bytes \<Rightarrow> bytes) \<Rightarrow> bool" where
  "digest32 sha \<longleftrightarrow> (\<forall>bs. length (sha bs) = 32)"

datatype anchor_payload = Init | Intent segment_index | Commit bytes

fun payload_tag :: "anchor_payload \<Rightarrow> u8" where
  "payload_tag Init = 0"
| "payload_tag (Intent _) = 1"
| "payload_tag (Commit _) = 2"

record anchor_record =
  ar_book_id :: book_id
  ar_next :: segment_index
  ar_generation :: generation
  ar_payload :: anchor_payload

definition anchor_init :: "book_id \<Rightarrow> anchor_record" where
  "anchor_init b = \<lparr>ar_book_id = b, ar_next = 0, ar_generation = Generation 0, ar_payload = Init\<rparr>"

text \<open>\<open>AnchorRecord::intent\<close> steps the reserved index with the panicking \<open>next\<close>.\<close>

definition anchor_intent :: "book_id \<Rightarrow> generation \<Rightarrow> segment_index \<Rightarrow> anchor_record option" where
  "anchor_intent b g reserved = map_option
    (\<lambda>n. \<lparr>ar_book_id = b, ar_next = n, ar_generation = g, ar_payload = Intent reserved\<rparr>)
    (seg_next reserved)"

definition anchor_commit ::
  "book_id \<Rightarrow> generation \<Rightarrow> segment_index \<Rightarrow> bytes \<Rightarrow> anchor_record" where
  "anchor_commit b g n h =
    \<lparr>ar_book_id = b, ar_next = n, ar_generation = g, ar_payload = Commit h\<rparr>"

datatype ordering = Less | Equal | Greater

definition cmp_lin :: "'a::linorder \<Rightarrow> 'a \<Rightarrow> ordering" where
  "cmp_lin x y = (if x < y then Less else if x = y then Equal else Greater)"

text \<open>\<open>state_cmp\<close>: the lexicographic order of the pairs, generation first.\<close>

definition state_key :: "anchor_record \<Rightarrow> generation \<times> u8" where
  "state_key r = (ar_generation r, payload_tag (ar_payload r))"

definition state_cmp :: "anchor_record \<Rightarrow> anchor_record \<Rightarrow> ordering" where
  "state_cmp r s = cmp_lin (state_key r) (state_key s)"

section \<open>Coding\<close>

definition payload_bytes :: "anchor_payload \<Rightarrow> bytes" where
  "payload_bytes p = (case p of
     Init \<Rightarrow> replicate 32 0
   | Intent i \<Rightarrow> to_be64 i @ replicate 24 0
   | Commit h \<Rightarrow> h)"

definition record_prefix :: "anchor_record \<Rightarrow> bytes" where
  "record_prefix r = ANCHOR_MAGIC @ to_be16 ANCHOR_VERSION @ [payload_tag (ar_payload r)] @ [0]
    @ ar_book_id r @ to_be64 (gen_get (ar_generation r)) @ to_be64 (ar_next r)
    @ payload_bytes (ar_payload r)"

definition encode_record :: "(bytes \<Rightarrow> bytes) \<Rightarrow> anchor_record \<Rightarrow> bytes" where
  "encode_record sha r = record_prefix r @ sha (record_prefix r)"

datatype anchor_spec_error = DecodeFailed string | IntegrityCheckFailed

definition decode_anchor_payload ::
  "u8 \<Rightarrow> u64 \<Rightarrow> segment_index \<Rightarrow> bytes \<Rightarrow> anchor_spec_error + anchor_payload" where
  "decode_anchor_payload tag g n body =
    (if tag = 0 then
       (if g \<noteq> 0 \<or> n \<noteq> 0 \<or> list_ex (\<lambda>b. b \<noteq> 0) body
        then Inl (DecodeFailed ''non-canonical-init'') else Inr Init)
     else if tag = 1 then
       (if n = 0 \<or> list_ex (\<lambda>b. b \<noteq> 0) (slice_of 8 32 body)
        then Inl (DecodeFailed ''non-canonical-intent'')
        else let reserved = from_be64 (slice_of 0 8 body) in
          if u64_checked_add reserved 1 \<noteq> Some n then Inl (DecodeFailed ''intent-index'')
          else Inr (Intent reserved))
     else if tag = 2 then
       (if n = 0 then Inl (DecodeFailed ''non-canonical-commit'') else Inr (Commit body))
     else Inl (DecodeFailed ''record-type''))"

definition decode_and_verify :: "(bytes \<Rightarrow> bytes) \<Rightarrow> bytes \<Rightarrow> anchor_spec_error + anchor_record" where
  "decode_and_verify sha buf =
    (if length buf \<noteq> ANCHOR_RECORD_LEN then Inl (DecodeFailed ''length'')
     else if slice_of 0 4 buf \<noteq> ANCHOR_MAGIC then Inl (DecodeFailed ''magic'')
     else if from_be16 [buf ! 4, buf ! 5] \<noteq> ANCHOR_VERSION then Inl (DecodeFailed ''version'')
     else if buf ! 7 \<noteq> 0 then Inl (DecodeFailed ''flags'')
     else if sha (take PREFIX_LEN buf) \<noteq> drop PREFIX_LEN buf then Inl IntegrityCheckFailed
     else
       let g = from_be64 (slice_of 24 32 buf); n = from_be64 (slice_of 32 40 buf) in
       map_ok
         (\<lambda>p. \<lparr>ar_book_id = slice_of 8 24 buf, ar_next = n, ar_generation = Generation g,
               ar_payload = p\<rparr>)
         (decode_anchor_payload (buf ! 6) g n (slice_of 40 72 buf)))"

section \<open>Deciding between two copies\<close>

datatype anchor_copy = CopyA | CopyB

datatype read_failure = Corrupt | Unreadable

datatype recovery_decision =
    Consistent anchor_record
  | AdoptHigher anchor_record anchor_copy
  | QuarantineCorrupt anchor_copy string
  | CannotProveSafe string
  | BothUnreadable

definition decide ::
  "read_failure + anchor_record \<Rightarrow> read_failure + anchor_record \<Rightarrow> recovery_decision" where
  "decide a b = (case (a, b) of
     (Inl Unreadable, Inl Unreadable) \<Rightarrow> BothUnreadable
   | (Inl _, Inr _) \<Rightarrow> QuarantineCorrupt CopyA ''anchor-a-invalid''
   | (Inr _, Inl _) \<Rightarrow> QuarantineCorrupt CopyB ''anchor-b-invalid''
   | (Inl _, Inl _) \<Rightarrow> CannotProveSafe ''both-anchors-invalid''
   | (Inr ra, Inr rb) \<Rightarrow>
       if ar_book_id ra \<noteq> ar_book_id rb then CannotProveSafe ''book-id-mismatch''
       else (case state_cmp ra rb of
         Equal \<Rightarrow> if ra = rb then Consistent ra else CannotProveSafe ''same-order-different-bytes''
       | Greater \<Rightarrow> if ar_next rb \<le> ar_next ra then AdoptHigher ra CopyB
                    else CannotProveSafe ''order-contradiction''
       | Less \<Rightarrow> if ar_next ra \<le> ar_next rb then AdoptHigher rb CopyA
                 else CannotProveSafe ''order-contradiction''))"

section \<open>Round trip of the record coding\<close>

definition wf_anchor :: "anchor_record \<Rightarrow> bool" where
  "wf_anchor r \<longleftrightarrow> length (ar_book_id r) = 16 \<and>
    (case ar_payload r of Commit h \<Rightarrow> length h = 32 | _ \<Rightarrow> True)"

text \<open>What the decoder demands of the fields of each record type.\<close>

definition canonical_anchor :: "anchor_record \<Rightarrow> bool" where
  "canonical_anchor r = (case ar_payload r of
     Init \<Rightarrow> ar_generation r = Generation 0 \<and> ar_next r = 0
   | Intent i \<Rightarrow> seg_next i = Some (ar_next r)
   | Commit _ \<Rightarrow> ar_next r \<noteq> 0)"

lemma length_payload_bytes:
  "wf_anchor r \<Longrightarrow> length (payload_bytes (ar_payload r)) = 32"
  by (auto simp: wf_anchor_def payload_bytes_def split: anchor_payload.splits)

lemma length_record_prefix: "wf_anchor r \<Longrightarrow> length (record_prefix r) = PREFIX_LEN"
  by (simp add: record_prefix_def length_payload_bytes anchor_consts wf_anchor_def)

lemma length_encode_record:
  "digest32 sha \<Longrightarrow> wf_anchor r \<Longrightarrow> length (encode_record sha r) = ANCHOR_RECORD_LEN"
  by (simp add: encode_record_def length_record_prefix digest32_def anchor_consts)

lemma anchor_fields:
  assumes "length buf = 104"
  obtains m v t f i g n b d where "buf = m @ v @ t # f # i @ g @ n @ b @ d"
    "length m = 4" "length v = 2" "length i = 16" "length g = 8" "length n = 8" "length b = 32"
    "length d = 32"
proof -
  obtain m x1 where 1: "buf = m @ x1" "length m = 4" "length x1 = 100"
    using split_at [of buf 4 100] assms by auto
  obtain v x2 where 2: "x1 = v @ x2" "length v = 2" "length x2 = 98"
    using split_at [of x1 2 98] 1 by auto
  obtain tf x3 where 3: "x2 = tf @ x3" "length tf = 2" "length x3 = 96"
    using split_at [of x2 2 96] 2 by auto
  obtain t f where tf: "tf = [t, f]"
    using 3 by (auto simp: length_Suc_conv numeral_2_eq_2)
  obtain i x4 where 4: "x3 = i @ x4" "length i = 16" "length x4 = 80"
    using split_at [of x3 16 80] 3 by auto
  obtain g x5 where 5: "x4 = g @ x5" "length g = 8" "length x5 = 72"
    using split_at [of x4 8 72] 4 by auto
  obtain n x6 where 6: "x5 = n @ x6" "length n = 8" "length x6 = 64"
    using split_at [of x5 8 64] 5 by auto
  obtain b d where 7: "x6 = b @ d" "length b = 32" "length d = 32"
    using split_at [of x6 32 32] 6 by auto
  show thesis using that [of m v t f i g n b d] 1 2 3 tf 4 5 6 7 by simp
qed

lemma decode_anchor_fields:
  assumes "length m = 4" "length v = 2" "length i = 16" "length g = 8" "length n = 8"
    "length b = 32" "length d = 32"
  shows "decode_and_verify sha (m @ v @ t # f # i @ g @ n @ b @ d) =
    (if m \<noteq> ANCHOR_MAGIC then Inl (DecodeFailed ''magic'')
     else if from_be16 v \<noteq> ANCHOR_VERSION then Inl (DecodeFailed ''version'')
     else if f \<noteq> 0 then Inl (DecodeFailed ''flags'')
     else if sha (m @ v @ t # f # i @ g @ n @ b) \<noteq> d then Inl IntegrityCheckFailed
     else map_ok
       (\<lambda>p. \<lparr>ar_book_id = i, ar_next = from_be64 n, ar_generation = Generation (from_be64 g),
             ar_payload = p\<rparr>) (decode_anchor_payload t (from_be64 g) (from_be64 n) b))"
proof -
  obtain v0 v1 where v: "v = [v0, v1]" using assms(2) by (auto simp: length_Suc_conv numeral_eq_Suc)
  obtain m0 m1 m2 m3 where m: "m = [m0, m1, m2, m3]"
    using assms(1) by (auto simp: length_Suc_conv numeral_eq_Suc)
  show ?thesis
    using assms by (simp add: decode_and_verify_def anchor_consts slice_of_def m v Let_def)
qed

lemma zero_bytes: "\<not> list_ex (\<lambda>b. b \<noteq> 0) bs \<Longrightarrow> bs = replicate (length bs) (0 :: byte)"
  by (induction bs) auto

lemma zero_bytes_replicate [simp]: "\<not> list_ex (\<lambda>b. b \<noteq> 0) (replicate n (0 :: byte))"
  by (induction n) auto

lemma seg_next_nonzero: "seg_next i = Some n \<Longrightarrow> n \<noteq> 0"
  using seg_next_Some by fastforce

lemma decode_anchor_payload_iff:
  assumes "length b = 32"
  shows "decode_anchor_payload t g n b = Inr p \<longleftrightarrow>
    t = payload_tag p \<and> b = payload_bytes p \<and>
    (case p of Init \<Rightarrow> g = 0 \<and> n = 0 | Intent i \<Rightarrow> seg_next i = Some n | Commit _ \<Rightarrow> n \<noteq> 0)"
proof (cases p)
  case Init
  then show ?thesis
    using zero_bytes [of b] assms
    by (auto simp: decode_anchor_payload_def payload_bytes_def Let_def)
next
  case (Intent i)
  have "slice_of 0 8 b @ slice_of 8 32 b = b"
    using assms by (simp add: slice_slice slice_whole)
  moreover have "\<not> list_ex (\<lambda>b. b \<noteq> 0) (slice_of 8 32 b) \<longleftrightarrow> slice_of 8 32 b = replicate 24 0"
    using zero_bytes [of "slice_of 8 32 b"] assms by (auto)
  moreover have "to_be64 (from_be64 (slice_of 0 8 b)) = slice_of 0 8 b"
    using assms by simp
  ultimately have "b = to_be64 i @ replicate 24 0 \<longleftrightarrow>
      from_be64 (slice_of 0 8 b) = i \<and> \<not> list_ex (\<lambda>b. b \<noteq> 0) (slice_of 8 32 b)"
    by (metis append_eq_append_conv from_to_be(3) length_to_be(3))
  with Intent show ?thesis
    by (auto simp: decode_anchor_payload_def payload_bytes_def Let_def seg_next_def
        dest: seg_next_nonzero [unfolded seg_next_def])
next
  case (Commit h)
  then show ?thesis
    by (auto simp: decode_anchor_payload_def payload_bytes_def Let_def)
qed

lemma decode_and_verify_Inr:
  assumes dec: "decode_and_verify sha bs = Inr r"
  shows "bs = encode_record sha r \<and> wf_anchor r \<and> canonical_anchor r"
proof -
  from dec have "length bs = 104"
    by (auto simp: decode_and_verify_def ANCHOR_RECORD_LEN_def split: if_splits)
  then obtain m v t f i g n b d where bs: "bs = m @ v @ t # f # i @ g @ n @ b @ d"
    and len: "length m = 4" "length v = 2" "length i = 16" "length g = 8" "length n = 8"
      "length b = 32" "length d = 32"
    by (rule anchor_fields)
  from dec obtain p where ok: "m = ANCHOR_MAGIC" "from_be16 v = ANCHOR_VERSION" "f = 0"
    "sha (m @ v @ t # f # i @ g @ n @ b) = d"
    and p: "decode_anchor_payload t (from_be64 g) (from_be64 n) b = Inr p"
    and r: "r = \<lparr>ar_book_id = i, ar_next = from_be64 n, ar_generation = Generation (from_be64 g),
      ar_payload = p\<rparr>"
    unfolding bs decode_anchor_fields [OF len]
    by (auto simp: map_ok_def split: if_splits sum.splits)
  have v: "to_be16 ANCHOR_VERSION = v" using ok(2) to_from_be16 [OF len(2)] by simp
  note pl = p [unfolded decode_anchor_payload_iff [OF len(6)]]
  have "record_prefix r = m @ v @ t # f # i @ g @ n @ b"
    using pl v ok len by (simp add: record_prefix_def r)
  then have "bs = encode_record sha r" using ok(4) by (simp add: encode_record_def bs)
  moreover have "wf_anchor r \<and> canonical_anchor r"
    using pl len by (auto simp: r wf_anchor_def canonical_anchor_def payload_bytes_def
        split: anchor_payload.splits)
  ultimately show ?thesis by simp
qed

lemma decode_encode_record:
  assumes sha: "digest32 sha" and r: "wf_anchor r" "canonical_anchor r"
  shows "decode_and_verify sha (encode_record sha r) = Inr r"
proof -
  define pre where "pre = record_prefix r"
  have bs: "encode_record sha r = ANCHOR_MAGIC @ to_be16 ANCHOR_VERSION @ payload_tag (ar_payload r) # 0
    # ar_book_id r @ to_be64 (gen_get (ar_generation r)) @ to_be64 (ar_next r)
    @ payload_bytes (ar_payload r) @ sha pre"
    using r by (simp add: encode_record_def record_prefix_def pre_def)
  have len: "length ANCHOR_MAGIC = 4" "length (to_be16 ANCHOR_VERSION) = 2"
    "length (ar_book_id r) = 16" "length (to_be64 (gen_get (ar_generation r))) = 8"
    "length (to_be64 (ar_next r)) = 8" "length (payload_bytes (ar_payload r)) = 32"
    "length (sha pre) = 32"
    using r sha by (simp_all add: ANCHOR_MAGIC_def length_payload_bytes digest32_def)
       (simp add: wf_anchor_def)
  have "decode_anchor_payload (payload_tag (ar_payload r)) (gen_get (ar_generation r)) (ar_next r)
      (payload_bytes (ar_payload r)) = Inr (ar_payload r)"
    using r unfolding decode_anchor_payload_iff [OF len(6)]
    by (auto simp: canonical_anchor_def split: anchor_payload.splits)
  moreover have "sha (ANCHOR_MAGIC @ to_be16 ANCHOR_VERSION @ payload_tag (ar_payload r) # 0
    # ar_book_id r @ to_be64 (gen_get (ar_generation r)) @ to_be64 (ar_next r)
    @ payload_bytes (ar_payload r)) = sha pre"
    by (simp add: pre_def record_prefix_def)
  ultimately show ?thesis
    unfolding bs decode_anchor_fields [OF len] by simp
qed

text \<open>
  The anchor decoder accepts exactly the canonical records: a buffer verifies as \<open>r\<close> if
  and only if it is the encoding of \<open>r\<close>, the array lengths hold, and the fields obey the
  rule of the record type (INIT all zero, INTENT with \<open>next = reserved + 1\<close>, COMMIT with a
  nonzero \<open>next\<close>).
\<close>

theorem anchor_accepts_exactly:
  assumes sha: "digest32 sha"
  shows "decode_and_verify sha bs = Inr r \<longleftrightarrow>
    bs = encode_record sha r \<and> wf_anchor r \<and> canonical_anchor r"
proof
  assume "decode_and_verify sha bs = Inr r"
  then show "bs = encode_record sha r \<and> wf_anchor r \<and> canonical_anchor r"
    by (rule decode_and_verify_Inr)
next
  assume "bs = encode_record sha r \<and> wf_anchor r \<and> canonical_anchor r"
  then show "decode_and_verify sha bs = Inr r" using decode_encode_record [OF sha] by blast
qed

text \<open>A 32-byte digest function for the witnesses; any function with that length would do.\<close>

definition sum_digest :: "bytes \<Rightarrow> bytes" where
  "sum_digest bs = replicate 31 0 @ [sum_list bs]"

lemma digest32_sum_digest: "digest32 sum_digest"
  by (simp add: digest32_def sum_digest_def)

theorem anchor_accepts_exactly_witness:
  "decode_and_verify sum_digest (encode_record sum_digest (anchor_init (replicate 16 7)))
    = Inr (anchor_init (replicate 16 7))"
  unfolding anchor_accepts_exactly [OF digest32_sum_digest]
  by (simp add: wf_anchor_def canonical_anchor_def anchor_init_def)

section \<open>The decision table\<close>

text \<open>The record a decision lets the caller continue with, and the copy it repairs.\<close>

definition adopted_of :: "recovery_decision \<Rightarrow> anchor_record option" where
  "adopted_of d = (case d of Consistent r \<Rightarrow> Some r | AdoptHigher r _ \<Rightarrow> Some r | _ \<Rightarrow> None)"

definition stale_of :: "recovery_decision \<Rightarrow> anchor_copy option" where
  "stale_of d = (case d of AdoptHigher _ c \<Rightarrow> Some c | _ \<Rightarrow> None)"

fun other_copy :: "anchor_copy \<Rightarrow> anchor_copy" where
  "other_copy CopyA = CopyB"
| "other_copy CopyB = CopyA"

fun pick :: "anchor_copy \<Rightarrow> 'a \<Rightarrow> 'a \<Rightarrow> 'a" where
  "pick CopyA a b = a"
| "pick CopyB a b = b"

lemma cmp_lin_simps [simp]:
  "cmp_lin x y = Less \<longleftrightarrow> x < y"
  "cmp_lin x y = Equal \<longleftrightarrow> x = y"
  "cmp_lin x y = Greater \<longleftrightarrow> y < x"
  by (auto simp: cmp_lin_def)

lemma decide_book:
  "ar_book_id ra \<noteq> ar_book_id rb \<Longrightarrow>
    decide (Inr ra) (Inr rb) = CannotProveSafe ''book-id-mismatch''"
  by (simp add: decide_def)

lemma decide_equal:
  "ar_book_id ra = ar_book_id rb \<Longrightarrow> state_key ra = state_key rb \<Longrightarrow> decide (Inr ra) (Inr rb) =
    (if ra = rb then Consistent ra else CannotProveSafe ''same-order-different-bytes'')"
  by (simp add: decide_def state_cmp_def cmp_lin_def)

lemma decide_greater:
  "ar_book_id ra = ar_book_id rb \<Longrightarrow> state_key rb < state_key ra \<Longrightarrow> decide (Inr ra) (Inr rb) =
    (if ar_next rb \<le> ar_next ra then AdoptHigher ra CopyB
     else CannotProveSafe ''order-contradiction'')"
proof -
  assume "ar_book_id ra = ar_book_id rb" and g: "state_key rb < state_key ra"
  moreover from g have "state_key ra \<noteq> state_key rb" "\<not> state_key ra < state_key rb" by order+
  ultimately show ?thesis by (simp add: decide_def state_cmp_def cmp_lin_def)
qed

lemma decide_less:
  "ar_book_id ra = ar_book_id rb \<Longrightarrow> state_key ra < state_key rb \<Longrightarrow> decide (Inr ra) (Inr rb) =
    (if ar_next ra \<le> ar_next rb then AdoptHigher rb CopyA
     else CannotProveSafe ''order-contradiction'')"
  by (simp add: decide_def state_cmp_def cmp_lin_def)

lemma decide_same [simp]: "decide (Inr r) (Inr r) = Consistent r"
  by (simp add: decide_equal)

text \<open>The four ways two verified copies relate.\<close>

lemma anchor_relation:
  obtains (book) "ar_book_id ra \<noteq> ar_book_id rb"
  | (equal) "ar_book_id ra = ar_book_id rb" "state_key ra = state_key rb"
  | (greater) "ar_book_id ra = ar_book_id rb" "state_key rb < state_key ra"
      "state_key ra \<noteq> state_key rb" "\<not> state_key ra < state_key rb" "ra \<noteq> rb"
  | (less) "ar_book_id ra = ar_book_id rb" "state_key ra < state_key rb"
      "state_key ra \<noteq> state_key rb" "\<not> state_key rb < state_key ra" "ra \<noteq> rb"
  by (metis less_irrefl not_less_iff_gr_or_eq)

lemma decide_invalid:
  "decide (Inl x) (Inr rb) = QuarantineCorrupt CopyA ''anchor-a-invalid''"
  "decide (Inr ra) (Inl y) = QuarantineCorrupt CopyB ''anchor-b-invalid''"
  "decide (Inl x) (Inl y) =
    (if x = Unreadable \<and> y = Unreadable then BothUnreadable
     else CannotProveSafe ''both-anchors-invalid'')"
  by (cases x; simp add: decide_def; cases y; simp add: decide_def)+

lemma decide_adopts_valid:
  assumes "decide a b = Consistent r \<or> decide a b = AdoptHigher r c"
  obtains ra rb where "a = Inr ra" "b = Inr rb"
  using assms that by (cases a; cases b) (auto simp: decide_invalid split: if_splits)

lemma decide_Consistent_iff:
  "decide a b = Consistent r \<longleftrightarrow> a = Inr r \<and> b = Inr r"
proof
  assume d: "decide a b = Consistent r"
  then obtain ra rb where ab: "a = Inr ra" "b = Inr rb" using decide_adopts_valid by blast
  show "a = Inr r \<and> b = Inr r"
    by (rule anchor_relation [of ra rb])
       (use d in \<open>simp_all add: ab decide_book decide_equal decide_greater decide_less
          split: if_splits\<close>)
qed (simp add: decide_equal)

lemma decide_AdoptHigher:
  assumes "decide a b = AdoptHigher r c"
  shows "\<exists>s. pick (other_copy c) a b = Inr r \<and> pick c a b = Inr s \<and> ar_book_id s = ar_book_id r \<and>
         state_key s < state_key r \<and> ar_next s \<le> ar_next r"
proof -
  from assms obtain ra rb where ab: "a = Inr ra" "b = Inr rb" using decide_adopts_valid by blast
  show ?thesis
  proof (rule anchor_relation [of ra rb])
    assume "ar_book_id ra = ar_book_id rb" "state_key rb < state_key ra"
    with assms show ?thesis by (auto simp: ab decide_greater split: if_splits)
  next
    assume "ar_book_id ra = ar_book_id rb" "state_key ra < state_key rb"
    with assms show ?thesis by (auto simp: ab decide_less split: if_splits)
  qed (use assms in \<open>simp_all add: ab decide_book decide_equal split: if_splits\<close>)
qed

lemma adopted_valid:
  "adopted_of (decide a b) = Some r \<Longrightarrow> \<exists>ra rb. a = Inr ra \<and> b = Inr rb"
  by (cases a; cases b) (auto simp: decide_invalid adopted_of_def split: if_splits)

lemma adopted_of_Some:
  "adopted_of d = Some r \<longleftrightarrow> d = Consistent r \<or> (\<exists>c. d = AdoptHigher r c)"
  by (auto simp: adopted_of_def split: recovery_decision.splits)

lemma adopted_source:
  assumes "adopted_of (decide (Inr ra) (Inr rb)) = Some r" and "stale_of (decide (Inr ra) (Inr rb)) = st"
  shows "(st = None \<and> ra = r \<and> rb = r) \<or> (st = Some CopyA \<and> rb = r) \<or> (st = Some CopyB \<and> ra = r)"
proof -
  from assms(1) consider "decide (Inr ra) (Inr rb) = Consistent r"
    | c where "decide (Inr ra) (Inr rb) = AdoptHigher r c"
    by (auto simp: adopted_of_Some)
  then show ?thesis
  proof cases
    case 1
    then show ?thesis using assms(2) decide_Consistent_iff [of "Inr ra" "Inr rb" r]
      by (simp add: stale_of_def)
  next
    case 2
    then show ?thesis using assms(2) decide_AdoptHigher [OF 2]
      by (cases c) (auto simp: stale_of_def)
  qed
qed

lemma decide_adopts_max:
  assumes "adopted_of (decide (Inr ra) (Inr rb)) = Some r"
  shows "ar_book_id ra = ar_book_id rb \<and> r \<in> {ra, rb} \<and>
    state_key r = max (state_key ra) (state_key rb) \<and> ar_next r = max (ar_next ra) (ar_next rb)"
proof -
  from assms consider "decide (Inr ra) (Inr rb) = Consistent r"
    | c where "decide (Inr ra) (Inr rb) = AdoptHigher r c"
    by (auto simp: adopted_of_Some)
  then show ?thesis
  proof cases
    case 1
    then show ?thesis using decide_Consistent_iff [of "Inr ra" "Inr rb" r] by simp
  next
    case 2
    then show ?thesis using decide_AdoptHigher [OF 2] by (cases c) (auto simp: max_def)
  qed
qed

text \<open>
  C15. The decision never lowers the state and never guesses: whatever it adopts is one of two
  verified copies of the same book, at least as high as both in the order (generation, type)
  and in \<open>next\<close>; the copy it calls stale is strictly lower in the order and the adopted record
  comes from the other one.
\<close>

theorem decide_never_lowers:
  assumes "adopted_of (decide a b) = Some r"
  shows "\<exists>ra rb. a = Inr ra \<and> b = Inr rb \<and> ar_book_id ra = ar_book_id rb \<and> r \<in> {ra, rb} \<and>
    state_key r = max (state_key ra) (state_key rb) \<and> ar_next r = max (ar_next ra) (ar_next rb) \<and>
    (\<forall>c. stale_of (decide a b) = Some c \<longrightarrow>
      r = pick (other_copy c) ra rb \<and> state_key (pick c ra rb) < state_key r)"
proof -
  from adopted_valid [OF assms] obtain ra rb where ab: "a = Inr ra" "b = Inr rb" by blast
  have "\<forall>c. stale_of (decide a b) = Some c \<longrightarrow>
      r = pick (other_copy c) ra rb \<and> state_key (pick c ra rb) < state_key r"
  proof (intro allI impI)
    fix c assume "stale_of (decide a b) = Some c"
    then have d: "decide (Inr ra) (Inr rb) = AdoptHigher r c"
      using assms by (auto simp: ab stale_of_def adopted_of_Some)
    show "r = pick (other_copy c) ra rb \<and> state_key (pick c ra rb) < state_key r"
      using decide_AdoptHigher [OF d] by (cases c) auto
  qed
  then show ?thesis using decide_adopts_max assms unfolding ab by blast
qed

theorem decide_never_lowers_witness:
  "let ra = anchor_commit (replicate 16 7) (Generation 2) 3 (replicate 32 1);
       rb = anchor_commit (replicate 16 7) (Generation 1) 2 (replicate 32 2)
   in decide (Inr ra) (Inr rb) = AdoptHigher ra CopyB \<and> ar_next ra = max (ar_next ra) (ar_next rb)"
proof -
  define ra rb where "ra = anchor_commit (replicate 16 7) (Generation 2) 3 (replicate 32 1)"
    and "rb = anchor_commit (replicate 16 7) (Generation 1) 2 (replicate 32 2)"
  have d: "decide (Inr ra) (Inr rb) = AdoptHigher ra CopyB"
    by (simp add: decide_greater ra_def rb_def anchor_commit_def state_key_def less_prod_def
        less_generation_def less_eq_generation_def)
  then have "adopted_of (decide (Inr ra) (Inr rb)) = Some ra" by (simp add: adopted_of_def)
  from decide_never_lowers [OF this] have "ar_next ra = max (ar_next ra) (ar_next rb)" by auto
  with d show ?thesis by (simp add: Let_def ra_def rb_def)
qed

definition swap_decision :: "recovery_decision \<Rightarrow> recovery_decision" where
  "swap_decision d = (case d of
     AdoptHigher r c \<Rightarrow> AdoptHigher r (other_copy c)
   | QuarantineCorrupt c _ \<Rightarrow> QuarantineCorrupt (other_copy c)
       (if c = CopyA then ''anchor-b-invalid'' else ''anchor-a-invalid'')
   | _ \<Rightarrow> d)"

text \<open>
  The decision is total and symmetric: it adopts something exactly when both copies verify
  for the same book and are equal, or strictly ordered with \<open>next\<close> ordered the same way; and
  exchanging the copies exchanges only their names in the answer.
\<close>

theorem decide_complete_symmetric:
  "decide b a = swap_decision (decide a b) \<and>
   ((\<exists>r. adopted_of (decide a b) = Some r) \<longleftrightarrow>
    (\<exists>ra rb. a = Inr ra \<and> b = Inr rb \<and> ar_book_id ra = ar_book_id rb \<and>
      (ra = rb \<or> state_key ra < state_key rb \<and> ar_next ra \<le> ar_next rb \<or>
       state_key rb < state_key ra \<and> ar_next rb \<le> ar_next ra)))"
proof (cases "\<exists>ra rb. a = Inr ra \<and> b = Inr rb")
  case False
  then show ?thesis
    by (cases a; cases b) (auto simp: decide_invalid swap_decision_def adopted_of_def)
next
  case True
  then obtain ra rb where valid: "a = Inr ra" "b = Inr rb" by blast
  note [simp] = valid swap_decision_def adopted_of_def
  show ?thesis
  proof (rule anchor_relation [of ra rb])
    assume "ar_book_id ra \<noteq> ar_book_id rb"
    then show ?thesis using decide_book [of ra rb] decide_book [of rb ra] by simp
  next
    assume eq: "ar_book_id ra = ar_book_id rb" "state_key ra = state_key rb"
    note d = decide_equal [OF eq] decide_equal [OF eq(1,2) [symmetric]]
    show ?thesis by (cases "ra = rb") (simp_all add: d eq)
  next
    assume "ar_book_id ra = ar_book_id rb" "state_key rb < state_key ra"
      "\<not> state_key ra < state_key rb" "ra \<noteq> rb"
    then show ?thesis using decide_greater [of ra rb] decide_less [of rb ra] by simp
  next
    assume "ar_book_id ra = ar_book_id rb" "state_key ra < state_key rb"
      "\<not> state_key rb < state_key ra" "ra \<noteq> rb"
    then show ?thesis using decide_less [of ra rb] decide_greater [of rb ra] by simp
  qed
qed

end
