(* ===== verification/OsFile.thy ===== *)
theory OsFile
  imports OtpTypes
begin

text \<open>
  The file operations of the standard library that the anchors use (\<open>seek\<close>, \<open>read_to_end\<close>,
  \<open>write\<close>, \<open>set_len\<close>, \<open>sync_all\<close>), over a file with a page cache and a durable image, and the
  platform layer on top of them (\<open>crates/otp-platform/src/lib.rs\<close>: \<open>write_full\<close>,
  \<open>fsync_file\<close>, \<open>FileAnchorBackend\<close>). What the operating system answers is a script of
  outcomes, consumed one per call; an exhausted script means that every further call succeeds
  in full. A script is the whole of the environment's freedom: short writes, interrupts, a
  full disk, a failed fsync.

  \<open>f_since\<close> is a history variable: the images written in whole by the program since the
  durable image was last known. Nothing reads it; it says which images the disk can hold
  after a crash.
\<close>

section \<open>Outcomes\<close>

datatype os_outcome = OsOk nat | OsInterrupted | OsNoSpace | OsOther

type_synonym script = "os_outcome list"

text \<open>One call that either succeeds or fails with the raw error.\<close>

definition os_call :: "script \<Rightarrow> os_outcome option \<times> script" where
  "os_call sc = (case sc of
     [] \<Rightarrow> (None, [])
   | OsOk _ # sc' \<Rightarrow> (None, sc')
   | e # sc' \<Rightarrow> (Some e, sc'))"

section \<open>Files\<close>

record os_file =
  f_cache :: bytes
  f_durable :: bytes
  f_since :: "bytes list"
  f_pos :: nat

definition file_of :: "bytes \<Rightarrow> os_file" where
  "file_of x = \<lparr>f_cache = x, f_durable = x, f_since = [], f_pos = 0\<rparr>"

text \<open>\<open>write\<close> puts \<open>d\<close> at the file position, over what is there.\<close>

definition file_put :: "bytes \<Rightarrow> os_file \<Rightarrow> os_file" where
  "file_put d f = f\<lparr>f_cache := take (f_pos f) (f_cache f)
      @ replicate (f_pos f - length (f_cache f)) 0 @ d @ drop (f_pos f + length d) (f_cache f),
    f_pos := f_pos f + length d\<rparr>"

definition file_seek0 :: "script \<Rightarrow> os_file \<Rightarrow> (os_outcome + unit) \<times> script \<times> os_file" where
  "file_seek0 sc f = (case os_call sc of
     (None, sc') \<Rightarrow> (Inr (), sc', f\<lparr>f_pos := 0\<rparr>)
   | (Some e, sc') \<Rightarrow> (Inl e, sc', f))"

definition file_read_to_end :: "script \<Rightarrow> os_file \<Rightarrow> (os_outcome + bytes) \<times> script \<times> os_file" where
  "file_read_to_end sc f = (case os_call sc of
     (None, sc') \<Rightarrow> (Inr (drop (f_pos f) (f_cache f)), sc', f\<lparr>f_pos := max (f_pos f) (length (f_cache f))\<rparr>)
   | (Some e, sc') \<Rightarrow> (Inl e, sc', f))"

definition file_set_len :: "nat \<Rightarrow> script \<Rightarrow> os_file \<Rightarrow> (os_outcome + unit) \<times> script \<times> os_file" where
  "file_set_len n sc f = (case os_call sc of
     (None, sc') \<Rightarrow>
       (Inr (), sc', f\<lparr>f_cache := take n (f_cache f) @ replicate (n - length (f_cache f)) 0\<rparr>)
   | (Some e, sc') \<Rightarrow> (Inl e, sc', f))"

text \<open>A successful \<open>sync_all\<close> makes the cached image the durable one.\<close>

definition file_sync :: "script \<Rightarrow> os_file \<Rightarrow> (os_outcome + unit) \<times> script \<times> os_file" where
  "file_sync sc f = (case os_call sc of
     (None, sc') \<Rightarrow> (Inr (), sc', f\<lparr>f_durable := f_cache f, f_since := []\<rparr>)
   | (Some e, sc') \<Rightarrow> (Inl e, sc', f))"

text \<open>
  One \<open>write\<close> call: \<open>Ok(n)\<close> with at most the length offered, or the error. The kernel never
  accepts more than it was given.
\<close>

definition file_write :: "bytes \<Rightarrow> script \<Rightarrow> os_file \<Rightarrow> (os_outcome + nat) \<times> script \<times> os_file" where
  "file_write d sc f = (case sc of
     [] \<Rightarrow> (Inr (length d), [], file_put d f)
   | OsOk n # sc' \<Rightarrow> (Inr (min n (length d)), sc', file_put (take n d) f)
   | e # sc' \<Rightarrow> (Inl e, sc', f))"

section \<open>The platform layer\<close>

datatype platform_error =
    LockUnsupported | LockHeld | FsyncUncertain | UnsupportedFilesystem string
  | PlIo | PlNoSpace | WriteZero | InvalidData | InjectedIo | CrashInjected | MlockFailed

definition from_io :: "os_outcome \<Rightarrow> platform_error" where
  "from_io e = (if e = OsNoSpace then PlNoSpace else PlIo)"

text \<open>
  \<open>write_full\<close>: loop over short writes, retry interrupts, refuse a zero write. Every
  iteration consumes the script or, with the script empty, finishes.
\<close>

function write_full :: "bytes \<Rightarrow> script \<Rightarrow> os_file \<Rightarrow> (platform_error + unit) \<times> script \<times> os_file" where
  "write_full d sc f =
    (if d = [] then (Inr (), sc, f)
     else case file_write d sc f of
       (Inr n, sc', f') \<Rightarrow>
         if n = 0 then (Inl WriteZero, sc', f')
         else if n \<le> length d then write_full (drop n d) sc' f'
         else (Inl PlIo, sc', f')
     | (Inl e, sc', f') \<Rightarrow>
         if e = OsInterrupted then write_full d sc' f' else (Inl (from_io e), sc', f'))"
  by pat_completeness auto
termination
  by (relation "measure (\<lambda>(d, sc, f). length d + length sc)")
     (auto simp: file_write_def split: list.splits os_outcome.splits)

declare write_full.simps [simp del]

definition fsync_file :: "script \<Rightarrow> os_file \<Rightarrow> (platform_error + unit) \<times> script \<times> os_file" where
  "fsync_file sc f = (case file_sync sc f of (r, sc', f') \<Rightarrow> (map_err (\<lambda>_. FsyncUncertain) r, sc', f'))"

text \<open>
  \<open>FileAnchorBackend\<close>: the file, whether this backend created it, and the script of what the
  system will answer. The history variable records the image once it is on its way.
\<close>

record anchor_backend =
  ab_file :: os_file
  ab_created :: bool
  ab_script :: script

definition ab_put :: "script \<times> os_file \<Rightarrow> anchor_backend \<Rightarrow> anchor_backend" where
  "ab_put x b = b\<lparr>ab_script := fst x, ab_file := snd x\<rparr>"

definition backend_read_verified ::
  "(bytes \<Rightarrow> platform_error + 'a) \<Rightarrow> anchor_backend \<Rightarrow> (platform_error + 'a) \<times> anchor_backend" where
  "backend_read_verified verify b =
    (case file_seek0 (ab_script b) (ab_file b) of
       (Inl e, x) \<Rightarrow> (Inl (from_io e), ab_put x b)
     | (Inr _, sc, f) \<Rightarrow> (case file_read_to_end sc f of
         (Inl e, x) \<Rightarrow> (Inl (from_io e), ab_put x b)
       | (Inr bs, x) \<Rightarrow> (verify bs, ab_put x b)))"

definition note_image :: "bytes \<Rightarrow> os_file \<Rightarrow> os_file" where
  "note_image d f = f\<lparr>f_since := d # f_since f\<rparr>"

definition backend_write_full_and_sync ::
  "bytes \<Rightarrow> anchor_backend \<Rightarrow> (platform_error + unit) \<times> anchor_backend" where
  "backend_write_full_and_sync d b =
    (case file_seek0 (ab_script b) (note_image d (ab_file b)) of
       (Inl e, x) \<Rightarrow> (Inl (from_io e), ab_put x b)
     | (Inr _, sc, f) \<Rightarrow> (case file_set_len 0 sc f of
         (Inl e, x) \<Rightarrow> (Inl (from_io e), ab_put x b)
       | (Inr _, sc, f) \<Rightarrow> (case write_full d sc f of
           (Inl e, x) \<Rightarrow> (Inl e, ab_put x b)
         | (Inr _, sc, f) \<Rightarrow> (case fsync_file sc f of (r, x) \<Rightarrow> (r, ab_put x b)))))"

text \<open>
  \<open>sync_parent_if_created\<close>: opening the parent directory is one call of the script, its fsync the
  next; the flag is cleared only when both succeeded.
\<close>

definition backend_sync_parent :: "anchor_backend \<Rightarrow> (platform_error + unit) \<times> anchor_backend" where
  "backend_sync_parent b =
    (if ab_created b then
       (case os_call (ab_script b) of
          (Some e, sc) \<Rightarrow> (Inl (from_io e), b\<lparr>ab_script := sc\<rparr>)
        | (None, sc) \<Rightarrow> (case os_call sc of
            (Some _, sc) \<Rightarrow> (Inl FsyncUncertain, b\<lparr>ab_script := sc\<rparr>)
          | (None, sc) \<Rightarrow> (Inr (), b\<lparr>ab_script := sc, ab_created := False\<rparr>)))
     else (Inr (), b\<lparr>ab_created := False\<rparr>))"

section \<open>Facts\<close>

lemma file_put_at_end:
  "f_pos f = length (f_cache f) \<Longrightarrow>
    file_put d f = f\<lparr>f_cache := f_cache f @ d, f_pos := length (f_cache f) + length d\<rparr>"
  by (simp add: file_put_def)

text \<open>
  A write loop that reports success has put all of \<open>d\<close> at the position it started from, in
  one piece, whatever short writes and interrupts happened on the way.
\<close>

lemma file_put_append: "file_put b (file_put a f) = file_put (a @ b) f"
proof -
  have "take (f_pos f + length a) (take (f_pos f) (f_cache f)
      @ replicate (f_pos f - length (f_cache f)) 0 @ a @ drop (f_pos f + length a) (f_cache f))
    = take (f_pos f) (f_cache f) @ replicate (f_pos f - length (f_cache f)) 0 @ a"
    by (cases "f_pos f \<le> length (f_cache f)") simp_all
  moreover have "length (take (f_pos f) (f_cache f)
      @ replicate (f_pos f - length (f_cache f)) 0 @ a @ drop (f_pos f + length a) (f_cache f))
    \<ge> f_pos f + length a"
    by simp
  moreover have "drop (f_pos f + length a + length b) (take (f_pos f) (f_cache f)
      @ replicate (f_pos f - length (f_cache f)) 0 @ a @ drop (f_pos f + length a) (f_cache f))
    = drop (f_pos f + length a + length b) (f_cache f)"
    by (cases "f_pos f \<le> length (f_cache f)") (simp_all add: add.assoc add.commute)
  ultimately show ?thesis by (simp add: file_put_def add.assoc)
qed

lemma file_write_Inr:
  "file_write d sc f = (Inr n, sc', f') \<Longrightarrow> n \<le> length d \<and> f' = file_put (take n d) f"
  by (auto simp: file_write_def min_def split: list.splits os_outcome.splits)

lemma file_write_Inl: "file_write d sc f = (Inl e, sc', f') \<Longrightarrow> f' = f"
  by (auto simp: file_write_def split: list.splits os_outcome.splits)

lemma write_full_Inr:
  "write_full d sc f = (Inr (), sc', f') \<Longrightarrow> d \<noteq> [] \<Longrightarrow> f' = file_put d f"
proof (induction d sc f arbitrary: sc' f' rule: write_full.induct)
  case (1 d sc f)
  from "1.prems" have w: "write_full d sc f = (Inr (), sc', f')" and d: "d \<noteq> []" by simp_all
  obtain r sc1 f1 where c: "file_write d sc f = (r, sc1, f1)" by (cases "file_write d sc f") auto
  show ?case
  proof (cases r)
    case (Inl e)
    have "write_full d sc1 f1 = (Inr (), sc', f')" and "e = OsInterrupted"
      using w d c Inl by (auto simp: write_full.simps [of d sc f] split: if_splits)
    then have "f' = file_put d f1" using "1.IH"(1) [OF d c [symmetric] Inl refl] d by simp
    then show ?thesis using file_write_Inl c Inl by blast
  next
    case (Inr n)
    from file_write_Inr c Inr have n: "n \<le> length d" "f1 = file_put (take n d) f" by blast+
    have w1: "write_full (drop n d) sc1 f1 = (Inr (), sc', f')" and n0: "n \<noteq> 0"
      using w d c Inr n(1) by (auto simp: write_full.simps [of d sc f] split: if_splits)
    show ?thesis
    proof (cases "drop n d = []")
      case True
      then have "f' = f1" using w1 by (simp add: write_full.simps)
      then show ?thesis using True n by simp
    next
      case False
      have "f' = file_put (drop n d) f1"
        using "1.IH"(2) [OF d c [symmetric] Inr refl n0 n(1) w1] False by simp
      then show ?thesis using n(2) by (simp add: file_put_append)
    qed
  qed
qed

lemma write_full_fresh:
  "write_full d sc f = (Inr (), sc', f') \<Longrightarrow> f_pos f = 0 \<Longrightarrow> f_cache f = [] \<Longrightarrow> f_cache f' = d"
  by (cases "d = []") (auto simp: file_put_def write_full.simps [of "[]"] dest: write_full_Inr)

lemma backend_read_cache:
  "backend_read_verified v b = (x, b') \<Longrightarrow>
    f_cache (ab_file b') = f_cache (ab_file b) \<and>
    (\<forall>r. x = Inr r \<longrightarrow> v (f_cache (ab_file b)) = Inr r)"
  by (auto simp: backend_read_verified_def file_seek0_def file_read_to_end_def ab_put_def
      split: prod.splits option.splits sum.splits)

lemma backend_write_cache:
  assumes "backend_write_full_and_sync d b = (Inr u, b')"
  shows "f_cache (ab_file b') = d \<and> f_durable (ab_file b') = d \<and> f_since (ab_file b') = []"
proof -
  obtain sc f where s: "file_seek0 (ab_script b) (note_image d (ab_file b)) = (Inr (), sc, f)"
    and "f_pos f = 0"
    using assms(1) by (auto simp: backend_write_full_and_sync_def file_seek0_def
        split: prod.splits option.splits sum.splits)
  moreover obtain sc1 f1 where l: "file_set_len 0 sc f = (Inr (), sc1, f1)"
    using assms(1) s by (auto simp: backend_write_full_and_sync_def split: prod.splits sum.splits)
  ultimately have f1: "f_pos f1 = 0" "f_cache f1 = []"
    by (auto simp: file_set_len_def split: prod.splits option.splits)
  obtain sc2 f2 where w: "write_full d sc1 f1 = (Inr (), sc2, f2)"
    using assms(1) s l by (auto simp: backend_write_full_and_sync_def split: prod.splits sum.splits)
  then have "f_cache f2 = d"
    using write_full_fresh [OF w] f1 by simp
  then show ?thesis
    using assms(1) s l w
    by (auto simp: backend_write_full_and_sync_def fsync_file_def file_sync_def ab_put_def
        split: prod.splits option.splits)
qed

text \<open>Whatever stops a write loop, what it has put so far is a prefix of the data.\<close>

lemma file_put_Nil: "f_pos f \<le> length (f_cache f) \<Longrightarrow> file_put [] f = f"
  by (simp add: file_put_def)

lemma write_full_prefix:
  "write_full d sc f = (r, sc', f') \<Longrightarrow> f_pos f \<le> length (f_cache f) \<Longrightarrow>
    \<exists>k. f' = file_put (take k d) f"
proof (induction d sc f arbitrary: r sc' f' rule: write_full.induct)
  case (1 d sc f r sc' f')
  obtain x sc1 f1 where c: "file_write d sc f = (x, sc1, f1)" by (cases "file_write d sc f") auto
  consider "d = []" | e where "d \<noteq> []" "x = Inl e" | n where "d \<noteq> []" "x = Inr n" by (cases x) auto
  then show ?case
  proof cases
    case 1
    then have "f' = f" using "1.prems"(1) by (simp add: write_full.simps)
      then show ?thesis using "1.prems"(2) by (metis file_put_Nil take0)
  next
    case (2 e)
    have f1: "f1 = f" using file_write_Inl c 2(2) by blast
    show ?thesis
    proof (cases "e = OsInterrupted")
      case True
      then have "write_full d sc1 f1 = (r, sc', f')"
        using "1.prems"(1) c 2 by (simp add: write_full.simps [of d sc f])
      then show ?thesis using "1.IH"(1) [OF 2(1) c [symmetric] 2(2) refl True] f1 "1.prems"(2) by simp
    next
      case False
      then have "f' = f"
        using "1.prems"(1) c 2 f1 by (simp add: write_full.simps [of d sc f])
      then show ?thesis using "1.prems"(2) by (metis file_put_Nil take0)
    qed
  next
    case (3 n)
    have n: "n \<le> length d" "f1 = file_put (take n d) f" using file_write_Inr c 3(2) by blast+
    show ?thesis
    proof (cases "n = 0")
      case True
      then have "f' = f"
        using "1.prems" c 3 n by (simp add: write_full.simps [of d sc f] file_put_Nil)
      then show ?thesis using "1.prems"(2) by (metis file_put_Nil take0)
    next
      case False
      then have "write_full (drop n d) sc1 f1 = (r, sc', f')"
        using "1.prems"(1) c 3 n(1) by (simp add: write_full.simps [of d sc f])
      moreover have "f_pos f1 \<le> length (f_cache f1)" using n "1.prems"(2) by (simp add: file_put_def)
      ultimately obtain k where "f' = file_put (take k (drop n d)) f1"
        using "1.IH"(2) [OF 3(1) c [symmetric] 3(2) refl False n(1)] by blast
      then have "f' = file_put (take (n + k) d) f" using n by (simp add: file_put_append take_add)
      then show ?thesis by blast
    qed
  qed
qed

end
