(* ===== verification/Allocator.thy ===== *)
theory Allocator
  imports AnchorSpec OsFile
begin

text \<open>
  The fail-to-waste segment allocator (\<open>crates/otp-book/src/allocator.rs\<close>):
  \<open>TransactionCore\<close> with \<open>open\<close>, \<open>issue\<close>, \<open>reserve_range\<close> and \<open>persist_pair\<close>, over the
  traits \<open>AnchorMedia\<close> and \<open>SegmentReader\<close>, and the production medium \<open>FileMedia\<close> over two
  files. The traits are the records \<open>media_ops\<close> and \<open>reader_ops\<close> of their operations with
  explicit state. A result \<open>None\<close> of an operation is a panic.
\<close>

section \<open>Errors, boundaries, traits\<close>

datatype issue_error =
    IssExhausted segment_index
  | LockUnavailable
  | PersistenceUncertain
  | AnchorCorrupt
  | IssBookMismatch
  | IssIo
  | InvalidRange

datatype media_error = MedIo | MedPersistence | MedNoSpace | MedShortWrite

datatype boundary =
    IntentAWriteStart | IntentAWriteComplete | IntentAFsyncStart | IntentAFsyncReturn
  | IntentBWriteStart | IntentBWriteComplete | IntentBFsyncStart | IntentBFsyncReturn
  | SegmentPread
  | FinalAWriteStart | FinalAWriteComplete | FinalAFsyncStart | FinalAFsyncReturn
  | FinalBWriteStart | FinalBWriteComplete | FinalBFsyncStart | FinalBFsyncReturn

record 'm media_ops =
  md_read :: "anchor_copy \<Rightarrow> 'm \<Rightarrow> (media_error + bytes) \<times> 'm"
  md_write :: "anchor_copy \<Rightarrow> bytes \<Rightarrow> 'm \<Rightarrow> (media_error + unit) \<times> 'm"
  md_sync :: "anchor_copy \<Rightarrow> 'm \<Rightarrow> (media_error + unit) \<times> 'm"
  md_boundary :: "boundary \<Rightarrow> 'm \<Rightarrow> (media_error + unit) \<times> 'm"

record 'r reader_ops =
  rd_count :: "'r \<Rightarrow> u64"
  rd_read :: "segment_index \<Rightarrow> 'r \<Rightarrow> (media_error + bytes) \<times> 'r"

record ('m, 'r) core =
  co_media :: 'm
  co_reader :: 'r
  co_book_id :: book_id
  co_current :: anchor_record
  co_halted :: bool

section \<open>Persisting a record\<close>

definition persist_points :: "bool \<Rightarrow> (anchor_copy \<times> boundary \<times> boundary \<times> boundary \<times> boundary) list" where
  "persist_points intent =
    (if intent then
       [(CopyA, IntentAWriteStart, IntentAWriteComplete, IntentAFsyncStart, IntentAFsyncReturn),
        (CopyB, IntentBWriteStart, IntentBWriteComplete, IntentBFsyncStart, IntentBFsyncReturn)]
     else
       [(CopyA, FinalAWriteStart, FinalAWriteComplete, FinalAFsyncStart, FinalAFsyncReturn),
        (CopyB, FinalBWriteStart, FinalBWriteComplete, FinalBFsyncStart, FinalBFsyncReturn)])"

text \<open>Sequencing of the media calls: the first error ends the sequence.\<close>

definition mseq :: "('m \<Rightarrow> (media_error + unit) \<times> 'm) \<Rightarrow> ('m \<Rightarrow> (media_error + unit) \<times> 'm)
    \<Rightarrow> 'm \<Rightarrow> (media_error + unit) \<times> 'm" where
  "mseq f g m = (case f m of (Inl e, m') \<Rightarrow> (Inl e, m') | (Inr _, m') \<Rightarrow> g m')"

definition persist_copy ::
  "(bytes \<Rightarrow> bytes) \<Rightarrow> 'm media_ops \<Rightarrow> anchor_record \<Rightarrow>
    anchor_copy \<times> boundary \<times> boundary \<times> boundary \<times> boundary \<Rightarrow> 'm \<Rightarrow> (media_error + unit) \<times> 'm" where
  "persist_copy sha ops r p = (case p of (c, ws, wc, ss, sr) \<Rightarrow>
    mseq (md_boundary ops ws)
    (mseq (md_write ops c (encode_record sha r))
    (mseq (md_boundary ops wc)
    (mseq (md_boundary ops ss)
    (mseq (md_sync ops c)
          (md_boundary ops sr))))))"

fun persist_loop ::
  "(bytes \<Rightarrow> bytes) \<Rightarrow> 'm media_ops \<Rightarrow> anchor_record \<Rightarrow>
    (anchor_copy \<times> boundary \<times> boundary \<times> boundary \<times> boundary) list \<Rightarrow> 'm \<Rightarrow>
    (media_error + unit) \<times> 'm" where
  "persist_loop sha ops r [] m = (Inr (), m)"
| "persist_loop sha ops r (p # ps) m = mseq (persist_copy sha ops r p) (persist_loop sha ops r ps) m"

definition persist_pair ::
  "(bytes \<Rightarrow> bytes) \<Rightarrow> 'm media_ops \<Rightarrow> anchor_record \<Rightarrow> bool \<Rightarrow> 'm \<Rightarrow> (media_error + unit) \<times> 'm" where
  "persist_pair sha ops r intent m = persist_loop sha ops r (persist_points intent) m"

definition persist_one ::
  "(bytes \<Rightarrow> bytes) \<Rightarrow> 'm media_ops \<Rightarrow> anchor_copy \<Rightarrow> anchor_record \<Rightarrow> 'm \<Rightarrow> (media_error + unit) \<times> 'm" where
  "persist_one sha ops c r = mseq (md_write ops c (encode_record sha r)) (md_sync ops c)"

definition read_record ::
  "(bytes \<Rightarrow> bytes) \<Rightarrow> 'm media_ops \<Rightarrow> anchor_copy \<Rightarrow> 'm \<Rightarrow> (issue_error + anchor_record) \<times> 'm" where
  "read_record sha ops c m = (case md_read ops c m of
     (Inl _, m') \<Rightarrow> (Inl AnchorCorrupt, m')
   | (Inr bs, m') \<Rightarrow> (map_err (\<lambda>_. AnchorCorrupt) (decode_and_verify sha bs), m'))"

section \<open>Opening\<close>

text \<open>The check of the last committed segment against the book.\<close>

definition verify_prior ::
  "(bytes \<Rightarrow> bytes) \<Rightarrow> 'r reader_ops \<Rightarrow> anchor_record \<Rightarrow> 'r \<Rightarrow> (issue_error + unit) \<times> 'r" where
  "verify_prior sha rops current r = (case ar_payload current of
     Commit h \<Rightarrow> (case u64_checked_sub (ar_next current) 1 of
         None \<Rightarrow> (Inl AnchorCorrupt, r)
       | Some prior \<Rightarrow> (case rd_read rops prior r of
           (Inl _, r') \<Rightarrow> (Inl AnchorCorrupt, r')
         | (Inr body, r') \<Rightarrow> (if sha body \<noteq> h then Inl AnchorCorrupt else Inr (), r')))
   | _ \<Rightarrow> (Inr (), r))"

definition repair_stale ::
  "(bytes \<Rightarrow> bytes) \<Rightarrow> 'm media_ops \<Rightarrow> anchor_copy option \<Rightarrow> anchor_record \<Rightarrow> 'm \<Rightarrow>
    (issue_error + unit) \<times> 'm" where
  "repair_stale sha ops stale current m = (case stale of
     None \<Rightarrow> (Inr (), m)
   | Some c \<Rightarrow> (case persist_one sha ops c current m of
       (Inl _, m) \<Rightarrow> (Inl PersistenceUncertain, m)
     | (Inr _, m) \<Rightarrow> (case read_record sha ops c m of
         (Inl e, m) \<Rightarrow> (Inl e, m)
       | (Inr r, m) \<Rightarrow> (if r \<noteq> current then Inl PersistenceUncertain else Inr (), m))))"

definition core_open ::
  "(bytes \<Rightarrow> bytes) \<Rightarrow> 'm media_ops \<Rightarrow> 'r reader_ops \<Rightarrow> book_id \<Rightarrow> 'm \<Rightarrow> 'r \<Rightarrow>
    (issue_error + ('m, 'r) core) \<times> 'm" where
  "core_open sha ops rops bid m r =
    (case read_record sha ops CopyA m of
       (Inl e, m) \<Rightarrow> (Inl e, m)
     | (Inr a, m) \<Rightarrow> (case read_record sha ops CopyB m of
         (Inl e, m) \<Rightarrow> (Inl e, m)
       | (Inr b, m) \<Rightarrow>
           if ar_book_id a \<noteq> bid \<or> ar_book_id b \<noteq> bid then (Inl IssBookMismatch, m)
           else (case (case decide (Inr a) (Inr b) of
                         Consistent c \<Rightarrow> Some (c, None)
                       | AdoptHigher c st \<Rightarrow> Some (c, Some st)
                       | _ \<Rightarrow> None) of
             None \<Rightarrow> (Inl AnchorCorrupt, m)
           | Some (current, stale) \<Rightarrow>
               if rd_count rops r < ar_next current then (Inl AnchorCorrupt, m)
               else (case verify_prior sha rops current r of
                 (Inl e, _) \<Rightarrow> (Inl e, m)
               | (Inr _, r) \<Rightarrow> (case repair_stale sha ops stale current m of
                   (Inl e, m) \<Rightarrow> (Inl e, m)
                 | (Inr _, m) \<Rightarrow>
                     (Inr \<lparr>co_media = m, co_reader = r, co_book_id = bid, co_current = current,
                           co_halted = False\<rparr>, m))))))"

section \<open>Issuing\<close>

text \<open>
  The common tail of \<open>issue\<close> and \<open>reserve_range\<close>: the reads of the segment bodies, in order.
  The first failed read ends the loop.
\<close>

fun read_segments ::
  "'r reader_ops \<Rightarrow> segment_index list \<Rightarrow> 'r \<Rightarrow> (media_error + bytes) \<times> 'r" where
  "read_segments rops [] r = (Inr [], r)"
| "read_segments rops (i # is) r = (case rd_read rops i r of
     (Inl e, r) \<Rightarrow> (Inl e, r)
   | (Inr body, r) \<Rightarrow> (case read_segments rops is r of
       (Inl e, r) \<Rightarrow> (Inl e, r)
     | (Inr rest, r) \<Rightarrow> (Inr (body @ rest), r)))"

text \<open>
  \<open>IssueError\<close> results with the core afterwards; the whole is \<open>None\<close> on a panic. \<open>core_txn\<close> is
  the transaction that the bodies of \<open>issue\<close> and \<open>reserve_range\<close> spell out in the same words
  once the INTENT record is built: advance the memory, persist INTENT in both copies, fetch
  the segment bodies and build the COMMIT record (\<open>fetch\<close>), persist COMMIT in both copies.
\<close>

definition core_txn ::
  "(bytes \<Rightarrow> bytes) \<Rightarrow> 'm media_ops \<Rightarrow> anchor_record \<Rightarrow>
    ('r \<Rightarrow> ((media_error + bytes \<times> anchor_record) \<times> 'r) option) \<Rightarrow> ('m, 'r) core \<Rightarrow>
    ((issue_error + bytes) \<times> ('m, 'r) core) option" where
  "core_txn sha ops intent fetch s0 =
    (let s = s0\<lparr>co_current := intent\<rparr> in
     case persist_pair sha ops intent True (co_media s) of
       (Inl _, m) \<Rightarrow> Some (Inl PersistenceUncertain, s\<lparr>co_media := m, co_halted := True\<rparr>)
     | (Inr _, m) \<Rightarrow> (case md_boundary ops SegmentPread m of
         (Inl _, m) \<Rightarrow> Some (Inl IssIo, s\<lparr>co_media := m\<rparr>)
       | (Inr _, m) \<Rightarrow> (case fetch (co_reader s) of
           None \<Rightarrow> None
         | Some (Inl _, r) \<Rightarrow> Some (Inl IssIo, s\<lparr>co_media := m, co_reader := r\<rparr>)
         | Some (Inr (body, commit), r) \<Rightarrow> (case persist_pair sha ops commit False m of
               (Inl _, m) \<Rightarrow> Some (Inl PersistenceUncertain,
                 s\<lparr>co_media := m, co_reader := r, co_halted := True\<rparr>)
             | (Inr _, m) \<Rightarrow> Some (Inr body,
                 s\<lparr>co_media := m, co_reader := r, co_current := commit\<rparr>)))))"

definition issue_fetch ::
  "(bytes \<Rightarrow> bytes) \<Rightarrow> 'r reader_ops \<Rightarrow> book_id \<Rightarrow> generation \<Rightarrow> segment_index \<Rightarrow> 'r \<Rightarrow>
    ((media_error + bytes \<times> anchor_record) \<times> 'r) option" where
  "issue_fetch sha rops bid g index r = (case rd_read rops index r of
     (Inl e, r) \<Rightarrow> Some (Inl e, r)
   | (Inr body, r) \<Rightarrow> (case seg_next index of
       None \<Rightarrow> None
     | Some n \<Rightarrow> Some (Inr (body, anchor_commit bid g n (sha body)), r)))"

definition core_issue ::
  "(bytes \<Rightarrow> bytes) \<Rightarrow> 'm media_ops \<Rightarrow> 'r reader_ops \<Rightarrow> ('m, 'r) core \<Rightarrow>
    ((issue_error + bytes) \<times> ('m, 'r) core) option" where
  "core_issue sha ops rops s =
    (if co_halted s then Some (Inl PersistenceUncertain, s)
     else let index = ar_next (co_current s) in
     if rd_count rops (co_reader s) \<le> index then Some (Inl (IssExhausted index), s)
     else case u64_checked_add (gen_get (ar_generation (co_current s))) 1 of
       None \<Rightarrow> Some (Inl PersistenceUncertain, s\<lparr>co_halted := True\<rparr>)
     | Some g \<Rightarrow> (case anchor_intent (co_book_id s) (Generation g) index of
         None \<Rightarrow> None
       | Some intent \<Rightarrow>
           core_txn sha ops intent (issue_fetch sha rops (co_book_id s) (Generation g) index) s))"

record reserved_range =
  rr_base :: segment_index
  rr_bytes :: bytes

definition rr_segment_count :: "reserved_range \<Rightarrow> nat" where
  "rr_segment_count rr = length (rr_bytes rr) div SEGMENT_LEN"

text \<open>\<open>Vec::with_capacity\<close> panics beyond \<open>isize::MAX\<close> bytes.\<close>

definition vec_capacity_ok :: "nat \<Rightarrow> bool" where
  "vec_capacity_ok n \<longleftrightarrow> n < 2 ^ 63"

definition range_fetch ::
  "(bytes \<Rightarrow> bytes) \<Rightarrow> 'r reader_ops \<Rightarrow> book_id \<Rightarrow> generation \<Rightarrow> segment_index \<Rightarrow> u64 \<Rightarrow>
    segment_index \<Rightarrow> 'r \<Rightarrow> ((media_error + bytes \<times> anchor_record) \<times> 'r) option" where
  "range_fetch sha rops bid g base n new_next r =
    (if \<not> vec_capacity_ok (unat n * SEGMENT_LEN) then None
     else case read_segments rops (map (\<lambda>i. base + word_of_nat i) [0..<unat n]) r of
       (Inl e, r) \<Rightarrow> Some (Inl e, r)
     | (Inr body, r) \<Rightarrow> Some (Inr (body, anchor_commit bid g new_next
           (sha (drop (length body - SEGMENT_LEN) body))), r))"

definition core_reserve_range ::
  "(bytes \<Rightarrow> bytes) \<Rightarrow> 'm media_ops \<Rightarrow> 'r reader_ops \<Rightarrow> u64 \<Rightarrow> ('m, 'r) core \<Rightarrow>
    ((issue_error + reserved_range) \<times> ('m, 'r) core) option" where
  "core_reserve_range sha ops rops n s =
    (if co_halted s then Some (Inl PersistenceUncertain, s)
     else if n = 0 then Some (Inl InvalidRange, s)
     else let base = ar_next (co_current s) in
     case u64_checked_add base n of
       None \<Rightarrow> Some (Inl InvalidRange, s)
     | Some new_next \<Rightarrow>
     if rd_count rops (co_reader s) < new_next then Some (Inl (IssExhausted base), s)
     else case u64_checked_add (gen_get (ar_generation (co_current s))) 1 of
       None \<Rightarrow> Some (Inl PersistenceUncertain, s\<lparr>co_halted := True\<rparr>)
     | Some g \<Rightarrow> (case anchor_intent (co_book_id s) (Generation g) (new_next - 1) of
         None \<Rightarrow> None
       | Some intent \<Rightarrow>
           map_option (\<lambda>(x, s'). (map_ok (\<lambda>b. \<lparr>rr_base = base, rr_bytes = b\<rparr>) x, s'))
             (core_txn sha ops intent
               (range_fetch sha rops (co_book_id s) (Generation g) base n new_next) s)))"

section \<open>The file medium\<close>

record file_media =
  fm_a :: os_file
  fm_b :: os_file
  fm_script :: script

definition fm_file :: "anchor_copy \<Rightarrow> file_media \<Rightarrow> os_file" where
  "fm_file c m = (case c of CopyA \<Rightarrow> fm_a m | CopyB \<Rightarrow> fm_b m)"

definition fm_put :: "anchor_copy \<Rightarrow> script \<times> os_file \<Rightarrow> file_media \<Rightarrow> file_media" where
  "fm_put c x m = (case c of
     CopyA \<Rightarrow> m\<lparr>fm_script := fst x, fm_a := snd x\<rparr>
   | CopyB \<Rightarrow> m\<lparr>fm_script := fst x, fm_b := snd x\<rparr>)"

definition classify_persistence :: "os_outcome \<Rightarrow> media_error" where
  "classify_persistence e = (if e = OsNoSpace then MedNoSpace else MedPersistence)"

definition fm_read :: "anchor_copy \<Rightarrow> file_media \<Rightarrow> (media_error + bytes) \<times> file_media" where
  "fm_read c m = (case file_seek0 (fm_script m) (fm_file c m) of
     (Inl _, x) \<Rightarrow> (Inl MedIo, fm_put c x m)
   | (Inr _, sc, f) \<Rightarrow> (case file_read_to_end sc f of
       (Inl _, x) \<Rightarrow> (Inl MedIo, fm_put c x m)
     | (Inr bs, x) \<Rightarrow> (Inr bs, fm_put c x m)))"

text \<open>The write loop of \<open>FileMedia::write\<close>; unlike \<open>write_full\<close> it trusts the count.\<close>

function fm_write_loop :: "bytes \<Rightarrow> script \<Rightarrow> os_file \<Rightarrow> (media_error + unit) \<times> script \<times> os_file" where
  "fm_write_loop d sc f =
    (if d = [] then (Inr (), sc, f)
     else case file_write d sc f of
       (Inr n, sc', f') \<Rightarrow>
         if n = 0 then (Inl MedShortWrite, sc', f') else fm_write_loop (drop n d) sc' f'
     | (Inl e, sc', f') \<Rightarrow>
         if e = OsInterrupted then fm_write_loop d sc' f'
         else (Inl (classify_persistence e), sc', f'))"
  by pat_completeness auto
termination
  by (relation "measure (\<lambda>(d, sc, f). length d + length sc)")
     (auto simp: file_write_def split: list.splits os_outcome.splits)

declare fm_write_loop.simps [simp del]

definition fm_write :: "anchor_copy \<Rightarrow> bytes \<Rightarrow> file_media \<Rightarrow> (media_error + unit) \<times> file_media" where
  "fm_write c d m = (case file_seek0 (fm_script m) (note_image d (fm_file c m)) of
     (Inl e, x) \<Rightarrow> (Inl (classify_persistence e), fm_put c x m)
   | (Inr _, sc, f) \<Rightarrow> (case fm_write_loop d sc f of
       (Inl e, x) \<Rightarrow> (Inl e, fm_put c x m)
     | (Inr _, sc, f) \<Rightarrow> (case file_set_len (length d) sc f of
         (Inl e, x) \<Rightarrow> (Inl (classify_persistence e), fm_put c x m)
       | (Inr _, x) \<Rightarrow> (Inr (), fm_put c x m))))"

definition fm_sync :: "anchor_copy \<Rightarrow> file_media \<Rightarrow> (media_error + unit) \<times> file_media" where
  "fm_sync c m = (case fsync_file (fm_script m) (fm_file c m) of
     (r, x) \<Rightarrow> (map_err (\<lambda>_. MedPersistence) r, fm_put c x m))"

definition fm_boundary :: "boundary \<Rightarrow> file_media \<Rightarrow> (media_error + unit) \<times> file_media" where
  "fm_boundary p m = (Inr (), m)"

definition file_media_ops :: "file_media media_ops" where
  "file_media_ops = \<lparr>md_read = fm_read, md_write = fm_write, md_sync = fm_sync,
    md_boundary = fm_boundary\<rparr>"

section \<open>The contract of a medium\<close>

text \<open>
  \<open>content\<close> is what a read of a copy returns, \<open>survivors\<close> the images written in whole that
  the copy can hold if the machine stops now. A write can add its image to the survivors of
  its copy and nothing else; a successful sync leaves the content as the only survivor.
\<close>

locale anchor_media =
  fixes ops :: "'m media_ops"
    and content :: "'m \<Rightarrow> anchor_copy \<Rightarrow> bytes"
    and survivors :: "'m \<Rightarrow> anchor_copy \<Rightarrow> bytes set"
  assumes read_law: "md_read ops c m = (y, m') \<Longrightarrow>
      (\<forall>bs. y = Inr bs \<longrightarrow> bs = content m c) \<and> content m' = content m \<and> survivors m' = survivors m"
    and write_law: "md_write ops c d m = (x, m') \<Longrightarrow>
      survivors m' c \<subseteq> insert d (survivors m c) \<and> (c' \<noteq> c \<longrightarrow> survivors m' c' \<subseteq> survivors m c')"
    and write_content: "md_write ops c d m = (Inr u, m') \<Longrightarrow> d \<noteq> [] \<Longrightarrow>
      content m' c = d \<and> (c' \<noteq> c \<longrightarrow> content m' c' = content m c')"
    and sync_law: "md_sync ops c m = (x, m') \<Longrightarrow> survivors m' c' \<subseteq> survivors m c' \<or>
      (x = Inr () \<and> c' = c)"
    and sync_ok: "md_sync ops c m = (Inr u, m') \<Longrightarrow>
      survivors m' c \<subseteq> {content m c} \<and> content m' = content m"
    and boundary_law: "md_boundary ops p m = (x, m') \<Longrightarrow>
      content m' = content m \<and> survivors m' = survivors m"
begin

text \<open>Every image that can survive and verifies continues at \<open>h\<close> or beyond.\<close>

definition floored :: "(bytes \<Rightarrow> bytes) \<Rightarrow> nat \<Rightarrow> 'm \<Rightarrow> bool" where
  "floored sha h m \<longleftrightarrow>
    (\<forall>c. \<forall>x \<in> survivors m c. \<forall>r. decode_and_verify sha x = Inr r \<longrightarrow> h \<le> unat (ar_next r))"

lemma floored_mono: "floored sha h m \<Longrightarrow> k \<le> h \<Longrightarrow> floored sha k m"
  unfolding floored_def by (meson le_trans)

lemma floored_subset:
  "floored sha h m \<Longrightarrow> (\<And>c. survivors m' c \<subseteq> survivors m c) \<Longrightarrow> floored sha h m'"
  unfolding floored_def by blast

lemma mseq_cases:
  assumes "mseq f g m = (x, m')"
  obtains (fail) e where "f m = (Inl e, m')" "x = Inl e"
  | (ok) m1 where "f m = (Inr (), m1)" "g m1 = (x, m')"
  using assms by (auto simp: mseq_def split: prod.splits sum.splits)

end

text \<open>
  An encoded record that verifies verifies as a record with the same \<open>next\<close>, whatever the
  digest function.
\<close>

lemma encode_next:
  assumes "decode_and_verify sha (encode_record sha r) = Inr r'" and "length (ar_book_id r) = 16"
  shows "ar_next r' = ar_next r"
proof -
  have d: "encode_record sha r = encode_record sha r'" and "wf_anchor r'"
    using decode_and_verify_Inr [OF assms(1)] by simp_all
  then have "length (ar_book_id r') = 16" by (simp add: wf_anchor_def)
  with d assms(2) show ?thesis
    by (simp add: encode_record_def record_prefix_def)
qed

context anchor_media
begin

lemma floored_write:
  assumes "md_write ops c (encode_record sha r) m = (x, m')" "floored sha h m"
    "length (ar_book_id r) = 16" "h \<le> unat (ar_next r)"
  shows "floored sha h m'"
  unfolding floored_def
proof (intro allI ballI impI)
  fix c' y r' assume y: "y \<in> survivors m' c'" "decode_and_verify sha y = Inr r'"
  have "y \<in> survivors m c' \<or> y = encode_record sha r"
    using write_law [OF assms(1), of c'] y(1) by (cases "c' = c") auto
  then show "h \<le> unat (ar_next r')"
    using assms(2-4) y(2) encode_next [of sha r r'] unfolding floored_def by auto
qed

lemma floored_sync:
  assumes "md_sync ops c m = (x, m')" "floored sha h m" "content m c = encode_record sha r"
    "length (ar_book_id r) = 16" "h \<le> unat (ar_next r)"
  shows "floored sha h m'"
  unfolding floored_def
proof (intro allI ballI impI)
  fix c' y r' assume y: "y \<in> survivors m' c'" "decode_and_verify sha y = Inr r'"
  have "y \<in> survivors m c' \<or> y = encode_record sha r"
    using sync_law [OF assms(1), of c'] sync_ok [of c m "()" m'] y(1) assms(1,3) by auto
  then show "h \<le> unat (ar_next r')"
    using assms(2,4,5) y(2) encode_next [of sha r r'] unfolding floored_def by auto
qed

lemma encode_nonempty: "encode_record sha r \<noteq> []"
  by (simp add: encode_record_def record_prefix_def ANCHOR_MAGIC_def)

lemma floored_boundary: "md_boundary ops p m = (x, m') \<Longrightarrow> floored sha h m' = floored sha h m"
  using boundary_law [of p m x m'] by (simp add: floored_def)

lemma persist_copy_floored:
  assumes "persist_copy sha ops r (c, ws, wc, ss, sr) m = (x, m')" "floored sha h m"
    "length (ar_book_id r) = 16" "h \<le> unat (ar_next r)"
  shows "floored sha h m'"
proof -
  note W = floored_write [OF _ _ assms(3,4)] and S = floored_sync [OF _ _ _ assms(3,4)]
  show ?thesis
    using assms(1) unfolding persist_copy_def prod.case
    apply (elim mseq_cases)
         apply (simp_all add: assms(2) floored_boundary)
    subgoal using W assms(2) floored_boundary by blast
    subgoal using W assms(2) floored_boundary by blast
    subgoal using W assms(2) floored_boundary by blast
    subgoal using W S assms(2) floored_boundary boundary_law write_content [OF _ encode_nonempty]
      by metis
    subgoal using W S assms(2) floored_boundary boundary_law write_content [OF _ encode_nonempty]
      by metis
    done
qed

lemma persist_copy_ok:
  assumes "persist_copy sha ops r (c, ws, wc, ss, sr) m = (Inr u, m')"
  shows "survivors m' c \<subseteq> {encode_record sha r} \<and> content m' c = encode_record sha r \<and>
    (c' \<noteq> c \<longrightarrow> survivors m' c' \<subseteq> survivors m c' \<and> content m' c' = content m c')"
proof -
  from assms obtain m1 m2 m3 m4 m5 where s:
    "md_boundary ops ws m = (Inr (), m1)"
    "md_write ops c (encode_record sha r) m1 = (Inr (), m2)"
    "md_boundary ops wc m2 = (Inr (), m3)" "md_boundary ops ss m3 = (Inr (), m4)"
    "md_sync ops c m4 = (Inr (), m5)" "md_boundary ops sr m5 = (Inr u, m')"
    unfolding persist_copy_def prod.case by (auto elim!: mseq_cases)
  note b = boundary_law [OF s(1)] boundary_law [OF s(3)] boundary_law [OF s(4)] boundary_law [OF s(6)]
  have w: "content m2 c = encode_record sha r" "c' \<noteq> c \<longrightarrow> content m2 c' = content m1 c'"
    using write_content [OF s(2) encode_nonempty] by blast+
  have "survivors m' c \<subseteq> {encode_record sha r}" "content m' c = encode_record sha r"
    using sync_ok [OF s(5)] b w by auto
  moreover have "c' \<noteq> c \<longrightarrow> survivors m' c' \<subseteq> survivors m c' \<and> content m' c' = content m c'"
    using sync_ok [OF s(5)] sync_law [OF s(5), of c'] write_law [OF s(2), of c'] b w by auto
  ultimately show ?thesis by blast
qed

lemma persist_loop_floored:
  "persist_loop sha ops r ps m = (x, m') \<Longrightarrow> floored sha h m \<Longrightarrow> length (ar_book_id r) = 16 \<Longrightarrow>
    h \<le> unat (ar_next r) \<Longrightarrow> floored sha h m'"
proof (induction ps arbitrary: m)
  case Nil
  then show ?case by simp
next
  case (Cons p ps)
  obtain c ws wc ss sr where p: "p = (c, ws, wc, ss, sr)" by (cases p)
  note P = persist_copy_floored [of sha r c ws wc ss sr, OF _ _ Cons.prems(3,4)]
  from Cons.prems(1) have "mseq (persist_copy sha ops r p) (persist_loop sha ops r ps) m = (x, m')"
    by simp
  then show ?case
    by (rule mseq_cases) (use P Cons.prems(2-4) Cons.IH in \<open>auto simp: p\<close>)
qed

lemma persist_pair_floored:
  "persist_pair sha ops r i m = (x, m') \<Longrightarrow> floored sha h m \<Longrightarrow> length (ar_book_id r) = 16 \<Longrightarrow>
    h \<le> unat (ar_next r) \<Longrightarrow> floored sha h m'"
  unfolding persist_pair_def by (rule persist_loop_floored)

lemma persist_pair_ok:
  assumes "persist_pair sha ops r i m = (Inr u, m')"
  shows "survivors m' c \<subseteq> {encode_record sha r} \<and> content m' c = encode_record sha r"
proof -
  obtain a1 a2 a3 a4 b1 b2 b3 b4 where
    "persist_points i = [(CopyA, a1, a2, a3, a4), (CopyB, b1, b2, b3, b4)]"
    by (cases i) (auto simp: persist_points_def)
  with assms obtain m1 where m1: "persist_copy sha ops r (CopyA, a1, a2, a3, a4) m = (Inr (), m1)"
    and m2: "persist_copy sha ops r (CopyB, b1, b2, b3, b4) m1 = (Inr (), m')"
    by (auto simp: persist_pair_def elim!: mseq_cases)
  show ?thesis
    using persist_copy_ok [OF m1, of CopyB] persist_copy_ok [OF m2, of CopyA] by (cases c) auto
qed

lemma persist_pair_ok_floored:
  assumes "persist_pair sha ops r i m = (Inr u, m')" "length (ar_book_id r) = 16"
  shows "floored sha (unat (ar_next r)) m'"
  using persist_pair_ok [OF assms(1)] encode_next [OF _ assms(2)] unfolding floored_def
  by (metis order_refl singletonD subsetD)

section \<open>The allocator over any lawful medium\<close>

text \<open>
  A core is safe at \<open>h\<close> when nothing it or a later start can issue lies below \<open>h\<close>: neither
  the image of a copy nor the pointer in memory.
\<close>

definition core_safe :: "(bytes \<Rightarrow> bytes) \<Rightarrow> nat \<Rightarrow> ('m, 'r) core \<Rightarrow> bool" where
  "core_safe sha h s \<longleftrightarrow> floored sha h (co_media s) \<and> h \<le> unat (ar_next (co_current s)) \<and>
    length (co_book_id s) = 16"

lemma txn_safe:
  assumes run: "core_txn sha ops intent fetch s = Some (x, s')"
    and fl: "floored sha h (co_media s)" and h: "h \<le> unat (ar_next intent)"
    and bid: "length (co_book_id s) = 16" "length (ar_book_id intent) = 16"
    and fetch: "\<And>r r' b c. fetch r = Some (Inr (b, c), r') \<Longrightarrow>
      ar_next c = ar_next intent \<and> length (ar_book_id c) = 16"
  shows "core_safe sha (if is_err x then h else unat (ar_next intent)) s' \<and>
    ar_next (co_current s') = ar_next intent \<and> co_book_id s' = co_book_id s"
proof -
  let ?n = "unat (ar_next intent)"
  obtain p m where P: "persist_pair sha ops intent True (co_media s) = (p, m)" by fastforce
  show ?thesis
  proof (cases p)
    case (Inl e)
    have "floored sha h m" by (rule persist_pair_floored [OF P fl bid(2) h])
    with Inl show ?thesis
      using run P h bid(1) by (auto simp: core_txn_def Let_def core_safe_def)
  next
    case (Inr u)
    have fln: "floored sha ?n m" by (rule persist_pair_ok_floored [OF P [unfolded Inr] bid(2)])
    obtain q m2 where B: "md_boundary ops SegmentPread m = (q, m2)" by fastforce
    have fl2: "floored sha ?n m2" "floored sha h m2"
      using floored_boundary [OF B] fln floored_mono [OF _ h] by simp_all
    show ?thesis
    proof (cases "\<exists>u' b c r. q = Inr u' \<and> fetch (co_reader s) = Some (Inr (b, c), r)")
      case False
      then show ?thesis
        using run P Inr B fl2 h bid(1)
        by (auto simp: core_txn_def Let_def core_safe_def split: sum.splits option.splits)
    next
      case True
      then obtain b c r where F: "fetch (co_reader s) = Some (Inr (b, c), r)" "q = Inr ()" by auto
      note c = fetch [OF F(1)]
      obtain p3 m3 where P3: "persist_pair sha ops c False m2 = (p3, m3)" by fastforce
      have "floored sha ?n m3" by (rule persist_pair_floored [OF P3 fl2(1)]) (use c in auto)
      moreover from floored_mono [OF this h] have "floored sha h m3" .
      ultimately show ?thesis
        using run P Inr B F P3 h bid(1) c
        by (cases p3) (auto simp: core_txn_def Let_def core_safe_def)
    qed
  qed
qed

lemma issue_safe:
  assumes run: "core_issue sha ops rops s = Some (x, s')" and safe: "core_safe sha h s"
  shows "core_safe sha (if is_err x then h else Suc (unat (ar_next (co_current s)))) s' \<and>
    unat (ar_next (co_current s)) \<le> unat (ar_next (co_current s'))"
proof -
  define i where "i = ar_next (co_current s)"
  show ?thesis
  proof (cases "co_halted s \<or> rd_count rops (co_reader s) \<le> i
      \<or> u64_checked_add (gen_get (ar_generation (co_current s))) 1 = None")
    case True
    then show ?thesis
      using run safe
      by (auto simp: core_issue_def i_def Let_def core_safe_def split: if_splits)
  next
    case False
    then obtain g where g: "u64_checked_add (gen_get (ar_generation (co_current s))) 1 = Some g"
      and pre: "\<not> co_halted s" "\<not> rd_count rops (co_reader s) \<le> i" by auto
    obtain intent where int: "anchor_intent (co_book_id s) (Generation g) i = Some intent"
      and txn: "core_txn sha ops intent (issue_fetch sha rops (co_book_id s) (Generation g) i) s
        = Some (x, s')"
      using run pre g by (auto simp: core_issue_def i_def [symmetric] Let_def split: option.splits)
    then have n: "seg_next i = Some (ar_next intent)" "ar_book_id intent = co_book_id s"
      by (auto simp: anchor_intent_def)
    note n' = seg_next_Some [OF n(1)]
    have "core_safe sha (if is_err x then h else unat (ar_next intent)) s' \<and>
        ar_next (co_current s') = ar_next intent \<and> co_book_id s' = co_book_id s"
      by (rule txn_safe [OF txn])
         (use safe n n' in \<open>auto simp: core_safe_def i_def issue_fetch_def anchor_commit_def
           split: prod.splits sum.splits option.splits\<close>)
    then show ?thesis using n' by (auto simp: i_def)
  qed
qed

lemma reserve_safe:
  assumes run: "core_reserve_range sha ops rops n s = Some (x, s')" and safe: "core_safe sha h s"
  shows "core_safe sha (if is_err x then h else unat (ar_next (co_current s)) + unat n) s' \<and>
    unat (ar_next (co_current s)) \<le> unat (ar_next (co_current s'))"
proof -
  define i where "i = ar_next (co_current s)"
  show ?thesis
  proof (cases "co_halted s \<or> n = 0 \<or> u64_checked_add i n = None \<or>
      (\<exists>e. u64_checked_add i n = Some e \<and> rd_count rops (co_reader s) < e) \<or>
      u64_checked_add (gen_get (ar_generation (co_current s))) 1 = None")
    case True
    then show ?thesis
      using run safe
      by (auto simp: core_reserve_range_def i_def Let_def core_safe_def
          split: if_splits option.splits)
  next
    case False
    then obtain g e where g: "u64_checked_add (gen_get (ar_generation (co_current s))) 1 = Some g"
      and e: "u64_checked_add i n = Some e"
      and pre: "\<not> co_halted s" "n \<noteq> 0" "\<not> rd_count rops (co_reader s) < e" by auto
    have unf: "core_reserve_range sha ops rops n s = (case anchor_intent (co_book_id s) (Generation g) (e - 1) of
         None \<Rightarrow> None
       | Some intent \<Rightarrow>
           map_option (\<lambda>(x, s'). (map_ok (\<lambda>b. \<lparr>rr_base = i, rr_bytes = b\<rparr>) x, s'))
             (core_txn sha ops intent
               (range_fetch sha rops (co_book_id s) (Generation g) i n e) s))"
      using pre g e by (simp add: core_reserve_range_def i_def [symmetric] Let_def)
    from run obtain intent where
      int: "anchor_intent (co_book_id s) (Generation g) (e - 1) = Some intent"
      unfolding unf by (auto split: option.splits)
    from run obtain x0 where txn: "core_txn sha ops intent
        (range_fetch sha rops (co_book_id s) (Generation g) i n e) s = Some (x0, s')"
      and x0: "x = map_ok (\<lambda>b. \<lparr>rr_base = i, rr_bytes = b\<rparr>) x0"
      unfolding unf int by auto
    have x0: "is_err x = is_err x0" unfolding x0 by (cases x0) (simp_all add: map_ok_def)
    from int have nx: "seg_next (e - 1) = Some (ar_next intent)" "ar_book_id intent = co_book_id s"
      by (auto simp: anchor_intent_def)
    have "ar_next intent = e"
      using nx(1) by (auto simp: seg_next_def u64_checked_add_def split: if_splits)
    note n' = this u64_checked_add_unat [OF e]
    have "core_safe sha (if is_err x0 then h else unat (ar_next intent)) s' \<and>
        ar_next (co_current s') = ar_next intent \<and> co_book_id s' = co_book_id s"
      by (rule txn_safe [OF txn])
         (use safe nx n' in \<open>auto simp: core_safe_def i_def range_fetch_def anchor_commit_def
           split: prod.splits sum.splits option.splits if_splits\<close>)
    then show ?thesis using n' x0 by (auto simp: i_def)
  qed
qed

text \<open>
  A medium is settled when a copy that reads back as a valid record holds one of its surviving
  images. It holds at every start.
\<close>

definition settled :: "(bytes \<Rightarrow> bytes) \<Rightarrow> 'm \<Rightarrow> bool" where
  "settled sha m \<longleftrightarrow>
    (\<forall>c r. decode_and_verify sha (content m c) = Inr r \<longrightarrow> content m c \<in> survivors m c)"

lemma settled_next:
  "settled sha m \<Longrightarrow> floored sha h m \<Longrightarrow> decode_and_verify sha (content m c) = Inr r \<Longrightarrow>
    h \<le> unat (ar_next r)"
  unfolding settled_def floored_def by blast

lemma read_record_law:
  assumes "read_record sha ops c m = (y, m')"
  shows "content m' = content m \<and> survivors m' = survivors m \<and>
    (\<forall>r. y = Inr r \<longrightarrow> decode_and_verify sha (content m c) = Inr r)"
proof -
  obtain z m1 where z: "md_read ops c m = (z, m1)" by fastforce
  show ?thesis
    using assms read_law [OF z] z by (cases z) (auto simp: read_record_def)
qed

lemma repair_stale_floored:
  assumes "repair_stale sha ops st r m = (x, m')" "floored sha h m" "length (ar_book_id r) = 16"
    "h \<le> unat (ar_next r)"
  shows "floored sha h m'"
proof (cases st)
  case (Some c)
  obtain p m1 where P: "persist_one sha ops c r m = (p, m1)" by fastforce
  obtain q m2 where Q: "read_record sha ops c m1 = (q, m2)" by fastforce
  have 1: "floored sha h m1"
    using P unfolding persist_one_def
  proof (rule mseq_cases)
    fix e assume "md_write ops c (encode_record sha r) m = (Inl e, m1)"
    then show ?thesis by (rule floored_write) (use assms in auto)
  next
    fix m0 assume w: "md_write ops c (encode_record sha r) m = (Inr (), m0)"
      and s: "md_sync ops c m0 = (p, m1)"
    have "floored sha h m0" by (rule floored_write [OF w]) (use assms in auto)
    then show ?thesis
      using floored_sync [OF s] write_content [OF w encode_nonempty] assms(3,4) by blast
  qed
  with read_record_law [OF Q] have 2: "floored sha h m2" by (simp add: floored_def)
  show ?thesis
    using assms(1) Some P Q 1 2
    by (cases p; cases q) (auto simp: repair_stale_def split: if_splits)
qed (use assms in \<open>auto simp: repair_stale_def\<close>)

lemma open_safe:
  assumes run: "core_open sha ops rops bid m r = (x, m')"
    and fl: "floored sha h m" and st: "settled sha m"
  shows "floored sha h m' \<and> (\<forall>s. x = Inr s \<longrightarrow> core_safe sha h s \<and> co_media s = m')"
proof -
  obtain ya m1 where A: "read_record sha ops CopyA m = (ya, m1)" by fastforce
  obtain yb m2 where B: "read_record sha ops CopyB m1 = (yb, m2)" by fastforce
  note la = read_record_law [OF A] and lb = read_record_law [OF B]
  have fl1: "floored sha h m1" and fl2: "floored sha h m2" using fl la lb by (simp_all add: floored_def)
  show ?thesis
  proof (cases "\<exists>a b c st. ya = Inr a \<and> yb = Inr b \<and> ar_book_id a = bid \<and> ar_book_id b = bid \<and>
      adopted_of (decide (Inr a) (Inr b)) = Some c")
    case False
    then show ?thesis
      using run A B fl1 fl2
      by (auto simp: core_open_def adopted_of_def split: sum.splits if_splits recovery_decision.splits)
  next
    case True
    then obtain a b c where ab: "ya = Inr a" "yb = Inr b" "ar_book_id a = bid" "ar_book_id b = bid"
      and c: "adopted_of (decide (Inr a) (Inr b)) = Some c" by blast
    have va: "decode_and_verify sha (content m CopyA) = Inr a"
      and vb: "decode_and_verify sha (content m CopyB) = Inr b"
      using la lb ab by auto
    have len: "length bid = 16" using decode_and_verify_Inr [OF va] ab(3) by (auto simp: wf_anchor_def)
    have ca: "c = a \<or> c = b" using adopted_source [OF c refl] by auto
    then have nx: "h \<le> unat (ar_next c)"
      using settled_next [OF st fl va] settled_next [OF st fl vb] by blast
    have cb: "ar_book_id c = bid" using ca ab by auto
    obtain stale where d: "(case decide (Inr a) (Inr b) of
         Consistent c \<Rightarrow> Some (c, None) | AdoptHigher c st \<Rightarrow> Some (c, Some st) | _ \<Rightarrow> None)
         = Some (c, stale)"
      using c by (auto simp: adopted_of_Some)
    obtain p m3 where R: "repair_stale sha ops stale c m2 = (p, m3)" by fastforce
    have fl3: "floored sha h m3" by (rule repair_stale_floored [OF R fl2]) (use len cb nx in auto)
    show ?thesis
      using run A B ab d R fl2 fl3 nx len
      by (auto simp: core_open_def core_safe_def split: sum.splits if_splits prod.splits)
  qed
qed

end

section \<open>The file medium is lawful\<close>

lemma fm_file_put [simp]:
  "fm_file c (fm_put c x m) = snd x" "c' \<noteq> c \<Longrightarrow> fm_file c' (fm_put c x m) = fm_file c' m"
  by (cases c; cases c'; simp add: fm_file_def fm_put_def)+

definition fm_content :: "file_media \<Rightarrow> anchor_copy \<Rightarrow> bytes" where
  "fm_content m c = f_cache (fm_file c m)"

definition fm_survivors :: "file_media \<Rightarrow> anchor_copy \<Rightarrow> bytes set" where
  "fm_survivors m c = insert (f_durable (fm_file c m)) (set (f_since (fm_file c m)))"

text \<open>Two files agree on everything but the position, or on the disk only.\<close>

definition same_disk :: "os_file \<Rightarrow> os_file \<Rightarrow> bool" where
  "same_disk f g \<longleftrightarrow> f_durable f = f_durable g \<and> f_since f = f_since g"

lemma same_disk_file_ops:
  "file_seek0 sc f = (x, sc', f') \<Longrightarrow> same_disk f' f \<and> f_cache f' = f_cache f \<and>
    (\<forall>u. x = Inr u \<longrightarrow> f_pos f' = 0)"
  "file_read_to_end sc f = (y, sc', f') \<Longrightarrow> same_disk f' f \<and> f_cache f' = f_cache f \<and>
    (\<forall>b. y = Inr b \<longrightarrow> b = drop (f_pos f) (f_cache f))"
  "file_set_len n sc f = (x, sc', f') \<Longrightarrow> same_disk f' f \<and>
    (\<forall>u. x = Inr u \<longrightarrow> f_cache f' = take n (f_cache f) @ replicate (n - length (f_cache f)) 0)"
  "file_write d sc f = (w, sc', f') \<Longrightarrow> same_disk f' f"
  by (auto simp: file_seek0_def file_read_to_end_def file_set_len_def file_write_def same_disk_def
      file_put_def os_call_def split: list.splits os_outcome.splits option.splits)

lemma same_disk_trans: "same_disk f g \<Longrightarrow> same_disk g h \<Longrightarrow> same_disk f h"
  by (simp add: same_disk_def)

lemma fm_write_loop_law:
  "fm_write_loop d sc f = (x, sc', f') \<Longrightarrow>
    same_disk f' f \<and> (\<forall>u. x = Inr u \<longrightarrow> d \<noteq> [] \<longrightarrow> f' = file_put d f)"
proof (induction d sc f arbitrary: x sc' f' rule: fm_write_loop.induct)
  case (1 d sc f)
  show ?case
  proof (cases "d = []")
    case True
    then show ?thesis using "1.prems" by (simp add: fm_write_loop.simps same_disk_def)
  next
    case d: False
    obtain r sc1 f1 where c: "file_write d sc f = (r, sc1, f1)" by (cases "file_write d sc f") auto
    have s1: "same_disk f1 f" using same_disk_file_ops(4) [OF c] .
    show ?thesis
    proof (cases r)
      case (Inl e)
      then have f1: "f1 = f" using c file_write_Inl by blast
      show ?thesis
      proof (cases "e = OsInterrupted")
        case True
        then have w: "fm_write_loop d sc1 f1 = (x, sc', f')"
          using "1.prems" d c Inl by (simp add: fm_write_loop.simps [of d sc f])
        show ?thesis using "1.IH"(1) [OF d c [symmetric] Inl refl True w] f1 by simp
      next
        case False
        then show ?thesis
          using "1.prems" d c Inl s1 by (auto simp: fm_write_loop.simps [of d sc f])
      qed
    next
      case (Inr n)
      note n = file_write_Inr [OF c [unfolded Inr]]
      show ?thesis
      proof (cases "n = 0")
        case True
        then show ?thesis
          using "1.prems" d c Inr s1 by (auto simp: fm_write_loop.simps [of d sc f])
      next
        case False
        then have w: "fm_write_loop (drop n d) sc1 f1 = (x, sc', f')"
          using "1.prems" d c Inr by (simp add: fm_write_loop.simps [of d sc f])
        note ih = "1.IH"(2) [OF d c [symmetric] Inr refl False w]
        have "drop n d = [] \<Longrightarrow> f' = f1" using w by (simp add: fm_write_loop.simps)
        with ih n s1 show ?thesis
          by (cases "drop n d = []") (auto simp: file_put_append intro: same_disk_trans)
      qed
    qed
  qed
qed

lemma fm_read_law:
  assumes "fm_read c m = (y, m')"
  shows "(\<forall>bs. y = Inr bs \<longrightarrow> bs = fm_content m c) \<and> fm_content m' = fm_content m \<and>
    fm_survivors m' = fm_survivors m"
proof -
  obtain r1 sc1 f1 where s: "file_seek0 (fm_script m) (fm_file c m) = (r1, sc1, f1)"
    by (cases "file_seek0 (fm_script m) (fm_file c m)") auto
  obtain r2 sc2 f2 where r: "file_read_to_end sc1 f1 = (r2, sc2, f2)"
    by (cases "file_read_to_end sc1 f1") auto
  note l1 = same_disk_file_ops(1) [OF s] and l2 = same_disk_file_ops(2) [OF r]
  have e: "\<exists>x. m' = fm_put c x m \<and> same_disk (snd x) (fm_file c m) \<and> f_cache (snd x) = f_cache (fm_file c m)"
    using assms s r l1 l2 by (auto simp: fm_read_def intro: same_disk_trans split: sum.splits)
  then obtain x where x: "m' = fm_put c x m" "same_disk (snd x) (fm_file c m)"
    "f_cache (snd x) = f_cache (fm_file c m)" by blast
  have "fm_content m' c' = fm_content m c' \<and> fm_survivors m' c' = fm_survivors m c'" for c'
    using x by (cases "c' = c") (auto simp: fm_content_def fm_survivors_def same_disk_def)
  moreover have "\<forall>bs. y = Inr bs \<longrightarrow> bs = fm_content m c"
    using assms s r l1 l2 by (auto simp: fm_read_def fm_content_def split: sum.splits)
  ultimately show ?thesis by auto
qed

lemma fm_write_law:
  assumes "fm_write c d m = (x, m')"
  shows "\<exists>y. m' = fm_put c y m \<and> f_durable (snd y) = f_durable (fm_file c m) \<and>
    f_since (snd y) = d # f_since (fm_file c m) \<and>
    (\<forall>u. x = Inr u \<longrightarrow> d \<noteq> [] \<longrightarrow> f_cache (snd y) = d)"
proof -
  let ?f = "note_image d (fm_file c m)"
  obtain r1 sc1 f1 where s: "file_seek0 (fm_script m) ?f = (r1, sc1, f1)"
    by (cases "file_seek0 (fm_script m) ?f") auto
  obtain r2 sc2 f2 where w: "fm_write_loop d sc1 f1 = (r2, sc2, f2)"
    by (cases "fm_write_loop d sc1 f1") auto
  obtain r3 sc3 f3 where t: "file_set_len (length d) sc2 f2 = (r3, sc3, f3)"
    by (cases "file_set_len (length d) sc2 f2") auto
  note l1 = same_disk_file_ops(1) [OF s] and l2 = fm_write_loop_law [OF w]
    and l3 = same_disk_file_ops(3) [OF t]
  have n: "same_disk f ?f \<longleftrightarrow> f_durable f = f_durable (fm_file c m) \<and>
      f_since f = d # f_since (fm_file c m)" for f
    by (simp add: same_disk_def note_image_def)
  have c3: "f_cache f3 = d"
    if "r1 = Inr ()" "r2 = Inr ()" "r3 = Inr ()" "d \<noteq> []"
  proof -
    have "f2 = file_put d f1" "f_pos f1 = 0" using that l1 l2 by auto
    then have "take (length d) (f_cache f2) = d" "length d \<le> length (f_cache f2)"
      by (simp_all add: file_put_def)
    then show ?thesis using l3 that by simp
  qed
  have sd: "same_disk f1 ?f" "same_disk f2 ?f" "same_disk f3 ?f"
    using l1 l2 l3 by (auto intro: same_disk_trans)
  show ?thesis
    using assms s w t sd c3 unfolding n
    by (cases r1; cases r2; cases r3) (auto simp: fm_write_def)
qed

lemma fm_sync_law:
  assumes "fm_sync c m = (x, m')"
  shows "fm_content m' = fm_content m \<and>
    (if is_err x then fm_survivors m' = fm_survivors m
     else fm_survivors m' c = {fm_content m c} \<and> (\<forall>c'. c' \<noteq> c \<longrightarrow> fm_survivors m' c' = fm_survivors m c'))"
proof -
  obtain r sc f where s: "fsync_file (fm_script m) (fm_file c m) = (r, sc, f)"
    by (cases "fsync_file (fm_script m) (fm_file c m)") auto
  have l: "f_cache f = f_cache (fm_file c m) \<and>
      (if is_err r then same_disk f (fm_file c m)
       else f_durable f = f_cache (fm_file c m) \<and> f_since f = [])"
    using s by (auto simp: fsync_file_def file_sync_def same_disk_def split: option.splits prod.splits)
  have m': "m' = fm_put c (sc, f) m" "is_err x = is_err r"
    using assms s by (auto simp: fm_sync_def map_err_def split: sum.splits)
  have "fm_content m' c' = fm_content m c'" for c'
    using l m' by (cases "c' = c") (auto simp: fm_content_def)
  moreover have "fm_survivors m' c' = fm_survivors m c'" if "c' \<noteq> c" for c'
    using that m' by (simp add: fm_survivors_def)
  moreover have "is_err r \<Longrightarrow> fm_survivors m' c = fm_survivors m c"
    "\<not> is_err r \<Longrightarrow> fm_survivors m' c = {fm_content m c}"
    using l m' by (simp_all add: fm_survivors_def fm_content_def same_disk_def)
  moreover have "fm_survivors m' = fm_survivors m" if "is_err r"
  proof
    fix c' show "fm_survivors m' c' = fm_survivors m c'"
      using calculation(2,3) that by (cases "c' = c") auto
  qed
  ultimately show ?thesis using m' by auto
qed

interpretation fm: anchor_media file_media_ops fm_content fm_survivors
proof
  fix c c' d m x m' u
  show "md_read file_media_ops c m = (y, m') \<Longrightarrow>
      (\<forall>bs. y = Inr bs \<longrightarrow> bs = fm_content m c) \<and> fm_content m' = fm_content m \<and>
      fm_survivors m' = fm_survivors m" for y
    using fm_read_law [of c m y m'] by (simp add: file_media_ops_def)
  show "md_write file_media_ops c d m = (x, m') \<Longrightarrow>
      fm_survivors m' c \<subseteq> insert d (fm_survivors m c) \<and>
      (c' \<noteq> c \<longrightarrow> fm_survivors m' c' \<subseteq> fm_survivors m c')"
    using fm_write_law [of c d m x m'] by (auto simp: file_media_ops_def fm_survivors_def)
  show "md_write file_media_ops c d m = (Inr u, m') \<Longrightarrow> d \<noteq> [] \<Longrightarrow>
      fm_content m' c = d \<and> (c' \<noteq> c \<longrightarrow> fm_content m' c' = fm_content m c')"
    using fm_write_law [of c d m "Inr u" m'] by (auto simp: file_media_ops_def fm_content_def)
  show "md_sync file_media_ops c m = (x, m') \<Longrightarrow>
      fm_survivors m' c' \<subseteq> fm_survivors m c' \<or> x = Inr () \<and> c' = c"
    using fm_sync_law [of c m x m'] by (cases x) (auto simp: file_media_ops_def)
  show "md_sync file_media_ops c m = (Inr u, m') \<Longrightarrow>
      fm_survivors m' c \<subseteq> {fm_content m c} \<and> fm_content m' = fm_content m"
    using fm_sync_law [of c m "Inr u" m'] by (auto simp: file_media_ops_def)
  show "md_boundary file_media_ops p m = (x, m') \<Longrightarrow>
      fm_content m' = fm_content m \<and> fm_survivors m' = fm_survivors m" for p
    by (simp add: file_media_ops_def fm_boundary_def)
qed

section \<open>Progress on a medium that answers\<close>

text \<open>The record that a successful \<open>issue\<close> leaves.\<close>

definition issued_commit :: "(bytes \<Rightarrow> bytes) \<Rightarrow> ('m, 'r) core \<Rightarrow> bytes \<Rightarrow> anchor_record" where
  "issued_commit sha s body = anchor_commit (co_book_id s)
    (Generation (gen_get (ar_generation (co_current s)) + 1)) (ar_next (co_current s) + 1) (sha body)"

locale reliable_media = anchor_media ops content survivors
  for ops :: "'m media_ops" and content survivors +
  fixes ready :: "'m \<Rightarrow> bool"
  assumes write_ready: "ready m \<Longrightarrow> \<exists>m'. md_write ops c d m = (Inr (), m') \<and> ready m'"
    and sync_ready: "ready m \<Longrightarrow> \<exists>m'. md_sync ops c m = (Inr (), m') \<and> ready m'"
    and boundary_ready: "ready m \<Longrightarrow> \<exists>m'. md_boundary ops p m = (Inr (), m') \<and> ready m'"
begin

lemma mseq_ready:
  "f m = (Inr (), m1) \<Longrightarrow> \<exists>m'. g m1 = (Inr (), m') \<and> ready m' \<Longrightarrow>
    \<exists>m'. mseq f g m = (Inr (), m') \<and> ready m'"
  by (auto simp: mseq_def)

lemma persist_copy_ready:
  "ready m \<Longrightarrow> \<exists>m'. persist_copy sha ops r (c, ws, wc, ss, sr) m = (Inr (), m') \<and> ready m'"
proof -
  assume m: "ready m"
  from boundary_ready [OF m] obtain m1 where 1: "md_boundary ops ws m = (Inr (), m1)" "ready m1" by blast
  from write_ready [OF 1(2)] obtain m2 where
    2: "md_write ops c (encode_record sha r) m1 = (Inr (), m2)" "ready m2" by blast
  from boundary_ready [OF 2(2)] obtain m3 where 3: "md_boundary ops wc m2 = (Inr (), m3)" "ready m3" by blast
  from boundary_ready [OF 3(2)] obtain m4 where 4: "md_boundary ops ss m3 = (Inr (), m4)" "ready m4" by blast
  from sync_ready [OF 4(2)] obtain m5 where 5: "md_sync ops c m4 = (Inr (), m5)" "ready m5" by blast
  from boundary_ready [OF 5(2)] have 6: "\<exists>m'. md_boundary ops sr m5 = (Inr (), m') \<and> ready m'" .
  show ?thesis
    unfolding persist_copy_def prod.case
    by (rule mseq_ready [where f = "md_boundary ops ws", OF 1(1)]
        mseq_ready [where f = "md_write ops c (encode_record sha r)", OF 2(1)]
        mseq_ready [where f = "md_boundary ops wc", OF 3(1)]
        mseq_ready [where f = "md_boundary ops ss", OF 4(1)]
        mseq_ready [where f = "md_sync ops c", OF 5(1)] 6)+
qed

lemma persist_loop_ready:
  "ready m \<Longrightarrow> \<exists>m'. persist_loop sha ops r ps m = (Inr (), m') \<and> ready m'"
proof (induction ps arbitrary: m)
  case (Cons p ps)
  obtain c ws wc ss sr where p: "p = (c, ws, wc, ss, sr)" by (cases p)
  from persist_copy_ready [OF Cons.prems] obtain m1 where
    "persist_copy sha ops r p m = (Inr (), m1)" "ready m1" unfolding p by blast
  with Cons.IH show ?case by (auto intro: mseq_ready)
qed simp

lemma txn_ready:
  assumes m: "ready (co_media s)" and f: "fetch (co_reader s) = Some (Inr (body, commit), r)"
  shows "\<exists>m. core_txn sha ops intent fetch s =
      Some (Inr body, s\<lparr>co_media := m, co_reader := r, co_current := commit\<rparr>) \<and> ready m \<and>
      (\<forall>c. survivors m c \<subseteq> {encode_record sha commit} \<and> content m c = encode_record sha commit)"
proof -
  from persist_loop_ready [OF m] obtain m1 where
    1: "persist_pair sha ops intent True (co_media s) = (Inr (), m1)" "ready m1"
    unfolding persist_pair_def by blast
  from boundary_ready [OF 1(2)] obtain m2 where
    2: "md_boundary ops SegmentPread m1 = (Inr (), m2)" "ready m2" by blast
  from persist_loop_ready [OF 2(2)] obtain m3 where
    3: "persist_pair sha ops commit False m2 = (Inr (), m3)" "ready m3"
    unfolding persist_pair_def by blast
  show ?thesis
    using 1 2 3 f persist_pair_ok [OF 3(1)]
    by (intro exI [of _ m3]) (simp add: core_txn_def Let_def)
qed

lemma issue_ready:
  assumes s: "\<not> co_halted s" "ar_next (co_current s) < rd_count rops (co_reader s)"
      "unat (gen_get (ar_generation (co_current s))) + 1 < 2 ^ 64"
    and m: "ready (co_media s)"
    and r: "rd_read rops (ar_next (co_current s)) (co_reader s) = (Inr body, r)"
  shows "\<exists>m. core_issue sha ops rops s = Some (Inr body, s\<lparr>co_media := m, co_reader := r,
      co_current := issued_commit sha s body\<rparr>) \<and> ready m \<and>
    (\<forall>c. survivors m c \<subseteq> {encode_record sha (issued_commit sha s body)} \<and>
      content m c = encode_record sha (issued_commit sha s body))"
proof -
  let ?i = "ar_next (co_current s)"
  have g: "u64_checked_add (gen_get (ar_generation (co_current s))) 1
      = Some (gen_get (ar_generation (co_current s)) + 1)"
    using s(3) by (simp add: u64_checked_add_def)
  have n: "seg_next ?i = Some (?i + 1)"
    using s(2) by (intro seg_next_below) (simp add: word_less_nat_alt)
  define intent where "intent = \<lparr>ar_book_id = co_book_id s, ar_next = ?i + 1,
    ar_generation = Generation (gen_get (ar_generation (co_current s)) + 1), ar_payload = Intent ?i\<rparr>"
  have "core_issue sha ops rops s = core_txn sha ops intent
      (issue_fetch sha rops (co_book_id s)
        (Generation (gen_get (ar_generation (co_current s)) + 1)) ?i) s"
    using s(1) g n s(2) [folded not_le] by (auto simp: core_issue_def Let_def anchor_intent_def intent_def)
  moreover have "issue_fetch sha rops (co_book_id s)
      (Generation (gen_get (ar_generation (co_current s)) + 1)) ?i (co_reader s)
      = Some (Inr (body, issued_commit sha s body), r)"
    using n r by (simp add: issue_fetch_def issued_commit_def)
  ultimately show ?thesis using txn_ready [OF m] by metis
qed

end

lemma os_call_Nil [simp]: "os_call [] = (None, [])"
  by (simp add: os_call_def)

lemma fm_write_loop_Nil: "\<exists>f'. fm_write_loop d [] f = (Inr (), [], f')"
  by (cases "d = []") (simp_all add: fm_write_loop.simps file_write_def)

lemma fm_put_script [simp]: "fm_script (fm_put c x m) = fst x"
  by (cases c) (simp_all add: fm_put_def)

interpretation fm: reliable_media file_media_ops fm_content fm_survivors "\<lambda>m. fm_script m = []"
proof
  fix m :: file_media and c d p
  assume m: "fm_script m = []"
  show "\<exists>m'. md_write file_media_ops c d m = (Inr (), m') \<and> fm_script m' = []"
    using fm_write_loop_Nil [of d "(note_image d (fm_file c m))\<lparr>f_pos := 0\<rparr>"] m
    by (auto simp: file_media_ops_def fm_write_def file_seek0_def file_set_len_def)
  show "\<exists>m'. md_sync file_media_ops c m = (Inr (), m') \<and> fm_script m' = []"
    using m by (simp add: file_media_ops_def fm_sync_def fsync_file_def file_sync_def)
  show "\<exists>m'. md_boundary file_media_ops p m = (Inr (), m') \<and> fm_script m' = []"
    using m by (simp add: file_media_ops_def fm_boundary_def)
qed

end
