(* ===== verification/AllocatorHistory.thy ===== *)
theory AllocatorHistory
  imports Allocator
begin

text \<open>
  The allocator of \<open>crates/otp-book/src/allocator.rs\<close> over its file medium, through any number
  of requests, failures of the system, crashes and restarts. A host is down (two anchor files)
  or up (an open core). Each call brings the script of what the system answers. A crash keeps,
  for each copy, one image in the cache and one on the disk; an image that verifies as a record
  is one that the program wrote in whole since the last successful sync, or the synced one. Torn
  images are arbitrary byte strings that do not verify.
\<close>

section \<open>Hosts and their history\<close>

datatype 'r host = Down file_media | Up "(file_media, 'r) core"

definition with_script :: "script \<Rightarrow> (file_media, 'r) core \<Rightarrow> (file_media, 'r) core" where
  "with_script sc s = s\<lparr>co_media := (co_media s)\<lparr>fm_script := sc\<rparr>\<rparr>"

definition host_media :: "'r host \<Rightarrow> file_media" where
  "host_media h = (case h of Down m \<Rightarrow> m | Up s \<Rightarrow> co_media s)"

definition pristine :: "bytes \<Rightarrow> bytes \<Rightarrow> file_media" where
  "pristine xa xb = \<lparr>fm_a = file_of xa, fm_b = file_of xb, fm_script = []\<rparr>"

text \<open>What a crash makes of one file.\<close>

definition crash_file :: "bytes \<Rightarrow> bytes \<Rightarrow> os_file" where
  "crash_file cache disk = \<lparr>f_cache = cache, f_durable = disk, f_since = [cache], f_pos = 0\<rparr>"

definition can_survive :: "(bytes \<Rightarrow> bytes) \<Rightarrow> os_file \<Rightarrow> bytes \<Rightarrow> bool" where
  "can_survive sha f x \<longleftrightarrow>
    is_err (decode_and_verify sha x) \<or> x = f_durable f \<or> x \<in> set (f_since f)"

definition crash_of :: "(bytes \<Rightarrow> bytes) \<Rightarrow> os_file \<Rightarrow> os_file \<Rightarrow> bool" where
  "crash_of sha f f' \<longleftrightarrow> f' = crash_file (f_cache f') (f_durable f') \<and>
    can_survive sha f (f_cache f') \<and> can_survive sha f (f_durable f')"

definition range_indices :: "segment_index \<Rightarrow> u64 \<Rightarrow> nat list" where
  "range_indices b n = [unat b ..< unat b + unat n]"

text \<open>
  \<open>history sha rops bid h out\<close>: the host \<open>h\<close> is reachable, and \<open>out\<close> lists the indices of the
  segments that its allocators have handed out, in the order of handing out. The book read at a
  restart may be any state of the reader.
\<close>

inductive history ::
  "(bytes \<Rightarrow> bytes) \<Rightarrow> 'r reader_ops \<Rightarrow> book_id \<Rightarrow> 'r host \<Rightarrow> nat list \<Rightarrow> bool"
  for sha rops bid where
  start: "history sha rops bid (Down (pristine xa xb)) []"
| crash: "history sha rops bid h out \<Longrightarrow>
    crash_of sha (fm_a (host_media h)) fa \<Longrightarrow> crash_of sha (fm_b (host_media h)) fb \<Longrightarrow>
    history sha rops bid (Down \<lparr>fm_a = fa, fm_b = fb, fm_script = []\<rparr>) out"
| open_ok: "history sha rops bid (Down m) out \<Longrightarrow>
    core_open sha file_media_ops rops bid (m\<lparr>fm_script := sc\<rparr>) r = (Inr s, m') \<Longrightarrow>
    history sha rops bid (Up s) out"
| open_fail: "history sha rops bid (Down m) out \<Longrightarrow>
    core_open sha file_media_ops rops bid (m\<lparr>fm_script := sc\<rparr>) r = (Inl e, m') \<Longrightarrow>
    crash_of sha (fm_a m') fa \<Longrightarrow> crash_of sha (fm_b m') fb \<Longrightarrow>
    history sha rops bid (Down \<lparr>fm_a = fa, fm_b = fb, fm_script = []\<rparr>) out"
| issue: "history sha rops bid (Up s) out \<Longrightarrow>
    core_issue sha file_media_ops rops (with_script sc s) = Some (x, s') \<Longrightarrow>
    history sha rops bid (Up s')
      (if is_err x then out else out @ [unat (ar_next (co_current s))])"
| reserve: "history sha rops bid (Up s) out \<Longrightarrow>
    core_reserve_range sha file_media_ops rops n (with_script sc s) = Some (x, s') \<Longrightarrow>
    history sha rops bid (Up s')
      (if is_err x then out else out @ range_indices (ar_next (co_current s)) n)"

inductive_cases history_UpE: "history sha rops bid (Up s) out"

section \<open>The invariant\<close>

text \<open>The first index that was never handed out.\<close>

definition high_mark :: "nat list \<Rightarrow> nat" where
  "high_mark out = (if out = [] then 0 else Suc (last out))"

definition host_safe :: "(bytes \<Rightarrow> bytes) \<Rightarrow> nat \<Rightarrow> 'r host \<Rightarrow> bool" where
  "host_safe sha k h = (case h of
     Down m \<Rightarrow> fm.floored sha k m \<and> fm.settled sha m
   | Up s \<Rightarrow> fm.core_safe sha k s)"

lemma host_safe_floored: "host_safe sha k h \<Longrightarrow> fm.floored sha k (host_media h)"
  by (cases h) (simp_all add: host_safe_def host_media_def fm.core_safe_def)

lemma with_script_safe [simp]:
  "fm.core_safe sha k (with_script sc s) = fm.core_safe sha k s"
  "co_current (with_script sc s) = co_current s"
  by (simp_all add: fm.core_safe_def with_script_def fm.floored_def fm_survivors_def fm_file_def
      split: anchor_copy.splits)

lemma script_irrelevant [simp]:
  "fm.floored sha k (m\<lparr>fm_script := sc\<rparr>) = fm.floored sha k m"
  "fm.settled sha (m\<lparr>fm_script := sc\<rparr>) = fm.settled sha m"
  by (simp_all add: fm.floored_def fm.settled_def fm_survivors_def fm_content_def fm_file_def
      split: anchor_copy.splits)

lemma crash_of_survivors:
  assumes "crash_of sha (fm_file c m) (fm_file c m')" "x \<in> fm_survivors m' c"
    "decode_and_verify sha x = Inr r"
  shows "x \<in> fm_survivors m c"
proof -
  have "f_since (fm_file c m') = [f_cache (fm_file c m')]"
    using assms(1) unfolding crash_of_def crash_file_def by (metis os_file.select_convs(3))
  then have "x = f_cache (fm_file c m') \<or> x = f_durable (fm_file c m')"
    using assms(2) by (auto simp: fm_survivors_def)
  then have "can_survive sha (fm_file c m) x" using assms(1) by (auto simp: crash_of_def)
  then show ?thesis using assms(3) by (auto simp: can_survive_def fm_survivors_def)
qed

lemma crash_of_settled:
  "crash_of sha f (fm_file c m') \<Longrightarrow> fm_content m' c \<in> fm_survivors m' c"
  unfolding crash_of_def crash_file_def fm_content_def fm_survivors_def
  by (metis insertCI list.set_intros(1) os_file.select_convs(3))

lemma crash_safe:
  assumes fl: "fm.floored sha k m" and a: "crash_of sha (fm_a m) fa" and b: "crash_of sha (fm_b m) fb"
  shows "host_safe sha k (Down \<lparr>fm_a = fa, fm_b = fb, fm_script = []\<rparr>)"
proof -
  let ?m = "\<lparr>fm_a = fa, fm_b = fb, fm_script = []\<rparr>"
  have c: "crash_of sha (fm_file c m) (fm_file c ?m)" for c
    using a b by (cases c) (simp_all add: fm_file_def)
  have "fm.floored sha k ?m"
    using fl crash_of_survivors [OF c] unfolding fm.floored_def by blast
  moreover have "fm.settled sha ?m"
    using crash_of_settled [OF c] unfolding fm.settled_def by blast
  ultimately show ?thesis by (simp add: host_safe_def)
qed

lemma history_safe: "history sha rops bid h out \<Longrightarrow> host_safe sha (high_mark out) h"
proof (induction rule: history.induct)
  case (start xa xb)
  show ?case
    by (auto simp: host_safe_def high_mark_def fm.floored_def fm.settled_def fm_content_def
        fm_survivors_def pristine_def fm_file_def file_of_def split: anchor_copy.splits)
next
  case (crash h out fa fb)
  then show ?case using crash_safe host_safe_floored by blast
next
  case (open_ok m out sc r s m')
  then show ?case using fm.open_safe [OF open_ok.hyps(2)] by (simp add: host_safe_def)
next
  case (open_fail m out sc r e m' fa fb)
  then have "fm.floored sha (high_mark out) m'"
    using fm.open_safe [OF open_fail.hyps(2)] by (simp add: host_safe_def)
  then show ?case using crash_safe open_fail.hyps(3,4) by blast
next
  case (issue s out sc x s')
  then have "fm.core_safe sha (high_mark out) (with_script sc s)" by (simp add: host_safe_def)
  from fm.issue_safe [OF issue.hyps(2) this] show ?case
    by (auto simp: host_safe_def high_mark_def)
next
  case (reserve s out n sc x s')
  then have "fm.core_safe sha (high_mark out) (with_script sc s)" by (simp add: host_safe_def)
  note r = fm.reserve_safe [OF reserve.hyps(2) this]
  have "n \<noteq> 0 \<or> is_err x" using reserve.hyps(2)
    by (auto simp: core_reserve_range_def split: if_splits)
  then have "range_indices (ar_next (co_current s)) n \<noteq> [] \<and>
      last (range_indices (ar_next (co_current s)) n) = unat (ar_next (co_current s)) + unat n - 1
      \<and> 0 < unat n \<or> is_err x"
    by (auto simp: range_indices_def unat_gt_0)
  with r show ?case by (auto simp: host_safe_def high_mark_def)
qed

lemma sorted_append_above:
  "sorted_wrt (<) (xs :: nat list) \<Longrightarrow> sorted_wrt (<) ys \<Longrightarrow> (\<And>y. y \<in> set ys \<Longrightarrow> high_mark xs \<le> y) \<Longrightarrow>
    sorted_wrt (<) (xs @ ys)"
proof (cases "xs = []")
  case False
  assume s: "sorted_wrt (<) xs" "sorted_wrt (<) ys" and y: "\<And>y. y \<in> set ys \<Longrightarrow> high_mark xs \<le> y"
  have "x \<le> last xs" if "x \<in> set xs" for x
    using s(1) that by (induction xs) (auto simp: less_imp_le split: if_splits)
  then have "x < y" if "x \<in> set xs" "y \<in> set ys" for x y
    using that y [OF that(2)] False by (fastforce simp: high_mark_def)
  then show ?thesis using s by (auto simp: sorted_wrt_append)
qed (simp add: sorted_wrt_append)

lemma history_mark:
  "history sha rops bid (Up s) out \<Longrightarrow> high_mark out \<le> unat (ar_next (co_current s))"
  using history_safe by (force simp: host_safe_def fm.core_safe_def)

lemma history_sorted: "history sha rops bid h out \<Longrightarrow> sorted_wrt (<) out"
proof (induction rule: history.induct)
  case (issue s out sc x s')
  then show ?case using history_mark [OF issue.hyps(1)] by (auto intro: sorted_append_above)
next
  case (reserve s out n sc x s')
  have "sorted_wrt (<) (range_indices (ar_next (co_current s)) n)"
    unfolding range_indices_def by (rule sorted_wrt_upt)
  with reserve show ?case
    using history_mark [OF reserve.hyps(1)]
    by (auto simp: range_indices_def intro!: sorted_append_above)
qed simp_all

section \<open>Every outcome of issuing\<close>

lemma txn_outcome:
  assumes f: "\<And>r. fetch r \<noteq> None"
    "\<And>r b c r'. fetch r = Some (Inr (b, c), r') \<Longrightarrow> Q b c"
  shows "case core_txn sha ops intent fetch s of None \<Rightarrow> False | Some (x, s') \<Rightarrow>
    co_book_id s' = co_book_id s \<and>
    co_halted s' = (co_halted s \<or> x = Inl PersistenceUncertain) \<and>
    (case x of
       Inr b \<Rightarrow> Q b (co_current s')
     | Inl e \<Rightarrow> (e = IssIo \<and> co_current s' = intent) \<or>
         (e = PersistenceUncertain \<and> co_current s' = intent))"
proof -
  obtain p m where P: "persist_pair sha ops intent True (co_media s) = (p, m)" by fastforce
  obtain q m2 where B: "md_boundary ops SegmentPread m = (q, m2)" by fastforce
  obtain y r where F: "fetch (co_reader s) = Some (y, r)" using f(1) by fastforce
  show ?thesis
  proof (cases "\<exists>b c. p = Inr () \<and> q = Inr () \<and> y = Inr (b, c)")
    case True
    then obtain b c where y: "p = Inr ()" "q = Inr ()" "y = Inr (b, c)" by blast
    obtain w m3 where W: "persist_pair sha ops c False m2 = (w, m3)" by fastforce
    show ?thesis
      using P B F W y f(2) [of "co_reader s" b c r]
      by (cases w) (simp_all add: core_txn_def Let_def)
  next
    case False
    then show ?thesis
      using P B F by (cases p; cases q; cases y) (auto simp: core_txn_def Let_def)
  qed
qed

lemma issue_outcome_cases:
  "case core_issue sha ops rops s of None \<Rightarrow> False | Some (x, s') \<Rightarrow>
    co_halted s' = (co_halted s \<or> x = Inl PersistenceUncertain) \<and>
    (case x of
       Inr body \<Rightarrow> co_current s' = issued_commit sha s body \<and> \<not> co_halted s
     | Inl (IssExhausted i) \<Rightarrow> s' = s \<and> i = ar_next (co_current s) \<and> rd_count rops (co_reader s) \<le> i
     | Inl IssIo \<Rightarrow> ar_payload (co_current s') = Intent (ar_next (co_current s)) \<and>
         ar_next (co_current s') = ar_next (co_current s) + 1 \<and>
         ar_generation (co_current s) < ar_generation (co_current s')
     | Inl PersistenceUncertain \<Rightarrow> (if co_halted s then s' = s
         else ar_next (co_current s') \<in> {ar_next (co_current s), ar_next (co_current s) + 1})
     | Inl _ \<Rightarrow> False)"
proof (cases "co_halted s \<or> rd_count rops (co_reader s) \<le> ar_next (co_current s) \<or>
    u64_checked_add (gen_get (ar_generation (co_current s))) 1 = None")
  case True
  then show ?thesis by (auto simp: core_issue_def Let_def)
next
  case False
  let ?i = "ar_next (co_current s)"
  let ?G = "ar_generation (co_current s)"
  from False obtain g where g: "u64_checked_add (gen_get ?G) 1 = Some g"
    and pre: "\<not> co_halted s" "\<not> rd_count rops (co_reader s) \<le> ?i" by blast
  have n: "seg_next ?i = Some (?i + 1)"
    using pre(2) by (intro seg_next_below [of _ "rd_count rops (co_reader s)"])
      (simp add: word_less_nat_alt word_le_nat_alt)
  have g1: "g = gen_get ?G + 1" using g by (simp add: u64_checked_add_Some)
  have "unat (gen_get ?G) < unat g" using u64_checked_add_unat [OF g] by simp
  then have lt: "?G < Generation g"
    by (cases ?G) (simp add: less_generation_def word_less_nat_alt)
  define intent where "intent = \<lparr>ar_book_id = co_book_id s, ar_next = ?i + 1,
    ar_generation = Generation g, ar_payload = Intent ?i\<rparr>"
  have run: "core_issue sha ops rops s = core_txn sha ops intent
      (issue_fetch sha rops (co_book_id s) (Generation g) ?i) s"
    using pre g n by (simp add: core_issue_def Let_def anchor_intent_def intent_def)
  have "case core_txn sha ops intent (issue_fetch sha rops (co_book_id s) (Generation g) ?i) s of
      None \<Rightarrow> False | Some (x, s') \<Rightarrow> co_book_id s' = co_book_id s \<and>
    co_halted s' = (co_halted s \<or> x = Inl PersistenceUncertain) \<and>
    (case x of Inr b \<Rightarrow> co_current s' = issued_commit sha s b
     | Inl e \<Rightarrow> (e = IssIo \<and> co_current s' = intent) \<or>
         (e = PersistenceUncertain \<and> co_current s' = intent))"
    by (rule txn_outcome)
       (auto simp: issue_fetch_def n g1 issued_commit_def split: prod.splits sum.splits)
  then show ?thesis
    using pre lt unfolding run by (auto simp: intent_def split: option.splits sum.splits)
qed

text \<open>
  Issuing never panics, whatever medium and book it runs over, and its outcome says what
  became of the state: a success commits the digest of the body at the next index; an exhausted
  book changes nothing; a failed read of the book wastes the segment (the pointer stays
  advanced, the record is INTENT); a failed persistence or an exhausted generation halts the
  allocator, and a halted allocator refuses without touching the medium.
\<close>

theorem issue_outcomes:
  "case core_issue sha ops rops s of None \<Rightarrow> False | Some (x, s') \<Rightarrow>
    co_halted s' = (co_halted s \<or> x = Inl PersistenceUncertain) \<and>
    (case x of
       Inr body \<Rightarrow> co_current s' = issued_commit sha s body \<and> \<not> co_halted s
     | Inl (IssExhausted i) \<Rightarrow> s' = s \<and> i = ar_next (co_current s) \<and> rd_count rops (co_reader s) \<le> i
     | Inl IssIo \<Rightarrow> ar_payload (co_current s') = Intent (ar_next (co_current s)) \<and>
         ar_next (co_current s') = ar_next (co_current s) + 1 \<and>
         ar_generation (co_current s) < ar_generation (co_current s')
     | Inl PersistenceUncertain \<Rightarrow> (if co_halted s then s' = s
         else ar_next (co_current s') \<in> {ar_next (co_current s), ar_next (co_current s) + 1})
     | Inl _ \<Rightarrow> False)"
  by (rule issue_outcome_cases)

text \<open>
  C12. With a book that has a segment left and a system that answers, issuing returns the body
  of the segment the pointer names, and by then the COMMIT record, one generation and one
  segment further, is the only image either copy can hold after a crash.
\<close>

theorem issue_commits_durably:
  assumes "\<not> co_halted s" and "ar_next (co_current s) < rd_count rops (co_reader s)"
    and "unat (gen_get (ar_generation (co_current s))) + 1 < 2 ^ 64"
    and "fm_script (co_media s) = []"
    and "rd_read rops (ar_next (co_current s)) (co_reader s) = (Inr body, r)"
  shows "\<exists>m. core_issue sha file_media_ops rops s = Some (Inr body, s\<lparr>co_media := m,
      co_reader := r, co_current := issued_commit sha s body\<rparr>) \<and>
    (\<forall>c. fm_content m c = encode_record sha (issued_commit sha s body) \<and>
      fm_survivors m c = {encode_record sha (issued_commit sha s body)})"
proof -
  have "fm_survivors m c \<noteq> {}" for m c by (simp add: fm_survivors_def)
  then show ?thesis using fm.issue_ready [OF assms] by (metis subset_singletonD)
qed

text \<open>A small book for the examples: ten segments of 64 zero bytes.\<close>

definition zero_book :: "unit reader_ops" where
  "zero_book = \<lparr>rd_count = (\<lambda>_. 10), rd_read = (\<lambda>i r. (Inr (replicate 64 0), r))\<rparr>"

definition first_core :: "(file_media, unit) core" where
  "first_core = \<lparr>co_media = pristine (encode_record sum_digest (anchor_init (replicate 16 0)))
      (encode_record sum_digest (anchor_init (replicate 16 0))),
    co_reader = (), co_book_id = replicate 16 0, co_current = anchor_init (replicate 16 0),
    co_halted = False\<rparr>"

theorem issue_commits_durably_witness:
  "\<exists>m. core_issue sum_digest file_media_ops zero_book first_core = Some (Inr (replicate 64 0),
      first_core\<lparr>co_media := m, co_reader := (),
        co_current := issued_commit sum_digest first_core (replicate 64 0)\<rparr>) \<and>
    (\<forall>c. fm_content m c = encode_record sum_digest (issued_commit sum_digest first_core (replicate 64 0)) \<and>
      fm_survivors m c = {encode_record sum_digest (issued_commit sum_digest first_core (replicate 64 0))})"
  by (rule issue_commits_durably)
     (simp_all add: first_core_def anchor_init_def zero_book_def pristine_def)

text \<open>
  C8. Over any run with short writes, full disks, failed syncs, crashes at any point and
  restarts, the indices of the segments handed out are strictly increasing: no segment of the
  book is ever handed out twice.
\<close>

theorem allocator_never_reuses:
  assumes "history sha rops bid h out"
  shows "sorted_wrt (<) out \<and> distinct out"
  using history_sorted [OF assms] strict_sorted_iff by blast

lemma pristine_open:
  assumes "decode_and_verify sha x = Inr r" "ar_book_id r = bid" "ar_payload r = Init"
    "ar_next r \<le> rd_count rops t"
  shows "\<exists>m'. core_open sha file_media_ops rops bid (pristine x x) t =
    (Inr \<lparr>co_media = m', co_reader = t, co_book_id = bid, co_current = r, co_halted = False\<rparr>, m') \<and>
    fm_script m' = []"
  using assms
  by (simp add: core_open_def read_record_def file_media_ops_def fm_read_def pristine_def
      file_seek0_def file_read_to_end_def fm_file_def fm_put_def file_of_def verify_prior_def
      repair_stale_def map_err_def)

theorem allocator_never_reuses_witness:
  "\<exists>h. history sum_digest zero_book (replicate 16 0) h [0, 1] \<and> distinct [0 :: nat, 1]"
proof -
  let ?b = "replicate 16 0 :: bytes"
  let ?x = "encode_record sum_digest (anchor_init ?b)"
  have d: "decode_and_verify sum_digest ?x = Inr (anchor_init ?b)"
    by (rule decode_encode_record)
       (simp_all add: wf_anchor_def canonical_anchor_def anchor_init_def digest32_sum_digest)
  obtain m where o: "core_open sum_digest file_media_ops zero_book ?b (pristine ?x ?x) () =
      (Inr \<lparr>co_media = m, co_reader = (), co_book_id = ?b, co_current = anchor_init ?b,
        co_halted = False\<rparr>, m)" and m: "fm_script m = []"
    using pristine_open [OF d, of ?b zero_book "()"] by (auto simp: anchor_init_def zero_book_def)
  let ?s0 = "\<lparr>co_media = m, co_reader = (), co_book_id = ?b, co_current = anchor_init ?b,
        co_halted = False\<rparr>"
  have h0: "history sum_digest zero_book ?b (Up ?s0) []"
    using history.open_ok [OF history.start [of sum_digest zero_book ?b ?x ?x], of "[]" "()"] o
    by (simp add: pristine_def)
  have w: "with_script [] s = s" if "fm_script (co_media s) = []" for s :: "(file_media, unit) core"
    using that by (simp add: with_script_def)
  obtain m1 where i1: "core_issue sum_digest file_media_ops zero_book ?s0 =
      Some (Inr (replicate 64 0), ?s0\<lparr>co_media := m1, co_reader := (),
        co_current := issued_commit sum_digest ?s0 (replicate 64 0)\<rparr>)" and m1: "fm_script m1 = []"
    using fm.issue_ready [of ?s0 zero_book "replicate 64 0" "()" sum_digest] m
    by (auto simp: anchor_init_def zero_book_def)
  let ?s1 = "?s0\<lparr>co_media := m1, co_reader := (),
        co_current := issued_commit sum_digest ?s0 (replicate 64 0)\<rparr>"
  have h1: "history sum_digest zero_book ?b (Up ?s1) [0]"
    using history.issue [OF h0, of "[]"] i1 w [of ?s0] m by (simp add: anchor_init_def)
  obtain m2 where i2: "core_issue sum_digest file_media_ops zero_book ?s1 =
      Some (Inr (replicate 64 0), ?s1\<lparr>co_media := m2, co_reader := (),
        co_current := issued_commit sum_digest ?s1 (replicate 64 0)\<rparr>)"
    using fm.issue_ready [of ?s1 zero_book "replicate 64 0" "()" sum_digest] m1
    by (auto simp: anchor_init_def zero_book_def issued_commit_def anchor_commit_def)
  have "\<exists>h. history sum_digest zero_book ?b h [0, 1]"
    using history.issue [OF h1, of "[]"] i2 w [of ?s1] m1
    by (force simp: anchor_init_def issued_commit_def anchor_commit_def)
  then obtain h where h: "history sum_digest zero_book ?b h [0, 1]" by blast
  from allocator_never_reuses [OF h] have "distinct [0 :: nat, 1]" by (rule conjunct2)
  with h show ?thesis by blast
qed

end
