(* ===== verification/Book.thy ===== *)
theory Book
  imports AllocatorHistory
begin

text \<open>
  The book (\<open>crates/otp-book/src/header.rs\<close>, \<open>lib.rs\<close>, \<open>generate.rs\<close>): the 128-byte header and
  its codec, opening a book file, the bounded read of one segment, the book as the segment
  reader of the allocator, and the generator. A file is its type and its bytes; the answers of
  \<open>pread\<close> are a script, as in \<open>OsFile\<close>. SHA-256 is the parameter \<open>sha\<close>.
\<close>

section \<open>The header\<close>

definition BOOK_MAGIC :: bytes where "BOOK_MAGIC = [0x4F, 0x54, 0x50, 0x42]"
definition BOOK_VERSION :: u16 where "BOOK_VERSION = 1"
definition HEADER_LEN :: nat where "HEADER_LEN = 128"
definition SEGMENT_AREA_OFFSET :: u64 where "SEGMENT_AREA_OFFSET = 128"
definition MAX_SEGMENT_COUNT :: u64 where "MAX_SEGMENT_COUNT = 2 ^ 40 - 1"
definition HASHED_PREFIX_LEN :: nat where "HASHED_PREFIX_LEN = 96"
definition RESERVED_LEN :: nat where "RESERVED_LEN = 62"

lemmas book_consts = BOOK_MAGIC_def BOOK_VERSION_def HEADER_LEN_def SEGMENT_AREA_OFFSET_def
  MAX_SEGMENT_COUNT_def HASHED_PREFIX_LEN_def RESERVED_LEN_def SEGMENT_LEN_def

record book_header =
  bh_version :: u16
  bh_book_id :: book_id
  bh_segment_len :: u32
  bh_segment_count :: u64

definition header_validate :: "book_header \<Rightarrow> string + unit" where
  "header_validate h =
    (if bh_version h \<noteq> BOOK_VERSION then Inl ''unsupported-version''
     else if unat (bh_segment_len h) \<noteq> SEGMENT_LEN then Inl ''segment-len-not-64''
     else if bh_segment_count h = 0 \<or> MAX_SEGMENT_COUNT < bh_segment_count h
     then Inl ''segment-count-out-of-range''
     else Inr ())"

definition header_new :: "book_id \<Rightarrow> u64 \<Rightarrow> string + book_header" where
  "header_new bid n =
    (let h = \<lparr>bh_version = BOOK_VERSION, bh_book_id = bid, bh_segment_len = word_of_nat SEGMENT_LEN,
       bh_segment_count = n\<rparr>
     in rbind (header_validate h) (\<lambda>_. Inr h))"

definition header_prefix :: "book_header \<Rightarrow> bytes" where
  "header_prefix h = BOOK_MAGIC @ to_be16 (bh_version h) @ to_be32 (bh_segment_len h)
    @ to_be64 (bh_segment_count h) @ bh_book_id h @ replicate RESERVED_LEN 0"

definition header_encode :: "(bytes \<Rightarrow> bytes) \<Rightarrow> book_header \<Rightarrow> bytes" where
  "header_encode sha h = header_prefix h @ sha (header_prefix h)"

definition header_decode :: "(bytes \<Rightarrow> bytes) \<Rightarrow> bytes \<Rightarrow> string + book_header" where
  "header_decode sha bs =
    (if length bs \<noteq> HEADER_LEN then Inl ''header-length''
     else if slice_of 0 4 bs \<noteq> BOOK_MAGIC then Inl ''magic''
     else let version = from_be16 (slice_of 4 6 bs) in
     if version \<noteq> BOOK_VERSION then Inl ''unsupported-version''
     else let seg_len = from_be32 (slice_of 6 10 bs) in
     if unat seg_len \<noteq> SEGMENT_LEN then Inl ''segment-len-not-64''
     else let count = from_be64 (slice_of 10 18 bs) in
     if count = 0 \<or> MAX_SEGMENT_COUNT < count then Inl ''segment-count-out-of-range''
     else if slice_of 34 HASHED_PREFIX_LEN bs \<noteq> replicate RESERVED_LEN 0
     then Inl ''reserved-not-zero''
     else if drop HASHED_PREFIX_LEN bs \<noteq> sha (take HASHED_PREFIX_LEN bs)
     then Inl ''header-hash-mismatch''
     else Inr \<lparr>bh_version = version, bh_book_id = slice_of 18 34 bs, bh_segment_len = seg_len,
            bh_segment_count = count\<rparr>)"

definition u64_checked_mul :: "u64 \<Rightarrow> u64 \<Rightarrow> u64 option" where
  "u64_checked_mul a b = (if unat a * unat b < 2 ^ 64 then Some (a * b) else None)"

lemma u64_checked_mul_unat: "u64_checked_mul a b = Some c \<Longrightarrow> unat c = unat a * unat b"
  by (auto simp: u64_checked_mul_def unat_word_ariths split: if_splits)

definition expected_file_size :: "book_header \<Rightarrow> u64 option" where
  "expected_file_size h = (case u64_checked_mul (bh_segment_count h) (word_of_nat SEGMENT_LEN) of
     Some body \<Rightarrow> u64_checked_add SEGMENT_AREA_OFFSET body
   | None \<Rightarrow> None)"

lemma book_header_fields:
  assumes "length bs = 128"
  obtains m v l c i z d where "bs = m @ v @ l @ c @ i @ z @ d" "length m = 4" "length v = 2"
    "length l = 4" "length c = 8" "length i = 16" "length z = 62" "length d = 32"
proof -
  obtain m x1 where 1: "bs = m @ x1" "length m = 4" "length x1 = 124"
    using split_at [of bs 4 124] assms by auto
  obtain v x2 where 2: "x1 = v @ x2" "length v = 2" "length x2 = 122"
    using split_at [of x1 2 122] 1 by auto
  obtain l x3 where 3: "x2 = l @ x3" "length l = 4" "length x3 = 118"
    using split_at [of x2 4 118] 2 by auto
  obtain c x4 where 4: "x3 = c @ x4" "length c = 8" "length x4 = 110"
    using split_at [of x3 8 110] 3 by auto
  obtain i x5 where 5: "x4 = i @ x5" "length i = 16" "length x5 = 94"
    using split_at [of x4 16 94] 4 by auto
  obtain z d where 6: "x5 = z @ d" "length z = 62" "length d = 32"
    using split_at [of x5 62 32] 5 by auto
  show thesis using that [of m v l c i z d] 1 2 3 4 5 6 by simp
qed

lemma header_decode_fields:
  assumes "length m = 4" "length v = 2" "length l = 4" "length c = 8" "length i = 16"
    "length z = 62" "length d = 32"
  shows "header_decode sha (m @ v @ l @ c @ i @ z @ d) =
    (if m \<noteq> BOOK_MAGIC then Inl ''magic''
     else if from_be16 v \<noteq> BOOK_VERSION then Inl ''unsupported-version''
     else if unat (from_be32 l) \<noteq> SEGMENT_LEN then Inl ''segment-len-not-64''
     else if from_be64 c = 0 \<or> MAX_SEGMENT_COUNT < from_be64 c
     then Inl ''segment-count-out-of-range''
     else if z \<noteq> replicate RESERVED_LEN 0 then Inl ''reserved-not-zero''
     else if d \<noteq> sha (m @ v @ l @ c @ i @ z) then Inl ''header-hash-mismatch''
     else Inr \<lparr>bh_version = from_be16 v, bh_book_id = i, bh_segment_len = from_be32 l,
            bh_segment_count = from_be64 c\<rparr>)"
proof -
  let ?bs = "m @ v @ l @ c @ i @ z @ d"
  have len: "length ?bs = HEADER_LEN" using assms by (simp add: HEADER_LEN_def)
  have s: "slice_of 0 4 ?bs = m" "slice_of 4 6 ?bs = v" "slice_of 6 10 ?bs = l"
    "slice_of 10 18 ?bs = c" "slice_of 34 HASHED_PREFIX_LEN ?bs = z" "slice_of 18 34 ?bs = i"
    "drop HASHED_PREFIX_LEN ?bs = d"
    using assms by (simp_all add: slice_of_def HASHED_PREFIX_LEN_def)
  have t: "take HASHED_PREFIX_LEN ?bs = m @ v @ l @ c @ i @ z"
    using assms by (simp add: HASHED_PREFIX_LEN_def)
  show ?thesis
    unfolding header_decode_def Let_def len s t by (simp only: simp_thms if_False)
qed

lemma header_decode_Inr:
  assumes dec: "header_decode sha bs = Inr h"
  shows "bs = header_encode sha h \<and> header_validate h = Inr () \<and> length (bh_book_id h) = 16"
proof -
  from dec have "length bs = 128"
    by (auto simp: header_decode_def HEADER_LEN_def Let_def split: if_splits)
  then obtain m v l c i z d where bs: "bs = m @ v @ l @ c @ i @ z @ d"
    and len: "length m = 4" "length v = 2" "length l = 4" "length c = 8" "length i = 16"
      "length z = 62" "length d = 32"
    by (rule book_header_fields)
  have v: "from_be16 v = BOOK_VERSION \<Longrightarrow> v = to_be16 BOOK_VERSION"
    using to_from_be16 [OF len(2)] by simp
  from dec show ?thesis
    unfolding bs header_decode_fields [OF len]
    using len
    by (auto dest: v simp: header_encode_def header_prefix_def header_validate_def split: if_splits)
qed

lemma header_decode_encode:
  assumes sha: "digest32 sha" and h: "header_validate h = Inr ()" "length (bh_book_id h) = 16"
  shows "header_decode sha (header_encode sha h) = Inr h"
proof -
  have bs: "header_encode sha h = BOOK_MAGIC @ to_be16 (bh_version h) @ to_be32 (bh_segment_len h)
    @ to_be64 (bh_segment_count h) @ bh_book_id h @ replicate RESERVED_LEN 0 @ sha (header_prefix h)"
    by (simp add: header_encode_def header_prefix_def)
  have len: "length BOOK_MAGIC = 4" "length (to_be16 (bh_version h)) = 2"
    "length (to_be32 (bh_segment_len h)) = 4" "length (to_be64 (bh_segment_count h)) = 8"
    "length (bh_book_id h) = 16" "length (replicate RESERVED_LEN (0 :: byte)) = 62"
    "length (sha (header_prefix h)) = 32"
    using h sha by (simp_all add: digest32_def BOOK_MAGIC_def RESERVED_LEN_def)
  show ?thesis
    unfolding bs header_decode_fields [OF len]
    using h by (auto simp: header_validate_def header_prefix_def split: if_splits)
qed

text \<open>
  The header decoder accepts exactly the canonical headers: the buffer must be the encoding
  of a header that passes the validation that the constructor runs.
\<close>

theorem header_accepts_exactly:
  assumes "digest32 sha"
  shows "header_decode sha bs = Inr h \<longleftrightarrow>
    bs = header_encode sha h \<and> header_validate h = Inr () \<and> length (bh_book_id h) = 16"
  using header_decode_Inr header_decode_encode [OF assms] by blast

theorem header_accepts_exactly_witness:
  "header_decode sum_digest (header_encode sum_digest
      \<lparr>bh_version = 1, bh_book_id = replicate 16 7, bh_segment_len = 64, bh_segment_count = 3\<rparr>)
    = Inr \<lparr>bh_version = 1, bh_book_id = replicate 16 7, bh_segment_len = 64, bh_segment_count = 3\<rparr>"
  unfolding header_accepts_exactly [OF digest32_sum_digest]
  by (simp add: header_validate_def book_consts)

section \<open>Reading at an offset\<close>

datatype book_error =
    BookNotFound
  | InvalidHeader string
  | SegmentOutOfRange segment_index u64
  | BookIo

text \<open>
  One \<open>pread\<close> of at most \<open>n\<close> bytes at an offset: a chunk, possibly short and empty at the end
  of the file, or an error.
\<close>

definition os_pread :: "nat \<Rightarrow> nat \<Rightarrow> bytes \<Rightarrow> script \<Rightarrow> (os_outcome + bytes) \<times> script" where
  "os_pread n off data sc = (case sc of
     [] \<Rightarrow> (Inr (take n (drop off data)), [])
   | OsOk k # sc' \<Rightarrow> (Inr (take (min k n) (drop off data)), sc')
   | e # sc' \<Rightarrow> (Inl e, sc'))"

text \<open>
  \<open>pread_exact\<close>: \<open>n\<close> bytes are left to fill. The offset grows by saturating addition, which
  does not saturate below \<open>2 ^ 64\<close> bytes; files are shorter.
\<close>

function pread_exact :: "nat \<Rightarrow> nat \<Rightarrow> bytes \<Rightarrow> script \<Rightarrow> (book_error + bytes) \<times> script" where
  "pread_exact n off data sc =
    (if n = 0 then (Inr [], sc)
     else case os_pread n off data sc of
       (Inr chunk, sc') \<Rightarrow>
         if chunk = [] then (Inl BookIo, sc')
         else (case pread_exact (n - length chunk) (off + length chunk) data sc' of
             (r, sc'') \<Rightarrow> (map_ok (\<lambda>rest. chunk @ rest) r, sc''))
     | (Inl e, sc') \<Rightarrow>
         if e = OsInterrupted then pread_exact n off data sc' else (Inl BookIo, sc'))"
  by pat_completeness auto
termination
  by (relation "measure (\<lambda>(n, off, data, sc). n + length sc)")
     (auto simp: os_pread_def split: list.splits os_outcome.splits)

declare pread_exact.simps [simp del]

lemma pread_exact_Inr:
  "pread_exact n off data sc = (Inr bs, sc') \<Longrightarrow>
    bs = take n (drop off data) \<and> length bs = n"
proof (induction n off data sc arbitrary: bs sc' rule: pread_exact.induct)
  case (1 n off data sc)
  show ?case
  proof (cases "n = 0")
    case True
    then show ?thesis using "1.prems" by (simp add: pread_exact.simps)
  next
    case n: False
    obtain r sc1 where p: "os_pread n off data sc = (r, sc1)" by fastforce
    show ?thesis
    proof (cases r)
      case (Inl e)
      then show ?thesis
        using "1.prems" "1.IH"(1) [OF n p [symmetric] Inl, of bs sc'] n p
        by (auto simp: pread_exact.simps [of n off data sc] split: if_splits)
    next
      case (Inr chunk)
      obtain q sc2 where q: "pread_exact (n - length chunk) (off + length chunk) data sc1 = (q, sc2)"
        by fastforce
      from "1.prems" n p Inr q have c: "chunk \<noteq> []"
        by (auto simp: pread_exact.simps [of n off data sc] split: if_splits)
      obtain rest where rest: "q = Inr rest" "bs = chunk @ rest"
        using "1.prems" n p Inr q c
        by (auto simp: pread_exact.simps [of n off data sc] map_ok_Inr_iff)
      have ih: "rest = take (n - length chunk) (drop (off + length chunk) data)"
        "length rest = n - length chunk"
        using "1.IH"(2) [OF n p [symmetric] Inr c q [unfolded rest(1)]] by blast+
      have k: "chunk = take (length chunk) (drop off data)" "length chunk \<le> n"
        using p Inr by (auto simp: os_pread_def min_def split: list.splits os_outcome.splits)
      have "take n (drop off data) = take (length chunk) (drop off data)
          @ take (n - length chunk) (drop (length chunk) (drop off data))"
        using k(2) by (metis le_add_diff_inverse take_add)
      then show ?thesis using k ih rest(2) by (simp add: add.commute)
    qed
  qed
qed

lemma pread_exact_Nil:
  assumes "off + n \<le> length data"
  shows "pread_exact n off data [] = (Inr (take n (drop off data)), [])"
proof (cases "n = 0")
  case False
  then have ne: "take n (drop off data) \<noteq> []" using assms by auto
  have "length (take n (drop off data)) = n" using assms by simp
  with False ne show ?thesis
    by (simp add: pread_exact.simps [of n] os_pread_def pread_exact.simps [of 0])
qed (simp add: pread_exact.simps)

section \<open>Opening a book, reading a segment\<close>

record book_file =
  bf_regular :: bool
  bf_data :: bytes

datatype open_outcome = OpenNotFound | OpenFails | OpenOk book_file

record book =
  bk_header :: book_header
  bk_data :: bytes
  bk_script :: script

definition open_validated ::
  "(bytes \<Rightarrow> bytes) \<Rightarrow> open_outcome \<Rightarrow> script \<Rightarrow> (book_error + book) \<times> script" where
  "open_validated sha oc sc = (case oc of
     OpenNotFound \<Rightarrow> (Inl BookNotFound, sc)
   | OpenFails \<Rightarrow> (Inl BookIo, sc)
   | OpenOk f \<Rightarrow> (case os_call sc of
       (Some _, sc) \<Rightarrow> (Inl BookIo, sc)
     | (None, sc) \<Rightarrow>
       if \<not> bf_regular f then (Inl (InvalidHeader ''not-a-regular-file''), sc)
       else if length (bf_data f) < HEADER_LEN then (Inl (InvalidHeader ''header-length''), sc)
       else (case pread_exact HEADER_LEN 0 (bf_data f) sc of
           (Inl e, sc) \<Rightarrow> (Inl e, sc)
         | (Inr head, sc) \<Rightarrow> (case header_decode sha head of
             Inl reason \<Rightarrow> (Inl (InvalidHeader reason), sc)
           | Inr h \<Rightarrow> (case expected_file_size h of
               Some n \<Rightarrow> if length (bf_data f) = unat n
                 then (Inr \<lparr>bk_header = h, bk_data = bf_data f, bk_script = sc\<rparr>, sc)
                 else (Inl (InvalidHeader ''file-size-mismatch''), sc)
             | None \<Rightarrow> (Inl (InvalidHeader ''file-size-mismatch''), sc))))))"

definition book_read_segment :: "segment_index \<Rightarrow> book \<Rightarrow> (book_error + bytes) \<times> book" where
  "book_read_segment i b =
    (let count = bh_segment_count (bk_header b) in
     if count \<le> i then (Inl (SegmentOutOfRange i count), b)
     else case u64_checked_mul i (word_of_nat SEGMENT_LEN) of
       None \<Rightarrow> (Inl (SegmentOutOfRange i count), b)
     | Some body_off \<Rightarrow> (case u64_checked_add SEGMENT_AREA_OFFSET body_off of
         None \<Rightarrow> (Inl (SegmentOutOfRange i count), b)
       | Some off \<Rightarrow> (case pread_exact SEGMENT_LEN (unat off) (bk_data b) (bk_script b) of
           (r, sc) \<Rightarrow> (r, b\<lparr>bk_script := sc\<rparr>))))"

definition book_reader :: "book reader_ops" where
  "book_reader = \<lparr>rd_count = (\<lambda>b. bh_segment_count (bk_header b)),
    rd_read = (\<lambda>i b. case book_read_segment i b of (r, b') \<Rightarrow> (map_err (\<lambda>_. MedIo) r, b'))\<rparr>"

text \<open>Segment \<open>i\<close> of a book file.\<close>

definition segment_at :: "bytes \<Rightarrow> nat \<Rightarrow> bytes" where
  "segment_at data i = take SEGMENT_LEN (drop (128 + 64 * i) data)"

lemma segment_offset:
  assumes "u64_checked_mul i (word_of_nat SEGMENT_LEN) = Some m"
    "u64_checked_add SEGMENT_AREA_OFFSET m = Some off"
  shows "unat off = 128 + 64 * unat i"
  using u64_checked_mul_unat [OF assms(1)] u64_checked_add_unat [OF assms(2)]
  by (simp add: SEGMENT_AREA_OFFSET_def SEGMENT_LEN_def)

lemma book_read_segment_frame:
  "book_read_segment i b = (r, b') \<Longrightarrow> bk_header b' = bk_header b \<and> bk_data b' = bk_data b"
  by (auto simp: book_read_segment_def Let_def split: if_splits option.splits prod.splits)

lemma book_read_segment_Inr:
  assumes "book_read_segment i b = (Inr body, b')"
  shows "body = segment_at (bk_data b) (unat i) \<and> length body = SEGMENT_LEN \<and>
    i < bh_segment_count (bk_header b)"
proof -
  from assms obtain m off sc where i: "\<not> bh_segment_count (bk_header b) \<le> i"
    and m: "u64_checked_mul i (word_of_nat SEGMENT_LEN) = Some m"
      "u64_checked_add SEGMENT_AREA_OFFSET m = Some off"
    and p: "pread_exact SEGMENT_LEN (unat off) (bk_data b) (bk_script b) = (Inr body, sc)"
    by (auto simp: book_read_segment_def Let_def split: if_splits option.splits prod.splits)
  show ?thesis
    using pread_exact_Inr [OF p] i segment_offset [OF m] by (auto simp: segment_at_def)
qed

lemma open_validated_Inr:
  assumes "open_validated sha oc sc = (Inr b, sc')"
  shows "header_validate (bk_header b) = Inr () \<and>
    length (bk_data b) = 128 + 64 * unat (bh_segment_count (bk_header b)) \<and>
    take 128 (bk_data b) = header_encode sha (bk_header b)"
proof -
  have "\<exists>sc1 sc2 head n. pread_exact HEADER_LEN 0 (bk_data b) sc1 = (Inr head, sc2) \<and>
      header_decode sha head = Inr (bk_header b) \<and> expected_file_size (bk_header b) = Some n \<and>
      length (bk_data b) = unat n"
    using assms
    by (fastforce simp: open_validated_def split: open_outcome.splits prod.splits option.splits
        if_splits sum.splits)
  then obtain sc1 sc2 head n where
    p: "pread_exact HEADER_LEN 0 (bk_data b) sc1 = (Inr head, sc2)"
    and d: "header_decode sha head = Inr (bk_header b)"
    and n: "expected_file_size (bk_header b) = Some n" "length (bk_data b) = unat n"
    by blast
  from n(1) obtain m where m:
    "u64_checked_mul (bh_segment_count (bk_header b)) (word_of_nat SEGMENT_LEN) = Some m"
    "u64_checked_add SEGMENT_AREA_OFFSET m = Some n"
    by (auto simp: expected_file_size_def split: option.splits)
  show ?thesis
    using pread_exact_Inr [OF p] header_decode_Inr [OF d] segment_offset [OF m] n(2)
    by (simp add: HEADER_LEN_def)
qed

text \<open>The contract of a segment reader, and reading a range over it.\<close>

locale segment_reader =
  fixes rops :: "'r reader_ops"
    and seg :: "'r \<Rightarrow> nat \<Rightarrow> bytes"
  assumes rd_law: "rd_read rops i r = (x, r') \<Longrightarrow> seg r' = seg r \<and> rd_count rops r' = rd_count rops r"
    and rd_ok: "rd_read rops i r = (Inr body, r') \<Longrightarrow>
      body = seg r (unat i) \<and> length body = SEGMENT_LEN \<and> i < rd_count rops r"
begin

lemma read_segments_ok:
  "read_segments rops is r = (Inr bs, r') \<Longrightarrow>
    bs = concat (map (\<lambda>i. seg r (unat i)) is) \<and> length bs = SEGMENT_LEN * length is \<and>
    seg r' = seg r \<and> rd_count rops r' = rd_count rops r"
proof (induction "is" arbitrary: r bs)
  case (Cons i "is")
  from Cons.prems obtain body r1 rest where b: "rd_read rops i r = (Inr body, r1)"
    and rest: "read_segments rops is r1 = (Inr rest, r')" and bs: "bs = body @ rest"
    by (auto split: prod.splits sum.splits)
  show ?case
    using Cons.IH [OF rest] rd_law [OF b] rd_ok [OF b] bs by auto
qed simp

lemma txn_fetched:
  assumes "core_txn sha ops intent fetch s = Some (Inr b, s')"
  shows "\<exists>c r. fetch (co_reader s) = Some (Inr (b, c), r) \<and> co_current s' = c \<and> co_reader s' = r"
  using assms
  by (auto simp: core_txn_def Let_def split: prod.splits sum.splits option.splits)

lemma reserve_contiguous:
  assumes run: "core_reserve_range sha ops rops n s = Some (Inr rr, s')"
  shows "rr_base rr = ar_next (co_current s) \<and>
    rr_bytes rr = concat (map (seg (co_reader s)) (range_indices (rr_base rr) n)) \<and>
    rr_segment_count rr = unat n \<and> n \<noteq> 0 \<and>
    unat (ar_next (co_current s')) = unat (rr_base rr) + unat n \<and>
    unat (rr_base rr) + unat n \<le> unat (rd_count rops (co_reader s))"
proof -
  let ?base = "ar_next (co_current s)"
  from run obtain e g intent x0 where e: "u64_checked_add ?base n = Some e"
    and n0: "n \<noteq> 0" and le: "\<not> rd_count rops (co_reader s) < e"
    and txn: "core_txn sha ops intent (range_fetch sha rops (co_book_id s) (Generation g) ?base n e) s
      = Some (x0, s')"
    and x0: "map_ok (\<lambda>b. \<lparr>rr_base = ?base, rr_bytes = b\<rparr>) x0 = Inr rr"
    by (auto simp: core_reserve_range_def Let_def split: if_splits option.splits)
  from x0 obtain b where b: "x0 = Inr b" "rr = \<lparr>rr_base = ?base, rr_bytes = b\<rparr>"
    by (auto simp: map_ok_Inr_iff)
  from txn_fetched [OF txn [unfolded b(1)]] obtain c r where
    f: "range_fetch sha rops (co_book_id s) (Generation g) ?base n e (co_reader s)
      = Some (Inr (b, c), r)" "co_current s' = c" by blast
  from f(1) have rs: "read_segments rops (map (\<lambda>i. ?base + word_of_nat i) [0..<unat n]) (co_reader s)
      = (Inr b, r)" and c: "ar_next c = e"
    by (auto simp: range_fetch_def anchor_commit_def split: if_splits prod.splits sum.splits)
  note ue = u64_checked_add_unat [OF e]
  have "unat (?base + word_of_nat i) = unat ?base + i" if "i < unat n" for i
  proof -
    have "i < 18446744073709551616" using that unat_u64_lt [of n] by linarith
    moreover have "unat ?base + i < 18446744073709551616" using that ue unat_u64_lt [of e] by linarith
    ultimately show ?thesis by (simp add: unat_word_ariths unat_of_nat)
  qed
  then have idx: "map (\<lambda>i. seg (co_reader s) (unat i)) (map (\<lambda>i. ?base + word_of_nat i) [0..<unat n])
      = map (seg (co_reader s)) (range_indices ?base n)"
    by (auto simp: range_indices_def map_add_upt [symmetric] add.commute intro!: map_cong)
  note R = read_segments_ok [OF rs, unfolded idx SEGMENT_LEN_def]
  from R have bc: "b = concat (map (seg (co_reader s)) (range_indices ?base n))" by blast
  from R have bl: "length b = 64 * unat n"
    by (elim conjE) (simp only: length_map length_upt diff_zero)
  from bl have "rr_segment_count rr = unat n"
    by (simp add: b(2) rr_segment_count_def SEGMENT_LEN_def)
  moreover have "unat (ar_next (co_current s')) = unat (rr_base rr) + unat n"
    "unat (rr_base rr) + unat n \<le> unat (rd_count rops (co_reader s))"
    using b(2) c f(2) ue le by (simp_all add: word_less_nat_alt not_less)
  ultimately show ?thesis using b(2) bc n0 by simp
qed

end

interpretation bk: segment_reader book_reader "\<lambda>b. segment_at (bk_data b)"
proof
  fix i r x r' body
  show "rd_read book_reader i r = (x, r') \<Longrightarrow>
      segment_at (bk_data r') = segment_at (bk_data r) \<and> rd_count book_reader r' = rd_count book_reader r"
    by (auto simp: book_reader_def dest!: book_read_segment_frame split: prod.splits)
  show "rd_read book_reader i r = (Inr body, r') \<Longrightarrow>
      body = segment_at (bk_data r) (unat i) \<and> length body = SEGMENT_LEN \<and> i < rd_count book_reader r"
    by (auto simp: book_reader_def dest!: book_read_segment_Inr split: prod.splits)
qed

lemma header_new_valid:
  assumes "n \<noteq> 0" "n \<le> MAX_SEGMENT_COUNT" "length bid = 16"
  shows "\<exists>h. header_new bid n = Inr h \<and> header_validate h = Inr () \<and> bh_segment_count h = n \<and>
    bh_book_id h = bid"
  using assms by (simp add: header_new_def Let_def header_validate_def SEGMENT_LEN_def not_less)

lemma expected_size_valid:
  assumes "header_validate h = Inr ()"
  shows "\<exists>n. expected_file_size h = Some n \<and> unat n = 128 + 64 * unat (bh_segment_count h)"
proof -
  have "bh_segment_count h \<le> MAX_SEGMENT_COUNT"
    using assms by (auto simp: header_validate_def split: if_splits)
  then have c: "unat (bh_segment_count h) \<le> 1099511627775"
    by (simp add: word_le_nat_alt MAX_SEGMENT_COUNT_def)
  then have "u64_checked_mul (bh_segment_count h) (word_of_nat SEGMENT_LEN) =
      Some (bh_segment_count h * 64)"
    by (simp add: u64_checked_mul_def SEGMENT_LEN_def)
  moreover from u64_checked_mul_unat [OF this]
  have m: "unat (bh_segment_count h * 64) = unat (bh_segment_count h) * 64"
    by (simp add: SEGMENT_LEN_def)
  moreover from c m have "u64_checked_add SEGMENT_AREA_OFFSET (bh_segment_count h * 64) =
      Some (128 + bh_segment_count h * 64)"
    by (simp add: u64_checked_add_def SEGMENT_AREA_OFFSET_def)
  moreover from u64_checked_add_unat [OF this] m
  have "unat (128 + bh_segment_count h * 64) = 128 + 64 * unat (bh_segment_count h)"
    by (simp add: SEGMENT_AREA_OFFSET_def)
  ultimately show ?thesis by (simp add: expected_file_size_def)
qed

lemma open_validated_whole:
  assumes sha: "digest32 sha" and h: "header_validate h = Inr ()" "length (bh_book_id h) = 16"
    and d: "take 128 d = header_encode sha h" "length d = 128 + 64 * unat (bh_segment_count h)"
  shows "open_validated sha (OpenOk \<lparr>bf_regular = True, bf_data = d\<rparr>) [] =
    (Inr \<lparr>bk_header = h, bk_data = d, bk_script = []\<rparr>, [])"
proof -
  have "pread_exact HEADER_LEN 0 d [] = (Inr (header_encode sha h), [])"
    using pread_exact_Nil [of 0 HEADER_LEN d] d by (simp add: HEADER_LEN_def)
  moreover obtain n where "expected_file_size h = Some n" "unat n = 128 + 64 * unat (bh_segment_count h)"
    using expected_size_valid [OF h(1)] by blast
  ultimately show ?thesis
    using header_decode_encode [OF sha h] d(2) by (simp add: open_validated_def HEADER_LEN_def)
qed

text \<open>
  A book that opens is as long as its header says, and carries the header it was checked
  against; a segment that is read from it is the 64 bytes at offset \<open>128 + 64 * i\<close> of the file,
  whatever short reads and interrupts happened, and the index lies inside the book.
\<close>

theorem open_and_read_segment:
  assumes "open_validated sha oc sc = (Inr b, sc')"
    and "book_read_segment i b = (Inr body, b')"
  shows "length (bk_data b) = 128 + 64 * unat (bh_segment_count (bk_header b)) \<and>
    take 128 (bk_data b) = header_encode sha (bk_header b) \<and>
    i < bh_segment_count (bk_header b) \<and>
    length body = 64 \<and> body = segment_at (bk_data b) (unat i) \<and> bk_data b' = bk_data b"
  using open_validated_Inr [OF assms(1)] book_read_segment_Inr [OF assms(2)]
    book_read_segment_frame [OF assms(2)]
  unfolding SEGMENT_LEN_def by blast

text \<open>
  A reserved range is the contiguous run of segments from the pointer on, in order, exactly
  as many as asked for; afterwards the pointer is behind the last of them and inside the book.
\<close>

theorem reserve_range_contiguous:
  assumes "core_reserve_range sha ops book_reader n s = Some (Inr rr, s')"
  shows "rr_base rr = ar_next (co_current s) \<and>
    rr_bytes rr = concat (map (segment_at (bk_data (co_reader s))) (range_indices (rr_base rr) n)) \<and>
    rr_segment_count rr = unat n \<and> n \<noteq> 0 \<and>
    unat (ar_next (co_current s')) = unat (rr_base rr) + unat n \<and>
    unat (rr_base rr) + unat n \<le> unat (bh_segment_count (bk_header (co_reader s)))"
  using bk.reserve_contiguous [OF assms] by (auto simp: book_reader_def)

text \<open>A book of three segments for the examples.\<close>

definition small_header :: book_header where
  "small_header = \<lparr>bh_version = 1, bh_book_id = replicate 16 7, bh_segment_len = 64,
    bh_segment_count = 3\<rparr>"

definition small_data :: bytes where
  "small_data = header_encode sum_digest small_header @ replicate 64 1 @ replicate 64 2 @ replicate 64 3"

lemma small_header_valid: "header_validate small_header = Inr ()" "length (bh_book_id small_header) = 16"
  by (simp_all add: small_header_def header_validate_def book_consts)

lemma length_small_header: "length (header_encode sum_digest small_header) = 128"
  by (simp add: header_encode_def header_prefix_def small_header_def sum_digest_def BOOK_MAGIC_def
      RESERVED_LEN_def)

lemma small_open:
  "open_validated sum_digest (OpenOk \<lparr>bf_regular = True, bf_data = small_data\<rparr>) [] =
    (Inr \<lparr>bk_header = small_header, bk_data = small_data, bk_script = []\<rparr>, [])"
proof (rule open_validated_whole [OF digest32_sum_digest small_header_valid])
  show "take 128 small_data = header_encode sum_digest small_header"
    "length small_data = 128 + 64 * unat (bh_segment_count small_header)"
    by (simp_all add: small_data_def length_small_header) (simp add: small_header_def)
qed

abbreviation small_book :: book where
  "small_book \<equiv> \<lparr>bk_header = small_header, bk_data = small_data, bk_script = []\<rparr>"

lemma small_read:
  assumes "i < 3"
  shows "book_read_segment i small_book = (Inr (segment_at small_data (unat i)), small_book)"
proof -
  have "unat i < 3" using assms by (simp add: word_less_nat_alt)
  then have m: "u64_checked_mul i (word_of_nat SEGMENT_LEN) = Some (i * 64)"
    by (simp add: u64_checked_mul_def SEGMENT_LEN_def)
  have um: "unat (i * 64) = unat i * 64"
    using u64_checked_mul_unat [OF m] by (simp add: SEGMENT_LEN_def)
  have a: "u64_checked_add SEGMENT_AREA_OFFSET (i * 64) = Some (128 + i * 64)"
    using \<open>unat i < 3\<close> um by (simp add: u64_checked_add_def SEGMENT_AREA_OFFSET_def)
  have "128 + 64 * unat i + SEGMENT_LEN \<le> length small_data"
    using \<open>unat i < 3\<close> by (simp add: small_data_def length_small_header SEGMENT_LEN_def)
  from pread_exact_Nil [OF this] show ?thesis
    using m a segment_offset [OF m a] assms
    by (simp add: book_read_segment_def Let_def small_header_def segment_at_def)
qed

theorem open_and_read_segment_witness:
  "fst (open_validated sum_digest (OpenOk \<lparr>bf_regular = True, bf_data = small_data\<rparr>) []) = Inr small_book \<and>
    fst (book_read_segment 1 small_book) = Inr (segment_at small_data 1) \<and>
    length (segment_at small_data 1) = 64"
  using open_and_read_segment [OF small_open small_read [of 1]] small_open small_read [of 1] by simp

definition small_core :: "(file_media, book) core" where
  "small_core = \<lparr>co_media = pristine [] [], co_reader = small_book, co_book_id = replicate 16 7,
    co_current = anchor_init (replicate 16 7), co_halted = False\<rparr>"

lemma small_reserve:
  "\<exists>rr s'. core_reserve_range sum_digest file_media_ops book_reader 2 small_core = Some (Inr rr, s')"
proof -
  define intent where "intent = \<lparr>ar_book_id = replicate 16 7, ar_next = 2,
    ar_generation = Generation 1, ar_payload = Intent 1\<rparr>"
  have run: "core_reserve_range sum_digest file_media_ops book_reader 2 small_core =
    map_option (\<lambda>(x, s'). (map_ok (\<lambda>b. \<lparr>rr_base = 0, rr_bytes = b\<rparr>) x, s'))
      (core_txn sum_digest file_media_ops intent
        (range_fetch sum_digest book_reader (replicate 16 7) (Generation 1) 0 2 2) small_core)"
    by (simp add: core_reserve_range_def small_core_def Let_def anchor_init_def u64_checked_add_def
        book_reader_def small_header_def anchor_intent_def seg_next_def intent_def)
  have "rd_read book_reader i small_book = (Inr (segment_at small_data (unat i)), small_book)"
    if "i < 3" for i
    using small_read [OF that] by (simp add: book_reader_def)
  then have "range_fetch sum_digest book_reader (replicate 16 7) (Generation 1) 0 2 2 (co_reader small_core) =
    Some (Inr (segment_at small_data 0 @ segment_at small_data 1,
      anchor_commit (replicate 16 7) (Generation 1) 2 (sum_digest
        (drop (length (segment_at small_data 0 @ segment_at small_data 1) - SEGMENT_LEN)
          (segment_at small_data 0 @ segment_at small_data 1)))), small_book)"
    by (simp add: range_fetch_def small_core_def vec_capacity_ok_def SEGMENT_LEN_def upt_rec)
  from fm.txn_ready [of small_core, where fetch = "range_fetch sum_digest book_reader
      (replicate 16 7) (Generation 1) 0 2 2", OF _ this] show ?thesis
    unfolding run by (force simp: small_core_def pristine_def)
qed

theorem reserve_range_contiguous_witness:
  "\<exists>rr s'. core_reserve_range sum_digest file_media_ops book_reader 2 small_core = Some (Inr rr, s') \<and>
    rr_bytes rr = segment_at small_data 0 @ segment_at small_data 1 \<and> rr_segment_count rr = 2"
proof -
  obtain rr s' where r: "core_reserve_range sum_digest file_media_ops book_reader 2 small_core =
      Some (Inr rr, s')" using small_reserve by blast
  from reserve_range_contiguous [OF r] have "rr_bytes rr = concat (map (segment_at small_data)
      (range_indices (rr_base rr) 2))" "rr_segment_count rr = 2" "rr_base rr = 0"
    by (auto simp: small_core_def anchor_init_def)
  with r show ?thesis by (auto simp: range_indices_def upt_rec)
qed

section \<open>What issuing reads\<close>

context segment_reader
begin

lemma issue_fetch_law:
  assumes "issue_fetch sha rops bid g i r = Some (x, r')"
  shows "seg r' = seg r \<and> (\<forall>b c. x = Inr (b, c) \<longrightarrow> b = seg r (unat i) \<and> length b = SEGMENT_LEN)"
proof -
  obtain y r1 where y: "rd_read rops i r = (y, r1)" by fastforce
  show ?thesis
    using assms y rd_law [OF y] rd_ok [of i r _ r1]
    by (cases y) (auto simp: issue_fetch_def split: option.splits)
qed

lemma txn_reader:
  assumes "core_txn sha ops intent fetch s = Some (x, s')"
    and f: "\<And>r y r'. fetch r = Some (y, r') \<Longrightarrow> seg r' = seg r"
  shows "seg (co_reader s') = seg (co_reader s)"
proof -
  obtain p m where P: "persist_pair sha ops intent True (co_media s) = (p, m)" by fastforce
  obtain q m2 where B: "md_boundary ops SegmentPread m = (q, m2)" by fastforce
  show ?thesis
    using assms(1) P B f
    by (auto simp: core_txn_def Let_def split: sum.splits option.splits prod.splits)
qed

lemma issue_reads:
  assumes run: "core_issue sha ops rops s = Some (x, s')"
  shows "seg (co_reader s') = seg (co_reader s) \<and>
    (\<forall>b. x = Inr b \<longrightarrow> b = seg (co_reader s) (unat (ar_next (co_current s))) \<and> length b = SEGMENT_LEN)"
proof (cases "co_halted s \<or> rd_count rops (co_reader s) \<le> ar_next (co_current s) \<or>
    u64_checked_add (gen_get (ar_generation (co_current s))) 1 = None")
  case True
  then show ?thesis using run by (auto simp: core_issue_def Let_def split: if_splits option.splits)
next
  case False
  let ?i = "ar_next (co_current s)"
  from False obtain g where g: "u64_checked_add (gen_get (ar_generation (co_current s))) 1 = Some g"
    and pre: "\<not> co_halted s" "\<not> rd_count rops (co_reader s) \<le> ?i" by blast
  from run pre g obtain intent where txn: "core_txn sha ops intent
      (issue_fetch sha rops (co_book_id s) (Generation g) ?i) s = Some (x, s')"
    by (auto simp: core_issue_def Let_def split: option.splits)
  have "seg (co_reader s') = seg (co_reader s)"
    using txn_reader [OF txn] issue_fetch_law by blast
  moreover have "b = seg (co_reader s) (unat ?i) \<and> length b = SEGMENT_LEN" if b: "x = Inr b" for b
    using txn_fetched [OF txn [unfolded b]] issue_fetch_law by blast
  ultimately show ?thesis by blast
qed

end

section \<open>The contract of an issuer\<close>

text \<open>
  What a client of \<open>SegmentIssuer::issue\<close> relies on: it does not panic, a success hands out the
  segment at the pointer and steps the pointer by one, and a failure never moves the pointer
  back.
\<close>

locale segment_issuer =
  fixes issue :: "'i \<Rightarrow> ((issue_error + bytes) \<times> 'i) option"
    and book :: "'i \<Rightarrow> nat \<Rightarrow> bytes"
    and ptr :: "'i \<Rightarrow> nat"
  assumes issue_total: "issue s \<noteq> None"
    and issue_ok: "issue s = Some (Inr b, s') \<Longrightarrow>
      b = book s (ptr s) \<and> length b = SEGMENT_LEN \<and> ptr s' = Suc (ptr s) \<and> book s' = book s"
    and issue_err: "issue s = Some (Inl e, s') \<Longrightarrow> ptr s \<le> ptr s' \<and> book s' = book s"

definition alloc_ptr :: "('m, 'r) core \<Rightarrow> nat" where
  "alloc_ptr s = unat (ar_next (co_current s))"

definition alloc_book :: "('m, book) core \<Rightarrow> nat \<Rightarrow> bytes" where
  "alloc_book s = segment_at (bk_data (co_reader s))"

lemma issue_pointer:
  assumes "core_issue sha ops rops s = Some (x, s')"
  shows "(case x of Inr _ \<Rightarrow> alloc_ptr s' = Suc (alloc_ptr s) | Inl _ \<Rightarrow> alloc_ptr s \<le> alloc_ptr s')"
proof (cases "rd_count rops (co_reader s) \<le> ar_next (co_current s)")
  case True
  then show ?thesis
    using assms by (auto simp: core_issue_def Let_def alloc_ptr_def split: if_splits)
next
  case False
  then have "seg_next (ar_next (co_current s)) = Some (ar_next (co_current s) + 1)"
    by (intro seg_next_below [of _ "rd_count rops (co_reader s)"])
       (simp add: word_less_nat_alt word_le_nat_alt)
  from seg_next_Some [OF this]
  have n: "unat (ar_next (co_current s) + 1) = unat (ar_next (co_current s)) + 1" .
  show ?thesis
    using issue_outcome_cases [where sha = sha and ops = ops and rops = rops and s = s] assms n
    by (auto simp: alloc_ptr_def issued_commit_def anchor_commit_def split: sum.splits issue_error.splits
        if_splits)
qed

interpretation alloc: segment_issuer "core_issue sha file_media_ops book_reader" alloc_book alloc_ptr for sha
proof
  fix s s' :: "(file_media, book) core" and b e
  show "core_issue sha file_media_ops book_reader s \<noteq> None"
    using issue_outcome_cases [where sha = sha and ops = file_media_ops and rops = book_reader and s = s]
    by (cases "core_issue sha file_media_ops book_reader s") simp_all
  show "core_issue sha file_media_ops book_reader s = Some (Inr b, s') \<Longrightarrow>
      b = alloc_book s (alloc_ptr s) \<and> length b = SEGMENT_LEN \<and> alloc_ptr s' = Suc (alloc_ptr s) \<and>
      alloc_book s' = alloc_book s"
    using bk.issue_reads [where sha = sha and s = s and x = "Inr b" and s' = s']
      issue_pointer [where sha = sha and s = s and x = "Inr b" and s' = s']
    by (simp add: alloc_book_def alloc_ptr_def)
  show "core_issue sha file_media_ops book_reader s = Some (Inl e, s') \<Longrightarrow>
      alloc_ptr s \<le> alloc_ptr s' \<and> alloc_book s' = alloc_book s"
    using bk.issue_reads [where sha = sha and s = s and x = "Inl e" and s' = s']
      issue_pointer [where sha = sha and s = s and x = "Inl e" and s' = s']
    by (simp add: alloc_book_def)
qed

end
