(* ===== verification/Handshake.thy ===== *)
theory Handshake
  imports Codec Session Book
begin

text \<open>
  The handshake state machines (\<open>crates/otp-handshake/src/lib.rs\<close>): the client and the server, one
  definition per handler. A nonce of the random source is an argument (\<open>None\<close> is its failure);
  the trait \<open>SegmentIssuer\<close> is an operation \<open>issue\<close> on a state of its own, and the record layer is
  \<open>Session\<close> with the cipher as a parameter. A result \<open>None\<close> of a handler is a panic.
\<close>

section \<open>Errors and shared steps\<close>

definition CONFIRM_LABEL_C2S :: bytes where
  "CONFIRM_LABEL_C2S = [0x63, 0x6c, 0x69, 0x65, 0x6e, 0x74, 0x2d, 0x63, 0x6f, 0x6e, 0x66, 0x69, 0x72, 0x6d]"

definition CONFIRM_LABEL_S2C :: bytes where
  "CONFIRM_LABEL_S2C = [0x73, 0x65, 0x72, 0x76, 0x65, 0x72, 0x2d, 0x63, 0x6f, 0x6e, 0x66, 0x69, 0x72, 0x6d]"

datatype handshake_error =
    HsBookMismatch
  | HsExhausted segment_index
  | HsClientAhead segment_index segment_index
  | HsAuthentication error_code
  | HsViolation error_code
  | HsIssuer issue_error
  | HsCsprng

definition handshake_error_code :: "handshake_error \<Rightarrow> error_code" where
  "handshake_error_code e = (case e of
     HsBookMismatch \<Rightarrow> BOOK_MISMATCH
   | HsExhausted _ \<Rightarrow> EXHAUSTED
   | HsClientAhead _ _ \<Rightarrow> CLIENT_AHEAD
   | HsAuthentication c \<Rightarrow> c
   | HsViolation c \<Rightarrow> c
   | HsIssuer i \<Rightarrow> (case i of
       IssExhausted _ \<Rightarrow> EXHAUSTED
     | IssBookMismatch \<Rightarrow> BOOK_MISMATCH
     | PersistenceUncertain \<Rightarrow> PERSISTENCE_UNVERIFIED
     | LockUnavailable \<Rightarrow> IO_ERROR
     | AnchorCorrupt \<Rightarrow> IO_ERROR
     | IssIo \<Rightarrow> IO_ERROR
     | InvalidRange \<Rightarrow> INTERNAL)
   | HsCsprng \<Rightarrow> CSPRNG_FAILURE)"

datatype step =
    StSend "message list"
  | StEstablished "message list" session segment_index
  | StAwaitPeer
  | StFailed handshake_error

type_synonym 'i issue_fn = "'i \<Rightarrow> ((issue_error + bytes) \<times> 'i) option"

record confirm_expectations =
  ce_book_id :: book_id
  ce_segment :: segment_index
  ce_client_nonce :: nonce16
  ce_server_nonce :: nonce16
  ce_direction :: direction
  ce_msg_type :: u16
  ce_label :: bytes

definition map_session_open_err :: "session_error \<Rightarrow> handshake_error" where
  "map_session_open_err e = (case e of
     AuthenticationFailed \<Rightarrow> HsAuthentication TAG_INVALID
   | SequenceReplay \<Rightarrow> HsAuthentication SEQ_REPLAY
   | SequenceUnexpected \<Rightarrow> HsViolation SEQ_UNEXPECTED
   | SequenceOverflow \<Rightarrow> HsViolation SEQ_UNEXPECTED
   | WrongDirection \<Rightarrow> HsViolation WRONG_DIRECTION
   | SesClosed \<Rightarrow> HsViolation BAD_ORDER)"

definition map_session_seal_err :: "session_error \<Rightarrow> handshake_error" where
  "map_session_seal_err e = (case e of
     SequenceOverflow \<Rightarrow> HsViolation SEQ_UNEXPECTED
   | _ \<Rightarrow> HsViolation INTERNAL)"

text \<open>
  \<open>copy_from_slice\<close> into the fixed array panics unless the sealed record has exactly
  \<open>SEALED_LEN\<close> bytes.
\<close>

definition seal_confirm ::
  "aead \<Rightarrow> book_id \<Rightarrow> segment_index \<Rightarrow> nonce16 \<Rightarrow> nonce16 \<Rightarrow> direction \<Rightarrow> session \<Rightarrow>
    ((handshake_error + message) \<times> session) option" where
  "seal_confirm ae bid seg cn sn d s =
    (case (case d of
        ClientToServer \<Rightarrow> (MtClientConfirm, msg_type_wire MTConfirmC2s, CONFIRM_LABEL_C2S)
      | ServerToClient \<Rightarrow> (MtServerConfirm, msg_type_wire MTConfirmS2c, CONFIRM_LABEL_S2C)) of
     (mt, wire_type, label) \<Rightarrow>
     let body = \<lparr>cb_book_id = bid, cb_segment_index = seg, cb_client_nonce = cn, cb_server_nonce = sn,
       cb_direction = d, cb_epoch = 0, cb_seq = 0, cb_msg_type = wire_type, cb_label = label\<rparr> in
     (case encode_confirm_body body of
        Inl e \<Rightarrow> Some (Inl (HsViolation e), s)
      | Inr plain \<Rightarrow> (case session_seal ae mt plain s of
          None \<Rightarrow> None
        | Some (Inl e, s) \<Rightarrow> Some (Inl (map_session_seal_err e), s)
        | Some (Inr r, s) \<Rightarrow>
            if length (sr_sealed r) \<noteq> SEALED_LEN then None
            else let zeta = session_nonce (ss_ctx s) in
              Some (Inr (case d of
                  ClientToServer \<Rightarrow> ConfirmC2s seg zeta 0 (sr_sequence r) (sr_sealed r)
                | ServerToClient \<Rightarrow> ConfirmS2c seg zeta 0 (sr_sequence r) (sr_sealed r)), s))))"

definition verify_confirm_outer ::
  "segment_index \<Rightarrow> nonce16 \<Rightarrow> epoch \<Rightarrow> seqno \<Rightarrow> segment_index \<Rightarrow> nonce16 \<Rightarrow> handshake_error + unit" where
  "verify_confirm_outer seg zeta e sq expect_seg expect_zeta =
    (if seg \<noteq> expect_seg then Inl (HsAuthentication SEGMENT_BINDING)
     else if zeta \<noteq> expect_zeta then Inl (HsAuthentication NONCE_MISMATCH)
     else if e \<noteq> 0 then Inl (HsViolation EPOCH_MISMATCH)
     else if sq \<noteq> 0 then Inl (HsViolation SEQ_UNEXPECTED)
     else Inr ())"

definition verify_confirm_body :: "confirm_body \<Rightarrow> confirm_expectations \<Rightarrow> handshake_error + unit" where
  "verify_confirm_body b e =
    (if cb_book_id b \<noteq> ce_book_id e \<or> cb_segment_index b \<noteq> ce_segment e
     then Inl (HsAuthentication SEGMENT_BINDING)
     else if cb_client_nonce b \<noteq> ce_client_nonce e \<or> cb_server_nonce b \<noteq> ce_server_nonce e
     then Inl (HsAuthentication NONCE_MISMATCH)
     else if cb_direction b \<noteq> ce_direction e \<or> cb_msg_type b \<noteq> ce_msg_type e \<or> cb_label b \<noteq> ce_label e
     then Inl (HsAuthentication SEGMENT_BINDING)
     else if cb_epoch b \<noteq> 0 then Inl (HsViolation EPOCH_MISMATCH)
     else if cb_seq b \<noteq> 0 then Inl (HsViolation SEQ_UNEXPECTED)
     else Inr ())"

section \<open>The client\<close>

datatype client_phase = CIdle | CHelloSent | CConfirmSent | CEstablished | CAheadRecovery | CFailed

record client_config =
  cc_version :: u16
  cc_book_id :: book_id
  cc_local_pointer :: segment_index
  cc_segment_count :: u64

record client_hs =
  ch_cfg :: client_config
  ch_phase :: client_phase
  ch_client_nonce :: "nonce16 option"
  ch_server_nonce :: "nonce16 option"
  ch_agreed :: "segment_index option"
  ch_session :: "session option"
  ch_wasted_gap :: "(segment_index \<times> segment_index) option"

definition client_new :: "client_config \<Rightarrow> handshake_error + client_hs" where
  "client_new cfg =
    (if cc_version cfg \<noteq> VERSION then Inl (HsViolation BAD_VERSION)
     else Inr \<lparr>ch_cfg = cfg, ch_phase = CIdle, ch_client_nonce = None, ch_server_nonce = None,
       ch_agreed = None, ch_session = None, ch_wasted_gap = None\<rparr>)"

definition client_start :: "nonce16 option \<Rightarrow> client_hs \<Rightarrow> (handshake_error + message) \<times> client_hs" where
  "client_start rnd c =
    (if ch_phase c \<noteq> CIdle then (Inl (HsViolation BAD_ORDER), c\<lparr>ch_phase := CFailed\<rparr>)
     else case rnd of
       None \<Rightarrow> (Inl HsCsprng, c)
     | Some n \<Rightarrow> (Inr (Hello (cc_book_id (ch_cfg c)) n (cc_local_pointer (ch_cfg c)) 0),
         c\<lparr>ch_client_nonce := Some n, ch_phase := CHelloSent\<rparr>))"

definition client_burn :: "client_hs \<Rightarrow> client_hs" where
  "client_burn c = c\<lparr>ch_session := None\<rparr>"

definition client_fail :: "handshake_error \<Rightarrow> client_hs \<Rightarrow> step \<times> client_hs" where
  "client_fail e c = (StFailed e, c\<lparr>ch_phase := CFailed\<rparr>)"

definition client_order_violation :: "client_hs \<Rightarrow> step \<times> client_hs" where
  "client_order_violation c = client_fail (HsViolation BAD_ORDER) (client_burn c)"

definition client_reject_pointer :: "client_hs \<Rightarrow> step \<times> client_hs" where
  "client_reject_pointer c = client_fail (HsViolation ISSUE_POINTER_MISMATCH) c"

definition client_fail_issuer :: "issue_error \<Rightarrow> client_hs \<Rightarrow> step \<times> client_hs" where
  "client_fail_issuer e c = client_fail (HsIssuer e) (client_burn c)"

definition client_abort :: "error_code \<Rightarrow> client_hs \<Rightarrow> step \<times> client_hs" where
  "client_abort reason c = client_fail (HsViolation reason) (client_burn c)"

text \<open>The loop over the gap: every segment of it is issued and dropped.\<close>

fun skip_segments :: "'i issue_fn \<Rightarrow> nat \<Rightarrow> 'i \<Rightarrow> ((issue_error + unit) \<times> 'i) option" where
  "skip_segments issue 0 is = Some (Inr (), is)"
| "skip_segments issue (Suc n) is = (case issue is of
     None \<Rightarrow> None
   | Some (Inl e, is) \<Rightarrow> Some (Inl e, is)
   | Some (Inr _, is) \<Rightarrow> skip_segments issue n is)"

definition issue_and_confirm ::
  "aead \<Rightarrow> 'i issue_fn \<Rightarrow> client_hs \<Rightarrow> 'i \<Rightarrow> ((step \<times> client_hs) \<times> 'i) option" where
  "issue_and_confirm ae issue c is = (case ch_agreed c of
     None \<Rightarrow> Some (client_order_violation c, is)
   | Some i \<Rightarrow> (case skip_segments issue (unat i - unat (cc_local_pointer (ch_cfg c))) is of
       None \<Rightarrow> None
     | Some (Inl e, is) \<Rightarrow> Some (client_fail_issuer e c, is)
     | Some (Inr _, is) \<Rightarrow> (case issue is of
         None \<Rightarrow> None
       | Some (Inl e, is) \<Rightarrow> Some (client_fail_issuer e c, is)
       | Some (Inr seg, is) \<Rightarrow> (case (ch_client_nonce c, ch_server_nonce c) of
           (Some cn, Some sn) \<Rightarrow>
             let ctx = \<lparr>cx_role = Client, cx_book_id = cc_book_id (ch_cfg c), cx_segment = i,
               cx_client_nonce = cn, cx_server_nonce = sn\<rparr> in
             (case seal_confirm ae (cc_book_id (ch_cfg c)) i cn sn ClientToServer (session_new seg ctx) of
                None \<Rightarrow> None
              | Some (Inl e, _) \<Rightarrow> Some (client_fail e (client_burn c), is)
              | Some (Inr confirm, s) \<Rightarrow>
                  Some ((StSend [IssueRequest i cn sn, confirm],
                    c\<lparr>ch_session := Some s, ch_phase := CConfirmSent\<rparr>), is))
         | _ \<Rightarrow> Some (client_order_violation c, is)))))"

definition on_arbitrate ::
  "aead \<Rightarrow> 'i issue_fn \<Rightarrow> message \<Rightarrow> client_hs \<Rightarrow> 'i \<Rightarrow> ((step \<times> client_hs) \<times> 'i) option" where
  "on_arbitrate ae issue m c is = (case m of
     Arbitrate sn sp result \<Rightarrow>
       let cp = cc_local_pointer (ch_cfg c); n = cc_segment_count (ch_cfg c) in
       (case result of
          ArbBookMismatch \<Rightarrow> Some (client_fail HsBookMismatch c, is)
        | ArbExhausted \<Rightarrow>
            if sp \<noteq> n then Some (client_reject_pointer c, is)
            else Some (client_fail (HsExhausted sp) c, is)
        | ArbClientAhead \<Rightarrow>
            if cp \<le> sp then Some (client_reject_pointer c, is)
            else Some ((StFailed (HsClientAhead cp sp), c\<lparr>ch_phase := CAheadRecovery\<rparr>), is)
        | ArbOk \<Rightarrow>
            if sp \<noteq> cp then Some (client_reject_pointer c, is)
            else issue_and_confirm ae issue (c\<lparr>ch_server_nonce := Some sn, ch_agreed := Some sp\<rparr>) is
        | ArbServerAhead \<Rightarrow>
            if sp \<le> cp then Some (client_reject_pointer c, is)
            else issue_and_confirm ae issue
              (c\<lparr>ch_wasted_gap := Some (cp, sp), ch_server_nonce := Some sn, ch_agreed := Some sp\<rparr>) is)
   | _ \<Rightarrow> Some (client_order_violation c, is))"

text \<open>
  The session is taken out of the machine first; a failure drops it closed.
\<close>

definition on_confirm_s2c :: "aead \<Rightarrow> message \<Rightarrow> client_hs \<Rightarrow> (step \<times> client_hs) option" where
  "on_confirm_s2c ae m c = (case m of
     ConfirmS2c seg zeta e sq sealed \<Rightarrow>
       (case (ch_agreed c, ch_client_nonce c, ch_server_nonce c, ch_session c) of
          (Some i, Some cn, Some sn, Some s) \<Rightarrow>
            let c = c\<lparr>ch_session := None\<rparr> in
            (case verify_confirm_outer seg zeta e sq i (session_nonce (ss_ctx s)) of
               Inl err \<Rightarrow> Some (client_fail err c)
             | Inr _ \<Rightarrow> (case session_open ae MtServerConfirm sq sealed s of
                 None \<Rightarrow> None
               | Some (Inl err, _) \<Rightarrow> Some (client_fail (map_session_open_err err) c)
               | Some (Inr pt, s) \<Rightarrow> (case decode_confirm_body pt of
                   Inl code \<Rightarrow> Some (client_fail (HsViolation code) c)
                 | Inr body \<Rightarrow>
                     (case verify_confirm_body body \<lparr>ce_book_id = cc_book_id (ch_cfg c), ce_segment = i,
                         ce_client_nonce = cn, ce_server_nonce = sn, ce_direction = ServerToClient,
                         ce_msg_type = msg_type_wire MTConfirmS2c, ce_label = CONFIRM_LABEL_S2C\<rparr> of
                        Inl err \<Rightarrow> Some (client_fail err c)
                      | Inr _ \<Rightarrow> Some (StEstablished [] s i, c\<lparr>ch_phase := CEstablished\<rparr>)))))
        | _ \<Rightarrow> Some (client_order_violation c))
   | _ \<Rightarrow> Some (client_order_violation c))"

definition client_handle ::
  "aead \<Rightarrow> 'i issue_fn \<Rightarrow> message \<Rightarrow> client_hs \<Rightarrow> 'i \<Rightarrow> ((step \<times> client_hs) \<times> 'i) option" where
  "client_handle ae issue m c is = (case ch_phase c of
     CHelloSent \<Rightarrow> (case m of
       Arbitrate _ _ _ \<Rightarrow> on_arbitrate ae issue m c is
     | _ \<Rightarrow> Some (client_order_violation c, is))
   | CConfirmSent \<Rightarrow> (case m of
       ConfirmS2c _ _ _ _ _ \<Rightarrow> map_option (\<lambda>r. (r, is)) (on_confirm_s2c ae m c)
     | _ \<Rightarrow> Some (client_order_violation c, is))
   | _ \<Rightarrow> Some (client_order_violation c, is))"

section \<open>The server\<close>

datatype server_phase = SIdle | SIssueWait | SConfirmWait | SEstablished | SAheadPending | SFailed

record server_config =
  sc_version :: u16
  sc_book_id :: book_id
  sc_local_pointer :: segment_index
  sc_segment_count :: u64

record server_hs =
  sh_cfg :: server_config
  sh_phase :: server_phase
  sh_client_nonce :: "nonce16 option"
  sh_server_nonce :: "nonce16 option"
  sh_agreed :: "segment_index option"
  sh_session :: "session option"

definition server_new :: "server_config \<Rightarrow> handshake_error + server_hs" where
  "server_new cfg =
    (if sc_version cfg \<noteq> VERSION then Inl (HsViolation BAD_VERSION)
     else Inr \<lparr>sh_cfg = cfg, sh_phase = SIdle, sh_client_nonce = None, sh_server_nonce = None,
       sh_agreed = None, sh_session = None\<rparr>)"

definition server_burn :: "server_hs \<Rightarrow> server_hs" where
  "server_burn h = h\<lparr>sh_session := None\<rparr>"

definition server_fail :: "handshake_error \<Rightarrow> server_hs \<Rightarrow> step \<times> server_hs" where
  "server_fail e h = (StFailed e, h\<lparr>sh_phase := SFailed\<rparr>)"

definition server_order_violation :: "server_hs \<Rightarrow> step \<times> server_hs" where
  "server_order_violation h = server_fail (HsViolation BAD_ORDER) (server_burn h)"

definition server_abort :: "error_code \<Rightarrow> server_hs \<Rightarrow> step \<times> server_hs" where
  "server_abort reason h = server_fail (HsViolation reason) (server_burn h)"

definition arbitrate :: "segment_index \<Rightarrow> segment_index \<Rightarrow> u64 \<Rightarrow> arbitrate_result \<times> segment_index" where
  "arbitrate sp cp n =
    (if n \<le> sp then (ArbExhausted, n)
     else if cp < sp then (ArbServerAhead, sp)
     else if sp < cp then (ArbClientAhead, sp)
     else (ArbOk, sp))"

definition on_hello ::
  "nonce16 option \<Rightarrow> message \<Rightarrow> server_hs \<Rightarrow> (handshake_error + message) \<times> server_hs" where
  "on_hello rnd m h =
    (if sh_phase h \<noteq> SIdle
     then (Inl (HsViolation BAD_ORDER), (server_burn h)\<lparr>sh_phase := SFailed\<rparr>)
     else case m of
       Hello bid cn cp _ \<Rightarrow>
         let h = h\<lparr>sh_client_nonce := Some cn\<rparr> in
         (case rnd of
            None \<Rightarrow> (Inl HsCsprng, h)
          | Some sn \<Rightarrow>
            if bid \<noteq> sc_book_id (sh_cfg h)
            then (Inr (Arbitrate sn 0 ArbBookMismatch), h\<lparr>sh_phase := SFailed\<rparr>)
            else let sp = sc_local_pointer (sh_cfg h) in
              (case arbitrate sp cp (sc_segment_count (sh_cfg h)) of (result, sp_out) \<Rightarrow>
                 (Inr (Arbitrate sn sp_out result),
                  (case result of
                     ArbOk \<Rightarrow> h\<lparr>sh_server_nonce := Some sn, sh_agreed := Some sp, sh_phase := SIssueWait\<rparr>
                   | ArbServerAhead \<Rightarrow>
                       h\<lparr>sh_server_nonce := Some sn, sh_agreed := Some sp, sh_phase := SIssueWait\<rparr>
                   | ArbClientAhead \<Rightarrow> h\<lparr>sh_phase := SAheadPending\<rparr>
                   | ArbExhausted \<Rightarrow> h\<lparr>sh_phase := SFailed\<rparr>
                   | ArbBookMismatch \<Rightarrow> h))))
     | _ \<Rightarrow> (Inl (HsViolation BAD_ORDER), h\<lparr>sh_phase := SFailed\<rparr>))"

definition on_issue_request ::
  "'i issue_fn \<Rightarrow> message \<Rightarrow> server_hs \<Rightarrow> 'i \<Rightarrow> ((step \<times> server_hs) \<times> 'i) option" where
  "on_issue_request issue m h is =
    (if sh_phase h \<noteq> SIssueWait then Some (server_order_violation h, is)
     else case m of
       IssueRequest chosen cn sn \<Rightarrow> (case sh_agreed h of
         None \<Rightarrow> Some (server_order_violation h, is)
       | Some i \<Rightarrow>
         if chosen \<noteq> i then Some (server_fail (HsViolation ISSUE_POINTER_MISMATCH) h, is)
         else (case (sh_client_nonce h, sh_server_nonce h) of
           (Some hcn, Some hsn) \<Rightarrow>
             if cn \<noteq> hcn \<or> sn \<noteq> hsn
             then Some (server_fail (HsAuthentication NONCE_MISMATCH) (server_burn h), is)
             else (case issue is of
               None \<Rightarrow> None
             | Some (Inl e, is) \<Rightarrow> Some (server_fail (HsIssuer e) h, is)
             | Some (Inr seg, is) \<Rightarrow>
               let ctx = \<lparr>cx_role = Server, cx_book_id = sc_book_id (sh_cfg h), cx_segment = i,
                 cx_client_nonce = hcn, cx_server_nonce = hsn\<rparr> in
               Some ((StAwaitPeer,
                 h\<lparr>sh_session := Some (session_new seg ctx), sh_phase := SConfirmWait\<rparr>), is))
         | _ \<Rightarrow> Some (server_order_violation h, is)))
     | _ \<Rightarrow> Some (server_order_violation h, is))"

definition on_confirm :: "aead \<Rightarrow> message \<Rightarrow> server_hs \<Rightarrow> (step \<times> server_hs) option" where
  "on_confirm ae m h =
    (if sh_phase h \<noteq> SConfirmWait then Some (server_order_violation h)
     else case m of
       ConfirmC2s seg zeta e sq sealed \<Rightarrow>
         (case (sh_agreed h, sh_client_nonce h, sh_server_nonce h, sh_session h) of
            (Some i, Some cn, Some sn, Some s) \<Rightarrow>
              let h = h\<lparr>sh_session := None\<rparr> in
              (case verify_confirm_outer seg zeta e sq i (session_nonce (ss_ctx s)) of
                 Inl err \<Rightarrow> Some (server_fail err h)
               | Inr _ \<Rightarrow> (case session_open ae MtClientConfirm sq sealed s of
                   None \<Rightarrow> None
                 | Some (Inl err, _) \<Rightarrow> Some (server_fail (map_session_open_err err) h)
                 | Some (Inr pt, s) \<Rightarrow> (case decode_confirm_body pt of
                     Inl code \<Rightarrow> Some (server_fail (HsViolation code) h)
                   | Inr body \<Rightarrow>
                       (case verify_confirm_body body \<lparr>ce_book_id = sc_book_id (sh_cfg h), ce_segment = i,
                           ce_client_nonce = cn, ce_server_nonce = sn, ce_direction = ClientToServer,
                           ce_msg_type = msg_type_wire MTConfirmC2s, ce_label = CONFIRM_LABEL_C2S\<rparr> of
                          Inl err \<Rightarrow> Some (server_fail err h)
                        | Inr _ \<Rightarrow>
                            (case seal_confirm ae (sc_book_id (sh_cfg h)) i cn sn ServerToClient s of
                               None \<Rightarrow> None
                             | Some (Inl err, _) \<Rightarrow> Some (server_fail err h)
                             | Some (Inr reply, s) \<Rightarrow>
                                 Some (StEstablished [reply] s i, h\<lparr>sh_phase := SEstablished\<rparr>))))))
          | _ \<Rightarrow> Some (server_order_violation h))
     | _ \<Rightarrow> Some (server_order_violation h))"

section \<open>Paired sessions\<close>

text \<open>Two sessions that are in step in both directions.\<close>

definition paired :: "session_keys \<Rightarrow> session \<Rightarrow> session \<Rightarrow> bool" where
  "paired k a b \<longleftrightarrow> follows k a b \<and> follows k b a"

lemma paired_sym: "paired k a b \<Longrightarrow> paired k b a"
  by (simp add: paired_def)

lemma paired_new:
  "paired (split_keys seg) (session_new seg cx) (session_new seg (cx\<lparr>cx_role := peer_of (cx_role cx)\<rparr>))"
  using follows_new [of seg cx] follows_new [of seg "cx\<lparr>cx_role := peer_of (cx_role cx)\<rparr>"]
  by (simp add: paired_def)

lemma seal_effect:
  assumes "keyed s" "session_seal ae mt pt s = Some (Inr x, s')" "seq_next (next_send_sequence s) = Some n"
  shows "s' = s\<lparr>ss_send := (ss_send s)(send_direction (cx_role (ss_ctx s)) := n)\<rparr> \<and>
    sr_sequence x = next_send_sequence s"
  using assms(1)
  by (cases rule: seal_cases [of _ ae mt pt]) (use assms(2,3) in auto)

lemma open_effect:
  assumes "keyed s" "session_open ae mt sq x s = Some (Inr pt, s')"
  shows "s' = s\<lparr>ss_recv := (ss_recv s)(opposite (send_direction (cx_role (ss_ctx s))) \<mapsto> sq)\<rparr>"
  using assms(1)
  by (cases rule: open_cases [of _ ae mt sq x]) (use assms(2) in auto)

lemma paired_transfer:
  assumes ae: "aead_correct ae" and p: "paired k a b"
    and run: "session_seal ae mt pt a = Some (Inr x, a')"
    and n: "seq_next (next_send_sequence a) = Some n"
  shows "\<exists>b'. session_open ae mt (sr_sequence x) (sr_sealed x) b = Some (Inr pt, b') \<and> paired k a' b' \<and>
    next_send_sequence b' = next_send_sequence b \<and> next_send_sequence a' = n"
proof -
  have f: "follows k a b" "follows k b a" using p by (simp_all add: paired_def)
  have ka: "keyed a" "keyed b" using f by (simp_all add: follows_def)
  from follows_seal [OF ae f(1) run] obtain b' where
    o: "session_open ae mt (sr_sequence x) (sr_sealed x) b = Some (Inr pt, b')" and f1: "follows k a' b'"
    by blast
  note ea = seal_effect [OF ka(1) run n] and eb = open_effect [OF ka(2) o]
  have "session_step ae (OpOpen mt (sr_sequence x) (sr_sealed x)) b =
      Some (EvOpened mt (sr_sequence x) pt, b')"
    by (simp add: session_step_def o)
  from follows_other [OF f(2) this] have "follows k b' a" by simp
  then have "follows k b' a'"
    using ea by (simp add: follows_def keyed_def expected_seq_def)
  then show ?thesis
    using o f1 ea eb by (simp add: paired_def next_send_sequence_def)
qed

text \<open>The cipher seals every message of the protocol; only absurd lengths fail.\<close>

definition aead_total :: "aead \<Rightarrow> bool" where
  "aead_total ae \<longleftrightarrow> (\<forall>k n a p. length p \<le> MAX_APP_PLAINTEXT \<longrightarrow> ae_seal ae k n a p \<noteq> None)"

definition confirm_message :: "direction \<Rightarrow> segment_index \<Rightarrow> nonce16 \<Rightarrow> bytes \<Rightarrow> message" where
  "confirm_message d seg zeta sealed = (case d of
     ClientToServer \<Rightarrow> ConfirmC2s seg zeta 0 0 sealed
   | ServerToClient \<Rightarrow> ConfirmS2c seg zeta 0 0 sealed)"

definition confirm_type :: "direction \<Rightarrow> message_type" where
  "confirm_type d = (case d of ClientToServer \<Rightarrow> MtClientConfirm | ServerToClient \<Rightarrow> MtServerConfirm)"

definition confirm_body_of :: "book_id \<Rightarrow> segment_index \<Rightarrow> nonce16 \<Rightarrow> nonce16 \<Rightarrow> direction \<Rightarrow> confirm_body" where
  "confirm_body_of bid seg cn sn d = \<lparr>cb_book_id = bid, cb_segment_index = seg, cb_client_nonce = cn,
    cb_server_nonce = sn, cb_direction = d, cb_epoch = 0, cb_seq = 0,
    cb_msg_type = (case d of ClientToServer \<Rightarrow> 4 | ServerToClient \<Rightarrow> 5),
    cb_label = (case d of ClientToServer \<Rightarrow> CONFIRM_LABEL_C2S | ServerToClient \<Rightarrow> CONFIRM_LABEL_S2C)\<rparr>"

definition confirm_expect :: "book_id \<Rightarrow> segment_index \<Rightarrow> nonce16 \<Rightarrow> nonce16 \<Rightarrow> direction \<Rightarrow> confirm_expectations" where
  "confirm_expect bid seg cn sn d = \<lparr>ce_book_id = bid, ce_segment = seg, ce_client_nonce = cn,
    ce_server_nonce = sn, ce_direction = d, ce_msg_type = (case d of ClientToServer \<Rightarrow> 4 | ServerToClient \<Rightarrow> 5),
    ce_label = (case d of ClientToServer \<Rightarrow> CONFIRM_LABEL_C2S | ServerToClient \<Rightarrow> CONFIRM_LABEL_S2C)\<rparr>"

lemma verify_body_iff:
  "verify_confirm_body b (confirm_expect bid seg cn sn d) = Inr () \<longleftrightarrow> b = confirm_body_of bid seg cn sn d"
  by (cases b) (auto simp: verify_confirm_body_def confirm_expect_def confirm_body_of_def)

lemma seal_confirm_eq:
  "seal_confirm ae bid seg cn sn d s =
    (case encode_confirm_body (confirm_body_of bid seg cn sn d) of
       Inl e \<Rightarrow> Some (Inl (HsViolation e), s)
     | Inr plain \<Rightarrow> (case session_seal ae (confirm_type d) plain s of
         None \<Rightarrow> None
       | Some (Inl e, s) \<Rightarrow> Some (Inl (map_session_seal_err e), s)
       | Some (Inr r, s) \<Rightarrow>
           if length (sr_sealed r) \<noteq> SEALED_LEN then None
           else let zeta = session_nonce (ss_ctx s) in
             Some (Inr (case d of
                 ClientToServer \<Rightarrow> ConfirmC2s seg zeta 0 (sr_sequence r) (sr_sealed r)
               | ServerToClient \<Rightarrow> ConfirmS2c seg zeta 0 (sr_sequence r) (sr_sealed r)), s)))"
proof (cases d)
  case ClientToServer
  show ?thesis
    unfolding ClientToServer seal_confirm_def confirm_body_of_def confirm_type_def Let_def direction.case prod.case by simp
next
  case ServerToClient
  show ?thesis
    unfolding ServerToClient seal_confirm_def confirm_body_of_def confirm_type_def Let_def direction.case prod.case by simp
qed

lemma wf_body_of:
  "length bid = 16 \<Longrightarrow> length cn = 16 \<Longrightarrow> length sn = 16 \<Longrightarrow> wf_confirm_body (confirm_body_of bid seg cn sn d)"
  by (cases d) (simp_all add: wf_confirm_body_def confirm_body_of_def CONFIRM_LABEL_C2S_def
      CONFIRM_LABEL_S2C_def CONFIRM_LABEL_LEN_def)

text \<open>The confirmation of a fresh session is sealed, opens at the peer, and leaves both in step.\<close>

lemma confirm_exchange:
  assumes ae: "aead_correct ae" "aead_total ae" and p: "paired k a b"
    and act: "ss_terminated a = None" "next_send_sequence a = 0"
    and d: "d = send_direction (cx_role (ss_ctx a))"
    and len: "length bid = 16" "length cn = 16" "length sn = 16"
  shows "\<exists>sealed plain a' b'.
    seal_confirm ae bid seg cn sn d a =
      Some (Inr (confirm_message d seg (session_nonce (ss_ctx a)) sealed), a') \<and>
    session_open ae (confirm_type d) 0 sealed b = Some (Inr plain, b') \<and>
    decode_confirm_body plain = Inr (confirm_body_of bid seg cn sn d) \<and>
    length sealed = SEALED_LEN \<and>
    paired k a' b' \<and> next_send_sequence a' = 1 \<and> next_send_sequence b' = next_send_sequence b \<and>
    ss_ctx a' = ss_ctx a \<and> ss_ctx b' = ss_ctx b \<and> ss_terminated a' = None \<and> ss_terminated b' = None"
proof -
  obtain plain where pl: "encode_confirm_body (confirm_body_of bid seg cn sn d) = Inr plain"
    by (simp add: encode_confirm_body_def)
  have dec: "decode_confirm_body plain = Inr (confirm_body_of bid seg cn sn d)"
    unfolding decode_confirm_body_iff using pl wf_body_of [OF len] by simp
  have lp: "length plain = 87"
    using pl len wf_body_of [OF len, of seg d]
    by (auto simp: encode_confirm_body_def wf_confirm_body_def CONFIRM_LABEL_LEN_def)
  have ka: "keyed a" "keyed b" and tb: "ss_terminated b = None"
    using p by (simp_all add: paired_def follows_def)
  have n: "seq_next (next_send_sequence a) = Some 1" using act by (simp add: seq_next_def u64_checked_add_def)
  have pv: "pairing_valid (confirm_type d) (send_direction (cx_role (ss_ctx a)))"
    "seq_discipline (confirm_type d) (next_send_sequence a)"
    using act(2) by (cases d; simp add: d [symmetric] pairing_valid_def confirm_type_def
        seq_discipline_def is_confirm_def)+
  from ka(1) obtain x a' where s: "session_seal ae (confirm_type d) plain a = Some (Inr x, a')"
    and lx: "length (sr_sealed x) = SEALED_LEN"
  proof (cases rule: seal_cases [of _ ae "confirm_type d" plain])
    case (fail e r)
    obtain key where key: "ss_keys a = Some key" using ka(1) act(1) by (auto simp: keyed_def)
    have "ae_seal ae (key_for key (send_direction (cx_role (ss_ctx a))))
        (record_nonce (ss_domain a) (send_direction (cx_role (ss_ctx a))) (next_send_sequence a))
        (build_aad (ss_ctx a) (confirm_type d) (send_direction (cx_role (ss_ctx a))) 0 (next_send_sequence a)) plain \<noteq> None"
      using ae(2) lp by (simp add: aead_total_def MAX_APP_PLAINTEXT_def)
    then show ?thesis
      using fail(2) act(1) pv key
      by (auto simp: session_seal_def ensure_active_def Let_def aead_material_def
          next_send_sequence_def split: option.splits)
  next
    case (ok key c t s')
    have "length c = 87" "length t = 16"
      using ae(1) ok(5) lp by (auto simp: aead_correct_def TAG_LEN_def)
    with that ok(6) show ?thesis by (simp add: SEALED_LEN_def)
  qed (use act in simp)
  from paired_transfer [OF ae(1) p s n] obtain b' where
    o: "session_open ae (confirm_type d) (sr_sequence x) (sr_sealed x) b = Some (Inr plain, b')"
    and p': "paired k a' b'" and ns: "next_send_sequence b' = next_send_sequence b" "next_send_sequence a' = 1"
    by blast
  note ea = seal_effect [OF ka(1) s n] and eb = open_effect [OF ka(2) o]
  have sc: "seal_confirm ae bid seg cn sn d a =
      Some (Inr (confirm_message d seg (session_nonce (ss_ctx a)) (sr_sealed x)), a')"
    unfolding seal_confirm_eq pl sum.case s option.case prod.case Let_def
    using ea act(2) lx by (simp add: confirm_message_def split: direction.split)
  show ?thesis
    using sc o dec lx p' ns ea eb act tb
    by (intro exI [of _ "sr_sealed x"] exI [of _ plain] exI [of _ a'] exI [of _ b']) simp
qed

section \<open>Sound establishment\<close>

text \<open>
  What a machine must have seen to hold an established session: the confirmation message it
  received, and the session before.
\<close>

definition proven_by ::
  "aead \<Rightarrow> message \<Rightarrow> session \<Rightarrow> session \<Rightarrow> book_id \<Rightarrow> segment_index \<Rightarrow> nonce16 \<Rightarrow> nonce16 \<Rightarrow> direction \<Rightarrow> bool" where
  "proven_by ae m s0 s bid seg cn sn d \<longleftrightarrow>
    (\<exists>sealed plain. m = confirm_message d seg (session_nonce (ss_ctx s0)) sealed \<and>
      session_open ae (confirm_type d) 0 sealed s0 = Some (Inr plain, s) \<and>
      encode_confirm_body (confirm_body_of bid seg cn sn d) = Inr plain)"

lemma confirm_s2c_established:
  assumes "on_confirm_s2c ae m c = Some (StEstablished out s i, c')"
  shows "\<exists>cn sn s0. out = [] \<and> ch_agreed c = Some i \<and> ch_client_nonce c = Some cn \<and>
    ch_server_nonce c = Some sn \<and> ch_session c = Some s0 \<and> ch_phase c' = CEstablished \<and>
    ch_session c' = None \<and>
    proven_by ae m s0 s (cc_book_id (ch_cfg c)) i cn sn ServerToClient"
proof -
  from assms obtain seg zeta e sq sealed where m: "m = ConfirmS2c seg zeta e sq sealed"
    by (cases m) (auto simp: on_confirm_s2c_def client_order_violation_def client_fail_def)
  from assms obtain i' cn sn s0 where st: "ch_agreed c = Some i'" "ch_client_nonce c = Some cn"
    "ch_server_nonce c = Some sn" "ch_session c = Some s0"
    by (cases "ch_agreed c"; cases "ch_client_nonce c"; cases "ch_server_nonce c"; cases "ch_session c")
       (auto simp: m on_confirm_s2c_def client_order_violation_def client_fail_def)
  let ?c = "c\<lparr>ch_session := None\<rparr>"
  have cfg: "ch_cfg ?c = ch_cfg c" by simp
  have eq: "on_confirm_s2c ae m c = (case verify_confirm_outer seg zeta e sq i' (session_nonce (ss_ctx s0)) of
      Inl err \<Rightarrow> Some (client_fail err ?c)
    | Inr _ \<Rightarrow> (case session_open ae MtServerConfirm sq sealed s0 of
        None \<Rightarrow> None
      | Some (Inl err, _) \<Rightarrow> Some (client_fail (map_session_open_err err) ?c)
      | Some (Inr pt, s) \<Rightarrow> (case decode_confirm_body pt of
          Inl code \<Rightarrow> Some (client_fail (HsViolation code) ?c)
        | Inr body \<Rightarrow>
            (case verify_confirm_body body (confirm_expect (cc_book_id (ch_cfg c)) i' cn sn ServerToClient) of
               Inl err \<Rightarrow> Some (client_fail err ?c)
             | Inr _ \<Rightarrow> Some (StEstablished [] s i', ?c\<lparr>ch_phase := CEstablished\<rparr>)))))"
    unfolding on_confirm_s2c_def m st Let_def message.case option.case prod.case confirm_expect_def
      direction.case msg_type_wire.simps cfg by (rule refl)
  note fails = client_fail_def step.distinct
  obtain u where v: "verify_confirm_outer seg zeta e sq i' (session_nonce (ss_ctx s0)) = Inr u"
    using assms eq by (cases "verify_confirm_outer seg zeta e sq i' (session_nonce (ss_ctx s0))")
      (simp_all add: fails)
  obtain y s1 where o1: "session_open ae MtServerConfirm sq sealed s0 = Some (y, s1)"
    using assms eq v by (cases "session_open ae MtServerConfirm sq sealed s0") auto
  obtain pt where y: "y = Inr pt" using assms eq v o1 by (cases y) (simp_all add: fails)
  obtain body where d: "decode_confirm_body pt = Inr body"
    using assms eq v o1 y by (cases "decode_confirm_body pt") (simp_all add: fails)
  obtain w where b: "verify_confirm_body body (confirm_expect (cc_book_id (ch_cfg c)) i' cn sn ServerToClient) = Inr w"
    using assms eq v o1 y d
    by (cases "verify_confirm_body body (confirm_expect (cc_book_id (ch_cfg c)) i' cn sn ServerToClient)")
       (simp_all add: fails)
  have r: "i = i'" "out = []" "c' = c\<lparr>ch_session := None, ch_phase := CEstablished\<rparr>" "s = s1"
    using assms eq v o1 y d b by simp_all
  have o: "session_open ae MtServerConfirm sq sealed s0 = Some (Inr pt, s)" using o1 y r by simp
  have "body = confirm_body_of (cc_book_id (ch_cfg c)) i' cn sn ServerToClient"
    using b verify_body_iff by simp
  then have "encode_confirm_body (confirm_body_of (cc_book_id (ch_cfg c)) i' cn sn ServerToClient) = Inr pt"
    using d by (simp add: decode_confirm_body_iff)
  moreover have "seg = i'" "zeta = session_nonce (ss_ctx s0)" "e = 0" "sq = 0"
    using v by (auto simp: verify_confirm_outer_def split: if_splits)
  ultimately show ?thesis
    using m st o r by (auto simp: proven_by_def confirm_message_def confirm_type_def)
qed

lemma confirm_established:
  assumes "on_confirm ae m h = Some (StEstablished out s i, h')"
  shows "\<exists>cn sn s0 s1 reply. out = [reply] \<and> sh_phase h = SConfirmWait \<and> sh_agreed h = Some i \<and>
    sh_client_nonce h = Some cn \<and> sh_server_nonce h = Some sn \<and> sh_session h = Some s0 \<and>
    sh_phase h' = SEstablished \<and> sh_session h' = None \<and>
    proven_by ae m s0 s1 (sc_book_id (sh_cfg h)) i cn sn ClientToServer \<and>
    seal_confirm ae (sc_book_id (sh_cfg h)) i cn sn ServerToClient s1 = Some (Inr reply, s)"
proof -
  have ph: "sh_phase h = SConfirmWait"
    using assms by (auto simp: on_confirm_def server_order_violation_def server_fail_def split: if_splits)
  from assms obtain seg zeta e sq sealed where m: "m = ConfirmC2s seg zeta e sq sealed"
    by (cases m) (auto simp: on_confirm_def server_order_violation_def server_fail_def ph)
  from assms obtain i' cn sn s0 where st: "sh_agreed h = Some i'" "sh_client_nonce h = Some cn"
    "sh_server_nonce h = Some sn" "sh_session h = Some s0"
    by (cases "sh_agreed h"; cases "sh_client_nonce h"; cases "sh_server_nonce h"; cases "sh_session h")
       (auto simp: m ph on_confirm_def server_order_violation_def server_fail_def)
  let ?h = "h\<lparr>sh_session := None\<rparr>"
  have cfg: "sh_cfg ?h = sh_cfg h" by simp
  have eq: "on_confirm ae m h = (case verify_confirm_outer seg zeta e sq i' (session_nonce (ss_ctx s0)) of
      Inl err \<Rightarrow> Some (server_fail err ?h)
    | Inr _ \<Rightarrow> (case session_open ae MtClientConfirm sq sealed s0 of
        None \<Rightarrow> None
      | Some (Inl err, _) \<Rightarrow> Some (server_fail (map_session_open_err err) ?h)
      | Some (Inr pt, s) \<Rightarrow> (case decode_confirm_body pt of
          Inl code \<Rightarrow> Some (server_fail (HsViolation code) ?h)
        | Inr body \<Rightarrow>
            (case verify_confirm_body body (confirm_expect (sc_book_id (sh_cfg h)) i' cn sn ClientToServer) of
               Inl err \<Rightarrow> Some (server_fail err ?h)
             | Inr _ \<Rightarrow> (case seal_confirm ae (sc_book_id (sh_cfg h)) i' cn sn ServerToClient s of
                 None \<Rightarrow> None
               | Some (Inl err, _) \<Rightarrow> Some (server_fail err ?h)
               | Some (Inr reply, s) \<Rightarrow>
                   Some (StEstablished [reply] s i', ?h\<lparr>sh_phase := SEstablished\<rparr>))))))"
    unfolding on_confirm_def m st ph Let_def message.case option.case prod.case confirm_expect_def
      direction.case msg_type_wire.simps cfg by simp
  note fails = server_fail_def step.distinct
  obtain u where v: "verify_confirm_outer seg zeta e sq i' (session_nonce (ss_ctx s0)) = Inr u"
    using assms eq by (cases "verify_confirm_outer seg zeta e sq i' (session_nonce (ss_ctx s0))")
      (simp_all add: fails)
  obtain y s1 where o1: "session_open ae MtClientConfirm sq sealed s0 = Some (y, s1)"
    using assms eq v by (cases "session_open ae MtClientConfirm sq sealed s0") auto
  obtain pt where y: "y = Inr pt" using assms eq v o1 by (cases y) (simp_all add: fails)
  obtain body where d: "decode_confirm_body pt = Inr body"
    using assms eq v o1 y by (cases "decode_confirm_body pt") (simp_all add: fails)
  obtain w where b: "verify_confirm_body body (confirm_expect (sc_book_id (sh_cfg h)) i' cn sn ClientToServer) = Inr w"
    using assms eq v o1 y d
    by (cases "verify_confirm_body body (confirm_expect (sc_book_id (sh_cfg h)) i' cn sn ClientToServer)")
       (simp_all add: fails)
  obtain z s2 where z1: "seal_confirm ae (sc_book_id (sh_cfg h)) i' cn sn ServerToClient s1 = Some (z, s2)"
    using assms eq v o1 y d b
    by (cases "seal_confirm ae (sc_book_id (sh_cfg h)) i' cn sn ServerToClient s1") auto
  obtain reply where z: "z = Inr reply"
    using assms eq v o1 y d b z1 by (cases z) (simp_all add: fails)
  have r: "i = i'" "out = [reply]" "h' = h\<lparr>sh_session := None, sh_phase := SEstablished\<rparr>" "s = s2"
    using assms eq v o1 y d b z1 z by simp_all
  have o: "session_open ae MtClientConfirm sq sealed s0 = Some (Inr pt, s1)" using o1 y by simp
  have s: "seal_confirm ae (sc_book_id (sh_cfg h)) i' cn sn ServerToClient s1 = Some (Inr reply, s)"
    using z1 z r by simp
  have "body = confirm_body_of (sc_book_id (sh_cfg h)) i' cn sn ClientToServer"
    using b verify_body_iff by simp
  then have "encode_confirm_body (confirm_body_of (sc_book_id (sh_cfg h)) i' cn sn ClientToServer) = Inr pt"
    using d by (simp add: decode_confirm_body_iff)
  moreover have "seg = i'" "zeta = session_nonce (ss_ctx s0)" "e = 0" "sq = 0"
    using v by (auto simp: verify_confirm_outer_def split: if_splits)
  ultimately show ?thesis
    using m st o r s ph by (auto simp: proven_by_def confirm_message_def confirm_type_def)
qed

section \<open>What a handshake issues\<close>

lemmas client_fails = client_fail_def client_burn_def client_order_violation_def
  client_reject_pointer_def client_fail_issuer_def

context segment_issuer
begin

lemma skip_total: "skip_segments issue n s \<noteq> None"
proof (induction n arbitrary: s)
  case (Suc n)
  obtain x s1 where "issue s = Some (x, s1)" using issue_total [of s] by force
  then show ?case using Suc.IH by (cases x) simp_all
qed simp

lemma skip_law:
  "skip_segments issue n s = Some (x, s') \<Longrightarrow>
    ptr s \<le> ptr s' \<and> book s' = book s \<and> (x = Inr () \<longrightarrow> ptr s' = ptr s + n)"
proof (induction n arbitrary: s)
  case (Suc n)
  obtain y s1 where y: "issue s = Some (y, s1)" using issue_total [of s] by force
  show ?case
  proof (cases y)
    case (Inl e)
    then show ?thesis using Suc.prems y issue_err [of s e s1] by auto
  next
    case (Inr b)
    then have "skip_segments issue n s1 = Some (x, s')" using Suc.prems y by simp
    from Suc.IH [OF this] show ?thesis using issue_ok [OF y [unfolded Inr]] by auto
  qed
qed auto

lemma issue_mono: "issue s = Some (x, s') \<Longrightarrow> ptr s \<le> ptr s' \<and> book s' = book s"
  using issue_ok [of s _ s'] issue_err [of s _ s'] by (cases x) auto

text \<open>The messages of a successful \<open>issue_and_confirm\<close> and the session behind them.\<close>

lemma issue_and_confirm_law:
  assumes run: "issue_and_confirm ae issue c is = Some ((st, c'), is')"
  shows "ptr is \<le> ptr is' \<and> book is' = book is \<and>
    ((\<exists>e. st = StFailed e \<and> ch_phase c' = CFailed) \<or>
     (\<exists>i cn sn conf s. ch_agreed c = Some i \<and> ch_client_nonce c = Some cn \<and> ch_server_nonce c = Some sn \<and>
        st = StSend [IssueRequest i cn sn, conf] \<and>
        ptr is' = ptr is + (unat i - unat (cc_local_pointer (ch_cfg c))) + 1 \<and>
        c' = c\<lparr>ch_session := Some s, ch_phase := CConfirmSent\<rparr> \<and>
        seal_confirm ae (cc_book_id (ch_cfg c)) i cn sn ClientToServer
          (session_new (book is (ptr is' - 1)) \<lparr>cx_role = Client, cx_book_id = cc_book_id (ch_cfg c),
            cx_segment = i, cx_client_nonce = cn, cx_server_nonce = sn\<rparr>) = Some (Inr conf, s)))"
proof (cases "ch_agreed c")
  case None
  then show ?thesis using run by (auto simp: issue_and_confirm_def client_fails)
next
  case (Some i)
  let ?n = "unat i - unat (cc_local_pointer (ch_cfg c))"
  obtain x is1 where x: "skip_segments issue ?n is = Some (x, is1)" using skip_total [of ?n "is"] by force
  note lx = skip_law [OF x]
  show ?thesis
  proof (cases x)
    case (Inl e)
    then show ?thesis using run Some x lx by (auto simp: issue_and_confirm_def client_fails)
  next
    case xr: (Inr u)
    obtain y is2 where y: "issue is1 = Some (y, is2)" using issue_total [of is1] by force
    note ly = issue_mono [OF y]
    show ?thesis
    proof (cases y)
      case (Inl e)
      then show ?thesis using run Some x xr y lx ly by (auto simp: issue_and_confirm_def client_fails)
    next
      case yr: (Inr seg)
      note lo = issue_ok [OF y [unfolded yr]]
      show ?thesis
      proof (cases "\<exists>cn sn. ch_client_nonce c = Some cn \<and> ch_server_nonce c = Some sn")
        case False
        then have "st = StFailed (HsViolation BAD_ORDER) \<and> ch_phase c' = CFailed \<and> is' = is2"
          using run Some x xr y yr
          by (cases "ch_client_nonce c"; cases "ch_server_nonce c")
             (auto simp: issue_and_confirm_def client_fails)
        then show ?thesis using lx ly by auto
      next
        case True
        then obtain cn sn where n: "ch_client_nonce c = Some cn" "ch_server_nonce c = Some sn" by blast
        let ?s = "session_new seg \<lparr>cx_role = Client, cx_book_id = cc_book_id (ch_cfg c),
            cx_segment = i, cx_client_nonce = cn, cx_server_nonce = sn\<rparr>"
        obtain z s where z: "seal_confirm ae (cc_book_id (ch_cfg c)) i cn sn ClientToServer ?s = Some (z, s)"
          using run Some x xr y yr n
          by (cases "seal_confirm ae (cc_book_id (ch_cfg c)) i cn sn ClientToServer ?s")
             (auto simp: issue_and_confirm_def Let_def)
        have seg: "seg = book is (ptr is1)" "ptr is2 = ptr is + ?n + 1" using lo lx xr by auto
        then have p: "ptr is1 = ptr is2 - 1" using lo by simp
        show ?thesis
        proof (cases z)
          case (Inl e)
          then show ?thesis
            using run Some x xr y yr n z lx ly by (auto simp: issue_and_confirm_def client_fails Let_def)
        next
          case (Inr conf)
          have r: "st = StSend [IssueRequest i cn sn, conf]" "is' = is2"
            "c' = c\<lparr>ch_session := Some s, ch_phase := CConfirmSent\<rparr>"
            using run Some x xr y yr n z Inr by (auto simp: issue_and_confirm_def Let_def)
          then show ?thesis using Some n lx ly seg p z Inr by auto
        qed
      qed
    qed
  qed
qed

end

lemma client_handle_law:
  assumes run: "client_handle ae (core_issue sha file_media_ops book_reader) m c is = Some ((st, c'), is')"
  shows "is' = is \<or> (\<exists>sn sp res. ch_phase c = CHelloSent \<and> m = Arbitrate sn sp res \<and>
      (res = ArbOk \<and> sp = cc_local_pointer (ch_cfg c) \<or> res = ArbServerAhead \<and> cc_local_pointer (ch_cfg c) < sp) \<and>
      alloc_ptr is \<le> alloc_ptr is' \<and>
      (case st of
         StSend ms \<Rightarrow> (\<exists>cn conf. ms = [IssueRequest sp cn sn, conf]) \<and>
           alloc_ptr is' = alloc_ptr is + (unat sp - unat (cc_local_pointer (ch_cfg c))) + 1
       | StFailed _ \<Rightarrow> ch_phase c' = CFailed
       | _ \<Rightarrow> False))"
proof (cases "\<exists>sn sp res. ch_phase c = CHelloSent \<and> m = Arbitrate sn sp res \<and>
    (res = ArbOk \<and> sp = cc_local_pointer (ch_cfg c) \<or> res = ArbServerAhead \<and> cc_local_pointer (ch_cfg c) < sp)")
  case True
  then obtain sn sp res where t: "ch_phase c = CHelloSent" "m = Arbitrate sn sp res"
    "res = ArbOk \<and> sp = cc_local_pointer (ch_cfg c) \<or> res = ArbServerAhead \<and> cc_local_pointer (ch_cfg c) < sp"
    by blast
  then obtain c1 where c1: "issue_and_confirm ae (core_issue sha file_media_ops book_reader) c1 is
      = Some ((st, c'), is')" "ch_agreed c1 = Some sp" "ch_server_nonce c1 = Some sn" "ch_cfg c1 = ch_cfg c"
    using run by (auto simp: client_handle_def on_arbitrate_def Let_def not_le split: if_splits)
  show ?thesis
    using alloc.issue_and_confirm_law [OF c1(1)] c1(2-4) t by auto
next
  case False
  have "is' = is"
  proof (cases m)
    case (Arbitrate sn sp res)
    then show ?thesis
      using run False
      by (cases "ch_phase c"; cases res)
         (auto simp: client_handle_def on_arbitrate_def Let_def not_less split: if_splits)
  qed (use run in \<open>auto simp: client_handle_def split: client_phase.splits option.splits\<close>)
  then show ?thesis by blast
qed

text \<open>
  The client consumes segments in one situation only: on an arbitration it waits for that
  says OK at its own pointer or puts the server strictly ahead of it. Then it either asks for
  the arbitrated segment, having consumed exactly the gap and the segment itself, or has
  failed; no other message, in no phase, moves its allocator.
\<close>

theorem client_issues_only_on_arbitration:
  assumes "client_handle ae (core_issue sha file_media_ops book_reader) m c is = Some ((st, c'), is')"
  shows "is' = is \<or> (\<exists>sn sp res. ch_phase c = CHelloSent \<and> m = Arbitrate sn sp res \<and>
      (res = ArbOk \<and> sp = cc_local_pointer (ch_cfg c) \<or> res = ArbServerAhead \<and> cc_local_pointer (ch_cfg c) < sp) \<and>
      alloc_ptr is \<le> alloc_ptr is' \<and>
      (case st of
         StSend ms \<Rightarrow> (\<exists>cn conf. ms = [IssueRequest sp cn sn, conf]) \<and>
           alloc_ptr is' = alloc_ptr is + (unat sp - unat (cc_local_pointer (ch_cfg c))) + 1
       | StFailed _ \<Rightarrow> ch_phase c' = CFailed
       | _ \<Rightarrow> False))"
  using assms by (rule client_handle_law)

lemma server_issue_law:
  assumes run: "on_issue_request issue m h is = Some ((st, h'), is')"
  shows "(is' = is \<and> (\<exists>e. st = StFailed e) \<and> sh_phase h' = SFailed) \<or> (\<exists>i cn sn. m = IssueRequest i cn sn \<and> sh_phase h = SIssueWait \<and>
      sh_agreed h = Some i \<and> sh_client_nonce h = Some cn \<and> sh_server_nonce h = Some sn \<and>
      (\<exists>x. issue is = Some (x, is') \<and>
        (case x of
           Inl e \<Rightarrow> st = StFailed (HsIssuer e) \<and> sh_phase h' = SFailed
         | Inr seg \<Rightarrow> st = StAwaitPeer \<and> sh_phase h' = SConfirmWait \<and>
             sh_session h' = Some (session_new seg \<lparr>cx_role = Server, cx_book_id = sc_book_id (sh_cfg h),
               cx_segment = i, cx_client_nonce = cn, cx_server_nonce = sn\<rparr>))))"
proof (cases "sh_phase h = SIssueWait")
  case False
  then show ?thesis
    using run by (auto simp: on_issue_request_def server_order_violation_def server_fail_def)
next
  case ph: True
  show ?thesis
  proof (cases m)
    case (IssueRequest i cn sn)
    show ?thesis
    proof (cases "sh_agreed h = Some i \<and> sh_client_nonce h = Some cn \<and> sh_server_nonce h = Some sn")
      case True
      obtain x is1 where x: "issue is = Some (x, is1)"
        using run ph IssueRequest True by (cases "issue is") (auto simp: on_issue_request_def)
      show ?thesis
        using run ph IssueRequest True x
        by (cases x) (auto simp: on_issue_request_def server_fail_def Let_def)
    next
      case False
      then show ?thesis
        using run ph IssueRequest
        by (cases "sh_agreed h"; cases "sh_client_nonce h"; cases "sh_server_nonce h")
           (auto simp: on_issue_request_def server_fail_def server_order_violation_def split: if_splits)
    qed
  qed (use run ph in \<open>auto simp: on_issue_request_def server_order_violation_def server_fail_def\<close>)
qed

text \<open>
  C16. The server issues a segment only for a request it waits for that names the arbitrated
  segment and echoes both nonces; every other request fails with nothing consumed.
\<close>

theorem server_issues_only_as_agreed:
  assumes "on_issue_request issue m h is = Some ((st, h'), is')"
  shows "(is' = is \<and> (\<exists>e. st = StFailed e) \<and> sh_phase h' = SFailed) \<or> (\<exists>i cn sn. m = IssueRequest i cn sn \<and> sh_phase h = SIssueWait \<and>
      sh_agreed h = Some i \<and> sh_client_nonce h = Some cn \<and> sh_server_nonce h = Some sn \<and>
      (\<exists>x. issue is = Some (x, is') \<and>
        (case x of
           Inl e \<Rightarrow> st = StFailed (HsIssuer e) \<and> sh_phase h' = SFailed
         | Inr seg \<Rightarrow> st = StAwaitPeer \<and> sh_phase h' = SConfirmWait \<and>
             sh_session h' = Some (session_new seg \<lparr>cx_role = Server, cx_book_id = sc_book_id (sh_cfg h),
               cx_segment = i, cx_client_nonce = cn, cx_server_nonce = sn\<rparr>))))"
  using assms by (rule server_issue_law)

text \<open>A server waiting for a request, for the examples.\<close>

definition waiting_server :: server_hs where
  "waiting_server = \<lparr>sh_cfg = \<lparr>sc_version = 2, sc_book_id = replicate 16 1, sc_local_pointer = 0,
      sc_segment_count = 3\<rparr>, sh_phase = SIssueWait, sh_client_nonce = Some (replicate 16 2),
    sh_server_nonce = Some (replicate 16 3), sh_agreed = Some 0, sh_session = None\<rparr>"

theorem server_issues_only_as_agreed_witness:
  "on_issue_request (\<lambda>n :: nat. Some (Inr (replicate 64 0), Suc n))
      (IssueRequest 1 (replicate 16 2) (replicate 16 3)) waiting_server 5 =
    Some (server_fail (HsViolation ISSUE_POINTER_MISMATCH) waiting_server, 5) \<and>
   sh_phase (snd (server_fail (HsViolation ISSUE_POINTER_MISMATCH) waiting_server)) = SFailed"
proof -
  have r: "on_issue_request (\<lambda>n :: nat. Some (Inr (replicate 64 0), Suc n))
      (IssueRequest 1 (replicate 16 2) (replicate 16 3)) waiting_server 5 =
    Some ((StFailed (HsViolation ISSUE_POINTER_MISMATCH), waiting_server\<lparr>sh_phase := SFailed\<rparr>), 5)"
    by (simp add: on_issue_request_def waiting_server_def server_fail_def)
  from server_issues_only_as_agreed [OF r] have "sh_phase (waiting_server\<lparr>sh_phase := SFailed\<rparr>) = SFailed"
    by auto
  with r show ?thesis by (simp add: server_fail_def)
qed

theorem client_issues_only_on_arbitration_witness:
  "\<exists>r. client_handle plain_aead (core_issue sum_digest file_media_ops book_reader) (Data 0 1 [])
      \<lparr>ch_cfg = \<lparr>cc_version = 2, cc_book_id = replicate 16 7, cc_local_pointer = 0, cc_segment_count = 3\<rparr>,
       ch_phase = CHelloSent, ch_client_nonce = Some (replicate 16 2), ch_server_nonce = None,
       ch_agreed = None, ch_session = None, ch_wasted_gap = None\<rparr> small_core = Some (r, small_core)"
proof -
  let ?c = "\<lparr>ch_cfg = \<lparr>cc_version = 2, cc_book_id = replicate 16 7, cc_local_pointer = 0, cc_segment_count = 3\<rparr>,
       ch_phase = CHelloSent, ch_client_nonce = Some (replicate 16 2), ch_server_nonce = None,
       ch_agreed = None, ch_session = None, ch_wasted_gap = None\<rparr>"
  obtain st c' is' where r: "client_handle plain_aead (core_issue sum_digest file_media_ops book_reader)
      (Data 0 1 []) ?c small_core = Some ((st, c'), is')"
    by (simp add: client_handle_def client_fails)
  from client_issues_only_on_arbitration [OF r] have "is' = small_core" by auto
  with r show ?thesis by blast
qed

end
