(* ===== verification/HandshakeRun.thy ===== *)
theory HandshakeRun
  imports Handshake
begin

text \<open>
  The whole handshake between two machines, each with its own allocator, every message going
  through the codec of \<open>otp-codec\<close>; what the machines accept, and that the honest run
  establishes a channel.
\<close>

section \<open>Messages on the wire\<close>

definition over_wire :: "role \<Rightarrow> message \<Rightarrow> message option" where
  "over_wire receiver m = (case encode m of
     Inl _ \<Rightarrow> None
   | Inr bs \<Rightarrow> (case decode receiver bs of Inl _ \<Rightarrow> None | Inr m' \<Rightarrow> Some m'))"

lemma over_wire_ok:
  "wf_message m \<Longrightarrow> encode_check m = Inr () \<Longrightarrow> \<not> direction_rejects r (msg_type_of m) \<Longrightarrow>
    over_wire r m = Some m"
  using decode_frame_of [of m r] by (simp add: over_wire_def encode_Inr_iff encode_def encode_into_def frame_of_def)

section \<open>The honest run\<close>

definition honest_run ::
  "aead \<Rightarrow> 'i issue_fn \<Rightarrow> nonce16 \<Rightarrow> nonce16 \<Rightarrow> client_hs \<Rightarrow> server_hs \<Rightarrow> 'i \<Rightarrow> 'i \<Rightarrow>
    (session \<times> session \<times> segment_index \<times> 'i \<times> 'i) option" where
  "honest_run ae issue cn sn c h ic is =
    (case client_start (Some cn) c of
       (Inr hello, c) \<Rightarrow> (case over_wire Server hello of
         Some hello \<Rightarrow> (case on_hello (Some sn) hello h of
           (Inr arb, h) \<Rightarrow> (case over_wire Client arb of
             Some arb \<Rightarrow> (case client_handle ae issue arb c ic of
               Some ((StSend [req, conf], c), ic) \<Rightarrow> (case (over_wire Server req, over_wire Server conf) of
                 (Some req, Some conf) \<Rightarrow> (case on_issue_request issue req h is of
                   Some ((StAwaitPeer, h), is) \<Rightarrow> (case on_confirm ae conf h of
                     Some (StEstablished [reply] ss i, h) \<Rightarrow> (case over_wire Client reply of
                       Some reply \<Rightarrow> (case client_handle ae issue reply c ic of
                         Some ((StEstablished [] cs j, c), ic) \<Rightarrow>
                           if i = j then Some (cs, ss, i, ic, is) else None
                       | _ \<Rightarrow> None)
                     | None \<Rightarrow> None)
                   | _ \<Rightarrow> None)
                 | _ \<Rightarrow> None)
               | _ \<Rightarrow> None)
             | _ \<Rightarrow> None)
           | None \<Rightarrow> None)
         | _ \<Rightarrow> None)
       | None \<Rightarrow> None)
     | _ \<Rightarrow> None)"

lemma arbitrate_cases:
  assumes "cp \<le> sp" "sp < n"
  shows "arbitrate sp cp n = (if cp = sp then ArbOk else ArbServerAhead, sp)"
  using assms by (auto simp: arbitrate_def)

text \<open>The server of a run after the arbitration, and the client after it.\<close>

lemma hello_accepted:
  assumes "sh_phase h = SIdle" "bid = sc_book_id (sh_cfg h)" "cp \<le> sc_local_pointer (sh_cfg h)"
    "sc_local_pointer (sh_cfg h) < sc_segment_count (sh_cfg h)"
  shows "on_hello (Some sn) (Hello bid cn cp 0) h =
    (Inr (Arbitrate sn (sc_local_pointer (sh_cfg h))
        (if cp = sc_local_pointer (sh_cfg h) then ArbOk else ArbServerAhead)),
     h\<lparr>sh_client_nonce := Some cn, sh_server_nonce := Some sn,
       sh_agreed := Some (sc_local_pointer (sh_cfg h)), sh_phase := SIssueWait\<rparr>)"
  using assms by (simp add: on_hello_def Let_def arbitrate_cases)

context segment_issuer
begin

lemma issue_and_confirm_ok:
  assumes c: "ch_agreed c = Some i" "ch_client_nonce c = Some cn" "ch_server_nonce c = Some sn"
    and sk: "skip_segments issue (unat i - unat (cc_local_pointer (ch_cfg c))) is = Some (Inr (), is1)"
    and iss: "issue is1 = Some (Inr seg, is2)"
    and sc: "seal_confirm ae (cc_book_id (ch_cfg c)) i cn sn ClientToServer (session_new seg
        \<lparr>cx_role = Client, cx_book_id = cc_book_id (ch_cfg c), cx_segment = i, cx_client_nonce = cn,
          cx_server_nonce = sn\<rparr>) = Some (Inr conf, s)"
  shows "issue_and_confirm ae issue c is = Some ((StSend [IssueRequest i cn sn, conf],
    c\<lparr>ch_session := Some s, ch_phase := CConfirmSent\<rparr>), is2)"
  using assms by (simp add: issue_and_confirm_def Let_def)

lemma arbitration_handled:
  assumes c: "ch_phase c = CHelloSent" "cc_local_pointer (ch_cfg c) \<le> sp" "ch_client_nonce c = Some cn"
    and sk: "skip_segments issue (unat sp - unat (cc_local_pointer (ch_cfg c))) is = Some (Inr (), is1)"
    and iss: "issue is1 = Some (Inr seg, is2)"
    and sc: "seal_confirm ae (cc_book_id (ch_cfg c)) sp cn sn ClientToServer (session_new seg
        \<lparr>cx_role = Client, cx_book_id = cc_book_id (ch_cfg c), cx_segment = sp, cx_client_nonce = cn,
          cx_server_nonce = sn\<rparr>) = Some (Inr conf, s)"
  shows "\<exists>gap. client_handle ae issue
      (Arbitrate sn sp (if cc_local_pointer (ch_cfg c) = sp then ArbOk else ArbServerAhead)) c is =
    Some ((StSend [IssueRequest sp cn sn, conf],
      c\<lparr>ch_wasted_gap := gap, ch_server_nonce := Some sn, ch_agreed := Some sp, ch_session := Some s,
        ch_phase := CConfirmSent\<rparr>), is2)"
proof (cases "cc_local_pointer (ch_cfg c) = sp")
  case True
  let ?c = "c\<lparr>ch_server_nonce := Some sn, ch_agreed := Some sp\<rparr>"
  have "issue_and_confirm ae issue ?c is = Some ((StSend [IssueRequest sp cn sn, conf],
    ?c\<lparr>ch_session := Some s, ch_phase := CConfirmSent\<rparr>), is2)"
    by (rule issue_and_confirm_ok) (use c sk iss sc in simp_all)
  then show ?thesis
    using c True by (intro exI [of _ "ch_wasted_gap c"]) (simp add: client_handle_def on_arbitrate_def Let_def)
next
  case False
  let ?c = "c\<lparr>ch_wasted_gap := Some (cc_local_pointer (ch_cfg c), sp), ch_server_nonce := Some sn,
    ch_agreed := Some sp\<rparr>"
  have "issue_and_confirm ae issue ?c is = Some ((StSend [IssueRequest sp cn sn, conf],
    ?c\<lparr>ch_session := Some s, ch_phase := CConfirmSent\<rparr>), is2)"
    by (rule issue_and_confirm_ok) (use c sk iss sc in simp_all)
  then show ?thesis
    using c False
    by (intro exI [of _ "Some (cc_local_pointer (ch_cfg c), sp)"])
       (auto simp: client_handle_def on_arbitrate_def Let_def)
qed

end

lemma confirm_verified:
  assumes h: "sh_phase h = SConfirmWait" "sh_agreed h = Some i" "sh_client_nonce h = Some cn"
      "sh_server_nonce h = Some sn" "sh_session h = Some s0"
    and o: "session_open ae MtClientConfirm 0 sealed s0 = Some (Inr pt, s1)"
    and d: "decode_confirm_body pt = Inr (confirm_body_of (sc_book_id (sh_cfg h)) i cn sn ClientToServer)"
    and s: "seal_confirm ae (sc_book_id (sh_cfg h)) i cn sn ServerToClient s1 = Some (Inr reply, s2)"
  shows "on_confirm ae (ConfirmC2s i (session_nonce (ss_ctx s0)) 0 0 sealed) h =
    Some (StEstablished [reply] s2 i, h\<lparr>sh_session := None, sh_phase := SEstablished\<rparr>)"
proof -
  have "verify_confirm_body (confirm_body_of (sc_book_id (sh_cfg h)) i cn sn ClientToServer)
    \<lparr>ce_book_id = sc_book_id (sh_cfg h), ce_segment = i, ce_client_nonce = cn, ce_server_nonce = sn,
     ce_direction = ClientToServer, ce_msg_type = 4, ce_label = CONFIRM_LABEL_C2S\<rparr> = Inr ()"
    by (simp add: verify_confirm_body_def confirm_body_of_def)
  then show ?thesis
    using h o d s by (simp add: on_confirm_def verify_confirm_outer_def Let_def)
qed

lemma reply_verified:
  assumes c: "ch_phase c = CConfirmSent" "ch_agreed c = Some i" "ch_client_nonce c = Some cn"
      "ch_server_nonce c = Some sn" "ch_session c = Some s0"
    and o: "session_open ae MtServerConfirm 0 sealed s0 = Some (Inr pt, s1)"
    and d: "decode_confirm_body pt = Inr (confirm_body_of (cc_book_id (ch_cfg c)) i cn sn ServerToClient)"
  shows "client_handle ae issue (ConfirmS2c i (session_nonce (ss_ctx s0)) 0 0 sealed) c is =
    Some ((StEstablished [] s1 i, c\<lparr>ch_session := None, ch_phase := CEstablished\<rparr>), is)"
proof -
  have "verify_confirm_body (confirm_body_of (cc_book_id (ch_cfg c)) i cn sn ServerToClient)
    \<lparr>ce_book_id = cc_book_id (ch_cfg c), ce_segment = i, ce_client_nonce = cn, ce_server_nonce = sn,
     ce_direction = ServerToClient, ce_msg_type = 5, ce_label = CONFIRM_LABEL_S2C\<rparr> = Inr ()"
    by (simp add: verify_confirm_body_def confirm_body_of_def)
  then show ?thesis
    using c o d by (simp add: client_handle_def on_confirm_s2c_def verify_confirm_outer_def Let_def)
qed

lemma wire_hello: "length bid = 16 \<Longrightarrow> length cn = 16 \<Longrightarrow> over_wire Server (Hello bid cn cp f) = Some (Hello bid cn cp f)"
  by (rule over_wire_ok) (simp_all add: encode_check_def direction_rejects_def)

lemma wire_arbitrate:
  "length sn = 16 \<Longrightarrow> r \<noteq> ArbBookMismatch \<Longrightarrow> over_wire Client (Arbitrate sn sp r) = Some (Arbitrate sn sp r)"
  by (rule over_wire_ok) (simp_all add: encode_check_def direction_rejects_def)

lemma wire_issue:
  "length cn = 16 \<Longrightarrow> length sn = 16 \<Longrightarrow> over_wire Server (IssueRequest i cn sn) = Some (IssueRequest i cn sn)"
  by (rule over_wire_ok) (simp_all add: encode_check_def direction_rejects_def)

lemma wire_confirm:
  "length z = 16 \<Longrightarrow> length x = SEALED_LEN \<Longrightarrow>
    over_wire Server (ConfirmC2s i z e q x) = Some (ConfirmC2s i z e q x) \<and>
    over_wire Client (ConfirmS2c i z e q x) = Some (ConfirmS2c i z e q x)"
  by (intro conjI over_wire_ok) (simp_all add: encode_check_def direction_rejects_def)

lemma length_session_nonce:
  "length (cx_client_nonce cx) = 16 \<Longrightarrow> length (cx_server_nonce cx) = 16 \<Longrightarrow> length (session_nonce cx) = 16"
  by (simp add: session_nonce_def)

context segment_issuer
begin

lemma honest_run_ok:
  assumes ae: "aead_correct ae" "aead_total ae"
    and c: "client_new cc = Inr c" and h: "server_new sc = Inr h"
    and bid: "cc_book_id cc = sc_book_id sc" "length (sc_book_id sc) = 16"
    and n: "length cn = 16" "length sn = 16"
    and p: "cc_local_pointer cc \<le> sc_local_pointer sc" "sc_local_pointer sc < sc_segment_count sc"
    and cp: "ptr ic = unat (cc_local_pointer cc)" and sp: "ptr is = unat (sc_local_pointer sc)"
    and bk: "book ic = book is"
    and sk: "skip_segments issue (unat (sc_local_pointer sc) - unat (cc_local_pointer cc)) ic = Some (Inr (), ic1)"
    and i1: "issue ic1 = Some (Inr b1, ic2)" and i2: "issue is = Some (Inr b2, is2)"
  shows "\<exists>cs ss. honest_run ae issue cn sn c h ic is = Some (cs, ss, sc_local_pointer sc, ic2, is2) \<and>
    paired (split_keys (book is (unat (sc_local_pointer sc)))) cs ss \<and>
    next_send_sequence cs = 1 \<and> next_send_sequence ss = 1 \<and> is_active cs \<and> is_active ss \<and>
    cx_role (ss_ctx cs) = Client \<and> cx_segment (ss_ctx cs) = sc_local_pointer sc"
proof -
  let ?i = "sc_local_pointer sc"
  let ?bid = "sc_book_id sc"
  define seg where "seg = book is (unat ?i)"
  have le: "unat (cc_local_pointer cc) \<le> unat ?i" using p(1) by (simp add: word_le_nat_alt)
  have b: "b1 = seg" "b2 = seg"
    using skip_law [OF sk] issue_ok [OF i1] issue_ok [OF i2] cp sp bk le by (simp_all add: seg_def)
  define ctx where "ctx = \<lparr>cx_role = Client, cx_book_id = ?bid, cx_segment = ?i, cx_client_nonce = cn,
    cx_server_nonce = sn\<rparr>"
  define stx where "stx = \<lparr>cx_role = Server, cx_book_id = ?bid, cx_segment = ?i, cx_client_nonce = cn,
    cx_server_nonce = sn\<rparr>"
  have pst: "ctx\<lparr>cx_role := peer_of (cx_role ctx)\<rparr> = stx" by (simp add: ctx_def stx_def peer_of_def)
  let ?a = "session_new seg ctx" and ?b = "session_new seg stx"
  have pair0: "paired (split_keys seg) ?a ?b" using paired_new [of seg ctx] pst by simp
  have act: "ss_terminated ?a = None" "next_send_sequence ?a = 0" "ClientToServer = send_direction (cx_role (ss_ctx ?a))"
    by (simp_all add: session_new_def next_send_sequence_def ctx_def)
  obtain s1 p1 a1 b1' where
    sc1: "seal_confirm ae ?bid ?i cn sn ClientToServer ?a =
      Some (Inr (confirm_message ClientToServer ?i (session_nonce (ss_ctx ?a)) s1), a1)"
    and o1: "session_open ae (confirm_type ClientToServer) 0 s1 ?b = Some (Inr p1, b1')"
    and d1: "decode_confirm_body p1 = Inr (confirm_body_of ?bid ?i cn sn ClientToServer)"
    and l1: "length s1 = SEALED_LEN"
    and pair1: "paired (split_keys seg) a1 b1'" and q1: "next_send_sequence a1 = 1"
      "next_send_sequence b1' = next_send_sequence ?b"
    and x1: "ss_ctx a1 = ss_ctx ?a" "ss_ctx b1' = ss_ctx ?b" "ss_terminated a1 = None" "ss_terminated b1' = None"
    using confirm_exchange [OF ae pair0 act bid(2) n, of ?i] by blast
  have act2: "next_send_sequence b1' = 0" "ServerToClient = send_direction (cx_role (ss_ctx b1'))"
    using q1(2) x1(2) by (simp_all add: session_new_def next_send_sequence_def stx_def)
  obtain s2 p2 b2' a2 where
    sc2: "seal_confirm ae ?bid ?i cn sn ServerToClient b1' =
      Some (Inr (confirm_message ServerToClient ?i (session_nonce (ss_ctx b1')) s2), b2')"
    and o2: "session_open ae (confirm_type ServerToClient) 0 s2 a1 = Some (Inr p2, a2)"
    and d2: "decode_confirm_body p2 = Inr (confirm_body_of ?bid ?i cn sn ServerToClient)"
    and l2: "length s2 = SEALED_LEN"
    and pair2: "paired (split_keys seg) b2' a2" and q2: "next_send_sequence b2' = 1"
      "next_send_sequence a2 = next_send_sequence a1"
    and x2: "ss_ctx b2' = ss_ctx b1'" "ss_ctx a2 = ss_ctx a1" "ss_terminated b2' = None" "ss_terminated a2 = None"
    using confirm_exchange [OF ae paired_sym [OF pair1] x1(4) act2 bid(2) n, of ?i] by blast
  have sn_eq: "session_nonce (ss_ctx ?a) = session_nonce (ss_ctx ?b)"
      "session_nonce (ss_ctx b1') = session_nonce (ss_ctx ?b)"
      "session_nonce (ss_ctx a1) = session_nonce (ss_ctx ?b)" "length (session_nonce (ss_ctx ?b)) = 16"
    using n by (simp_all add: x1 session_new_def ctx_def stx_def session_nonce_def)
  let ?z = "session_nonce (ss_ctx ?b)"
  have cdef: "c = \<lparr>ch_cfg = cc, ch_phase = CIdle, ch_client_nonce = None, ch_server_nonce = None,
       ch_agreed = None, ch_session = None, ch_wasted_gap = None\<rparr>"
    using c by (auto simp: client_new_def split: if_splits)
  have hdef: "h = \<lparr>sh_cfg = sc, sh_phase = SIdle, sh_client_nonce = None, sh_server_nonce = None,
       sh_agreed = None, sh_session = None\<rparr>"
    using h by (auto simp: server_new_def split: if_splits)
  let ?c1 = "c\<lparr>ch_client_nonce := Some cn, ch_phase := CHelloSent\<rparr>"
  have st: "client_start (Some cn) c = (Inr (Hello ?bid cn (cc_local_pointer cc) 0), ?c1)"
    by (simp add: client_start_def cdef bid(1))
  let ?r = "if cc_local_pointer cc = ?i then ArbOk else ArbServerAhead"
  let ?h1 = "h\<lparr>sh_client_nonce := Some cn, sh_server_nonce := Some sn, sh_agreed := Some ?i, sh_phase := SIssueWait\<rparr>"
  have he: "on_hello (Some sn) (Hello ?bid cn (cc_local_pointer cc) 0) h = (Inr (Arbitrate sn ?i ?r), ?h1)"
    using hello_accepted [of h ?bid "cc_local_pointer cc" sn cn] p by (simp add: hdef)
  have sc1': "seal_confirm ae (cc_book_id (ch_cfg ?c1)) ?i cn sn ClientToServer (session_new b1
        \<lparr>cx_role = Client, cx_book_id = cc_book_id (ch_cfg ?c1), cx_segment = ?i, cx_client_nonce = cn,
          cx_server_nonce = sn\<rparr>) = Some (Inr (ConfirmC2s ?i ?z 0 0 s1), a1)"
    using sc1 sn_eq by (simp add: cdef bid(1) b(1) ctx_def [symmetric] confirm_message_def)
  obtain gap where ar: "client_handle ae issue (Arbitrate sn ?i ?r) ?c1 ic =
    Some ((StSend [IssueRequest ?i cn sn, ConfirmC2s ?i ?z 0 0 s1],
      ?c1\<lparr>ch_wasted_gap := gap, ch_server_nonce := Some sn, ch_agreed := Some ?i, ch_session := Some a1,
        ch_phase := CConfirmSent\<rparr>), ic2)"
    using arbitration_handled [OF _ _ _ _ i1 sc1', of ic] p(1) sk by (auto simp: cdef)
  let ?c2 = "?c1\<lparr>ch_wasted_gap := gap, ch_server_nonce := Some sn, ch_agreed := Some ?i, ch_session := Some a1,
        ch_phase := CConfirmSent\<rparr>"
  let ?h2 = "?h1\<lparr>sh_session := Some ?b, sh_phase := SConfirmWait\<rparr>"
  have ir: "on_issue_request issue (IssueRequest ?i cn sn) ?h1 is = Some ((StAwaitPeer, ?h2), is2)"
    by (simp add: on_issue_request_def i2 b(2) stx_def hdef Let_def)
  let ?h3 = "?h2\<lparr>sh_session := None, sh_phase := SEstablished\<rparr>"
  have co: "on_confirm ae (ConfirmC2s ?i ?z 0 0 s1) ?h2 =
      Some (StEstablished [ConfirmS2c ?i ?z 0 0 s2] b2' ?i, ?h3)"
    by (rule confirm_verified)
       (use o1 d1 sc2 sn_eq(2) in \<open>simp_all add: hdef confirm_type_def confirm_message_def\<close>)
  let ?c3 = "?c2\<lparr>ch_session := None, ch_phase := CEstablished\<rparr>"
  have re: "client_handle ae issue (ConfirmS2c ?i ?z 0 0 s2) ?c2 ic2 =
      Some ((StEstablished [] a2 ?i, ?c3), ic2)"
    unfolding sn_eq(3) [symmetric]
    by (rule reply_verified) (use o2 d2 in \<open>simp_all add: cdef bid(1) confirm_type_def\<close>)
  have "?r \<noteq> ArbBookMismatch" by simp
  note w = wire_hello [OF bid(2) n(1)] wire_arbitrate [OF n(2) this] wire_issue [OF n]
    wire_confirm [OF sn_eq(4) l1] wire_confirm [OF sn_eq(4) l2]
  have "honest_run ae issue cn sn c h ic is = Some (a2, b2', ?i, ic2, is2)"
    unfolding honest_run_def st by (simp only: prod.case sum.case option.case w he ar list.case step.case ir co re if_True simp_thms)
  then show ?thesis
    using paired_sym [OF pair2] q1 q2 x1 x2
    by (simp add: seg_def is_active_def session_new_def ctx_def)
qed

end

text \<open>
  Two machines over copies of one book, the client's pointer not ahead of the server's and
  a segment left: if the two allocators can issue, the handshake through the codec ends with
  both sides established on the server's segment, with the same keys, in step in both
  directions and ready to send DATA number 1; the client has skipped exactly the gap.
\<close>

theorem handshake_completes:
  assumes "aead_correct ae" and "aead_total ae"
    and "client_new cc = Inr c" and "server_new sc = Inr h"
    and "cc_book_id cc = sc_book_id sc" and "length (sc_book_id sc) = 16"
    and "length cn = 16" and "length sn = 16"
    and "cc_local_pointer cc \<le> sc_local_pointer sc" and "sc_local_pointer sc < sc_segment_count sc"
    and "alloc_ptr ic = unat (cc_local_pointer cc)" and "alloc_ptr is = unat (sc_local_pointer sc)"
    and "alloc_book ic = alloc_book is"
    and "skip_segments (core_issue sha file_media_ops book_reader)
      (unat (sc_local_pointer sc) - unat (cc_local_pointer cc)) ic = Some (Inr (), ic1)"
    and "core_issue sha file_media_ops book_reader ic1 = Some (Inr b1, ic2)"
    and "core_issue sha file_media_ops book_reader is = Some (Inr b2, is2)"
  shows "\<exists>cs ss. honest_run ae (core_issue sha file_media_ops book_reader) cn sn c h ic is =
      Some (cs, ss, sc_local_pointer sc, ic2, is2) \<and>
    paired (split_keys (alloc_book is (unat (sc_local_pointer sc)))) cs ss \<and>
    next_send_sequence cs = 1 \<and> next_send_sequence ss = 1 \<and> is_active cs \<and> is_active ss \<and>
    cx_role (ss_ctx cs) = Client \<and> cx_segment (ss_ctx cs) = sc_local_pointer sc"
  by (rule alloc.honest_run_ok) (rule assms)+

lemma small_issue:
  "\<exists>s'. core_issue sum_digest file_media_ops book_reader small_core = Some (Inr (segment_at small_data 0), s')"
proof -
  have "rd_read book_reader (ar_next (co_current small_core)) (co_reader small_core) =
      (Inr (segment_at small_data 0), small_book)"
    using small_read [of 0] by (simp add: small_core_def anchor_init_def book_reader_def)
  moreover have "\<not> co_halted small_core" "fm_script (co_media small_core) = []"
    "ar_next (co_current small_core) < rd_count book_reader (co_reader small_core)"
    "unat (gen_get (ar_generation (co_current small_core))) + 1 < 2 ^ 64"
    by (simp_all add: small_core_def anchor_init_def book_reader_def small_header_def pristine_def)
  ultimately show ?thesis using fm.issue_ready by meson
qed

theorem handshake_completes_witness:
  "\<exists>c h cs ss ic is. client_new \<lparr>cc_version = 2, cc_book_id = replicate 16 7, cc_local_pointer = 0,
      cc_segment_count = 3\<rparr> = Inr c \<and>
    server_new \<lparr>sc_version = 2, sc_book_id = replicate 16 7, sc_local_pointer = 0, sc_segment_count = 3\<rparr> = Inr h \<and>
    honest_run plain_aead (core_issue sum_digest file_media_ops book_reader) (replicate 16 2) (replicate 16 3)
      c h small_core small_core = Some (cs, ss, 0, ic, is) \<and> next_send_sequence cs = 1"
proof -
  let ?cc = "\<lparr>cc_version = 2, cc_book_id = replicate 16 7, cc_local_pointer = 0, cc_segment_count = 3\<rparr>"
  let ?sc = "\<lparr>sc_version = 2, sc_book_id = replicate 16 7, sc_local_pointer = 0, sc_segment_count = 3\<rparr>"
  obtain c h where c: "client_new ?cc = Inr c" and h: "server_new ?sc = Inr h"
    by (simp add: client_new_def server_new_def VERSION_def)
  obtain s' where i: "core_issue sum_digest file_media_ops book_reader small_core =
    Some (Inr (segment_at small_data 0), s')" using small_issue by blast
  have t: "aead_total plain_aead" by (simp add: aead_total_def plain_aead_def)
  have p: "alloc_ptr small_core = 0" by (simp add: alloc_ptr_def small_core_def anchor_init_def)
  have sk: "skip_segments (core_issue sum_digest file_media_ops book_reader)
      (unat (sc_local_pointer ?sc) - unat (cc_local_pointer ?cc)) small_core = Some (Inr (), small_core)" by simp
  from handshake_completes [OF plain_aead_correct t c h _ _ _ _ _ _ _ _ refl sk i i,
      of "replicate 16 2" "replicate 16 3"] p
  show ?thesis using c h by auto
qed

lemma issue_and_confirm_not_established:
  "issue_and_confirm ae (core_issue sha file_media_ops book_reader) c is \<noteq>
    Some ((StEstablished out s i, c'), is')"
  using alloc.issue_and_confirm_law [of ae sha c "is" "StEstablished out s i" c' is'] by auto

lemma on_arbitrate_not_established:
  "on_arbitrate ae (core_issue sha file_media_ops book_reader) m c is \<noteq> Some ((StEstablished out s i, c'), is')"
  by (cases m; cases "\<exists>sn sp r. m = Arbitrate sn sp r")
     (auto simp: on_arbitrate_def Let_def client_fails issue_and_confirm_not_established
       split: arbitrate_result.splits if_splits)

lemma client_established_law:
  assumes "client_handle ae (core_issue sha file_media_ops book_reader) m c is =
    Some ((StEstablished out s i, c'), is')"
  shows "is' = is \<and> ch_phase c = CConfirmSent \<and>
    (\<exists>cn sn s0. out = [] \<and> ch_agreed c = Some i \<and> ch_client_nonce c = Some cn \<and>
      ch_server_nonce c = Some sn \<and> ch_session c = Some s0 \<and> ch_phase c' = CEstablished \<and>
      ch_session c' = None \<and> proven_by ae m s0 s (cc_book_id (ch_cfg c)) i cn sn ServerToClient)"
proof -
  from assms have "ch_phase c = CConfirmSent \<and> on_confirm_s2c ae m c = Some (StEstablished out s i, c') \<and> is' = is"
    by (auto simp: client_handle_def client_fails on_arbitrate_not_established
        split: client_phase.splits message.splits)
  then show ?thesis using confirm_s2c_established by blast
qed

text \<open>
  C9. Nobody is established without proof. A client becomes established only from waiting for
  the confirmation, and a server only from waiting for its own, by a message that names the
  arbitrated segment and both nonces and whose sealed part opened, under the key of that
  segment, to exactly the confirmation expected from the peer; the machine then keeps no
  session of its own.
\<close>

theorem established_is_proven:
  "(case client_handle ae (core_issue sha file_media_ops book_reader) m c is of
     Some ((StEstablished out s i, c'), is') \<Rightarrow>
       is' = is \<and> ch_phase c = CConfirmSent \<and> ch_phase c' = CEstablished \<and> ch_session c' = None \<and>
       (\<exists>cn sn s0. ch_agreed c = Some i \<and> ch_client_nonce c = Some cn \<and> ch_server_nonce c = Some sn \<and>
         ch_session c = Some s0 \<and> proven_by ae m s0 s (cc_book_id (ch_cfg c)) i cn sn ServerToClient)
   | _ \<Rightarrow> True) \<and>
   (case on_confirm ae m h of
     Some (StEstablished out s i, h') \<Rightarrow>
       sh_phase h = SConfirmWait \<and> sh_phase h' = SEstablished \<and> sh_session h' = None \<and>
       (\<exists>cn sn s0 s1. sh_agreed h = Some i \<and> sh_client_nonce h = Some cn \<and> sh_server_nonce h = Some sn \<and>
         sh_session h = Some s0 \<and> proven_by ae m s0 s1 (sc_book_id (sh_cfg h)) i cn sn ClientToServer)
   | _ \<Rightarrow> True)"
proof (rule conjI)
  show "case client_handle ae (core_issue sha file_media_ops book_reader) m c is of
     Some ((StEstablished out s i, c'), is') \<Rightarrow>
       is' = is \<and> ch_phase c = CConfirmSent \<and> ch_phase c' = CEstablished \<and> ch_session c' = None \<and>
       (\<exists>cn sn s0. ch_agreed c = Some i \<and> ch_client_nonce c = Some cn \<and> ch_server_nonce c = Some sn \<and>
         ch_session c = Some s0 \<and> proven_by ae m s0 s (cc_book_id (ch_cfg c)) i cn sn ServerToClient)
   | _ \<Rightarrow> True"
    using client_established_law [of ae sha m c "is"] by (auto split: option.splits prod.splits step.splits)
  show "case on_confirm ae m h of
     Some (StEstablished out s i, h') \<Rightarrow>
       sh_phase h = SConfirmWait \<and> sh_phase h' = SEstablished \<and> sh_session h' = None \<and>
       (\<exists>cn sn s0 s1. sh_agreed h = Some i \<and> sh_client_nonce h = Some cn \<and> sh_server_nonce h = Some sn \<and>
         sh_session h = Some s0 \<and> proven_by ae m s0 s1 (sc_book_id (sh_cfg h)) i cn sn ClientToServer)
   | _ \<Rightarrow> True"
    using confirm_established [of ae m h] by (fastforce split: option.splits prod.splits step.splits)
qed

text \<open>
  A failing random source does not end the handshake, although the specification and the
  comments say that it terminates: the call reports the error and the machine stays idle, ready
  to be started again (the server has already stored the client's nonce).
\<close>

theorem csprng_failure_stays_idle:
  "(case client_new cc of
      Inl e \<Rightarrow> e = HsViolation BAD_VERSION
    | Inr c \<Rightarrow> client_start None c = (Inl HsCsprng, c) \<and> ch_phase c = CIdle) \<and>
   (case server_new sc of
      Inl e \<Rightarrow> e = HsViolation BAD_VERSION
    | Inr h \<Rightarrow> on_hello None (Hello bid cn cp f) h = (Inl HsCsprng, h\<lparr>sh_client_nonce := Some cn\<rparr>) \<and>
        sh_phase h = SIdle)"
  by (simp add: client_new_def server_new_def client_start_def on_hello_def Let_def)

end
