(* ===== verification/Transport.thy ===== *)
theory Transport
  imports Codec
begin

text \<open>
  The byte transports (crate \<open>otp-transport\<close>): the framing loops over the trait \<open>ByteIo\<close>
  (\<open>frame.rs\<close>), the loopback pipe (\<open>loopback.rs\<close>) and the TCP adapter (\<open>tcp.rs\<close>). A call
  that waits is given what happens while it waits: a pipe carries the events of its other end
  in the order in which they wake the caller, a socket the results of its system calls. A call
  that would wait for ever has the value \<open>None\<close>. The bytes that were handed over to the other
  side are recorded in \<open>pi_taken\<close> and \<open>sk_sent\<close>, which no operation reads.
\<close>

section \<open>Errors\<close>

datatype transport_error = TrIo | TrTimeout | TrClosedByPeer | TrFrameTooLarge nat | TrFrameMalformed

fun transport_code :: "transport_error \<Rightarrow> u16" where
  "transport_code TrIo = IO_ERROR"
| "transport_code TrTimeout = IO_ERROR"
| "transport_code TrClosedByPeer = FRAME_TRUNCATED"
| "transport_code TrFrameMalformed = FRAME_TRUNCATED"
| "transport_code (TrFrameTooLarge n) = BAD_LENGTH"

definition transport_category :: "transport_error \<Rightarrow> error_category" where
  "transport_category e = CatTransport"

definition is_peer_condition :: "transport_error \<Rightarrow> bool" where
  "is_peer_condition e \<longleftrightarrow> e = TrClosedByPeer \<or> e = TrFrameMalformed"

section \<open>Framing\<close>

text \<open>
  \<open>ByteIo\<close>: \<open>read_full\<close> of a buffer of the given length, \<open>Inr (Some bs)\<close> for \<open>Ok(true)\<close> with
  the buffer filled and \<open>Inr None\<close> for \<open>Ok(false)\<close>; \<open>write_partial\<close> of a chunk.
\<close>

record 's byte_io =
  bi_read_full :: "nat \<Rightarrow> 's \<Rightarrow> ((transport_error + bytes option) \<times> 's) option"
  bi_write_partial :: "bytes \<Rightarrow> 's \<Rightarrow> ((transport_error + nat) \<times> 's) option"

definition WRITE_CHUNK :: nat where "WRITE_CHUNK = 16384"

definition declared_len :: "bytes \<Rightarrow> nat" where
  "declared_len h = unat (from_be32 (slice_of 4 8 h))"

definition recv_frame :: "'s byte_io \<Rightarrow> 's \<Rightarrow> ((transport_error + bytes) \<times> 's) option" where
  "recv_frame io s = (case bi_read_full io FRAME_HEADER_LEN s of
     None \<Rightarrow> None
   | Some (Inl e, s) \<Rightarrow> Some (Inl e, s)
   | Some (Inr None, s) \<Rightarrow> Some (Inl TrClosedByPeer, s)
   | Some (Inr (Some header), s) \<Rightarrow>
       let payload_len = declared_len header in
       if MAX_FRAME_PAYLOAD < payload_len then Some (Inl (TrFrameTooLarge payload_len), s)
       else (case bi_read_full io payload_len s of
         None \<Rightarrow> None
       | Some (Inl e, s) \<Rightarrow> Some (Inl e, s)
       | Some (Inr None, s) \<Rightarrow> Some (Inl TrFrameMalformed, s)
       | Some (Inr (Some body), s) \<Rightarrow> Some (Inr (header @ body), s)))"

definition send_check :: "bytes \<Rightarrow> transport_error + unit" where
  "send_check frame =
    (if length frame < FRAME_HEADER_LEN then Inl TrFrameMalformed
     else if MAX_FRAME_PAYLOAD < declared_len frame then Inl (TrFrameTooLarge (declared_len frame))
     else if declared_len frame \<noteq> length frame - FRAME_HEADER_LEN then Inl TrFrameMalformed
     else Inr ())"

partial_function (option) send_loop ::
  "'s byte_io \<Rightarrow> bytes \<Rightarrow> nat \<Rightarrow> 's \<Rightarrow> ((transport_error + unit) \<times> 's) option" where
  "send_loop io frame off s =
    (if off < length frame then
       (case bi_write_partial io (take (min (length frame - off) WRITE_CHUNK) (drop off frame)) s of
          None \<Rightarrow> None
        | Some (r, s') \<Rightarrow> (case r of
            Inl e \<Rightarrow> Some (Inl e, s')
          | Inr n \<Rightarrow> send_loop io frame (off + n) s'))
     else Some (Inr (), s))"

definition send_frame :: "'s byte_io \<Rightarrow> bytes \<Rightarrow> 's \<Rightarrow> ((transport_error + unit) \<times> 's) option" where
  "send_frame io frame s = (case send_check frame of
     Inl e \<Rightarrow> Some (Inl e, s)
   | Inr _ \<Rightarrow> send_loop io frame 0 s)"

section \<open>The loopback pipe\<close>

datatype writer_event = Arrives bytes | Shuts

datatype reader_event = Drains nat | Leaves

record pipe =
  pi_buf :: bytes
  pi_capacity :: nat
  pi_write_closed :: bool
  pi_reader_gone :: bool
  pi_taken :: bytes
  pi_to_come :: "writer_event list"
  pi_to_go :: "reader_event list"

definition DEFAULT_CAPACITY :: nat where "DEFAULT_CAPACITY = MAX_FRAME"

definition pipe_new :: "nat \<Rightarrow> pipe" where
  "pipe_new capacity = \<lparr>pi_buf = [], pi_capacity = capacity, pi_write_closed = False,
    pi_reader_gone = False, pi_taken = [], pi_to_come = [], pi_to_go = []\<rparr>"

text \<open>What the writing and the reading end do to the pipe while the other one waits.\<close>

fun writer_does :: "writer_event \<Rightarrow> pipe \<Rightarrow> pipe" where
  "writer_does (Arrives bs) p = p\<lparr>pi_buf := pi_buf p @ bs\<rparr>"
| "writer_does Shuts p = p\<lparr>pi_write_closed := True\<rparr>"

definition pipe_drain :: "nat \<Rightarrow> pipe \<Rightarrow> bytes \<times> pipe" where
  "pipe_drain n p = (take n (pi_buf p),
    p\<lparr>pi_taken := pi_taken p @ take n (pi_buf p), pi_buf := drop n (pi_buf p)\<rparr>)"

fun reader_does :: "reader_event \<Rightarrow> pipe \<Rightarrow> pipe" where
  "reader_does (Drains n) p = snd (pipe_drain n p)"
| "reader_does Leaves p = p\<lparr>pi_reader_gone := True\<rparr>"

text \<open>The time limit of a wait; a limit beyond the range of the clock counts as none.\<close>

definition pipe_deadline :: "nat option \<Rightarrow> transport_error + nat option" where
  "pipe_deadline timeout = (if timeout = Some 0 then Inl TrIo else Inr timeout)"

definition wait_over :: "nat option \<Rightarrow> 'b \<Rightarrow> ((transport_error + 'a) \<times> 'b) option" where
  "wait_over deadline p = (if deadline = None then None else Some (Inl TrTimeout, p))"

fun pipe_read_loop ::
  "nat option \<Rightarrow> nat \<Rightarrow> writer_event list \<Rightarrow> bytes \<Rightarrow> pipe \<Rightarrow> ((transport_error + bytes option) \<times> pipe) option" where
  "pipe_read_loop deadline need evs got p =
    (let full = (pi_buf p \<noteq> [] \<and> length (got @ pi_buf p) \<ge> need);
         (bs, p) = pipe_drain (need - length got) p;
         got = got @ bs in
     if full then Some (Inr (Some got), p\<lparr>pi_to_come := evs\<rparr>)
     else if pi_write_closed p then
       Some (if got = [] then Inr None else Inl TrFrameMalformed, p\<lparr>pi_to_come := evs\<rparr>)
     else (case evs of
       [] \<Rightarrow> wait_over deadline (p\<lparr>pi_to_come := []\<rparr>)
     | e # evs \<Rightarrow> pipe_read_loop deadline need evs got (writer_does e p)))"

definition pipe_read_full ::
  "nat option \<Rightarrow> nat \<Rightarrow> pipe \<Rightarrow> ((transport_error + bytes option) \<times> pipe) option" where
  "pipe_read_full timeout need p = (case pipe_deadline timeout of
     Inl e \<Rightarrow> Some (Inl e, p)
   | Inr d \<Rightarrow> pipe_read_loop d need (pi_to_come p) [] p)"

fun pipe_write_loop ::
  "nat option \<Rightarrow> bytes \<Rightarrow> reader_event list \<Rightarrow> pipe \<Rightarrow> ((transport_error + nat) \<times> pipe) option" where
  "pipe_write_loop deadline chunk evs p =
    (if pi_reader_gone p then Some (Inl TrClosedByPeer, p\<lparr>pi_to_go := evs\<rparr>)
     else let space = pi_capacity p - length (pi_buf p) in
       if 0 < space then
         (let n = min space (length chunk) in
          Some (Inr n, p\<lparr>pi_buf := pi_buf p @ take n chunk, pi_to_go := evs\<rparr>))
       else (case evs of
         [] \<Rightarrow> wait_over deadline (p\<lparr>pi_to_go := []\<rparr>)
       | e # evs \<Rightarrow> pipe_write_loop deadline chunk evs (reader_does e p)))"

definition pipe_write_partial ::
  "nat option \<Rightarrow> bytes \<Rightarrow> pipe \<Rightarrow> ((transport_error + nat) \<times> pipe) option" where
  "pipe_write_partial timeout chunk p = (case pipe_deadline timeout of
     Inl e \<Rightarrow> Some (Inl e, p)
   | Inr d \<Rightarrow> pipe_write_loop d chunk (pi_to_go p) p)"

definition pipe_io :: "nat option \<Rightarrow> pipe byte_io" where
  "pipe_io timeout = \<lparr>bi_read_full = pipe_read_full timeout, bi_write_partial = pipe_write_partial timeout\<rparr>"

text \<open>One end of the loopback: \<open>LoopbackTransport\<close> with its two pipes.\<close>

record loopback =
  lb_outgoing :: pipe
  lb_incoming :: pipe
  lb_timeout :: "nat option"
  lb_closed :: bool

definition loopback_new :: "nat \<Rightarrow> loopback" where
  "loopback_new capacity = \<lparr>lb_outgoing = pipe_new capacity, lb_incoming = pipe_new capacity,
    lb_timeout = None, lb_closed = False\<rparr>"

definition lb_send_frame :: "bytes \<Rightarrow> loopback \<Rightarrow> ((transport_error + unit) \<times> loopback) option" where
  "lb_send_frame frame l =
    (if lb_closed l then Some (Inl TrClosedByPeer, l)
     else case send_frame (pipe_io (lb_timeout l)) frame (lb_outgoing l) of
       None \<Rightarrow> None
     | Some (r, p) \<Rightarrow> Some (r, l\<lparr>lb_outgoing := p\<rparr>))"

definition lb_recv_frame :: "loopback \<Rightarrow> ((transport_error + bytes) \<times> loopback) option" where
  "lb_recv_frame l =
    (if lb_closed l then Some (Inl TrClosedByPeer, l)
     else case recv_frame (pipe_io (lb_timeout l)) (lb_incoming l) of
       None \<Rightarrow> None
     | Some (r, p) \<Rightarrow> Some (r, l\<lparr>lb_incoming := p\<rparr>))"

definition lb_set_deadline :: "nat \<Rightarrow> loopback \<Rightarrow> (transport_error + unit) \<times> loopback" where
  "lb_set_deadline t l = (if t = 0 then (Inl TrIo, l) else (Inr (), l\<lparr>lb_timeout := Some t\<rparr>))"

definition lb_shutdown_write :: "loopback \<Rightarrow> (transport_error + unit) \<times> loopback" where
  "lb_shutdown_write l = (Inr (), l\<lparr>lb_outgoing := (lb_outgoing l)\<lparr>pi_write_closed := True\<rparr>\<rparr>)"

definition lb_close :: "loopback \<Rightarrow> (transport_error + unit) \<times> loopback" where
  "lb_close l =
    (if lb_closed l then (Inr (), l)
     else (Inr (), l\<lparr>lb_closed := True,
       lb_outgoing := (lb_outgoing l)\<lparr>pi_write_closed := True\<rparr>,
       lb_incoming := (lb_incoming l)\<lparr>pi_reader_gone := True\<rparr>\<rparr>))"

section \<open>The TCP adapter\<close>

text \<open>
  The standard library's stream: a read gets at most what it asks for of the next segment, and no
  bytes at the end of the stream; a write takes some bytes of the buffer, possibly none, fails, or
  blocks for ever, as it may on a socket without a write timeout. A list of results that is used
  up means the end of the stream, or that everything is taken.
\<close>

datatype io_kind = WouldBlock | TimedOut | BrokenPipe | ConnectionReset | NotConnected | OtherKind

datatype sock_read_event = Segment bytes | ReadFails io_kind

datatype sock_write_event = Takes nat | WriteFails io_kind | WriteBlocks

record socket =
  sk_reads :: "sock_read_event list"
  sk_writes :: "sock_write_event list"
  sk_sent :: bytes

definition sock_read :: "nat \<Rightarrow> socket \<Rightarrow> (io_kind + bytes) \<times> socket" where
  "sock_read n s = (case sk_reads s of
     [] \<Rightarrow> (Inr [], s)
   | ReadFails k # evs \<Rightarrow> (Inl k, s\<lparr>sk_reads := evs\<rparr>)
   | Segment bs # evs \<Rightarrow>
       (Inr (take n bs), s\<lparr>sk_reads := (if length bs \<le> n then evs else Segment (drop n bs) # evs)\<rparr>))"

definition sock_write :: "bytes \<Rightarrow> socket \<Rightarrow> ((io_kind + nat) \<times> socket) option" where
  "sock_write buf s = (case sk_writes s of
     [] \<Rightarrow> Some (Inr (length buf), s\<lparr>sk_sent := sk_sent s @ buf\<rparr>)
   | WriteFails k # evs \<Rightarrow> Some (Inl k, s\<lparr>sk_writes := evs\<rparr>)
   | WriteBlocks # evs \<Rightarrow> None
   | Takes n # evs \<Rightarrow> let m = min n (length buf) in
       Some (Inr m, s\<lparr>sk_writes := evs, sk_sent := sk_sent s @ take m buf\<rparr>))"

lemma sock_read_length: "sock_read n s = (Inr bs, s') \<Longrightarrow> length bs \<le> n"
  by (auto simp: sock_read_def split: list.splits sock_read_event.splits)

function tcp_read_loop :: "nat \<Rightarrow> bytes \<Rightarrow> socket \<Rightarrow> (transport_error + bytes option) \<times> socket" where
  "tcp_read_loop need got s =
    (if length got < need then
       (case sock_read (need - length got) s of
          (Inl k, s') \<Rightarrow> (Inl (if k = WouldBlock \<or> k = TimedOut then TrTimeout else TrIo), s')
        | (Inr bs, s') \<Rightarrow>
            if bs = [] then (if got = [] then Inr None else Inl TrFrameMalformed, s')
            else tcp_read_loop need (got @ bs) s')
     else (Inr (Some got), s))"
  by pat_completeness auto

termination
  by (relation "measure (\<lambda>(need, got, s). need - length got)") (auto intro!: diff_less_mono2)

definition tcp_read_full :: "nat \<Rightarrow> socket \<Rightarrow> ((transport_error + bytes option) \<times> socket) option" where
  "tcp_read_full need s = Some (tcp_read_loop need [] s)"

definition tcp_write_partial :: "bytes \<Rightarrow> socket \<Rightarrow> ((transport_error + nat) \<times> socket) option" where
  "tcp_write_partial buf s = (case sock_write buf s of
     None \<Rightarrow> None
   | Some (Inr n, s) \<Rightarrow> Some (Inr n, s)
   | Some (Inl k, s) \<Rightarrow> Some (Inl (if k = WouldBlock \<or> k = TimedOut then TrTimeout
       else if k = BrokenPipe \<or> k = ConnectionReset then TrClosedByPeer else TrIo), s))"

definition tcp_io :: "socket byte_io" where
  "tcp_io = \<lparr>bi_read_full = tcp_read_full, bi_write_partial = tcp_write_partial\<rparr>"

definition tcp_shutdown :: "io_kind + unit \<Rightarrow> transport_error + unit" where
  "tcp_shutdown r = (case r of Inr u \<Rightarrow> Inr u | Inl k \<Rightarrow> if k = NotConnected then Inr () else Inl TrIo)"

definition tcp_set_deadline :: "nat \<Rightarrow> bool \<Rightarrow> bool \<Rightarrow> transport_error + unit" where
  "tcp_set_deadline t read_ok write_ok =
    (if t = 0 \<or> \<not> read_ok \<or> \<not> write_ok then Inl TrIo else Inr ())"

declare pipe_read_loop.simps [simp del] pipe_write_loop.simps [simp del] tcp_read_loop.simps [simp del]

section \<open>Framed streams\<close>

text \<open>The trait \<open>FramedStream\<close> as the programs above it see it, and its two implementations.\<close>

record 's framed =
  fs_send :: "bytes \<Rightarrow> 's \<Rightarrow> ((transport_error + unit) \<times> 's) option"
  fs_recv :: "'s \<Rightarrow> ((transport_error + bytes) \<times> 's) option"
  fs_set_deadline :: "nat \<Rightarrow> 's \<Rightarrow> (transport_error + unit) \<times> 's"
  fs_shutdown_write :: "'s \<Rightarrow> (transport_error + unit) \<times> 's"
  fs_close :: "'s \<Rightarrow> (transport_error + unit) \<times> 's"

definition loopback_stream :: "loopback framed" where
  "loopback_stream = \<lparr>fs_send = lb_send_frame, fs_recv = lb_recv_frame, fs_set_deadline = lb_set_deadline,
    fs_shutdown_write = lb_shutdown_write, fs_close = lb_close\<rparr>"

definition tcp_stream :: "socket framed" where
  "tcp_stream = \<lparr>fs_send = send_frame tcp_io, fs_recv = recv_frame tcp_io,
    fs_set_deadline = (\<lambda>t s. (tcp_set_deadline t True True, s)),
    fs_shutdown_write = (\<lambda>s. (tcp_shutdown (Inr ()), s)), fs_close = (\<lambda>s. (tcp_shutdown (Inr ()), s))\<rparr>"

section \<open>What a framing loop may rely on\<close>

text \<open>
  A byte writer takes a prefix of a chunk or reports an error and takes nothing; \<open>sent\<close> is
  what it has taken so far, \<open>idle\<close> bounds how many more calls may take nothing at all. The loop of
  \<open>send_frame\<close> then ends after at most as many calls as the frame has bytes, and the idle ones,
  unless a call itself waits for ever.
\<close>

locale byte_writer =
  fixes io :: "'s byte_io" and sent :: "'s \<Rightarrow> bytes" and live :: "'s \<Rightarrow> bool" and idle :: "'s \<Rightarrow> nat"
  assumes write_takes: "chunk \<noteq> [] \<Longrightarrow> bi_write_partial io chunk s = Some (Inr n, s') \<Longrightarrow>
      n \<le> length chunk \<and> sent s' = sent s @ take n chunk \<and>
      (0 < n \<and> idle s' \<le> idle s \<or> idle s' < idle s)"
    and write_fails: "chunk \<noteq> [] \<Longrightarrow> bi_write_partial io chunk s = Some (Inl e, s') \<Longrightarrow> sent s' = sent s"
    and write_returns: "live s \<Longrightarrow> \<exists>r s'. bi_write_partial io chunk s = Some (r, s') \<and> live s'"
begin

lemma send_loop_returns:
  "live s \<Longrightarrow> \<exists>r s'. send_loop io frame off s = Some (r, s') \<and> live s'"
proof (induction "length frame - off + idle s" arbitrary: off s rule: less_induct)
  case less
  define chunk where "chunk = take (min (length frame - off) WRITE_CHUNK) (drop off frame)"
  show ?case
  proof (cases "off < length frame")
    case False
    then show ?thesis using less.prems by (simp add: send_loop.simps [of io frame off s])
  next
    case True
    then have c: "chunk \<noteq> []" by (simp add: chunk_def WRITE_CHUNK_def)
    obtain r s' where w: "bi_write_partial io chunk s = Some (r, s')" and l: "live s'"
      using write_returns [OF less.prems] by blast
    have step: "send_loop io frame off s = (case r of
        Inl e \<Rightarrow> Some (Inl e, s') | Inr n \<Rightarrow> send_loop io frame (off + n) s')"
      using True w by (simp add: send_loop.simps [of io frame off s] chunk_def)
    show ?thesis
    proof (cases r)
      case (Inl e)
      then show ?thesis using l step by simp
    next
      case (Inr n)
      then have n: "0 < n \<and> idle s' \<le> idle s \<or> idle s' < idle s" using write_takes [OF c] w by blast
      have "length frame - (off + n) + idle s' < length frame - off + idle s" using n True by linarith
      from less.hyps [OF this l] show ?thesis unfolding step Inr by simp
    qed
  qed
qed

lemma send_loop_sends:
  assumes "send_loop io frame off s = Some (r, s')" "off \<le> length frame"
  shows "\<exists>k. off \<le> k \<and> k \<le> length frame \<and> sent s' = sent s @ take (k - off) (drop off frame) \<and>
    (r = Inr () \<longleftrightarrow> k = length frame)"
  using assms
proof (induction "length frame - off + idle s" arbitrary: off s rule: less_induct)
  case less
  define m where "m = min (length frame - off) WRITE_CHUNK"
  define chunk where "chunk = take m (drop off frame)"
  show ?case
  proof (cases "off < length frame")
    case False
    then show ?thesis using less.prems
      by (auto simp: send_loop.simps [of io frame "length frame" s] intro!: exI [of _ "length frame"])
  next
    case True
    then have c: "chunk \<noteq> []" and lc: "length chunk \<le> length frame - off"
      by (simp_all add: chunk_def m_def WRITE_CHUNK_def)
    obtain q t where w: "bi_write_partial io chunk s = Some (q, t)"
      and step: "(case q of Inl e \<Rightarrow> Some (Inl e, t) | Inr n \<Rightarrow> send_loop io frame (off + n) t) = Some (r, s')"
      using less.prems(1) True
      by (auto simp: send_loop.simps [of io frame off s] chunk_def [symmetric] m_def [symmetric]
          split: option.splits)
    show ?thesis
    proof (cases q)
      case (Inl e)
      then show ?thesis using step write_fails [OF c w [unfolded Inl]] True by (auto intro!: exI [of _ off])
    next
      case (Inr n)
      have n: "0 < n \<and> idle t \<le> idle s \<or> idle t < idle s" "n \<le> length chunk"
          "sent t = sent s @ take n chunk"
        using write_takes [OF c w [unfolded Inr]] by simp_all
      have tk: "take n chunk = take n (drop off frame)" using n(2) by (simp add: chunk_def min_absorb1)
      have rec: "send_loop io frame (off + n) t = Some (r, s')" using step Inr by simp
      have m: "length frame - (off + n) + idle t < length frame - off + idle s" and le: "off + n \<le> length frame"
        using n(1,2) lc True by linarith+
      from less.hyps [OF m rec le] obtain k where k: "off + n \<le> k" "k \<le> length frame"
          "sent s' = sent t @ take (k - (off + n)) (drop (off + n) frame)"
          "r = Inr () \<longleftrightarrow> k = length frame" by iprover
      have "take (k - off) (drop off frame) =
          take n (drop off frame) @ take (k - (off + n)) (drop (off + n) frame)"
      proof -
        have "k - off = n + (k - (off + n))" using k(1) by simp
        then show ?thesis by (metis add.commute drop_drop take_add)
      qed
      then show ?thesis using k n(3) tk by (auto intro!: exI [of _ k])
    qed
  qed
qed

lemma send_frame_returns: "live s \<Longrightarrow> \<exists>r s'. send_frame io frame s = Some (r, s') \<and> live s'"
  using send_loop_returns by (auto simp: send_frame_def split: sum.split)

lemma send_frame_sends:
  assumes "send_frame io frame s = Some (r, s')"
  shows "\<exists>k \<le> length frame. sent s' = sent s @ take k frame \<and>
    (r = Inr () \<longleftrightarrow> k = length frame \<and> send_check frame = Inr ())"
proof (cases "send_check frame")
  case (Inl e)
  then show ?thesis using assms by (auto simp: send_frame_def)
next
  case (Inr u)
  then show ?thesis using assms send_loop_sends [of frame 0 s r s'] by (auto simp: send_frame_def)
qed

end

text \<open>Both transports are byte writers; the pipe never waits for ever once a deadline is set.\<close>

definition pipe_sent :: "pipe \<Rightarrow> bytes" where
  "pipe_sent p = pi_taken p @ pi_buf p"

lemma pipe_sent_simps [simp]:
  "pipe_sent (reader_does e p) = pipe_sent p" "pipe_sent (p\<lparr>pi_to_go := evs\<rparr>) = pipe_sent p"
  "pipe_sent (p\<lparr>pi_buf := pi_buf p @ bs\<rparr>) = pipe_sent p @ bs"
  by (cases e; simp add: pipe_sent_def pipe_drain_def)+

lemma pipe_write_loop_sent:
  "pipe_write_loop d chunk evs p = Some (r, p') \<Longrightarrow> chunk \<noteq> [] \<Longrightarrow>
    (case r of Inl _ \<Rightarrow> pipe_sent p' = pipe_sent p
     | Inr n \<Rightarrow> 0 < n \<and> n \<le> length chunk \<and> pipe_sent p' = pipe_sent p @ take n chunk)"
proof (induction evs arbitrary: p)
  case Nil
  then show ?case
    by (auto simp: pipe_write_loop.simps [of d chunk "[]" p] Let_def wait_over_def split: if_splits)
next
  case (Cons e evs)
  show ?case
  proof (cases "pi_reader_gone p \<or> length (pi_buf p) < pi_capacity p")
    case True
    then show ?thesis using Cons.prems
      by (auto simp: pipe_write_loop.simps [of d chunk "e # evs" p] Let_def split: if_splits)
  next
    case False
    then have "pipe_write_loop d chunk evs (reader_does e p) = Some (r, p')"
      using Cons.prems by (simp add: pipe_write_loop.simps [of d chunk "e # evs" p])
    from Cons.IH [OF this Cons.prems(2)] show ?thesis by (cases r) simp_all
  qed
qed

lemma pipe_write_loop_returns: "\<exists>r p'. pipe_write_loop (Some t) chunk evs p = Some (r, p')"
proof (induction evs arbitrary: p)
  case Nil
  then show ?case by (simp add: pipe_write_loop.simps [of "Some t" chunk "[]" p] Let_def wait_over_def)
next
  case (Cons e evs)
  then show ?case by (simp add: pipe_write_loop.simps [of "Some t" chunk "e # evs" p] Let_def)
qed

lemma pipe_write_returns: "t \<noteq> None \<Longrightarrow> \<exists>r p'. pipe_write_partial t chunk p = Some (r, p')"
  using pipe_write_loop_returns by (auto simp: pipe_write_partial_def pipe_deadline_def)

interpretation pipew: byte_writer "pipe_io t" pipe_sent "\<lambda>_. t \<noteq> None" "\<lambda>_. 0" for t
proof unfold_locales
  fix chunk s n s'
  assume "chunk \<noteq> []" "bi_write_partial (pipe_io t) chunk s = Some (Inr n, s')"
  then show "n \<le> length chunk \<and> pipe_sent s' = pipe_sent s @ take n chunk \<and>
      (0 < n \<and> (0::nat) \<le> 0 \<or> (0::nat) < 0)"
    using pipe_write_loop_sent [of t chunk "pi_to_go s" s "Inr n" s']
    by (auto simp: pipe_io_def pipe_write_partial_def pipe_deadline_def split: if_splits)
next
  fix chunk s e s'
  assume "chunk \<noteq> []" "bi_write_partial (pipe_io t) chunk s = Some (Inl e, s')"
  then show "pipe_sent s' = pipe_sent s"
    using pipe_write_loop_sent [of t chunk "pi_to_go s" s "Inl e" s']
    by (auto simp: pipe_io_def pipe_write_partial_def pipe_deadline_def split: if_splits)
qed (use pipe_write_returns in \<open>auto simp: pipe_io_def\<close>)

interpretation tcpw: byte_writer tcp_io sk_sent "\<lambda>s. WriteBlocks \<notin> set (sk_writes s)" "\<lambda>s. length (sk_writes s)"
  by unfold_locales
    (auto simp: tcp_io_def tcp_write_partial_def sock_write_def Let_def
      split: list.splits sock_write_event.splits if_splits option.splits)

section \<open>What arrives is what was framed\<close>

text \<open>
  The frames of a byte stream and the reason why it ends: the reference for the reading loop, which
  knows nothing of chunks and waits.
\<close>

function frames_of :: "bytes \<Rightarrow> bytes list \<times> transport_error" where
  "frames_of bs =
    (if bs = [] then ([], TrClosedByPeer)
     else if length bs < FRAME_HEADER_LEN then ([], TrFrameMalformed)
     else let n = declared_len bs in
       if MAX_FRAME_PAYLOAD < n then ([], TrFrameTooLarge n)
       else if length bs < FRAME_HEADER_LEN + n then ([], TrFrameMalformed)
       else let (fs, e) = frames_of (drop (FRAME_HEADER_LEN + n) bs) in
         (take (FRAME_HEADER_LEN + n) bs # fs, e))"
  by pat_completeness auto

termination
  by (relation "measure length") (auto simp: FRAME_HEADER_LEN_def)

declare frames_of.simps [simp del]

text \<open>Receiving until the first error.\<close>

partial_function (option) recv_all :: "'s byte_io \<Rightarrow> 's \<Rightarrow> (bytes list \<times> transport_error) option" where
  "recv_all io s = (case recv_frame io s of
     None \<Rightarrow> None
   | Some (r, s') \<Rightarrow> (case r of
       Inl e \<Rightarrow> Some ([], e)
     | Inr f \<Rightarrow> Option.bind (recv_all io s') (\<lambda>x. Some (f # fst x, snd x))))"

lemma declared_len_prefix: "8 \<le> length h \<Longrightarrow> declared_len (h @ x) = declared_len h"
  by (simp add: declared_len_def slice_append1)

lemma declared_len_take: "8 \<le> length h \<Longrightarrow> declared_len (take 8 h) = declared_len h"
  using declared_len_prefix [of "take 8 h" "drop 8 h"] by simp

text \<open>
  A byte reader gives out consecutive parts of what is \<open>pending\<close>, and loses some of it when it fails.
  On a \<open>settled\<close> stream, which nothing interrupts before its end, a nonempty read succeeds exactly
  if there is enough left.
\<close>

locale byte_reader =
  fixes io :: "'s byte_io" and pending :: "'s \<Rightarrow> bytes" and settled :: "'s \<Rightarrow> bool"
  assumes read_gets: "bi_read_full io n s = Some (Inr (Some bs), s') \<Longrightarrow>
      length bs = n \<and> pending s = bs @ pending s'"
    and read_loses: "bi_read_full io n s = Some (r, s') \<Longrightarrow> \<exists>lost. pending s = lost @ pending s'"
    and settled_full: "settled s \<Longrightarrow> 0 < n \<Longrightarrow> n \<le> length (pending s) \<Longrightarrow>
      \<exists>s'. bi_read_full io n s = Some (Inr (Some (take n (pending s))), s') \<and> settled s'"
    and settled_short: "settled s \<Longrightarrow> length (pending s) < n \<Longrightarrow>
      \<exists>s'. bi_read_full io n s = Some (if pending s = [] then Inr None else Inl TrFrameMalformed, s')"
begin

lemma recv_frame_gets:
  assumes "recv_frame io s = Some (Inr f, s')"
  shows "pending s = f @ pending s' \<and> send_check f = Inr ()"
proof -
  obtain h t b where h: "bi_read_full io FRAME_HEADER_LEN s = Some (Inr (Some h), t)"
    and n: "declared_len h \<le> MAX_FRAME_PAYLOAD"
    and b: "bi_read_full io (declared_len h) t = Some (Inr (Some b), s')" and f: "f = h @ b"
    using assms by (auto simp: recv_frame_def Let_def split: option.splits sum.splits if_splits)
  have "length h = 8" "length b = declared_len h" using read_gets [OF h] read_gets [OF b]
    by (simp_all add: FRAME_HEADER_LEN_def)
  then show ?thesis
    using read_gets [OF h] read_gets [OF b] n
    by (simp add: f send_check_def FRAME_HEADER_LEN_def declared_len_prefix)
qed

lemma recv_frame_loses:
  assumes "recv_frame io s = Some (r, s')" shows "\<exists>lost. pending s = lost @ pending s'"
proof -
  obtain q t where h: "bi_read_full io FRAME_HEADER_LEN s = Some (q, t)"
    using assms by (auto simp: recv_frame_def split: option.splits)
  show ?thesis
  proof (cases "t = s'")
    case True
    then show ?thesis using read_loses [OF h] by simp
  next
    case False
    then obtain n w where "bi_read_full io n t = Some (w, s')"
      using assms h by (auto simp: recv_frame_def Let_def split: option.splits sum.splits if_splits)
    then show ?thesis using read_loses [OF h] read_loses [of n t w s'] by (metis append_assoc)
  qed
qed

lemma recv_all_settled:
  assumes "settled s" "list_all (\<lambda>f. FRAME_HEADER_LEN < length f) (fst (frames_of (pending s)))"
  shows "recv_all io s = Some (frames_of (pending s))"
  using assms
proof (induction "pending s" arbitrary: s rule: length_induct)
  case (1 s)
  let ?bs = "pending s" and ?n = "declared_len (pending s)"
  show ?case
  proof (cases "length ?bs < 8")
    case True
    then obtain t where "bi_read_full io 8 s = Some (if ?bs = [] then Inr None else Inl TrFrameMalformed, t)"
      using settled_short [OF "1.prems"(1)] by blast
    then have "recv_frame io s = Some (Inl (if ?bs = [] then TrClosedByPeer else TrFrameMalformed), t)"
      by (simp add: recv_frame_def FRAME_HEADER_LEN_def split: if_splits)
    then show ?thesis using True
      by (simp add: recv_all.simps [of io s] frames_of.simps [of ?bs] FRAME_HEADER_LEN_def)
  next
    case False
    then have ne: "?bs \<noteq> []" and le: "8 \<le> length ?bs" by auto
    obtain t where h: "bi_read_full io 8 s = Some (Inr (Some (take 8 ?bs)), t)" and t: "settled t"
      using settled_full [OF "1.prems"(1) _ le] by auto
    have pt: "pending t = drop 8 ?bs" using read_gets [OF h] by (metis append_eq_conv_conj)
    have d: "declared_len (take 8 ?bs) = ?n" by (rule declared_len_take [OF le])
    consider (large) "MAX_FRAME_PAYLOAD < ?n" | (short) "?n \<le> MAX_FRAME_PAYLOAD" "length ?bs < 8 + ?n"
      | (whole) "?n \<le> MAX_FRAME_PAYLOAD" "8 + ?n \<le> length ?bs" by linarith
    then show ?thesis
    proof cases
      case large
      then show ?thesis using h False ne d
        by (simp add: recv_all.simps [of io s] frames_of.simps [of ?bs] recv_frame_def
            FRAME_HEADER_LEN_def)
    next
      case short
      then have "length (pending t) < ?n" using le by (simp add: pt)
      from settled_short [OF t this] obtain u where "bi_read_full io ?n t =
          Some (if pending t = [] then Inr None else Inl TrFrameMalformed, u)" by blast
      then have "recv_frame io s = Some (Inl TrFrameMalformed, u)"
        using h short d by (simp add: recv_frame_def FRAME_HEADER_LEN_def split: if_splits)
      then show ?thesis using False ne short
        by (simp add: recv_all.simps [of io s] frames_of.simps [of ?bs] FRAME_HEADER_LEN_def)
    next
      case whole
      have fr: "frames_of ?bs = (take (8 + ?n) ?bs # fst (frames_of (drop (8 + ?n) ?bs)),
          snd (frames_of (drop (8 + ?n) ?bs)))"
        using False ne whole by (simp add: frames_of.simps [of ?bs] FRAME_HEADER_LEN_def split_beta Let_def)
      then have pos: "0 < ?n" using "1.prems"(2) whole by (simp add: FRAME_HEADER_LEN_def)
      have "?n \<le> length (pending t)" using whole by (simp add: pt)
      from settled_full [OF t pos this] obtain u
        where b: "bi_read_full io ?n t = Some (Inr (Some (take ?n (pending t))), u)" and u: "settled u" by blast
      have "pending u = drop ?n (pending t)" using read_gets [OF b] by (metis append_eq_conv_conj)
      then have pu: "pending u = drop (8 + ?n) ?bs" by (simp add: pt add.commute)
      have "recv_frame io s = Some (Inr (take (8 + ?n) ?bs), u)"
        using h b whole d by (simp add: recv_frame_def FRAME_HEADER_LEN_def pt take_add)
      moreover have "recv_all io u = Some (frames_of (pending u))"
        using "1.hyps" [rule_format, of "pending u" u] u "1.prems"(2) le pos by (simp add: pu fr)
      ultimately show ?thesis by (simp add: recv_all.simps [of io s] fr pu)
    qed
  qed
qed

end

text \<open>Both transports are byte readers.\<close>

fun arriving :: "writer_event list \<Rightarrow> bytes" where
  "arriving [] = []"
| "arriving (Arrives bs # evs) = bs @ arriving evs"
| "arriving (Shuts # evs) = arriving evs"

definition pipe_pending :: "pipe \<Rightarrow> bytes" where
  "pipe_pending p = pi_buf p @ arriving (pi_to_come p)"

fun ends_shut :: "bool \<Rightarrow> writer_event list \<Rightarrow> bool" where
  "ends_shut c [] \<longleftrightarrow> c"
| "ends_shut c (Arrives bs # evs) \<longleftrightarrow> \<not> c \<and> ends_shut c evs"
| "ends_shut c (Shuts # evs) \<longleftrightarrow> \<not> c \<and> evs = []"

definition pipe_settled :: "pipe \<Rightarrow> bool" where
  "pipe_settled p \<longleftrightarrow> ends_shut (pi_write_closed p) (pi_to_come p)"

lemma pipe_drain_simps:
  "fst (pipe_drain n p) = take n (pi_buf p)" "pi_buf (snd (pipe_drain n p)) = drop n (pi_buf p)"
  "pi_write_closed (snd (pipe_drain n p)) = pi_write_closed p"
  by (simp_all add: pipe_drain_def)

lemma writer_does_buf:
  "pi_buf (writer_does e p) @ arriving evs = pi_buf p @ arriving (e # evs)"
  by (cases e) simp_all

text \<open>One round of the reading loop.\<close>

lemma pipe_read_loop_step:
  assumes "length got \<le> need"
  shows "pipe_read_loop d need evs got p =
    (let p' = snd (pipe_drain (need - length got) p) in
     if pi_buf p \<noteq> [] \<and> need \<le> length got + length (pi_buf p)
     then Some (Inr (Some (got @ take (need - length got) (pi_buf p))), p'\<lparr>pi_to_come := evs\<rparr>)
     else if pi_write_closed p
     then Some (if got = [] \<and> pi_buf p = [] then Inr None else Inl TrFrameMalformed, p'\<lparr>pi_to_come := evs\<rparr>)
     else case evs of
       [] \<Rightarrow> wait_over d (p'\<lparr>pi_to_come := []\<rparr>)
     | e # evs \<Rightarrow> pipe_read_loop d need evs (got @ pi_buf p) (writer_does e p'))"
  using assms
  by (auto simp: pipe_read_loop.simps [of d need evs got p] Let_def split_beta pipe_drain_simps
      take_all split: list.split)

lemma pipe_read_loop_pending:
  "pipe_read_loop d need evs got p = Some (r, p') \<Longrightarrow> length got \<le> need \<Longrightarrow>
    (case r of Inr (Some bs) \<Rightarrow> length bs = need \<and> got @ pi_buf p @ arriving evs = bs @ pipe_pending p'
     | _ \<Rightarrow> \<exists>lost. pi_buf p @ arriving evs = lost @ pipe_pending p')"
proof (induction evs arbitrary: got p)
  case Nil
  show ?case
    using Nil by (auto simp: pipe_read_loop_step [OF Nil(2)] Let_def pipe_pending_def
        pipe_drain_simps wait_over_def split: if_splits)
next
  case (Cons e evs)
  let ?p = "snd (pipe_drain (need - length got) p)"
  show ?case
  proof (cases "(pi_buf p \<noteq> [] \<and> need \<le> length got + length (pi_buf p)) \<or> pi_write_closed p")
    case True
    then show ?thesis using Cons.prems
      by (auto simp: pipe_read_loop_step [OF Cons.prems(2)] Let_def pipe_pending_def
        pipe_drain_simps split: if_splits)
  next
    case False
    then have short: "length (got @ pi_buf p) \<le> need" "drop (need - length got) (pi_buf p) = []"
      using Cons.prems(2) by auto
    have "pipe_read_loop d need evs (got @ pi_buf p) (writer_does e ?p) = Some (r, p')"
      using False Cons.prems by (auto simp: pipe_read_loop_step [OF Cons.prems(2)] Let_def)
    from Cons.IH [OF this short(1)] show ?thesis
      using short(2) writer_does_buf [of e ?p evs]
      by (auto simp: pipe_drain_simps split: sum.splits option.splits)
  qed
qed

lemma pipe_settled_loop:
  "ends_shut (pi_write_closed p) evs \<Longrightarrow> length got < need \<Longrightarrow>
    (if need \<le> length (got @ pi_buf p @ arriving evs)
     then \<exists>p'. pipe_read_loop d need evs got p = Some (Inr (Some (take need (got @ pi_buf p @ arriving evs))), p') \<and>
       pipe_settled p'
     else \<exists>p'. pipe_read_loop d need evs got p =
       Some (if got @ pi_buf p @ arriving evs = [] then Inr None else Inl TrFrameMalformed, p'))"
proof (induction evs arbitrary: got p)
  case Nil
  then show ?case
    by (auto simp: pipe_read_loop_step [OF less_imp_le [OF Nil(2)]] Let_def pipe_drain_simps pipe_settled_def)
next
  case (Cons e evs)
  let ?p = "snd (pipe_drain (need - length got) p)"
  have open_pipe: "\<not> pi_write_closed p" using Cons.prems(1) by (cases e) simp_all
  show ?case
  proof (cases "pi_buf p \<noteq> [] \<and> need \<le> length got + length (pi_buf p)")
    case True
    then show ?thesis using Cons.prems
      by (auto simp: pipe_read_loop_step [OF less_imp_le [OF Cons.prems(2)]] Let_def pipe_drain_simps pipe_settled_def)
  next
    case False
    then have short: "length (got @ pi_buf p) < need" "drop (need - length got) (pi_buf p) = []"
      using Cons.prems(2) by auto
    have rec: "pipe_read_loop d need (e # evs) got p = pipe_read_loop d need evs (got @ pi_buf p) (writer_does e ?p)"
      using False open_pipe by (auto simp: pipe_read_loop_step [OF less_imp_le [OF Cons.prems(2)]] Let_def)
    have all: "(got @ pi_buf p) @ pi_buf (writer_does e ?p) @ arriving evs = got @ pi_buf p @ arriving (e # evs)"
      using writer_does_buf [of e ?p evs] short(2) by (simp add: pipe_drain_simps)
    have "ends_shut (pi_write_closed (writer_does e ?p)) evs"
      using Cons.prems(1) open_pipe by (cases e) (auto simp: pipe_drain_simps)
    from Cons.IH [OF this short(1)] show ?thesis unfolding rec all .
  qed
qed

interpretation piper: byte_reader "pipe_io t" pipe_pending "\<lambda>p. t \<noteq> Some 0 \<and> pipe_settled p" for t
proof unfold_locales
  fix n s bs s'
  assume "bi_read_full (pipe_io t) n s = Some (Inr (Some bs), s')"
  then show "length bs = n \<and> pipe_pending s = bs @ pipe_pending s'"
    using pipe_read_loop_pending [of t n "pi_to_come s" "[]" s]
    by (auto simp: pipe_io_def pipe_read_full_def pipe_deadline_def pipe_pending_def split: if_splits)
next
  fix n s r s'
  assume "bi_read_full (pipe_io t) n s = Some (r, s')"
  then show "\<exists>lost. pipe_pending s = lost @ pipe_pending s'"
    using pipe_read_loop_pending [of t n "pi_to_come s" "[]" s]
    by (auto simp: pipe_io_def pipe_read_full_def pipe_deadline_def pipe_pending_def
        split: if_splits sum.splits option.splits)
next
  fix n s
  assume "t \<noteq> Some 0 \<and> pipe_settled s" "0 < n" "n \<le> length (pipe_pending s)"
  then show "\<exists>s'. bi_read_full (pipe_io t) n s = Some (Inr (Some (take n (pipe_pending s))), s') \<and>
      t \<noteq> Some 0 \<and> pipe_settled s'"
    using pipe_settled_loop [of s "pi_to_come s" "[]" n t]
    by (auto simp: pipe_io_def pipe_read_full_def pipe_deadline_def pipe_pending_def pipe_settled_def)
next
  fix n s
  assume "t \<noteq> Some 0 \<and> pipe_settled s" "length (pipe_pending s) < n"
  then show "\<exists>s'. bi_read_full (pipe_io t) n s =
      Some (if pipe_pending s = [] then Inr None else Inl TrFrameMalformed, s')"
    using pipe_settled_loop [of s "pi_to_come s" "[]" n t]
    by (auto simp: pipe_io_def pipe_read_full_def pipe_deadline_def pipe_pending_def pipe_settled_def)
qed

fun segments :: "sock_read_event list \<Rightarrow> bytes" where
  "segments [] = []"
| "segments (Segment bs # evs) = bs @ segments evs"
| "segments (ReadFails k # evs) = segments evs"

fun has_data :: "sock_read_event \<Rightarrow> bool" where
  "has_data (Segment bs) \<longleftrightarrow> bs \<noteq> []"
| "has_data (ReadFails k) \<longleftrightarrow> False"

definition sock_settled :: "socket \<Rightarrow> bool" where
  "sock_settled s \<longleftrightarrow> list_all has_data (sk_reads s)"

lemma sock_read_pending:
  "sock_read n s = (r, s') \<Longrightarrow>
    segments (sk_reads s) = (case r of Inr bs \<Rightarrow> bs | Inl _ \<Rightarrow> []) @ segments (sk_reads s')"
  by (auto simp: sock_read_def split: list.splits sock_read_event.splits)

lemma sock_read_settled:
  assumes "sock_settled s" "0 < n" "sock_read n s = (r, s')"
  shows "sock_settled s' \<and> (\<exists>bs. r = Inr bs \<and> (bs = [] \<longleftrightarrow> segments (sk_reads s) = []))"
proof (cases "sk_reads s")
  case Nil
  then show ?thesis using assms by (auto simp: sock_read_def)
next
  case (Cons e evs)
  then obtain bs where e: "e = Segment bs" "bs \<noteq> []" "list_all has_data evs"
    using assms(1) by (cases e) (auto simp: sock_settled_def)
  then have r: "r = Inr (take n bs)" "sk_reads s' = (if length bs \<le> n then evs else Segment (drop n bs) # evs)"
    using assms(3) Cons by (auto simp: sock_read_def)
  show ?thesis using e assms(2) by (simp add: sock_settled_def r Cons)
qed

lemma tcp_read_loop_pending:
  "tcp_read_loop need got s = (r, s') \<Longrightarrow> length got \<le> need \<Longrightarrow>
    (case r of Inr (Some bs) \<Rightarrow> length bs = need \<and> got @ segments (sk_reads s) = bs @ segments (sk_reads s')
     | _ \<Rightarrow> \<exists>lost. segments (sk_reads s) = lost @ segments (sk_reads s'))"
proof (induction need got s rule: tcp_read_loop.induct)
  case (1 need got s)
  obtain q t where q: "sock_read (need - length got) s = (q, t)" by fastforce
  note pend = sock_read_pending [OF q]
  show ?case
  proof (cases "length got < need \<and> (\<exists>bs. q = Inr bs \<and> bs \<noteq> [])")
    case False
    then show ?thesis using 1(2,3) pend
      by (auto simp: tcp_read_loop.simps [of need got s] q split: if_splits sum.splits)
  next
    case True
    then obtain bs where bs: "q = Inr bs" "bs \<noteq> []" by blast
    have le: "length (got @ bs) \<le> need" using sock_read_length q True bs by fastforce
    have rec: "tcp_read_loop need (got @ bs) t = (r, s')"
      using 1(2) True q bs by (simp add: tcp_read_loop.simps [of need got s])
    show ?thesis
      using 1(1) [OF _ q [symmetric] bs(1) bs(2) rec le] True pend bs(1)
      by (auto split: sum.splits option.splits)
  qed
qed

lemma tcp_settled_loop:
  "sock_settled s \<Longrightarrow> length got < need \<Longrightarrow>
    (if need \<le> length (got @ segments (sk_reads s))
     then \<exists>s'. tcp_read_loop need got s = (Inr (Some (take need (got @ segments (sk_reads s)))), s') \<and>
       sock_settled s'
     else \<exists>s'. tcp_read_loop need got s =
       (if got @ segments (sk_reads s) = [] then Inr None else Inl TrFrameMalformed, s'))"
proof (induction need got s rule: tcp_read_loop.induct)
  case (1 need got s)
  obtain q t where q: "sock_read (need - length got) s = (q, t)" by fastforce
  obtain bs where t: "sock_settled t" and bs: "q = Inr bs" "bs = [] \<longleftrightarrow> segments (sk_reads s) = []"
    using sock_read_settled [OF "1.prems"(1) _ q] "1.prems"(2) by auto
  have seg: "segments (sk_reads s) = bs @ segments (sk_reads t)"
    using sock_read_pending [OF q] bs(1) by simp
  have le: "length bs \<le> need - length got" using sock_read_length q bs(1) by blast
  show ?case
  proof (cases "bs = []")
    case True
    then show ?thesis using q bs "1.prems"(2) by (simp add: tcp_read_loop.simps [of need got s])
  next
    case False
    have rec: "tcp_read_loop need got s = tcp_read_loop need (got @ bs) t"
      using q bs(1) False "1.prems"(2) by (simp add: tcp_read_loop.simps [of need got s])
    show ?thesis
    proof (cases "length (got @ bs) < need")
      case True
      from "1.IH" [OF "1.prems"(2) q [symmetric] bs(1) False t True]
      show ?thesis unfolding rec seg append.assoc [symmetric] .
    next
      case full: False
      then show ?thesis using le t "1.prems"(2) unfolding rec seg
        by (simp add: tcp_read_loop.simps [of need "got @ bs" t])
    qed
  qed
qed

interpretation tcpr: byte_reader tcp_io "\<lambda>s. segments (sk_reads s)" sock_settled
proof unfold_locales
  fix n s bs s'
  assume "bi_read_full tcp_io n s = Some (Inr (Some bs), s')"
  then show "length bs = n \<and> segments (sk_reads s) = bs @ segments (sk_reads s')"
    using tcp_read_loop_pending [of n "[]" s] by (simp add: tcp_io_def tcp_read_full_def)
next
  fix n s r s'
  assume "bi_read_full tcp_io n s = Some (r, s')"
  then show "\<exists>lost. segments (sk_reads s) = lost @ segments (sk_reads s')"
    using tcp_read_loop_pending [of n "[]" s]
    by (auto simp: tcp_io_def tcp_read_full_def split: sum.splits option.splits)
next
  fix n s
  assume "sock_settled s" "0 < n" "n \<le> length (segments (sk_reads s))"
  then show "\<exists>s'. bi_read_full tcp_io n s = Some (Inr (Some (take n (segments (sk_reads s)))), s') \<and> sock_settled s'"
    using tcp_settled_loop [of s "[]" n] by (auto simp: tcp_io_def tcp_read_full_def)
next
  fix n s
  assume "sock_settled s" "length (segments (sk_reads s)) < n"
  then show "\<exists>s'. bi_read_full tcp_io n s =
      Some (if segments (sk_reads s) = [] then Inr None else Inl TrFrameMalformed, s')"
    using tcp_settled_loop [of s "[]" n] by (auto simp: tcp_io_def tcp_read_full_def)
qed

section \<open>Sending and receiving\<close>

lemma tcp_send_ends:
  assumes "WriteBlocks \<notin> set (sk_writes s)"
  shows "\<exists>r s'. send_frame tcp_io f s = Some (r, s') \<and>
    (\<exists>k. k \<le> length f \<and> sk_sent s' = sk_sent s @ take k f \<and>
      (r = Inr () \<longleftrightarrow> k = length f \<and> send_check f = Inr ()))"
  using tcpw.send_frame_returns [OF assms] tcpw.send_frame_sends by blast

lemma loopback_send_ends:
  "\<exists>r l'. lb_send_frame f (snd (lb_set_deadline (Suc t) l)) = Some (r, l') \<and>
    (\<exists>k. k \<le> length f \<and> pipe_sent (lb_outgoing l') = pipe_sent (lb_outgoing l) @ take k f \<and>
      (r = Inr () \<longleftrightarrow> k = length f \<and> send_check f = Inr () \<and> \<not> lb_closed l))"
proof -
  let ?l = "snd (lb_set_deadline (Suc t) l)"
  have l: "?l = l\<lparr>lb_timeout := Some (Suc t)\<rparr>" by (simp add: lb_set_deadline_def)
  obtain r p where *: "send_frame (pipe_io (Some (Suc t))) f (lb_outgoing l) = Some (r, p)"
    using pipew.send_frame_returns by blast
  show ?thesis
  proof (cases "lb_closed l")
    case True
    then show ?thesis by (auto simp: l lb_send_frame_def)
  next
    case False
    then show ?thesis using pipew.send_frame_sends [OF *] by (simp add: l lb_send_frame_def *)
  qed
qed

lemma send_check_nonempty: "send_check f = Inr () \<Longrightarrow> f \<noteq> []"
  by (auto simp: send_check_def FRAME_HEADER_LEN_def)

text \<open>A write that blocks, and writes that take nothing for ever, keep the frame from ending.\<close>

lemma tcp_send_blocks:
  assumes "send_check f = Inr ()" "sk_writes s = WriteBlocks # evs"
  shows "send_frame tcp_io f s = None"
proof -
  have "bi_write_partial tcp_io chunk s = None" for chunk
    by (simp add: tcp_io_def tcp_write_partial_def sock_write_def assms(2))
  then show ?thesis
    using assms(1) send_check_nonempty [OF assms(1)]
    by (simp add: send_frame_def send_loop.simps [of tcp_io f 0 s])
qed

definition takes_nothing :: "'s byte_io \<Rightarrow> bool" where
  "takes_nothing io \<longleftrightarrow> (\<forall>chunk v. bi_write_partial io chunk v = Some (Inr 0, v))"

lemma takes_nothing_write: "takes_nothing io \<Longrightarrow> bi_write_partial io chunk v = Some (Inr 0, v)"
  by (simp add: takes_nothing_def)

lemma send_loop_idle:
  assumes "send_loop io f off s = Some x"
  shows "takes_nothing io \<longrightarrow> length f \<le> off"
  by (rule send_loop.raw_induct [OF _ assms, where P = "\<lambda>io f off s x. takes_nothing io \<longrightarrow> length f \<le> off"])
     (fastforce simp: takes_nothing_write split: if_splits)

lemma send_idle:
  assumes "send_check f = Inr ()" "takes_nothing io"
  shows "send_frame io f s = None"
proof (cases "send_loop io f 0 s")
  case None
  then show ?thesis using assms(1) by (simp add: send_frame_def)
next
  case (Some x)
  then show ?thesis using send_loop_idle [OF Some] assms(2) send_check_nonempty [OF assms(1)] by simp
qed


lemma frames_of_cons:
  assumes "send_check f = Inr ()"
  shows "frames_of (f @ bs) = (f # fst (frames_of bs), snd (frames_of bs))"
proof -
  have f: "8 \<le> length f" "declared_len f \<le> MAX_FRAME_PAYLOAD" "length f = 8 + declared_len f"
    using assms by (auto simp: send_check_def FRAME_HEADER_LEN_def split: if_splits)
  then show ?thesis
    using declared_len_prefix [OF f(1), of bs]
    by (auto simp: frames_of.simps [of "f @ bs"] FRAME_HEADER_LEN_def Let_def split_beta)
qed

lemma frames_of_concat:
  "list_all (\<lambda>f. send_check f = Inr ()) fs \<Longrightarrow> frames_of (concat fs) = (fs, TrClosedByPeer)"
  by (induction fs) (simp_all add: frames_of_cons frames_of.simps [of "[]"])

text \<open>
  C25. However the bytes of a stream are cut into segments and pipe writes, reading it frame by frame
  gives the frames of the whole byte string and the reason of its end, over the loopback and over
  TCP alike, as long as no frame has an empty payload; and of a sequence of frames that were sent
  it gives back exactly these, in order, and then that the peer has closed.
\<close>

theorem recv_is_stream_reading:
  assumes "pipe_settled p" "t \<noteq> Some 0" "sock_settled s"
    and "pipe_pending p = bs" "segments (sk_reads s) = bs"
    and "list_all (\<lambda>f. FRAME_HEADER_LEN < length f) (fst (frames_of bs))"
  shows "recv_all (pipe_io t) p = Some (frames_of bs) \<and> recv_all tcp_io s = Some (frames_of bs) \<and>
    (\<forall>fs. list_all (\<lambda>f. send_check f = Inr ()) fs \<longrightarrow> bs = concat fs \<longrightarrow> frames_of bs = (fs, TrClosedByPeer))"
  using assms piper.recv_all_settled [of t p] tcpr.recv_all_settled [of s] frames_of_concat by auto

definition demo_frame :: bytes where
  "demo_frame = [0, 2, 0, 6, 0, 0, 0, 2, 7, 9]"


theorem recv_is_stream_reading_witness:
  "(let bs = demo_frame @ demo_frame @ [1];
        p = (pipe_new 64)\<lparr>pi_buf := take 3 bs, pi_to_come := [Arrives (drop 3 bs), Shuts]\<rparr>;
        s = \<lparr>sk_reads = [Segment (take 9 bs), Segment (drop 9 bs)], sk_writes = [], sk_sent = []\<rparr> in
    recv_all (pipe_io (Some 5)) p = Some ([demo_frame, demo_frame], TrFrameMalformed) \<and>
    recv_all tcp_io s = Some ([demo_frame, demo_frame], TrFrameMalformed))"
proof -
  define bs where "bs = demo_frame @ demo_frame @ [1]"
  have c: "send_check demo_frame = Inr ()"
    by (simp add: send_check_def demo_frame_def FRAME_HEADER_LEN_def declared_len_def slice_of_def
        from_be32_def be_nat_def MAX_FRAME_PAYLOAD_def)
  have fr: "frames_of bs = ([demo_frame, demo_frame], TrFrameMalformed)"
    by (simp add: bs_def frames_of_cons [OF c] frames_of.simps [of "[1]"] FRAME_HEADER_LEN_def)
  show ?thesis
    using recv_is_stream_reading [of "(pipe_new 64)\<lparr>pi_buf := take 3 bs, pi_to_come := [Arrives (drop 3 bs), Shuts]\<rparr>"
        "Some 5" "\<lparr>sk_reads = [Segment (take 9 bs), Segment (drop 9 bs)], sk_writes = [], sk_sent = []\<rparr>" bs]
    unfolding fr Let_def bs_def [symmetric]
    by (simp add: pipe_settled_def pipe_pending_def pipe_new_def sock_settled_def bs_def
        demo_frame_def FRAME_HEADER_LEN_def)
qed

text \<open>
  A frame without payload is complete when its header is there. The loopback still asks the pipe for
  the empty rest: it reports a broken frame if the peer has shut the pipe, and waits for a byte that
  belongs to the next frame otherwise. TCP delivers it.
\<close>

lemma empty_payload_differs:
  assumes "length h = 8" "declared_len h = 0"
  defines "p \<equiv> (pipe_new MAX_FRAME)\<lparr>pi_buf := h\<rparr>"
  shows "recv_frame tcp_io \<lparr>sk_reads = [Segment h], sk_writes = ws, sk_sent = b\<rparr> =
      Some (Inr h, \<lparr>sk_reads = [], sk_writes = ws, sk_sent = b\<rparr>)"
    "fst (the (recv_frame (pipe_io (Some (Suc t))) (p\<lparr>pi_write_closed := True\<rparr>))) = Inl TrFrameMalformed"
    "fst (the (recv_frame (pipe_io (Some (Suc t))) p)) = Inl TrTimeout"
    "recv_frame (pipe_io None) p = None"
proof -
  note step = pipe_read_loop_step [of "[]"]
  have h: "h \<noteq> []" using assms(1) by auto
  show "recv_frame tcp_io \<lparr>sk_reads = [Segment h], sk_writes = ws, sk_sent = b\<rparr> =
      Some (Inr h, \<lparr>sk_reads = [], sk_writes = ws, sk_sent = b\<rparr>)"
    using assms(1,2) h
    by (simp add: recv_frame_def tcp_io_def tcp_read_full_def FRAME_HEADER_LEN_def sock_read_def
        tcp_read_loop.simps [of 8 "[]"] tcp_read_loop.simps [of 8 h] tcp_read_loop.simps [of 0 "[]"]
        MAX_FRAME_PAYLOAD_def)
  show "fst (the (recv_frame (pipe_io (Some (Suc t))) (p\<lparr>pi_write_closed := True\<rparr>))) = Inl TrFrameMalformed"
    "fst (the (recv_frame (pipe_io (Some (Suc t))) p)) = Inl TrTimeout"
    "recv_frame (pipe_io None) p = None"
    using assms(1,2) h
    by (simp_all add: p_def recv_frame_def pipe_io_def pipe_read_full_def pipe_deadline_def step
        pipe_new_def FRAME_HEADER_LEN_def pipe_drain_def MAX_FRAME_PAYLOAD_def Let_def wait_over_def)
qed

end
