(* ===== verification/Link.thy ===== *)
theory Link
  imports Transport
begin

text \<open>
  What a protocol may rely on when it runs over a framed stream that nothing disturbs: the frames
  that arrive are given out one by one, then the end of the stream, and a frame that fits is handed
  over whole. The interface \<open>frame_link\<close> is provided by TCP and by the loopback.
\<close>

section \<open>Sending into enough room\<close>

locale roomy_writer =
  fixes io :: "'s byte_io" and put :: "bytes \<Rightarrow> 's \<Rightarrow> 's" and fits :: "'s \<Rightarrow> nat \<Rightarrow> bool"
  assumes takes_all: "chunk \<noteq> [] \<Longrightarrow> fits s (length chunk + n) \<Longrightarrow>
      bi_write_partial io chunk s = Some (Inr (length chunk), put chunk s) \<and> fits (put chunk s) n"
    and put_put: "put b (put a s) = put (a @ b) s"
    and put_nil: "put [] s = s"
begin

lemma send_loop_whole:
  assumes "fits s (length frame - off + n)" "off \<le> length frame"
  shows "send_loop io frame off s = Some (Inr (), put (drop off frame) s) \<and> fits (put (drop off frame) s) n"
  using assms
proof (induction "length frame - off" arbitrary: off s rule: less_induct)
  case less
  define m where "m = min (length frame - off) WRITE_CHUNK"
  define chunk where "chunk = take m (drop off frame)"
  show ?case
  proof (cases "off < length frame")
    case False
    then have "off = length frame" using less.prems(2) by simp
    then show ?thesis using less.prems by (simp add: send_loop.simps [of io frame "length frame" s] put_nil)
  next
    case True
    then have c: "chunk \<noteq> []" and lc: "length chunk = m" "0 < m" "m \<le> length frame - off"
      by (simp_all add: chunk_def m_def WRITE_CHUNK_def)
    have split: "length frame - off + n = length chunk + (length frame - (off + m) + n)"
      using lc True by simp
    note w = takes_all [OF c less.prems(1) [unfolded split]]
    have rest: "drop off frame = chunk @ drop (off + m) frame"
      unfolding chunk_def by (metis add.commute append_take_drop_id drop_drop)
    have "send_loop io frame off s = send_loop io frame (off + m) (put chunk s)"
      using True w lc(1) by (simp add: send_loop.simps [of io frame off s] chunk_def [symmetric] m_def [symmetric])
    then show ?thesis
      using less.hyps [of "off + m" "put chunk s"] True lc w by (simp add: rest put_put)
  qed
qed

lemma send_frame_whole:
  "fits s (length f + n) \<Longrightarrow> send_check f = Inr () \<Longrightarrow>
    send_frame io f s = Some (Inr (), put f s) \<and> fits (put f s) n"
  using send_loop_whole [of s f 0 n] by (simp add: send_frame_def)

end

definition pipe_fits :: "pipe \<Rightarrow> nat \<Rightarrow> bool" where
  "pipe_fits p n \<longleftrightarrow> \<not> pi_reader_gone p \<and> length (pi_buf p) + n \<le> pi_capacity p"

lemma pipe_takes_all:
  assumes "t \<noteq> Some 0" "chunk \<noteq> []" "pipe_fits p (length chunk + n)"
  shows "pipe_write_partial t chunk p = Some (Inr (length chunk), p\<lparr>pi_buf := pi_buf p @ chunk\<rparr>)"
proof -
  have "0 < length chunk" using assms(2) by simp
  then have "length (pi_buf p) < pi_capacity p" using assms(3) unfolding pipe_fits_def by linarith
  then show ?thesis using assms(1,3)
    by (auto simp: pipe_fits_def pipe_write_partial_def pipe_deadline_def Let_def min_def
        pipe_write_loop.simps [of t chunk "pi_to_go p" p])
qed

interpretation pipef: roomy_writer "pipe_io t" "\<lambda>bs p. p\<lparr>pi_buf := pi_buf p @ bs\<rparr>"
    "\<lambda>p n. t \<noteq> Some 0 \<and> pipe_fits p n" for t
  by unfold_locales (auto simp: pipe_io_def pipe_takes_all, simp_all add: pipe_fits_def)

interpretation tcpf: roomy_writer tcp_io "\<lambda>bs s. s\<lparr>sk_sent := sk_sent s @ bs\<rparr>" "\<lambda>s n. sk_writes s = []"
  by unfold_locales (simp_all add: tcp_io_def tcp_write_partial_def sock_write_def)

section \<open>Receiving the frames of a settled stream\<close>

context byte_reader
begin

lemma recv_frame_next:
  assumes s: "settled s" and fr: "frames_of (pending s) = (f # gs, e)" and f: "FRAME_HEADER_LEN < length f"
  shows "\<exists>s'. recv_frame io s = Some (Inr f, s') \<and> settled s' \<and> frames_of (pending s') = (gs, e)"
proof -
  let ?bs = "pending s" and ?n = "declared_len (pending s)"
  have b: "8 \<le> length ?bs" "?n \<le> MAX_FRAME_PAYLOAD" "8 + ?n \<le> length ?bs" "f = take (8 + ?n) ?bs"
    "frames_of (drop (8 + ?n) ?bs) = (gs, e)"
    using fr by (auto simp: frames_of.simps [of ?bs] FRAME_HEADER_LEN_def Let_def split_beta split: if_splits)
  then have pos: "0 < ?n" using f by (simp add: FRAME_HEADER_LEN_def)
  obtain t where h: "bi_read_full io 8 s = Some (Inr (Some (take 8 ?bs)), t)" and t: "settled t"
    using settled_full [OF s _ b(1)] by auto
  have pt: "pending t = drop 8 ?bs" using read_gets [OF h] by (metis append_eq_conv_conj)
  have "?n \<le> length (pending t)" using b(3) by (simp add: pt)
  from settled_full [OF t pos this] obtain u
    where r: "bi_read_full io ?n t = Some (Inr (Some (take ?n (pending t))), u)" and u: "settled u" by blast
  have "pending u = drop ?n (pending t)" using read_gets [OF r] by (metis append_eq_conv_conj)
  then have "pending u = drop (8 + ?n) ?bs" by (simp add: pt add.commute)
  moreover have "recv_frame io s = Some (Inr f, u)"
    using h r b declared_len_take [OF b(1)]
    by (simp add: recv_frame_def FRAME_HEADER_LEN_def pt take_add)
  ultimately show ?thesis using u b(5) by auto
qed

lemma recv_frame_end:
  assumes "settled s" "frames_of (pending s) = ([], TrClosedByPeer)"
  shows "\<exists>s'. recv_frame io s = Some (Inl TrClosedByPeer, s')"
proof -
  have "pending s = []"
    using assms(2) by (auto simp: frames_of.simps [of "pending s"] Let_def split_beta split: if_splits)
  then show ?thesis
    using settled_short [OF assms(1), of FRAME_HEADER_LEN] by (auto simp: recv_frame_def FRAME_HEADER_LEN_def)
qed

end

section \<open>The interface\<close>

text \<open>
  \<open>inbox\<close> are the frames to come before the peer closes, \<open>sent\<close> all the bytes handed over, and
  \<open>room s n\<close> says that the stream is undisturbed and has room for \<open>n\<close> bytes.
\<close>

locale frame_link =
  fixes fs :: "'s framed" and inbox :: "'s \<Rightarrow> bytes list" and sent :: "'s \<Rightarrow> bytes"
    and room :: "'s \<Rightarrow> nat \<Rightarrow> bool"
  assumes recv_next: "room s n \<Longrightarrow> inbox s = f # gs \<Longrightarrow>
      \<exists>s'. fs_recv fs s = Some (Inr f, s') \<and> inbox s' = gs \<and> sent s' = sent s \<and> room s' n"
    and recv_end: "room s n \<Longrightarrow> inbox s = [] \<Longrightarrow> \<exists>s'. fs_recv fs s = Some (Inl TrClosedByPeer, s') \<and> sent s' = sent s"
    and send_next: "room s (length f + n) \<Longrightarrow> send_check f = Inr () \<Longrightarrow>
      \<exists>s'. fs_send fs f s = Some (Inr (), s') \<and> inbox s' = inbox s \<and> sent s' = sent s @ f \<and> room s' n"
    and deadline_set: "room s n \<Longrightarrow> 0 < t \<Longrightarrow>
      \<exists>s'. fs_set_deadline fs t s = (Inr (), s') \<and> inbox s' = inbox s \<and> sent s' = sent s \<and> room s' n"
    and half_close: "room s n \<Longrightarrow>
      \<exists>s'. fs_shutdown_write fs s = (Inr (), s') \<and> inbox s' = inbox s \<and> sent s' = sent s \<and> room s' 0"

definition whole_frames :: "bytes \<Rightarrow> bool" where
  "whole_frames bs \<longleftrightarrow> snd (frames_of bs) = TrClosedByPeer \<and>
    list_all (\<lambda>f. FRAME_HEADER_LEN < length f) (fst (frames_of bs))"

definition tcp_inbox :: "socket \<Rightarrow> bytes list" where
  "tcp_inbox s = fst (frames_of (segments (sk_reads s)))"

definition tcp_room :: "socket \<Rightarrow> nat \<Rightarrow> bool" where
  "tcp_room s n \<longleftrightarrow> sk_writes s = [] \<and> sock_settled s \<and> whole_frames (segments (sk_reads s))"

definition lb_inbox :: "loopback \<Rightarrow> bytes list" where
  "lb_inbox l = fst (frames_of (pipe_pending (lb_incoming l)))"

definition lb_sent :: "loopback \<Rightarrow> bytes" where
  "lb_sent l = pipe_sent (lb_outgoing l)"

definition lb_room :: "loopback \<Rightarrow> nat \<Rightarrow> bool" where
  "lb_room l n \<longleftrightarrow> \<not> lb_closed l \<and> lb_timeout l \<noteq> Some 0 \<and> pipe_fits (lb_outgoing l) n \<and>
    pipe_settled (lb_incoming l) \<and> whole_frames (pipe_pending (lb_incoming l))"

lemma tcp_read_loop_writes:
  "sk_sent (snd (tcp_read_loop need got s)) = sk_sent s \<and> sk_writes (snd (tcp_read_loop need got s)) = sk_writes s"
proof (induction need got s rule: tcp_read_loop.induct)
  case (1 need got s)
  obtain q t where q: "sock_read (need - length got) s = (q, t)" by fastforce
  have "sk_sent t = sk_sent s \<and> sk_writes t = sk_writes s"
    using q by (auto simp: sock_read_def split: list.splits sock_read_event.splits)
  then show ?case
    using 1 [OF _ q [symmetric]] by (auto simp: tcp_read_loop.simps [of need got s] q split: sum.split)
qed

lemma tcp_recv_writes:
  assumes "recv_frame tcp_io s = Some (r, s')"
  shows "sk_sent s' = sk_sent s \<and> sk_writes s' = sk_writes s"
proof -
  have rd: "sk_sent t = sk_sent s \<and> sk_writes t = sk_writes s"
    if "bi_read_full tcp_io n s = Some (x, t)" for n x s t
    using that tcp_read_loop_writes [of n "[]" s] by (auto simp: tcp_io_def tcp_read_full_def)
  obtain q t where h: "bi_read_full tcp_io FRAME_HEADER_LEN s = Some (q, t)"
    using assms by (auto simp: recv_frame_def split: option.splits)
  show ?thesis
  proof (cases "t = s'")
    case True
    then show ?thesis using rd [OF h] by simp
  next
    case False
    then obtain n w where "bi_read_full tcp_io n t = Some (w, s')"
      using assms h by (auto simp: recv_frame_def Let_def split: option.splits sum.splits if_splits)
    then show ?thesis using rd [OF h] rd by simp
  qed
qed

lemma whole_frames_Cons:
  assumes "whole_frames bs" "fst (frames_of bs) = f # gs"
  shows "frames_of bs = (f # gs, TrClosedByPeer) \<and> FRAME_HEADER_LEN < length f"
  using assms by (cases "frames_of bs") (simp add: whole_frames_def)

lemma whole_frames_Nil: "whole_frames bs \<Longrightarrow> fst (frames_of bs) = [] \<Longrightarrow> frames_of bs = ([], TrClosedByPeer)"
  by (cases "frames_of bs") (simp add: whole_frames_def)

lemma whole_frames_tl:
  "whole_frames bs \<Longrightarrow> frames_of bs = (f # gs, e) \<Longrightarrow> frames_of bs' = (gs, e) \<Longrightarrow> whole_frames bs'"
  by (simp add: whole_frames_def)

interpretation tcpl: frame_link tcp_stream tcp_inbox sk_sent tcp_room
proof unfold_locales
  fix s n f gs
  assume r: "tcp_room s n" and i: "tcp_inbox s = f # gs"
  have w: "whole_frames (segments (sk_reads s))" and st: "sock_settled s" using r by (simp_all add: tcp_room_def)
  note fr = whole_frames_Cons [OF w i [unfolded tcp_inbox_def]]
  obtain s' where s': "recv_frame tcp_io s = Some (Inr f, s')" "sock_settled s'"
    "frames_of (segments (sk_reads s')) = (gs, TrClosedByPeer)"
    using tcpr.recv_frame_next [OF st] fr by blast
  show "\<exists>s'. fs_recv tcp_stream s = Some (Inr f, s') \<and> tcp_inbox s' = gs \<and> sk_sent s' = sk_sent s \<and> tcp_room s' n"
    using s' tcp_recv_writes [OF s'(1)] r whole_frames_tl [OF w fr [THEN conjunct1] s'(3)]
    by (simp add: tcp_stream_def tcp_inbox_def tcp_room_def)
next
  fix s n
  assume r: "tcp_room s n" and i: "tcp_inbox s = []"
  then have "frames_of (segments (sk_reads s)) = ([], TrClosedByPeer)"
    by (simp add: tcp_room_def tcp_inbox_def whole_frames_Nil)
  then obtain s' where s': "recv_frame tcp_io s = Some (Inl TrClosedByPeer, s')"
    using tcpr.recv_frame_end [of s] r by (auto simp: tcp_room_def)
  then show "\<exists>s'. fs_recv tcp_stream s = Some (Inl TrClosedByPeer, s') \<and> sk_sent s' = sk_sent s"
    using tcp_recv_writes [OF s'] by (simp add: tcp_stream_def)
next
  fix s f n
  assume "tcp_room s (length f + n)" "send_check f = Inr ()"
  then show "\<exists>s'. fs_send tcp_stream f s = Some (Inr (), s') \<and> tcp_inbox s' = tcp_inbox s \<and>
      sk_sent s' = sk_sent s @ f \<and> tcp_room s' n"
    using tcpf.send_frame_whole [of s f]
    by (auto simp: tcp_room_def tcp_stream_def tcp_inbox_def sock_settled_def)
qed (auto simp: tcp_stream_def tcp_room_def tcp_set_deadline_def tcp_shutdown_def)

interpretation lbl: frame_link loopback_stream lb_inbox lb_sent lb_room
proof unfold_locales
  fix l n f gs
  assume r: "lb_room l n" and i: "lb_inbox l = f # gs"
  let ?p = "lb_incoming l"
  have w: "whole_frames (pipe_pending ?p)" and st: "lb_timeout l \<noteq> Some 0 \<and> pipe_settled ?p"
    using r by (simp_all add: lb_room_def)
  note fr = whole_frames_Cons [OF w i [unfolded lb_inbox_def]]
  obtain p' where p': "recv_frame (pipe_io (lb_timeout l)) ?p = Some (Inr f, p')" "pipe_settled p'"
    "frames_of (pipe_pending p') = (gs, TrClosedByPeer)"
    using piper.recv_frame_next [OF st] fr by blast
  show "\<exists>s'. fs_recv loopback_stream l = Some (Inr f, s') \<and> lb_inbox s' = gs \<and> lb_sent s' = lb_sent l \<and> lb_room s' n"
    using p' r whole_frames_tl [OF w fr [THEN conjunct1] p'(3)]
    by (simp add: loopback_stream_def lb_recv_frame_def lb_inbox_def lb_sent_def lb_room_def)
next
  fix l n
  assume r: "lb_room l n" and i: "lb_inbox l = []"
  then have "frames_of (pipe_pending (lb_incoming l)) = ([], TrClosedByPeer)"
    by (simp add: lb_room_def lb_inbox_def whole_frames_Nil)
  then obtain p' where "recv_frame (pipe_io (lb_timeout l)) (lb_incoming l) = Some (Inl TrClosedByPeer, p')"
    using piper.recv_frame_end [of "lb_timeout l" "lb_incoming l"] r by (auto simp: lb_room_def)
  then show "\<exists>s'. fs_recv loopback_stream l = Some (Inl TrClosedByPeer, s') \<and> lb_sent s' = lb_sent l"
    using r by (simp add: loopback_stream_def lb_recv_frame_def lb_sent_def lb_room_def)
next
  fix l f n
  assume r: "lb_room l (length f + n)" and f: "send_check f = Inr ()"
  then show "\<exists>s'. fs_send loopback_stream f l = Some (Inr (), s') \<and> lb_inbox s' = lb_inbox l \<and>
      lb_sent s' = lb_sent l @ f \<and> lb_room s' n"
    using pipef.send_frame_whole [of "lb_timeout l" "lb_outgoing l" f n]
    by (auto simp: lb_room_def loopback_stream_def lb_send_frame_def lb_inbox_def lb_sent_def)
qed (auto simp: loopback_stream_def lb_room_def lb_set_deadline_def lb_shutdown_write_def lb_inbox_def lb_sent_def
    pipe_fits_def pipe_sent_def)

text \<open>What decodes can be sent: its length is consistent and its payload not empty.\<close>

lemma plen_bound: "plen_ok t p \<Longrightarrow> 0 < unat p \<and> unat p \<le> MAX_FRAME_PAYLOAD"
  by (cases t) (auto simp: plen_ok_def codec_len_defs)

lemma decode_send_check:
  assumes "decode r w = Inr m"
  shows "send_check w = Inr () \<and> FRAME_HEADER_LEN < length w"
proof -
  let ?p = "from_be32 [w ! 4, w ! 5, w ! 6, w ! 7]"
  obtain t where l: "8 \<le> length w" and ok: "plen_ok t ?p" and w: "length w = 8 + unat ?p"
    using assms
    by (auto simp: decode_def FRAME_HEADER_LEN_def Let_def usize_checked_add_def
        split: if_splits option.splits)
  have "slice_of 4 8 w = [w ! 4, w ! 5, w ! 6, w ! 7]"
    by (rule nth_equalityI) (use l in \<open>auto simp: slice_of_def nth_Cons' less_Suc_eq numeral_eq_Suc\<close>)
  then have "declared_len w = unat ?p" by (simp add: declared_len_def)
  then show ?thesis using w plen_bound [OF ok] by (simp add: send_check_def FRAME_HEADER_LEN_def)
qed

section \<open>Exchanges\<close>

text \<open>
  A program \<open>f\<close> on a stream that is fed with the frames \<open>ins\<close>, sends the frames \<open>outs\<close> and returns \<open>ret\<close>
  of the stream it leaves; \<open>finishes\<close> if it also reads the end of the stream.
\<close>

definition exchanges ::
  "('s \<Rightarrow> bytes list) \<Rightarrow> ('s \<Rightarrow> bytes) \<Rightarrow> ('s \<Rightarrow> nat \<Rightarrow> bool) \<Rightarrow> ('s \<Rightarrow> 'q option) \<Rightarrow>
    bytes list \<Rightarrow> bytes list \<Rightarrow> ('s \<Rightarrow> 'q) \<Rightarrow> bool" where
  "exchanges inbox sent room f ins outs ret \<longleftrightarrow>
    (\<forall>s n gs. room s (length (concat outs) + n) \<longrightarrow> inbox s = ins @ gs \<longrightarrow>
      (\<exists>s'. f s = Some (ret s') \<and> inbox s' = gs \<and> sent s' = sent s @ concat outs \<and> room s' n))"

definition finishes ::
  "('s \<Rightarrow> bytes list) \<Rightarrow> ('s \<Rightarrow> bytes) \<Rightarrow> ('s \<Rightarrow> nat \<Rightarrow> bool) \<Rightarrow> ('s \<Rightarrow> 'q option) \<Rightarrow>
    bytes list \<Rightarrow> bytes list \<Rightarrow> ('s \<Rightarrow> 'q) \<Rightarrow> bool" where
  "finishes inbox sent room f ins outs ret \<longleftrightarrow>
    (\<forall>s n. room s (length (concat outs) + n) \<longrightarrow> inbox s = ins \<longrightarrow>
      (\<exists>s'. f s = Some (ret s') \<and> sent s' = sent s @ concat outs))"

lemma exchanges_return [intro!]: "exchanges inbox sent room (\<lambda>s. Some (ret s)) [] [] ret"
  by (auto simp: exchanges_def)

text \<open>Running one exchange behind another.\<close>

lemma exchanges_then:
  assumes "exchanges inbox sent room f ins outs ret"
    and "exchanges inbox sent room g ins' outs' ret'"
    and "\<And>s s'. f s = Some (ret s') \<Longrightarrow> h s = g s'"
  shows "exchanges inbox sent room h (ins @ ins') (outs @ outs') ret'"
proof (unfold exchanges_def, intro allI impI)
  fix s n gs
  assume r: "room s (length (concat (outs @ outs')) + n)" and i: "inbox s = (ins @ ins') @ gs"
  have r': "room s (length (concat outs) + (length (concat outs') + n))" using r by (simp add: add.assoc)
  from i have "inbox s = ins @ (ins' @ gs)" by simp
  with r' assms(1) obtain s1 where 1: "f s = Some (ret s1)" "inbox s1 = ins' @ gs"
    "sent s1 = sent s @ concat outs" "room s1 (length (concat outs') + n)"
    unfolding exchanges_def by blast
  with assms(2) obtain s2 where "g s1 = Some (ret' s2)" "inbox s2 = gs" "sent s2 = sent s1 @ concat outs'" "room s2 n"
    unfolding exchanges_def by blast
  then show "\<exists>s'. h s = Some (ret' s') \<and> inbox s' = gs \<and> sent s' = sent s @ concat (outs @ outs') \<and> room s' n"
    using 1 assms(3) [OF 1(1)] by auto
qed

lemma exchanges_finish:
  assumes "exchanges inbox sent room f ins outs ret"
    and "finishes inbox sent room g ins' outs' ret'"
    and "\<And>s s'. f s = Some (ret s') \<Longrightarrow> h s = g s'"
  shows "finishes inbox sent room h (ins @ ins') (outs @ outs') ret'"
proof (unfold finishes_def, intro allI impI)
  fix s n
  assume r: "room s (length (concat (outs @ outs')) + n)" and i: "inbox s = ins @ ins'"
  have r': "room s (length (concat outs) + (length (concat outs') + n))" using r by (simp add: add.assoc)
  with i assms(1) obtain s1 where 1: "f s = Some (ret s1)" "inbox s1 = ins'"
    "sent s1 = sent s @ concat outs" "room s1 (length (concat outs') + n)"
    unfolding exchanges_def by blast
  with assms(2) obtain s2 where "g s1 = Some (ret' s2)" "sent s2 = sent s1 @ concat outs'"
    unfolding finishes_def by blast
  then show "\<exists>s'. h s = Some (ret' s') \<and> sent s' = sent s @ concat (outs @ outs')"
    using 1 assms(3) [OF 1(1)] by auto
qed

context frame_link
begin

lemma exchanges_send:
  "send_check w = Inr () \<Longrightarrow> exchanges inbox sent room (fs_send fs w) [] [w] (\<lambda>s. (Inr (), s))"
  using send_next by (auto simp: exchanges_def)

lemma exchanges_recv: "exchanges inbox sent room (fs_recv fs) [w] [] (\<lambda>s. (Inr w, s))"
  using recv_next by (auto simp: exchanges_def)

lemma finishes_recv: "finishes inbox sent room (fs_recv fs) [] [] (\<lambda>s. (Inl TrClosedByPeer, s))"
  using recv_end by (auto simp: finishes_def)

lemma exchanges_deadline:
  "0 < t \<Longrightarrow> exchanges inbox sent room (\<lambda>s. Some (fs_set_deadline fs t s)) [] [] (\<lambda>s. (Inr (), s))"
  using deadline_set by (auto simp: exchanges_def)

end

text \<open>A socket on which exactly these frames arrive.\<close>

definition socket_of :: "bytes list \<Rightarrow> socket" where
  "socket_of ws = \<lparr>sk_reads = map Segment ws, sk_writes = [], sk_sent = []\<rparr>"

lemma segments_of [simp]: "segments (map Segment ws) = concat ws"
  by (induction ws) simp_all

lemma socket_of_ready:
  assumes "list_all (\<lambda>w. send_check w = Inr () \<and> FRAME_HEADER_LEN < length w) ws"
  shows "tcp_room (socket_of ws) n \<and> tcp_inbox (socket_of ws) = ws \<and> sk_sent (socket_of ws) = []"
proof -
  have "list_all (\<lambda>w. send_check w = Inr ()) ws" "list_all has_data (map Segment ws)"
    "list_all (\<lambda>f. FRAME_HEADER_LEN < length f) ws"
    using assms by (induction ws) auto
  then show ?thesis
    using frames_of_concat [of ws]
    by (simp add: socket_of_def tcp_room_def tcp_inbox_def sock_settled_def whole_frames_def)
qed

lemma finishes_map:
  assumes "finishes inbox sent room f ins outs ret" and "\<And>s s'. f s = Some (ret s') \<Longrightarrow> h s = Some (ret' s')"
  shows "finishes inbox sent room h ins outs ret'"
  using assms unfolding finishes_def by blast

end
