(* ===== verification/Stdio.thy ===== *)
theory Stdio
  imports Prelude
begin

text \<open>
  The program's standard streams: the results of the reads to come, at most a buffer each (an
  empty one is the end of the input, as is an exhausted list), and of the writes, of which
  a failing one takes some bytes.
\<close>

record stdio =
  st_reads :: "(unit + bytes) list"
  st_writes :: "nat option list"
  st_flushes :: "bool list"
  st_out :: bytes

definition std_read :: "nat \<Rightarrow> stdio \<Rightarrow> (unit + bytes) \<times> stdio" where
  "std_read n t = (case st_reads t of
     [] \<Rightarrow> (Inr [], t)
   | Inl u # rs \<Rightarrow> (Inl u, t\<lparr>st_reads := rs\<rparr>)
   | Inr bs # rs \<Rightarrow> (Inr (take n bs),
       t\<lparr>st_reads := (if length bs \<le> n then rs else Inr (drop n bs) # rs)\<rparr>))"

definition std_write_all :: "bytes \<Rightarrow> stdio \<Rightarrow> (unit + unit) \<times> stdio" where
  "std_write_all bs t = (case st_writes t of
     Some n # ws \<Rightarrow> (Inl (), t\<lparr>st_writes := ws, st_out := st_out t @ take n bs\<rparr>)
   | None # ws \<Rightarrow> (Inr (), t\<lparr>st_writes := ws, st_out := st_out t @ bs\<rparr>)
   | [] \<Rightarrow> (Inr (), t\<lparr>st_out := st_out t @ bs\<rparr>))"

definition std_flush :: "stdio \<Rightarrow> (unit + unit) \<times> stdio" where
  "std_flush t = (case st_flushes t of
     [] \<Rightarrow> (Inr (), t)
   | ok # fl \<Rightarrow> (if ok then Inr () else Inl (), t\<lparr>st_flushes := fl\<rparr>))"

end
