(* ===== verification/Proto.thy ===== *)
theory Proto
  imports HandshakeRun Link Stdio
begin

text \<open>
  The drivers of the encrypted session (\<open>crates/otp-cli/src/proto.rs\<close>): the handshake machines, the
  record layer and the segment issuer over a framed stream. Stream, cipher and issuer are
  parameters, the last one with its \<open>state\<close> (\<open>Allocator::state\<close>); a nonce of the random source is
  an argument. \<open>None\<close> is a panic or a call that waits for ever.
\<close>

section \<open>Failures\<close>

record session_failure =
  sf_code :: error_code
  sf_category :: error_category

definition session_failure_new :: "error_code \<Rightarrow> error_category \<Rightarrow> session_failure" where
  "session_failure_new c k = \<lparr>sf_code = c, sf_category = k\<rparr>"

definition failure_of_handshake :: "handshake_error \<Rightarrow> session_failure" where
  "failure_of_handshake e = session_failure_new (handshake_error_code e)
    (case e of HsIssuer _ \<Rightarrow> CatAllocation | _ \<Rightarrow> CatHandshake)"

definition failure_of_transport :: "transport_error \<Rightarrow> session_failure" where
  "failure_of_transport e = session_failure_new (transport_code e) (transport_category e)"

definition failure_of_session :: "session_error \<Rightarrow> session_failure" where
  "failure_of_session e = session_failure_new
    (case session_wire_code e of None \<Rightarrow> INTERNAL | Some c \<Rightarrow> c) CatSession"

record session_info =
  si_segment :: segment_index
  si_generation :: generation

record endpoint =
  ep_book_id :: book_id
  ep_segment_count :: u64

section \<open>Messages over a stream\<close>

definition send_msg ::
  "'s framed \<Rightarrow> message \<Rightarrow> 's \<Rightarrow> ((session_failure + unit) \<times> 's) option" where
  "send_msg fs m s = (case encode m of
     Inl c \<Rightarrow> Some (Inl (session_failure_new c CatCodec), s)
   | Inr wire \<Rightarrow> map_option (\<lambda>(r, s). (map_err failure_of_transport r, s)) (fs_send fs wire s))"

definition recv_msg ::
  "'s framed \<Rightarrow> role \<Rightarrow> 's \<Rightarrow> ((session_failure + message) \<times> 's) option" where
  "recv_msg fs r s = (case fs_recv fs s of
     None \<Rightarrow> None
   | Some (Inl e, s) \<Rightarrow> Some (Inl (failure_of_transport e), s)
   | Some (Inr wire, s) \<Rightarrow>
       Some (map_err (\<lambda>c. session_failure_new c CatCodec) (decode r wire), s))"

text \<open>The messages of an outbox; the first failure ends it.\<close>

fun send_msgs ::
  "'s framed \<Rightarrow> message list \<Rightarrow> 's \<Rightarrow> ((session_failure + unit) \<times> 's) option" where
  "send_msgs fs [] s = Some (Inr (), s)"
| "send_msgs fs (m # ms) s = (case send_msg fs m s of
     None \<Rightarrow> None
   | Some (Inl f, s) \<Rightarrow> Some (Inl f, s)
   | Some (Inr _, s) \<Rightarrow> send_msgs fs ms s)"

text \<open>The \<open>?\<close> behind a call on the stream, beside the state of the issuer.\<close>

definition io_try ::
  "((session_failure + 'a) \<times> 's) option \<Rightarrow> 'i \<Rightarrow> ('a \<Rightarrow> 's \<Rightarrow> ((session_failure + 'b) \<times> 's \<times> 'i) option) \<Rightarrow>
    ((session_failure + 'b) \<times> 's \<times> 'i) option" where
  "io_try r is k = (case r of
     None \<Rightarrow> None
   | Some (Inl f, s) \<Rightarrow> Some (Inl f, s, is)
   | Some (Inr a, s) \<Rightarrow> k a s)"

definition bad_order :: "session_failure" where
  "bad_order = session_failure_new BAD_ORDER CatHandshake"

section \<open>The server\<close>

definition terminal_arbitration :: "message \<Rightarrow> message \<Rightarrow> handshake_error option" where
  "terminal_arbitration hello arb = (case arb of
     Arbitrate _ sp r \<Rightarrow> (case r of
         ArbBookMismatch \<Rightarrow> Some HsBookMismatch
       | ArbExhausted \<Rightarrow> Some (HsExhausted sp)
       | ArbClientAhead \<Rightarrow> Some (HsClientAhead (case hello of Hello _ _ cp _ \<Rightarrow> cp | _ \<Rightarrow> sp) sp)
       | _ \<Rightarrow> None)
   | _ \<Rightarrow> None)"

definition server_confirm ::
  "'s framed \<Rightarrow> aead \<Rightarrow> ('i \<Rightarrow> segment_index \<times> generation) \<Rightarrow> server_hs \<Rightarrow> 's \<Rightarrow> 'i \<Rightarrow>
    ((session_failure + session \<times> session_info) \<times> 's \<times> 'i) option" where
  "server_confirm fs ae state h s is = io_try (recv_msg fs Server s) is (\<lambda>m s. case on_confirm ae m h of
     None \<Rightarrow> None
   | Some (StEstablished outbox se seg, _) \<Rightarrow> io_try (send_msgs fs outbox s) is (\<lambda>_ s.
       Some (Inr (se, \<lparr>si_segment = seg, si_generation = snd (state is)\<rparr>), s, is))
   | Some (StFailed e, _) \<Rightarrow> Some (Inl (failure_of_handshake e), s, is)
   | Some _ \<Rightarrow> Some (Inl bad_order, s, is))"

definition server_issue ::
  "'s framed \<Rightarrow> aead \<Rightarrow> 'i issue_fn \<Rightarrow> ('i \<Rightarrow> segment_index \<times> generation) \<Rightarrow> server_hs \<Rightarrow> 's \<Rightarrow> 'i \<Rightarrow>
    ((session_failure + session \<times> session_info) \<times> 's \<times> 'i) option" where
  "server_issue fs ae issue state h s is = io_try (recv_msg fs Server s) is (\<lambda>m s.
     case on_issue_request issue m h is of
       None \<Rightarrow> None
     | Some ((StAwaitPeer, h), is) \<Rightarrow> server_confirm fs ae state h s is
     | Some ((StFailed e, _), is) \<Rightarrow> Some (Inl (failure_of_handshake e), s, is)
     | Some (_, is) \<Rightarrow> Some (Inl bad_order, s, is))"

definition server_handshake ::
  "'s framed \<Rightarrow> aead \<Rightarrow> 'i issue_fn \<Rightarrow> ('i \<Rightarrow> segment_index \<times> generation) \<Rightarrow> nonce16 option \<Rightarrow>
    endpoint \<Rightarrow> nat \<Rightarrow> 's \<Rightarrow> 'i \<Rightarrow> ((session_failure + session \<times> session_info) \<times> 's \<times> 'i) option" where
  "server_handshake fs ae issue state rnd ep deadline s is =
    (case fs_set_deadline fs deadline s of
       (Inl e, s) \<Rightarrow> Some (Inl (failure_of_transport e), s, is)
     | (Inr _, s) \<Rightarrow>
       (case server_new \<lparr>sc_version = VERSION, sc_book_id = ep_book_id ep,
           sc_local_pointer = fst (state is), sc_segment_count = ep_segment_count ep\<rparr> of
          Inl e \<Rightarrow> Some (Inl (failure_of_handshake e), s, is)
        | Inr h \<Rightarrow> io_try (recv_msg fs Server s) is (\<lambda>hello s. case on_hello rnd hello h of
            (Inl e, _) \<Rightarrow> Some (Inl (failure_of_handshake e), s, is)
          | (Inr arb, h) \<Rightarrow> io_try (send_msg fs arb s) is (\<lambda>_ s.
              case terminal_arbitration hello arb of
                Some e \<Rightarrow> Some (Inl (failure_of_handshake e), s, is)
              | None \<Rightarrow> server_issue fs ae issue state h s is))))"

section \<open>The client\<close>

definition client_confirm ::
  "'s framed \<Rightarrow> aead \<Rightarrow> 'i issue_fn \<Rightarrow> ('i \<Rightarrow> segment_index \<times> generation) \<Rightarrow> client_hs \<Rightarrow> 's \<Rightarrow> 'i \<Rightarrow>
    ((session_failure + session \<times> session_info) \<times> 's \<times> 'i) option" where
  "client_confirm fs ae issue state c s is = io_try (recv_msg fs Client s) is (\<lambda>m s.
     case client_handle ae issue m c is of
       None \<Rightarrow> None
     | Some ((StEstablished _ se seg, _), is) \<Rightarrow>
         Some (Inr (se, \<lparr>si_segment = seg, si_generation = snd (state is)\<rparr>), s, is)
     | Some ((StFailed e, _), is) \<Rightarrow> Some (Inl (failure_of_handshake e), s, is)
     | Some (_, is) \<Rightarrow> Some (Inl bad_order, s, is))"

definition client_handshake ::
  "'s framed \<Rightarrow> aead \<Rightarrow> 'i issue_fn \<Rightarrow> ('i \<Rightarrow> segment_index \<times> generation) \<Rightarrow> nonce16 option \<Rightarrow>
    endpoint \<Rightarrow> nat \<Rightarrow> 's \<Rightarrow> 'i \<Rightarrow> ((session_failure + session \<times> session_info) \<times> 's \<times> 'i) option" where
  "client_handshake fs ae issue state rnd ep deadline s is =
    (case fs_set_deadline fs deadline s of
       (Inl e, s) \<Rightarrow> Some (Inl (failure_of_transport e), s, is)
     | (Inr _, s) \<Rightarrow>
       (case client_new \<lparr>cc_version = VERSION, cc_book_id = ep_book_id ep,
           cc_local_pointer = fst (state is), cc_segment_count = ep_segment_count ep\<rparr> of
          Inl e \<Rightarrow> Some (Inl (failure_of_handshake e), s, is)
        | Inr c \<Rightarrow> (case client_start rnd c of
            (Inl e, _) \<Rightarrow> Some (Inl (failure_of_handshake e), s, is)
          | (Inr hello, c) \<Rightarrow> io_try (send_msg fs hello s) is (\<lambda>_ s.
              io_try (recv_msg fs Client s) is (\<lambda>arb s. case client_handle ae issue arb c is of
                None \<Rightarrow> None
              | Some ((StSend outbox, c), is) \<Rightarrow> io_try (send_msgs fs outbox s) is (\<lambda>_ s.
                  client_confirm fs ae issue state c s is)
              | Some ((StFailed e, _), is) \<Rightarrow> Some (Inl (failure_of_handshake e), s, is)
              | Some (_, is) \<Rightarrow> Some (Inl bad_order, s, is))))))"

section \<open>Data\<close>

text \<open>
  A result of a data plane function beside the stream and the session.
\<close>

definition seal_and_send ::
  "'s framed \<Rightarrow> aead \<Rightarrow> bytes \<Rightarrow> session \<Rightarrow> 's \<Rightarrow> ((session_failure + unit) \<times> session \<times> 's) option" where
  "seal_and_send fs ae plain se s = (case session_seal ae MtData plain se of
     None \<Rightarrow> None
   | Some (Inl e, se) \<Rightarrow> Some (Inl (failure_of_session e), se, s)
   | Some (Inr rec, se) \<Rightarrow>
       map_option (\<lambda>(r, s). (r, se, s)) (send_msg fs (Data 0 (sr_sequence rec) (sr_sealed rec)) s))"

definition data_out_of_order :: "session_failure" where
  "data_out_of_order = session_failure_new BAD_ORDER CatCodec"

text \<open>One round of the echo loop: \<open>Inr None\<close> is the clean end of the stream.\<close>

definition echo_round ::
  "'s framed \<Rightarrow> aead \<Rightarrow> session \<Rightarrow> 's \<Rightarrow> ((session_failure + bytes option) \<times> session \<times> 's) option" where
  "echo_round fs ae se s = (case fs_recv fs s of
     None \<Rightarrow> None
   | Some (Inl TrClosedByPeer, s) \<Rightarrow> Some (Inr None, se, s)
   | Some (Inl e, s) \<Rightarrow> Some (Inl (failure_of_transport e), session_close se, s)
   | Some (Inr wire, s) \<Rightarrow> (case decode Server wire of
       Inl c \<Rightarrow> Some (Inl (session_failure_new c CatCodec), se, s)
     | Inr (Data _ sq x) \<Rightarrow> (case session_open ae MtData sq x se of
         None \<Rightarrow> None
       | Some (Inl e, se) \<Rightarrow> Some (Inl (failure_of_session e), se, s)
       | Some (Inr plain, se) \<Rightarrow>
           map_option (\<lambda>(r, se, s). (map_ok (\<lambda>_. Some plain) r, se, s)) (seal_and_send fs ae plain se s))
     | Inr _ \<Rightarrow> Some (Inl data_out_of_order, session_close se, s)))"

partial_function (option) echo_loop ::
  "'s framed \<Rightarrow> aead \<Rightarrow> u64 \<Rightarrow> session \<Rightarrow> 's \<Rightarrow> ((session_failure + u64) \<times> session \<times> 's) option" where
  "echo_loop fs ae n se s = (case echo_round fs ae se s of
     None \<Rightarrow> None
   | Some (r, se', s') \<Rightarrow> (case r of
       Inl f \<Rightarrow> Some (Inl f, se', s')
     | Inr q \<Rightarrow> (case q of
         None \<Rightarrow> Some (Inr n, se', s')
       | Some plain \<Rightarrow> echo_loop fs ae (saturating_add n (length plain)) se' s')))"

definition server_echo_loop ::
  "'s framed \<Rightarrow> aead \<Rightarrow> session \<Rightarrow> 's \<Rightarrow> ((session_failure + u64) \<times> session \<times> 's) option" where
  "server_echo_loop fs ae se s = echo_loop fs ae 0 se s"

text \<open>
  The echo of a failed send is not opened; the bound on the chunk is a debug assertion only.
\<close>

definition client_roundtrip ::
  "'s framed \<Rightarrow> aead \<Rightarrow> bytes \<Rightarrow> session \<Rightarrow> 's \<Rightarrow> ((session_failure + bytes) \<times> session \<times> 's) option" where
  "client_roundtrip fs ae chunk se s = (case seal_and_send fs ae chunk se s of
     None \<Rightarrow> None
   | Some (Inl f, se, s) \<Rightarrow> Some (Inl f, se, s)
   | Some (Inr _, se, s) \<Rightarrow> (case recv_msg fs Client s of
       None \<Rightarrow> None
     | Some (Inl f, s) \<Rightarrow> Some (Inl f, se, s)
     | Some (Inr (Data _ sq x), s) \<Rightarrow> (case session_open ae MtData sq x se of
         None \<Rightarrow> None
       | Some (r, se) \<Rightarrow> Some (map_err failure_of_session r, se, s))
     | Some (Inr _, s) \<Rightarrow> Some (Inl data_out_of_order, session_close se, s)))"

definition stdio_failure :: session_failure where
  "stdio_failure = session_failure_new IO_ERROR CatPlatform"

text \<open>One block of the input: \<open>Inr None\<close> at its end.\<close>

definition pump_block ::
  "'s framed \<Rightarrow> aead \<Rightarrow> session \<Rightarrow> 's \<Rightarrow> stdio \<Rightarrow>
    ((session_failure + nat option) \<times> session \<times> 's \<times> stdio) option" where
  "pump_block fs ae se s t = (case std_read MAX_APP_PLAINTEXT t of
     (Inl _, t) \<Rightarrow> Some (Inl stdio_failure, se, s, t)
   | (Inr chunk, t) \<Rightarrow>
     if chunk = [] then Some (Inr None, se, s, t)
     else (case client_roundtrip fs ae chunk se s of
       None \<Rightarrow> None
     | Some (Inl f, se, s) \<Rightarrow> Some (Inl f, se, s, t)
     | Some (Inr echoed, se, s) \<Rightarrow> (case std_write_all echoed t of
         (Inl _, t) \<Rightarrow> Some (Inl stdio_failure, se, s, t)
       | (Inr _, t) \<Rightarrow> (case std_flush t of
           (Inl _, t) \<Rightarrow> Some (Inl stdio_failure, se, s, t)
         | (Inr _, t) \<Rightarrow> Some (Inr (Some (length chunk)), se, s, t)))))"

partial_function (option) drain_until_closed ::
  "'s framed \<Rightarrow> 's \<Rightarrow> ((transport_error + unit) \<times> 's) option" where
  "drain_until_closed fs s = (case fs_recv fs s of
     None \<Rightarrow> None
   | Some (r, s') \<Rightarrow> (case r of
       Inr _ \<Rightarrow> drain_until_closed fs s'
     | Inl e \<Rightarrow> Some (if e = TrClosedByPeer then Inr () else Inl e, s')))"

definition pump_tail ::
  "'s framed \<Rightarrow> u64 \<Rightarrow> session \<Rightarrow> 's \<Rightarrow> stdio \<Rightarrow> ((session_failure + u64) \<times> session \<times> 's \<times> stdio) option" where
  "pump_tail fs sent se s t = (case fs_shutdown_write fs s of
     (Inl e, s) \<Rightarrow> Some (Inl (failure_of_transport e), se, s, t)
   | (Inr _, s) \<Rightarrow> (case drain_until_closed fs s of
       None \<Rightarrow> None
     | Some (Inl e, s) \<Rightarrow> Some (Inl (failure_of_transport e), se, s, t)
     | Some (Inr _, s) \<Rightarrow> Some (Inr sent, se, s, t)))"

partial_function (option) stdio_pump_loop ::
  "'s framed \<Rightarrow> aead \<Rightarrow> u64 \<Rightarrow> session \<Rightarrow> 's \<Rightarrow> stdio \<Rightarrow>
    ((session_failure + u64) \<times> session \<times> 's \<times> stdio) option" where
  "stdio_pump_loop fs ae sent se s t = (case pump_block fs ae se s t of
     None \<Rightarrow> None
   | Some (r, se', s', t') \<Rightarrow> (case r of
       Inl f \<Rightarrow> Some (Inl f, se', s', t')
     | Inr q \<Rightarrow> (case q of
         None \<Rightarrow> pump_tail fs sent se' s' t'
       | Some n \<Rightarrow> stdio_pump_loop fs ae (saturating_add sent n) se' s' t')))"

definition client_stdio_pump ::
  "'s framed \<Rightarrow> aead \<Rightarrow> session \<Rightarrow> 's \<Rightarrow> stdio \<Rightarrow> ((session_failure + u64) \<times> session \<times> 's \<times> stdio) option" where
  "client_stdio_pump fs ae se s t = stdio_pump_loop fs ae 0 se s t"

section \<open>The honest exchange over two streams\<close>

lemma over_wire_Some: "over_wire r m = Some m' \<longleftrightarrow> (\<exists>w. encode m = Inr w \<and> decode r w = Inr m')"
  by (auto simp: over_wire_def split: sum.splits)

definition client_script ::
  "aead \<Rightarrow> 'i issue_fn \<Rightarrow> nonce16 \<Rightarrow> client_hs \<Rightarrow> 'i \<Rightarrow> bytes \<Rightarrow> bytes \<Rightarrow> bytes \<Rightarrow> bytes \<Rightarrow> bytes \<Rightarrow>
    session \<Rightarrow> segment_index \<Rightarrow> 'i \<Rightarrow> bool" where
  "client_script ae issue cn c ic wh wa wr wc wp cs i ic' \<longleftrightarrow>
    (\<exists>hello c1 arb req conf c2 ic1 reply c3.
      client_start (Some cn) c = (Inr hello, c1) \<and> encode hello = Inr wh \<and> decode Client wa = Inr arb \<and>
      client_handle ae issue arb c1 ic = Some ((StSend [req, conf], c2), ic1) \<and>
      encode req = Inr wr \<and> encode conf = Inr wc \<and> decode Client wp = Inr reply \<and>
      client_handle ae issue reply c2 ic1 = Some ((StEstablished [] cs i, c3), ic'))"

definition server_script ::
  "aead \<Rightarrow> 'i issue_fn \<Rightarrow> nonce16 \<Rightarrow> server_hs \<Rightarrow> 'i \<Rightarrow> bytes \<Rightarrow> bytes \<Rightarrow> bytes \<Rightarrow> bytes \<Rightarrow> bytes \<Rightarrow>
    session \<Rightarrow> segment_index \<Rightarrow> 'i \<Rightarrow> bool" where
  "server_script ae issue sn h is wh wa wr wc wp ss i is' \<longleftrightarrow>
    (\<exists>hello arb h1 req h2 conf reply h3.
      decode Server wh = Inr hello \<and> on_hello (Some sn) hello h = (Inr arb, h1) \<and> encode arb = Inr wa \<and>
      decode Server wr = Inr req \<and> on_issue_request issue req h1 is = Some ((StAwaitPeer, h2), is') \<and>
      decode Server wc = Inr conf \<and> on_confirm ae conf h2 = Some (StEstablished [reply] ss i, h3) \<and>
      encode reply = Inr wp)"

text \<open>The steps of a successful run, one after the other.\<close>

lemma honest_run_scripts:
  assumes "honest_run ae issue cn sn c h ic is = Some (cs, ss, i, ic', is')"
  shows "\<exists>wh wa wr wc wp. client_script ae issue cn c ic wh wa wr wc wp cs i ic' \<and>
    server_script ae issue sn h is wh wa wr wc wp ss i is' \<and>
    list_all (\<lambda>w. send_check w = Inr () \<and> FRAME_HEADER_LEN < length w) [wh, wa, wr, wc, wp]"
proof -
  note run = assms [unfolded honest_run_def]
  note cases = option.splits prod.splits step.splits list.splits sum.splits
  obtain hello c1 where 1: "client_start (Some cn) c = (Inr hello, c1)"
    using run by (auto split: cases)
  obtain hello' where 2: "over_wire Server hello = Some hello'"
    using run by (cases "over_wire Server hello") (simp_all add: 1)
  obtain arb h1 where 3: "on_hello (Some sn) hello' h = (Inr arb, h1)"
    using run by (auto simp: 1 2 split: cases)
  obtain arb' where 4: "over_wire Client arb = Some arb'"
    using run by (cases "over_wire Client arb") (simp_all add: 1 2 3)
  obtain req conf c2 ic1 where 5: "client_handle ae issue arb' c1 ic = Some ((StSend [req, conf], c2), ic1)"
    using run by (auto simp: 1 2 3 4 split: cases)
  obtain req' conf' where 6: "over_wire Server req = Some req'" "over_wire Server conf = Some conf'"
    using run by (cases "over_wire Server req"; cases "over_wire Server conf") (simp_all add: 1 2 3 4 5)
  obtain h2 is1 where 7: "on_issue_request issue req' h1 is = Some ((StAwaitPeer, h2), is1)"
    using run by (auto simp: 1 2 3 4 5 6 split: cases)
  obtain reply ss1 i1 h3 where 8: "on_confirm ae conf' h2 = Some (StEstablished [reply] ss1 i1, h3)"
    using run by (auto simp: 1 2 3 4 5 6 7 split: cases)
  obtain reply' where 9: "over_wire Client reply = Some reply'"
    using run by (cases "over_wire Client reply") (simp_all add: 1 2 3 4 5 6 7 8)
  obtain c3 where 10: "client_handle ae issue reply' c2 ic1 = Some ((StEstablished [] cs i, c3), ic')"
    "ss1 = ss" "i1 = i" "is1 = is'"
    using run by (auto simp: 1 2 3 4 5 6 7 8 9 split: cases if_splits)
  obtain wh wa wr wc wp where w: "encode hello = Inr wh" "decode Server wh = Inr hello'"
    "encode arb = Inr wa" "decode Client wa = Inr arb'" "encode req = Inr wr" "decode Server wr = Inr req'"
    "encode conf = Inr wc" "decode Server wc = Inr conf'" "encode reply = Inr wp" "decode Client wp = Inr reply'"
    using 2 4 6 9 unfolding over_wire_Some by blast
  have "client_script ae issue cn c ic wh wa wr wc wp cs i ic'"
    unfolding client_script_def using 1 5 10 w by blast
  moreover have "server_script ae issue sn h is wh wa wr wc wp ss i is'"
    unfolding server_script_def using 3 7 8 10 w by blast
  moreover have "list_all (\<lambda>w. send_check w = Inr () \<and> FRAME_HEADER_LEN < length w) [wh, wa, wr, wc, wp]"
    using w by (auto dest: decode_send_check)
  ultimately show ?thesis by blast
qed

section \<open>The drivers over any link\<close>

context frame_link
begin

lemma ex_send_msg:
  assumes "encode m = Inr w" "send_check w = Inr ()"
  shows "exchanges inbox sent room (send_msg fs m) [] [w] (\<lambda>s. (Inr (), s))"
  using exchanges_then [OF exchanges_send [OF assms(2)] exchanges_return, of "send_msg fs m" "\<lambda>s. (Inr (), s)"]
  by (simp add: send_msg_def assms(1))

lemma ex_recv_msg:
  assumes "decode r w = Inr m"
  shows "exchanges inbox sent room (recv_msg fs r) [w] [] (\<lambda>s. (Inr m, s))"
proof -
  have "exchanges inbox sent room (recv_msg fs r) ([w] @ []) ([] @ []) (\<lambda>s. (Inr m, s))"
    by (rule exchanges_then [OF exchanges_recv exchanges_return]) (simp add: recv_msg_def assms)
  then show ?thesis by simp
qed

lemma ex_send_msgs:
  "list_all2 (\<lambda>m w. encode m = Inr w \<and> send_check w = Inr ()) ms ws \<Longrightarrow>
    exchanges inbox sent room (send_msgs fs ms) [] ws (\<lambda>s. (Inr (), s))"
proof (induction ms ws rule: list_all2_induct)
  case Nil
  then show ?case by (simp add: exchanges_return [of _ _ _ "\<lambda>s. (Inr (), s)", simplified])
next
  case (Cons m ms w ws)
  have "exchanges inbox sent room (send_msgs fs (m # ms)) ([] @ []) ([w] @ ws) (\<lambda>s. (Inr (), s))"
    by (rule exchanges_then [OF ex_send_msg [of m w] Cons.IH]) (use Cons.hyps in simp_all)
  then show ?case by (simp only: append_Nil append_Cons)
qed

lemma client_driver:
  assumes scr: "client_script ae issue cn c ic wh wa wr wc wp cs i ic'"
    and new: "client_new \<lparr>cc_version = VERSION, cc_book_id = ep_book_id ep,
      cc_local_pointer = fst (state ic), cc_segment_count = ep_segment_count ep\<rparr> = Inr c"
    and ok: "send_check wh = Inr ()" "send_check wr = Inr ()" "send_check wc = Inr ()" and t: "0 < t"
  shows "exchanges inbox sent room (\<lambda>s. client_handshake fs ae issue state (Some cn) ep t s ic)
    [wa, wp] [wh, wr, wc] (\<lambda>s. (Inr (cs, \<lparr>si_segment = i, si_generation = snd (state ic')\<rparr>), s, ic'))"
proof -
  let ?ret = "\<lambda>s. (Inr (cs, \<lparr>si_segment = i, si_generation = snd (state ic')\<rparr>), s, ic')"
  obtain hello c1 arb req conf c2 ic1 reply c3 where
    1: "client_start (Some cn) c = (Inr hello, c1)" "encode hello = Inr wh" "decode Client wa = Inr arb"
      "client_handle ae issue arb c1 ic = Some ((StSend [req, conf], c2), ic1)"
      "encode req = Inr wr" "encode conf = Inr wc" "decode Client wp = Inr reply"
      "client_handle ae issue reply c2 ic1 = Some ((StEstablished [] cs i, c3), ic')"
    using scr unfolding client_script_def by blast
  have conf: "exchanges inbox sent room (\<lambda>s. client_confirm fs ae issue state c2 s ic1) ([wp] @ []) ([] @ []) ?ret"
    by (rule exchanges_then [OF ex_recv_msg [OF 1(7)] exchanges_return]) (simp add: client_confirm_def io_try_def 1(8))
  have out: "exchanges inbox sent room (send_msgs fs [req, conf]) [] [wr, wc] (\<lambda>s. (Inr (), s))"
    by (rule ex_send_msgs) (simp add: 1 ok)
  let ?k = "\<lambda>arb s. case client_handle ae issue arb c1 ic of
      None \<Rightarrow> None
    | Some ((StSend outbox, c), is) \<Rightarrow> io_try (send_msgs fs outbox s) is (\<lambda>_ s.
        client_confirm fs ae issue state c s is)
    | Some ((StFailed e, _), is) \<Rightarrow> Some (Inl (failure_of_handshake e), s, is)
    | Some (_, is) \<Rightarrow> Some (Inl bad_order, s, is)"
  have k: "exchanges inbox sent room (?k arb) ([] @ [wp] @ []) ([wr, wc] @ [] @ []) ?ret"
    by (rule exchanges_then [OF out conf]) (simp add: 1(4) io_try_def)
  have arb: "exchanges inbox sent room (\<lambda>s. io_try (recv_msg fs Client s) ic ?k)
      ([wa] @ [] @ [wp] @ []) ([] @ [wr, wc] @ [] @ []) ?ret"
    by (rule exchanges_then [OF ex_recv_msg [OF 1(3)] k]) (simp add: io_try_def)
  have body: "exchanges inbox sent room (\<lambda>s. io_try (send_msg fs hello s) ic (\<lambda>_ s. io_try (recv_msg fs Client s) ic ?k))
      ([] @ [wa] @ [] @ [wp] @ []) ([wh] @ [] @ [wr, wc] @ [] @ []) ?ret"
    by (rule exchanges_then [OF ex_send_msg [OF 1(2) ok(1)] arb]) (simp add: io_try_def)
  have "exchanges inbox sent room (\<lambda>s. client_handshake fs ae issue state (Some cn) ep t s ic)
      ([] @ [] @ [wa] @ [] @ [wp] @ []) ([] @ [wh] @ [] @ [wr, wc] @ [] @ []) ?ret"
    by (rule exchanges_then [OF exchanges_deadline [OF t] body]) (simp add: client_handshake_def new 1(1))
  then show ?thesis by simp
qed

lemma server_driver:
  assumes scr: "server_script ae issue sn h is wh wa wr wc wp ss i is'"
    and new: "server_new \<lparr>sc_version = VERSION, sc_book_id = ep_book_id ep,
      sc_local_pointer = fst (state is), sc_segment_count = ep_segment_count ep\<rparr> = Inr h"
    and ok: "send_check wa = Inr ()" "send_check wp = Inr ()" and t: "0 < t"
  shows "exchanges inbox sent room (\<lambda>s. server_handshake fs ae issue state (Some sn) ep t s is)
    [wh, wr, wc] [wa, wp] (\<lambda>s. (Inr (ss, \<lparr>si_segment = i, si_generation = snd (state is')\<rparr>), s, is'))"
proof -
  let ?ret = "\<lambda>s. (Inr (ss, \<lparr>si_segment = i, si_generation = snd (state is')\<rparr>), s, is')"
  obtain hello arb h1 req h2 conf reply h3 where
    1: "decode Server wh = Inr hello" "on_hello (Some sn) hello h = (Inr arb, h1)" "encode arb = Inr wa"
      "decode Server wr = Inr req" "on_issue_request issue req h1 is = Some ((StAwaitPeer, h2), is')"
      "decode Server wc = Inr conf" "on_confirm ae conf h2 = Some (StEstablished [reply] ss i, h3)"
      "encode reply = Inr wp"
    using scr unfolding server_script_def by blast
  have "sh_phase h1 = SIssueWait"
    using 1(5) by (auto simp: on_issue_request_def server_order_violation_def server_fail_def split: if_splits)
  then have arb0: "terminal_arbitration hello arb = None"
    using 1(2) new by (cases hello)
      (auto simp: on_hello_def server_new_def terminal_arbitration_def arbitrate_def Let_def split: if_splits)
  have out: "exchanges inbox sent room (send_msgs fs [reply]) [] [wp] (\<lambda>s. (Inr (), s))"
    by (rule ex_send_msgs) (simp add: 1 ok)
  let ?kc = "\<lambda>m s. case on_confirm ae m h2 of
      None \<Rightarrow> None
    | Some (StEstablished outbox se seg, _) \<Rightarrow> io_try (send_msgs fs outbox s) is' (\<lambda>_ s.
        Some (Inr (se, \<lparr>si_segment = seg, si_generation = snd (state is')\<rparr>), s, is'))
    | Some (StFailed e, _) \<Rightarrow> Some (Inl (failure_of_handshake e), s, is')
    | Some _ \<Rightarrow> Some (Inl bad_order, s, is')"
  have kc: "exchanges inbox sent room (?kc conf) ([] @ []) ([wp] @ []) ?ret"
    by (rule exchanges_then [OF out exchanges_return]) (simp add: 1(7) io_try_def)
  have conf: "exchanges inbox sent room (\<lambda>s. server_confirm fs ae state h2 s is') ([wc] @ [] @ []) ([] @ [wp] @ []) ?ret"
    by (rule exchanges_then [OF ex_recv_msg [OF 1(6)] kc]) (simp add: server_confirm_def io_try_def)
  have iss: "exchanges inbox sent room (\<lambda>s. server_issue fs ae issue state h1 s is)
      ([wr] @ [wc] @ [] @ []) ([] @ [] @ [wp] @ []) ?ret"
    by (rule exchanges_then [OF ex_recv_msg [OF 1(4)] conf]) (simp add: server_issue_def io_try_def 1(5))
  let ?k = "\<lambda>hello s. case on_hello (Some sn) hello h of
      (Inl e, _) \<Rightarrow> Some (Inl (failure_of_handshake e), s, is)
    | (Inr arb, h) \<Rightarrow> io_try (send_msg fs arb s) is (\<lambda>_ s.
        case terminal_arbitration hello arb of
          Some e \<Rightarrow> Some (Inl (failure_of_handshake e), s, is)
        | None \<Rightarrow> server_issue fs ae issue state h s is)"
  have k: "exchanges inbox sent room (?k hello) ([] @ [wr] @ [wc] @ [] @ []) ([wa] @ [] @ [] @ [wp] @ []) ?ret"
    by (rule exchanges_then [OF ex_send_msg [OF 1(3) ok(1)] iss])
       (simp add: 1(2) io_try_def arb0)
  have body: "exchanges inbox sent room (\<lambda>s. io_try (recv_msg fs Server s) is ?k)
      ([wh] @ [] @ [wr] @ [wc] @ [] @ []) ([] @ [wa] @ [] @ [] @ [wp] @ []) ?ret"
    by (rule exchanges_then [OF ex_recv_msg [OF 1(1)] k]) (simp add: io_try_def)
  have "exchanges inbox sent room (\<lambda>s. server_handshake fs ae issue state (Some sn) ep t s is)
      ([] @ [wh] @ [] @ [wr] @ [wc] @ [] @ []) ([] @ [] @ [wa] @ [] @ [] @ [wp] @ []) ?ret"
    by (rule exchanges_then [OF exchanges_deadline [OF t] body]) (simp add: server_handshake_def new)
  then show ?thesis by simp
qed

end

section \<open>The two programs together\<close>

text \<open>\<open>Allocator::state\<close>.\<close>

definition alloc_state :: "('m, 'r) core \<Rightarrow> segment_index \<times> generation" where
  "alloc_state s = (ar_next (co_current s), ar_generation (co_current s))"

lemma drivers_run:
  assumes "aead_correct ae" and "aead_total ae" and "length (ep_book_id ep) = 16"
    and "length cn = 16" and "length sn = 16" and "0 < t"
    and "fst (alloc_state ic) \<le> fst (alloc_state is)" and "fst (alloc_state is) < ep_segment_count ep"
    and "alloc_book ic = alloc_book is"
    and "skip_segments (core_issue sha file_media_ops book_reader) (alloc_ptr is - alloc_ptr ic) ic = Some (Inr (), ic1)"
    and "core_issue sha file_media_ops book_reader ic1 = Some (Inr b1, ic2)"
    and "core_issue sha file_media_ops book_reader is = Some (Inr b2, is2)"
  shows "\<exists>cs ss wh wa wr wc wp.
    paired (split_keys (alloc_book is (alloc_ptr is))) cs ss \<and>
    next_send_sequence cs = 1 \<and> next_send_sequence ss = 1 \<and> is_active cs \<and> is_active ss \<and>
    list_all (\<lambda>w. send_check w = Inr () \<and> FRAME_HEADER_LEN < length w) [wh, wa, wr, wc, wp] \<and>
    exchanges tcp_inbox sk_sent tcp_room
      (\<lambda>s. client_handshake tcp_stream ae (core_issue sha file_media_ops book_reader) alloc_state (Some cn) ep t s ic)
      [wa, wp] [wh, wr, wc]
      (\<lambda>s. (Inr (cs, \<lparr>si_segment = fst (alloc_state is), si_generation = snd (alloc_state ic2)\<rparr>), s, ic2)) \<and>
    exchanges tcp_inbox sk_sent tcp_room
      (\<lambda>s. server_handshake tcp_stream ae (core_issue sha file_media_ops book_reader) alloc_state (Some sn) ep t s is)
      [wh, wr, wc] [wa, wp]
      (\<lambda>s. (Inr (ss, \<lparr>si_segment = fst (alloc_state is), si_generation = snd (alloc_state is2)\<rparr>), s, is2)) \<and>
    exchanges lb_inbox lb_sent lb_room
      (\<lambda>s. client_handshake loopback_stream ae (core_issue sha file_media_ops book_reader) alloc_state (Some cn) ep t s ic)
      [wa, wp] [wh, wr, wc]
      (\<lambda>s. (Inr (cs, \<lparr>si_segment = fst (alloc_state is), si_generation = snd (alloc_state ic2)\<rparr>), s, ic2)) \<and>
    exchanges lb_inbox lb_sent lb_room
      (\<lambda>s. server_handshake loopback_stream ae (core_issue sha file_media_ops book_reader) alloc_state (Some sn) ep t s is)
      [wh, wr, wc] [wa, wp]
      (\<lambda>s. (Inr (ss, \<lparr>si_segment = fst (alloc_state is), si_generation = snd (alloc_state is2)\<rparr>), s, is2))"
proof -
  let ?cc = "\<lparr>cc_version = VERSION, cc_book_id = ep_book_id ep, cc_local_pointer = fst (alloc_state ic),
    cc_segment_count = ep_segment_count ep\<rparr>"
  let ?sc = "\<lparr>sc_version = VERSION, sc_book_id = ep_book_id ep, sc_local_pointer = fst (alloc_state is),
    sc_segment_count = ep_segment_count ep\<rparr>"
  obtain c h where c: "client_new ?cc = Inr c" and h: "server_new ?sc = Inr h"
    by (simp add: client_new_def server_new_def)
  have p: "alloc_ptr ic = unat (fst (alloc_state ic))" "alloc_ptr is = unat (fst (alloc_state is))"
    by (simp_all add: alloc_ptr_def alloc_state_def)
  obtain cs ss where run: "honest_run ae (core_issue sha file_media_ops book_reader) cn sn c h ic is =
      Some (cs, ss, fst (alloc_state is), ic2, is2)"
    and facts: "paired (split_keys (alloc_book is (alloc_ptr is))) cs ss" "next_send_sequence cs = 1"
      "next_send_sequence ss = 1" "is_active cs" "is_active ss"
    using alloc.honest_run_ok [OF assms(1,2) c h _ _ assms(4,5) _ _ _ _ assms(9) _ assms(11,12)] assms(3,7,8,10) p
    by auto
  obtain wh wa wr wc wp where
    scr: "client_script ae (core_issue sha file_media_ops book_reader) cn c ic wh wa wr wc wp cs (fst (alloc_state is)) ic2"
      "server_script ae (core_issue sha file_media_ops book_reader) sn h is wh wa wr wc wp ss (fst (alloc_state is)) is2"
    and ok: "list_all (\<lambda>w. send_check w = Inr () \<and> FRAME_HEADER_LEN < length w) [wh, wa, wr, wc, wp]"
    using honest_run_scripts [OF run] by blast
  from ok have w: "send_check wh = Inr ()" "send_check wa = Inr ()" "send_check wr = Inr ()"
    "send_check wc = Inr ()" "send_check wp = Inr ()" by simp_all
  show ?thesis
    using facts ok tcpl.client_driver [of _ _ _ _ _ _ _ _ _ _ _ _ _ ep alloc_state, OF scr(1) c w(1,3,4) assms(6)]
      tcpl.server_driver [of _ _ _ _ _ _ _ _ _ _ _ _ _ ep alloc_state, OF scr(2) h w(2,5) assms(6)]
      lbl.client_driver [of _ _ _ _ _ _ _ _ _ _ _ _ _ ep alloc_state, OF scr(1) c w(1,3,4) assms(6)]
      lbl.server_driver [of _ _ _ _ _ _ _ _ _ _ _ _ _ ep alloc_state, OF scr(2) h w(2,5) assms(6)] by blast
qed

text \<open>
  C30. The two drivers, each with its own allocator over a copy of one book, complete the handshake
  with each other, over TCP and over the loopback, when the client is not ahead of the server, the server has a
  segment left, and the segments the client skips and the one each side issues are issued without an
  error: there are five valid frames such that the client, fed
  with the second and the last one, sends the other three, and the server, fed with these, sends
  those two; both return the server's segment and their generation after the issue, with sessions that have the keys
  of that segment and are in step.
\<close>

theorem drivers_complete:
  assumes "aead_correct ae" and "aead_total ae" and "length (ep_book_id ep) = 16"
    and "length cn = 16" and "length sn = 16" and "0 < t"
    and "fst (alloc_state ic) \<le> fst (alloc_state is)" and "fst (alloc_state is) < ep_segment_count ep"
    and "alloc_book ic = alloc_book is"
    and "skip_segments (core_issue sha file_media_ops book_reader) (alloc_ptr is - alloc_ptr ic) ic = Some (Inr (), ic1)"
    and "core_issue sha file_media_ops book_reader ic1 = Some (Inr b1, ic2)"
    and "core_issue sha file_media_ops book_reader is = Some (Inr b2, is2)"
  shows "\<exists>cs ss wh wa wr wc wp.
    paired (split_keys (alloc_book is (alloc_ptr is))) cs ss \<and>
    next_send_sequence cs = 1 \<and> next_send_sequence ss = 1 \<and> is_active cs \<and> is_active ss \<and>
    list_all (\<lambda>w. send_check w = Inr () \<and> FRAME_HEADER_LEN < length w) [wh, wa, wr, wc, wp] \<and>
    exchanges tcp_inbox sk_sent tcp_room
      (\<lambda>s. client_handshake tcp_stream ae (core_issue sha file_media_ops book_reader) alloc_state (Some cn) ep t s ic)
      [wa, wp] [wh, wr, wc]
      (\<lambda>s. (Inr (cs, \<lparr>si_segment = fst (alloc_state is), si_generation = snd (alloc_state ic2)\<rparr>), s, ic2)) \<and>
    exchanges tcp_inbox sk_sent tcp_room
      (\<lambda>s. server_handshake tcp_stream ae (core_issue sha file_media_ops book_reader) alloc_state (Some sn) ep t s is)
      [wh, wr, wc] [wa, wp]
      (\<lambda>s. (Inr (ss, \<lparr>si_segment = fst (alloc_state is), si_generation = snd (alloc_state is2)\<rparr>), s, is2)) \<and>
    exchanges lb_inbox lb_sent lb_room
      (\<lambda>s. client_handshake loopback_stream ae (core_issue sha file_media_ops book_reader) alloc_state (Some cn) ep t s ic)
      [wa, wp] [wh, wr, wc]
      (\<lambda>s. (Inr (cs, \<lparr>si_segment = fst (alloc_state is), si_generation = snd (alloc_state ic2)\<rparr>), s, ic2)) \<and>
    exchanges lb_inbox lb_sent lb_room
      (\<lambda>s. server_handshake loopback_stream ae (core_issue sha file_media_ops book_reader) alloc_state (Some sn) ep t s is)
      [wh, wr, wc] [wa, wp]
      (\<lambda>s. (Inr (ss, \<lparr>si_segment = fst (alloc_state is), si_generation = snd (alloc_state is2)\<rparr>), s, is2))"
  by (rule drivers_run) (rule assms)+

theorem drivers_complete_witness:
  "\<exists>cs ss info ic is s1 s2 wh wa wr wc wp ep.
    client_handshake tcp_stream plain_aead (core_issue sum_digest file_media_ops book_reader) alloc_state
      (Some (replicate 16 2)) ep 5000 (socket_of [wa, wp]) small_core = Some (Inr (cs, info), s1, ic) \<and>
    server_handshake tcp_stream plain_aead (core_issue sum_digest file_media_ops book_reader) alloc_state
      (Some (replicate 16 3)) ep 5000 (socket_of [wh, wr, wc]) small_core = Some (Inr (ss, info), s2, is) \<and>
    sk_sent s1 = wh @ wr @ wc \<and> sk_sent s2 = wa @ wp \<and> si_segment info = 0"
proof -
  define ep where "ep = \<lparr>ep_book_id = replicate 16 7, ep_segment_count = 3\<rparr>"
  obtain s' where i: "core_issue sum_digest file_media_ops book_reader small_core =
    Some (Inr (segment_at small_data 0), s')" using small_issue by blast
  have t: "aead_total plain_aead" by (simp add: aead_total_def plain_aead_def)
  have p: "fst (alloc_state small_core) = 0" "ep_segment_count ep = 3" "length (ep_book_id ep) = 16"
    by (simp_all add: alloc_state_def small_core_def anchor_init_def ep_def)
  have sk: "skip_segments (core_issue sum_digest file_media_ops book_reader)
      (alloc_ptr small_core - alloc_ptr small_core) small_core = Some (Inr (), small_core)" by simp
  obtain cs ss wh wa wr wc wp where
    ok: "list_all (\<lambda>w. send_check w = Inr () \<and> FRAME_HEADER_LEN < length w) [wh, wa, wr, wc, wp]"
    and c: "exchanges tcp_inbox sk_sent tcp_room
      (\<lambda>s. client_handshake tcp_stream plain_aead (core_issue sum_digest file_media_ops book_reader) alloc_state
        (Some (replicate 16 2)) ep 5000 s small_core) [wa, wp] [wh, wr, wc]
      (\<lambda>s. (Inr (cs, \<lparr>si_segment = 0, si_generation = snd (alloc_state s')\<rparr>), s, s'))"
    and h: "exchanges tcp_inbox sk_sent tcp_room
      (\<lambda>s. server_handshake tcp_stream plain_aead (core_issue sum_digest file_media_ops book_reader) alloc_state
        (Some (replicate 16 3)) ep 5000 s small_core) [wh, wr, wc] [wa, wp]
      (\<lambda>s. (Inr (ss, \<lparr>si_segment = 0, si_generation = snd (alloc_state s')\<rparr>), s, s'))"
    using drivers_complete [OF plain_aead_correct t p(3) _ _ _ _ _ refl sk i i, of "replicate 16 2" "replicate 16 3" 5000] p
    by auto
  have "tcp_room (socket_of [wa, wp]) (length (concat [wh, wr, wc]) + 0)" "tcp_inbox (socket_of [wa, wp]) = [wa, wp] @ []"
    "tcp_room (socket_of [wh, wr, wc]) (length (concat [wa, wp]) + 0)" "tcp_inbox (socket_of [wh, wr, wc]) = [wh, wr, wc] @ []"
    "sk_sent (socket_of [wa, wp]) = []" "sk_sent (socket_of [wh, wr, wc]) = []"
    using ok socket_of_ready [of "[wa, wp]"] socket_of_ready [of "[wh, wr, wc]"] by simp_all
  then obtain s1 s2 where "client_handshake tcp_stream plain_aead (core_issue sum_digest file_media_ops book_reader)
      alloc_state (Some (replicate 16 2)) ep 5000 (socket_of [wa, wp]) small_core =
      Some (Inr (cs, \<lparr>si_segment = 0, si_generation = snd (alloc_state s')\<rparr>), s1, s')" "sk_sent s1 = wh @ wr @ wc"
    "server_handshake tcp_stream plain_aead (core_issue sum_digest file_media_ops book_reader) alloc_state
      (Some (replicate 16 3)) ep 5000 (socket_of [wh, wr, wc]) small_core =
      Some (Inr (ss, \<lparr>si_segment = 0, si_generation = snd (alloc_state s')\<rparr>), s2, s')" "sk_sent s2 = wa @ wp"
    using c h unfolding exchanges_def by (metis append_Nil concat.simps append_Nil2)
  then show ?thesis by (intro exI conjI) (assumption | simp)+
qed

section \<open>What a session costs and what it rests on\<close>

lemma io_try_cases:
  assumes "io_try r is k = Some (q, s', is')"
  obtains (failed) f where "r = Some (Inl f, s')" "q = Inl f" "is' = is"
    | (went_on) a s where "r = Some (Inr a, s)" "k a s = Some (q, s', is')"
  using assms by (auto simp: io_try_def split: option.splits prod.splits sum.splits)

lemma server_confirm_law:
  assumes "server_confirm fs ae state h s is = Some (q, s', is')"
  shows "is' = is \<and> (\<forall>se info. q = Inr (se, info) \<longrightarrow> si_generation info = snd (state is) \<and>
    (\<exists>m i reply h'. si_segment info = i \<and> on_confirm ae m h = Some (StEstablished [reply] se i, h')))"
  using assms unfolding server_confirm_def
proof (cases rule: io_try_cases)
  case (went_on m s1)
  show ?thesis
  proof (cases "on_confirm ae m h")
    case None
    then show ?thesis using went_on by simp
  next
    case (Some x)
    obtain st h' where x: "x = (st, h')" by fastforce
    show ?thesis
    proof (cases st)
      case (StEstablished out se0 i)
      from confirm_established [of ae m h out se0 i h'] obtain reply where "out = [reply]"
        using Some x StEstablished by blast
      then show ?thesis
        using went_on(2) Some x StEstablished by (auto elim!: io_try_cases) blast+
    qed (use went_on(2) Some x in auto)
  qed
qed simp

lemma server_issue_law':
  assumes "server_issue fs ae issue state h s is = Some (q, s', is')"
  shows "(is' = is \<and> (\<exists>f. q = Inl f)) \<or> (\<exists>e. issue is = Some (Inl e, is') \<and> (\<exists>f. q = Inl f)) \<or>
    (\<exists>i cn sn seg h1. sh_agreed h = Some i \<and> sh_client_nonce h = Some cn \<and> sh_server_nonce h = Some sn \<and>
      issue is = Some (Inr seg, is') \<and>
      sh_session h1 = Some (session_new seg \<lparr>cx_role = Server, cx_book_id = sc_book_id (sh_cfg h),
        cx_segment = i, cx_client_nonce = cn, cx_server_nonce = sn\<rparr>) \<and>
      sh_agreed h1 = Some i \<and> sh_client_nonce h1 = Some cn \<and> sh_server_nonce h1 = Some sn \<and> sh_cfg h1 = sh_cfg h \<and>
      (\<exists>t. server_confirm fs ae state h1 t is' = Some (q, s', is')))"
  using assms unfolding server_issue_def
proof (cases rule: io_try_cases)
  case (went_on m s1)
  show ?thesis
  proof (cases "on_issue_request issue m h is")
    case None
    then show ?thesis using went_on by simp
  next
    case (Some x)
    obtain st h1 is1 where x: "x = ((st, h1), is1)" by (cases x) auto
    note run = Some [unfolded x]
    from server_issue_law [OF run] consider (failed) e where "is1 = is" "st = StFailed e"
      | (issued) i cn sn y where "m = IssueRequest i cn sn" "sh_agreed h = Some i" "sh_client_nonce h = Some cn"
          "sh_server_nonce h = Some sn" "issue is = Some (y, is1)"
          "case y of Inl e \<Rightarrow> st = StFailed (HsIssuer e) \<and> sh_phase h1 = SFailed
           | Inr seg \<Rightarrow> st = StAwaitPeer \<and> sh_phase h1 = SConfirmWait \<and>
             sh_session h1 = Some (session_new seg \<lparr>cx_role = Server, cx_book_id = sc_book_id (sh_cfg h),
               cx_segment = i, cx_client_nonce = cn, cx_server_nonce = sn\<rparr>)" by blast
    then show ?thesis
    proof cases
      case failed
      then show ?thesis using went_on(2) run by auto
    next
      case issued
      show ?thesis
      proof (cases y)
        case (Inl e)
        then show ?thesis using went_on(2) run issued(5,6) by auto
      next
        case (Inr seg)
        then have c: "server_confirm fs ae state h1 s1 is1 = Some (q, s', is')"
          using went_on(2) run issued(6) by simp
        have "is' = is1" using server_confirm_law [OF c] by blast
        moreover have "sh_agreed h1 = Some i \<and> sh_client_nonce h1 = Some cn \<and> sh_server_nonce h1 = Some sn \<and>
            sh_cfg h1 = sh_cfg h"
          using run issued(1-6) Inr
          by (auto simp: on_issue_request_def Let_def server_fail_def server_order_violation_def split: if_splits)
        ultimately show ?thesis using issued Inr c by auto
      qed
    qed
  qed
qed simp

text \<open>
  What a session of the server rests on: it was made from the segment for the agreed context, the peer proved
  that it has the same, and the own proof was sealed under it. A session of the client: the own
  proof was sealed first.
\<close>

definition server_earned ::
  "aead \<Rightarrow> bytes \<Rightarrow> book_id \<Rightarrow> segment_index \<Rightarrow> nonce16 option \<Rightarrow> session \<Rightarrow> bool" where
  "server_earned ae seg bid i rnd se \<longleftrightarrow> (\<exists>m cn sn s1 reply. rnd = Some sn \<and>
    proven_by ae m (session_new seg \<lparr>cx_role = Server, cx_book_id = bid, cx_segment = i,
      cx_client_nonce = cn, cx_server_nonce = sn\<rparr>) s1 bid i cn sn ClientToServer \<and>
    seal_confirm ae bid i cn sn ServerToClient s1 = Some (Inr reply, se))"

definition client_earned ::
  "aead \<Rightarrow> bytes \<Rightarrow> book_id \<Rightarrow> segment_index \<Rightarrow> nonce16 option \<Rightarrow> session \<Rightarrow> bool" where
  "client_earned ae seg bid i rnd se \<longleftrightarrow> (\<exists>m cn sn s1 conf. rnd = Some cn \<and>
    seal_confirm ae bid i cn sn ClientToServer (session_new seg \<lparr>cx_role = Client, cx_book_id = bid,
      cx_segment = i, cx_client_nonce = cn, cx_server_nonce = sn\<rparr>) = Some (Inr conf, s1) \<and>
    proven_by ae m s1 se bid i cn sn ServerToClient)"

lemma on_hello_agrees:
  assumes "on_hello rnd hello h = (Inr arb, h1)" "sh_phase h = SIdle" "sh_agreed h = None"
    "sh_agreed h1 = Some i" "sh_server_nonce h1 = Some sn"
  shows "i = sc_local_pointer (sh_cfg h) \<and> rnd = Some sn \<and> sh_cfg h1 = sh_cfg h"
  using assms by (cases hello; cases rnd)
    (auto simp: on_hello_def Let_def split: if_splits prod.splits arbitrate_result.splits)

text \<open>A server handshake over the production allocator, however the stream behaves.\<close>

lemma server_handshake_law:
  assumes run: "server_handshake fs ae (core_issue sha file_media_ops book_reader) alloc_state rnd ep t s is =
    Some (q, s', is')"
  shows "case q of Inl _ \<Rightarrow> alloc_ptr is \<le> alloc_ptr is' \<and> alloc_book is' = alloc_book is
    | Inr (se, info) \<Rightarrow> info = \<lparr>si_segment = fst (alloc_state is), si_generation = snd (alloc_state is')\<rparr> \<and>
        alloc_ptr is' = Suc (alloc_ptr is) \<and> alloc_book is' = alloc_book is \<and>
        server_earned ae (alloc_book is (alloc_ptr is)) (ep_book_id ep) (fst (alloc_state is)) rnd se"
proof -
  let ?issue = "core_issue sha file_media_ops book_reader"
  define h where "h = \<lparr>sh_cfg = \<lparr>sc_version = VERSION, sc_book_id = ep_book_id ep,
    sc_local_pointer = fst (alloc_state is), sc_segment_count = ep_segment_count ep\<rparr>, sh_phase = SIdle,
    sh_client_nonce = None, sh_server_nonce = None, sh_agreed = None, sh_session = None\<rparr>"
  have new: "server_new (sh_cfg h) = Inr h" by (simp add: h_def server_new_def)
  have h: "sh_phase h = SIdle" "sh_agreed h = None" "sc_local_pointer (sh_cfg h) = fst (alloc_state is)"
    "sc_book_id (sh_cfg h) = ep_book_id ep" by (simp_all add: h_def)
  have "(\<exists>f. q = Inl f \<and> is' = is) \<or> (\<exists>hello arb h1 t. on_hello rnd hello h = (Inr arb, h1) \<and>
      server_issue fs ae ?issue alloc_state h1 t is = Some (q, s', is'))"
    using run new unfolding server_handshake_def
    by (auto simp: h_def elim!: io_try_cases split: prod.splits sum.splits option.splits)
  then consider (early) f where "q = Inl f" "is' = is"
    | (served) hello arb h1 u where "on_hello rnd hello h = (Inr arb, h1)"
        "server_issue fs ae ?issue alloc_state h1 u is = Some (q, s', is')" by blast
  then show ?thesis
  proof cases
    case served
    from server_issue_law' [OF served(2)] consider (failed) f where "is' = is" "q = Inl f"
      | (no_segment) e f where "?issue is = Some (Inl e, is')" "q = Inl f"
      | (issued) i cn sn seg h2 v where "sh_agreed h1 = Some i" "sh_client_nonce h1 = Some cn"
          "sh_server_nonce h1 = Some sn" "?issue is = Some (Inr seg, is')"
          "sh_session h2 = Some (session_new seg \<lparr>cx_role = Server, cx_book_id = sc_book_id (sh_cfg h1),
            cx_segment = i, cx_client_nonce = cn, cx_server_nonce = sn\<rparr>)" "sh_agreed h2 = Some i"
          "sh_client_nonce h2 = Some cn" "sh_server_nonce h2 = Some sn" "sh_cfg h2 = sh_cfg h1"
          "server_confirm fs ae alloc_state h2 v is' = Some (q, s', is')" by blast
    then show ?thesis
    proof cases
      case issued
      note ag = on_hello_agrees [OF served(1) h(1,2) issued(1,3)]
      note ok = alloc.issue_ok [OF issued(4)]
      show ?thesis
      proof (cases q)
        case (Inr r)
        obtain se info where r: "r = (se, info)" by fastforce
        from server_confirm_law [OF issued(10)] Inr r obtain m i' reply h3 where
          c: "info = \<lparr>si_segment = i', si_generation = snd (alloc_state is')\<rparr>"
            "on_confirm ae m h2 = Some (StEstablished [reply] se i', h3)" by (cases info) auto
        from confirm_established [OF c(2)] show ?thesis
          using issued(5-9) ag ok Inr r c(1) h by (auto simp: server_earned_def) blast
      qed (use ok in simp)
    qed (auto dest: alloc.issue_err)
  qed simp
qed

text \<open>The client's arbitration step, when it goes on.\<close>

lemma client_sends_law:
  assumes run: "client_handle ae (core_issue sha file_media_ops book_reader) m c is = Some ((StSend ms, c'), is')"
  shows "\<exists>i cn sn conf s. ch_agreed c' = Some i \<and> ch_client_nonce c = Some cn \<and> ch_client_nonce c' = Some cn \<and>
    ch_server_nonce c' = Some sn \<and> ch_session c' = Some s \<and> ch_cfg c' = ch_cfg c \<and>
    cc_local_pointer (ch_cfg c) \<le> i \<and>
    alloc_ptr is' = alloc_ptr is + (unat i - unat (cc_local_pointer (ch_cfg c))) + 1 \<and>
    alloc_book is' = alloc_book is \<and>
    seal_confirm ae (cc_book_id (ch_cfg c)) i cn sn ClientToServer
      (session_new (alloc_book is (alloc_ptr is' - 1)) \<lparr>cx_role = Client, cx_book_id = cc_book_id (ch_cfg c),
        cx_segment = i, cx_client_nonce = cn, cx_server_nonce = sn\<rparr>) = Some (Inr conf, s)"
proof -
  have ph: "ch_phase c = CHelloSent"
    using run by (cases "ch_phase c"; cases m)
      (auto simp: client_handle_def client_fails on_confirm_s2c_def Let_def split: option.splits sum.splits)
  obtain sn sp res where m: "m = Arbitrate sn sp res"
    using run ph by (cases m) (auto simp: client_handle_def client_fails)
  obtain c1 where c1: "issue_and_confirm ae (core_issue sha file_media_ops book_reader) c1 is =
      Some ((StSend ms, c'), is')" "ch_agreed c1 = Some sp" "ch_cfg c1 = ch_cfg c"
      "ch_client_nonce c1 = ch_client_nonce c" "cc_local_pointer (ch_cfg c) \<le> sp"
    using run ph m
    by (cases res) (auto simp: client_handle_def on_arbitrate_def Let_def client_fails not_le split: if_splits)
  show ?thesis using alloc.issue_and_confirm_law [OF c1(1)] c1(2-5) by auto
qed

lemma client_issue_mono:
  assumes "client_handle ae (core_issue sha file_media_ops book_reader) m c is = Some ((st, c'), is')"
  shows "alloc_ptr is \<le> alloc_ptr is'"
  using client_handle_law [OF assms] by auto

lemma client_confirm_law:
  assumes "client_confirm fs ae (core_issue sha file_media_ops book_reader) state c s is = Some (q, s', is')"
  shows "alloc_ptr is \<le> alloc_ptr is' \<and> (\<forall>se info. q = Inr (se, info) \<longrightarrow> is' = is \<and>
    si_generation info = snd (state is) \<and>
    (\<exists>m cn sn s0. ch_agreed c = Some (si_segment info) \<and> ch_client_nonce c = Some cn \<and> ch_server_nonce c = Some sn \<and>
      ch_session c = Some s0 \<and> proven_by ae m s0 se (cc_book_id (ch_cfg c)) (si_segment info) cn sn ServerToClient))"
  using assms unfolding client_confirm_def
proof (cases rule: io_try_cases)
  case (went_on m s1)
  show ?thesis
  proof (cases "client_handle ae (core_issue sha file_media_ops book_reader) m c is")
    case None
    then show ?thesis using went_on by simp
  next
    case (Some x)
    obtain st c' is1 where x: "x = ((st, c'), is1)" by (cases x) auto
    note run = Some [unfolded x]
    show ?thesis
    proof (cases st)
      case (StEstablished out se0 i)
      then show ?thesis
        using client_established_law [of ae sha m c "is" out se0 i c' is1] went_on(2) run by auto
    qed (use went_on(2) run client_issue_mono [OF run] in auto)
  qed
qed simp

text \<open>A client handshake over the production allocator, however the stream behaves.\<close>

lemma client_handshake_law:
  assumes run: "client_handshake fs ae (core_issue sha file_media_ops book_reader) alloc_state rnd ep t s is =
    Some (q, s', is')"
  shows "case q of Inl _ \<Rightarrow> alloc_ptr is \<le> alloc_ptr is'
    | Inr (se, info) \<Rightarrow> fst (alloc_state is) \<le> si_segment info \<and> si_generation info = snd (alloc_state is') \<and>
        alloc_ptr is' = Suc (unat (si_segment info)) \<and>
        client_earned ae (alloc_book is (unat (si_segment info))) (ep_book_id ep) (si_segment info) rnd se"
proof -
  let ?issue = "core_issue sha file_media_ops book_reader"
  define c where "c = \<lparr>ch_cfg = \<lparr>cc_version = VERSION, cc_book_id = ep_book_id ep,
    cc_local_pointer = fst (alloc_state is), cc_segment_count = ep_segment_count ep\<rparr>, ch_phase = CIdle,
    ch_client_nonce = None, ch_server_nonce = None, ch_agreed = None, ch_session = None, ch_wasted_gap = None\<rparr>"
  have new: "client_new (ch_cfg c) = Inr c" by (simp add: c_def client_new_def)
  have "(\<exists>f. q = Inl f \<and> alloc_ptr is \<le> alloc_ptr is') \<or>
    (\<exists>hello c1 m ms c2 is1 u. client_start rnd c = (Inr hello, c1) \<and>
      client_handle ae ?issue m c1 is = Some ((StSend ms, c2), is1) \<and>
      ((\<exists>f. q = Inl f \<and> is' = is1) \<or> client_confirm fs ae ?issue alloc_state c2 u is1 = Some (q, s', is')))"
    using run new unfolding client_handshake_def
    by (auto simp: c_def elim!: io_try_cases intro: client_issue_mono
        split: prod.splits sum.splits option.splits step.splits)
  then consider (early) f where "q = Inl f" "alloc_ptr is \<le> alloc_ptr is'"
    | (sent) hello c1 m ms c2 is1 u where "client_start rnd c = (Inr hello, c1)"
        "client_handle ae ?issue m c1 is = Some ((StSend ms, c2), is1)"
        "(\<exists>f. q = Inl f \<and> is' = is1) \<or> client_confirm fs ae ?issue alloc_state c2 u is1 = Some (q, s', is')" by blast
  then show ?thesis
  proof cases
    case sent
    have c1: "ch_cfg c1 = ch_cfg c" "ch_client_nonce c1 = rnd"
      using sent(1) by (auto simp: client_start_def c_def split: option.splits)
    from client_sends_law [OF sent(2)] c1 obtain i cn sn conf s0 where
      2: "ch_agreed c2 = Some i" "rnd = Some cn" "ch_client_nonce c2 = Some cn" "ch_server_nonce c2 = Some sn"
        "ch_session c2 = Some s0" "ch_cfg c2 = ch_cfg c" "fst (alloc_state is) \<le> i"
        "alloc_ptr is1 = alloc_ptr is + (unat i - alloc_ptr is) + 1"
        "seal_confirm ae (ep_book_id ep) i cn sn ClientToServer
          (session_new (alloc_book is (alloc_ptr is1 - 1)) \<lparr>cx_role = Client, cx_book_id = ep_book_id ep,
            cx_segment = i, cx_client_nonce = cn, cx_server_nonce = sn\<rparr>) = Some (Inr conf, s0)"
      by (auto simp: c_def alloc_ptr_def alloc_state_def)
    have p: "alloc_ptr is1 = Suc (unat i)"
      using 2(7,8) by (simp add: alloc_ptr_def alloc_state_def word_le_nat_alt)
    from sent(3) consider (failed) f where "q = Inl f" "is' = is1"
      | (ended) "client_confirm fs ae ?issue alloc_state c2 u is1 = Some (q, s', is')" by blast
    then show ?thesis
    proof cases
      case failed
      then show ?thesis using 2(8) by simp
    next
      case ended
      note law = client_confirm_law [OF ended]
      show ?thesis
      proof (cases q)
        case (Inl f)
        then show ?thesis using law 2(8) by auto
      next
        case (Inr r)
        then show ?thesis
          using law 2 p by (cases r) (auto simp: client_earned_def c_def)
      qed
    qed
  qed simp
qed

text \<open>
  C31. Whatever arrives on the stream, a handshake that returns a session has consumed exactly what it costs: the
  server one segment, the one its pointer named, the client the gap and the arbitrated segment,
  which is not below its pointer. The session was made from that segment of the book, under the own fresh nonce,
  and the peer proved that it has the same segment and the same context. A handshake that fails never
  moves the pointer back.
\<close>

theorem sessions_are_earned:
  "(case server_handshake fs ae (core_issue sha file_media_ops book_reader) alloc_state rnd ep t s is of
      None \<Rightarrow> True
    | Some (Inl f, s', is') \<Rightarrow> alloc_ptr is \<le> alloc_ptr is'
    | Some (Inr (se, info), s', is') \<Rightarrow>
        info = \<lparr>si_segment = fst (alloc_state is), si_generation = snd (alloc_state is')\<rparr> \<and>
        alloc_ptr is' = Suc (alloc_ptr is) \<and>
        server_earned ae (alloc_book is (alloc_ptr is)) (ep_book_id ep) (fst (alloc_state is)) rnd se) \<and>
   (case client_handshake fs ae (core_issue sha file_media_ops book_reader) alloc_state rnd ep t s is of
      None \<Rightarrow> True
    | Some (Inl f, s', is') \<Rightarrow> alloc_ptr is \<le> alloc_ptr is'
    | Some (Inr (se, info), s', is') \<Rightarrow>
        fst (alloc_state is) \<le> si_segment info \<and> si_generation info = snd (alloc_state is') \<and>
        alloc_ptr is' = Suc (unat (si_segment info)) \<and>
        client_earned ae (alloc_book is (unat (si_segment info))) (ep_book_id ep) (si_segment info) rnd se)"
  using server_handshake_law [of fs ae sha rnd ep t s "is"] client_handshake_law [of fs ae sha rnd ep t s "is"]
  by (fastforce split: option.splits prod.splits sum.splits)

end
