(* ===== verification/Records.thy ===== *)
theory Records
  imports HandshakeRun Link
begin

text \<open>
  One application record between two paired sessions: it is sealed, framed as a DATA message, decoded
  by the peer and opened there, and both sessions stay in step. The lemmas that every program above the
  record layer shares.
\<close>

definition data_seq_ok :: "session \<Rightarrow> nat \<Rightarrow> bool" where
  "data_seq_ok s n \<longleftrightarrow> next_send_sequence s \<noteq> 0 \<and> unat (next_send_sequence s) + n < 2 ^ 64"

lemma paired_live: "paired k a b \<Longrightarrow> ss_terminated a = None \<and> ss_terminated b = None \<and> keyed a \<and> keyed b"
  by (simp add: paired_def follows_def)

lemma seal_data:
  assumes ae: "aead_correct ae" "aead_total ae" and a: "keyed a" "ss_terminated a = None" "data_seq_ok a (Suc n)"
    and l: "length pt \<le> MAX_APP_PLAINTEXT"
  shows "\<exists>x a'. session_seal ae MtData pt a = Some (Inr x, a') \<and>
    length (sr_sealed x) = length pt + TAG_LEN \<and> ss_ctx a' = ss_ctx a \<and> data_seq_ok a' n \<and>
    seq_next (next_send_sequence a) = Some (next_send_sequence a')"
proof -
  let ?d = "send_direction (cx_role (ss_ctx a))"
  have sq: "unat (next_send_sequence a) + 1 < 2 ^ 64" "next_send_sequence a \<noteq> 0"
    using a(3) by (simp_all add: data_seq_ok_def)
  then have n: "seq_next (next_send_sequence a) = Some (next_send_sequence a + 1)"
    by (simp add: seq_next_def u64_checked_add_def)
  have u: "unat (next_send_sequence a + 1) = unat (next_send_sequence a) + 1"
    using u64_checked_add_unat [OF n [unfolded seq_next_def]] by simp
  have pv: "pairing_valid MtData ?d" "seq_discipline MtData (next_send_sequence a)"
    using sq(2) by (simp_all add: pairing_valid_def seq_discipline_def is_confirm_def word_le_nat_alt Suc_le_eq unat_gt_0)
  show ?thesis
    using a(1)
  proof (cases rule: seal_cases [of _ ae MtData pt])
    case (fail e r)
    obtain key where key: "ss_keys a = Some key" using a(1,2) by (auto simp: keyed_def)
    have "ae_seal ae (key_for key ?d) (record_nonce (ss_domain a) ?d (next_send_sequence a))
        (build_aad (ss_ctx a) MtData ?d 0 (next_send_sequence a)) pt \<noteq> None"
      using ae(2) l by (simp add: aead_total_def)
    then show ?thesis
      using fail(2) a(2) pv key
      by (auto simp: session_seal_def ensure_active_def Let_def aead_material_def
          next_send_sequence_def split: option.splits)
  next
    case (ok key c t s')
    have "length c = length pt" "length t = TAG_LEN" using ae(1) ok(5) by (auto simp: aead_correct_def)
    moreover have "next_send_sequence s' = next_send_sequence a + 1" "ss_ctx s' = ss_ctx a"
      using ok(7) n by (simp_all add: next_send_sequence_def)
    ultimately show ?thesis
      using ok(6) n u a(3) by (auto simp: data_seq_ok_def unat_eq_0 [symmetric])
  qed (use a in simp)
qed

text \<open>The record on the wire.\<close>

definition data_frame :: "sealed_record \<Rightarrow> bytes" where
  "data_frame x = (case encode (Data 0 (sr_sequence x) (sr_sealed x)) of Inr w \<Rightarrow> w | Inl _ \<Rightarrow> [])"

lemma data_frame_ok:
  assumes "TAG_LEN \<le> length (sr_sealed x)" "length (sr_sealed x) \<le> MAX_APP_PLAINTEXT + TAG_LEN"
  shows "encode (Data 0 (sr_sequence x) (sr_sealed x)) = Inr (data_frame x)"
    and "decode r (data_frame x) = Inr (Data 0 (sr_sequence x) (sr_sealed x))"
proof -
  let ?m = "Data 0 (sr_sequence x) (sr_sealed x)"
  have "over_wire r ?m = Some ?m"
    by (rule over_wire_ok)
       (use assms in \<open>simp_all add: encode_check_def direction_rejects_def codec_len_defs TAG_LEN_def\<close>)
  then show "encode ?m = Inr (data_frame x)" "decode r (data_frame x) = Inr ?m"
    by (auto simp: over_wire_def data_frame_def split: sum.splits)
qed

text \<open>
  One record from \<open>a\<close> to \<open>b\<close>: what the sender gets from the record layer and what the receiver makes
  of the frame.
\<close>

definition carried :: "aead \<Rightarrow> bytes \<Rightarrow> session \<Rightarrow> session \<Rightarrow> bytes \<Rightarrow> session \<Rightarrow> session \<Rightarrow> bool" where
  "carried ae pt a b w a' b' \<longleftrightarrow> (\<exists>x. session_seal ae MtData pt a = Some (Inr x, a') \<and>
    encode (Data 0 (sr_sequence x) (sr_sealed x)) = Inr w \<and>
    (\<forall>r. decode r w = Inr (Data 0 (sr_sequence x) (sr_sealed x))) \<and>
    session_open ae MtData (sr_sequence x) (sr_sealed x) b = Some (Inr pt, b'))"

lemma data_exchange:
  assumes ae: "aead_correct ae" "aead_total ae" and p: "paired k a b" and n: "data_seq_ok a (Suc n)"
    and l: "length pt \<le> MAX_APP_PLAINTEXT"
  shows "\<exists>w a' b'. carried ae pt a b w a' b' \<and> paired k a' b' \<and> data_seq_ok a' n \<and>
    next_send_sequence b' = next_send_sequence b"
proof -
  have live: "keyed a" "ss_terminated a = None" using paired_live [OF p] by simp_all
  obtain x a' where
    s: "session_seal ae MtData pt a = Some (Inr x, a')" "length (sr_sealed x) = length pt + TAG_LEN"
      "data_seq_ok a' n" "seq_next (next_send_sequence a) = Some (next_send_sequence a')"
    using seal_data [OF ae live n l] by blast
  from paired_transfer [OF ae(1) p s(1,4)] obtain b' where
    o: "session_open ae MtData (sr_sequence x) (sr_sealed x) b = Some (Inr pt, b')" "paired k a' b'"
      "next_send_sequence b' = next_send_sequence b" by blast
  have "TAG_LEN \<le> length (sr_sealed x)" "length (sr_sealed x) \<le> MAX_APP_PLAINTEXT + TAG_LEN"
    using s(2) l by simp_all
  note w = data_frame_ok [OF this]
  have "carried ae pt a b (data_frame x) a' b'"
    unfolding carried_def using s(1) o(1) w by blast
  then show ?thesis using o s(3) by blast
qed

text \<open>A frame that the transport sends and delivers; a record on the wire is one.\<close>

abbreviation valid_frame :: "bytes \<Rightarrow> bool" where
  "valid_frame w \<equiv> send_check w = Inr () \<and> FRAME_HEADER_LEN < length w"

lemma carried_frame: "carried ae pt a b w a' b' \<Longrightarrow> valid_frame w"
  unfolding carried_def using decode_send_check by blast

lemma data_seq_ok_same: "next_send_sequence b' = next_send_sequence b \<Longrightarrow> data_seq_ok b' n = data_seq_ok b n"
  by (simp add: data_seq_ok_def)

lemma data_seq_ok_le: "data_seq_ok a n \<Longrightarrow> m \<le> n \<Longrightarrow> data_seq_ok a m"
  by (simp add: data_seq_ok_def)

text \<open>Two sessions right after the confirmations.\<close>

definition confirmed_session :: "bytes \<Rightarrow> session_context \<Rightarrow> session" where
  "confirmed_session seg cx = (session_new seg cx)\<lparr>ss_send := (\<lambda>_. 1), ss_recv := (\<lambda>_. Some 0)\<rparr>"

lemma confirmed_paired:
  "paired (split_keys seg) (confirmed_session seg cx) (confirmed_session seg (cx\<lparr>cx_role := peer_of (cx_role cx)\<rparr>))"
  using paired_new [of seg cx]
  by (simp add: paired_def follows_def confirmed_session_def keyed_def expected_seq_def next_send_sequence_def
      session_new_def nonce_domain_def session_nonce_def seq_next_def u64_checked_add_def)

text \<open>A context for the examples.\<close>

definition demo_context :: session_context where
  "demo_context = \<lparr>cx_role = Client, cx_book_id = replicate 16 7, cx_segment = 0,
    cx_client_nonce = replicate 16 2, cx_server_nonce = replicate 16 3\<rparr>"

end
