(* ===== verification/EchoRun.thy ===== *)
theory EchoRun
  imports Proto Records
begin

text \<open>
  The echo service of \<open>proto.rs\<close> between two programs: the client's standard input pump against the
  server's echo loop, over any link, and what a failing round does to the session.
\<close>

section \<open>One block there and back\<close>

definition echoed :: "aead \<Rightarrow> bytes \<Rightarrow> session \<Rightarrow> session \<Rightarrow> bytes \<Rightarrow> bytes \<Rightarrow> session \<Rightarrow> session \<Rightarrow> bool" where
  "echoed ae chunk cs ss w1 w2 cs' ss' \<longleftrightarrow>
    (\<exists>cs1 ss1. carried ae chunk cs ss w1 cs1 ss1 \<and> carried ae chunk ss1 cs1 w2 ss' cs')"

lemma echo_exchange:
  assumes ae: "aead_correct ae" "aead_total ae" and p: "paired k cs ss"
    and n: "data_seq_ok cs (Suc n)" "data_seq_ok ss (Suc n)" and l: "length chunk \<le> MAX_APP_PLAINTEXT"
  shows "\<exists>w1 w2 cs' ss'. echoed ae chunk cs ss w1 w2 cs' ss' \<and> paired k cs' ss' \<and>
    data_seq_ok cs' n \<and> data_seq_ok ss' n"
proof -
  from data_exchange [OF ae p n(1) l] obtain w1 cs1 ss1 where
    1: "carried ae chunk cs ss w1 cs1 ss1" "paired k cs1 ss1" "data_seq_ok cs1 n"
      "next_send_sequence ss1 = next_send_sequence ss" by blast
  then have "data_seq_ok ss1 (Suc n)" using n(2) by (simp add: data_seq_ok_def)
  from data_exchange [OF ae paired_sym [OF 1(2)] this l] obtain w2 ss' cs' where
    2: "carried ae chunk ss1 cs1 w2 ss' cs'" "paired k ss' cs'" "data_seq_ok ss' n"
      "next_send_sequence cs' = next_send_sequence cs1" by blast
  then have "data_seq_ok cs' n" using 1(3) by (simp add: data_seq_ok_def)
  then show ?thesis using 1 2 paired_sym [OF 2(2)] unfolding echoed_def by blast
qed

text \<open>A run of blocks, each with its request and its echo.\<close>

fun echo_run :: "aead \<Rightarrow> session \<Rightarrow> session \<Rightarrow> (bytes \<times> bytes \<times> bytes) list \<Rightarrow> session \<Rightarrow> session \<Rightarrow> bool" where
  "echo_run ae cs ss [] cs' ss' \<longleftrightarrow> cs' = cs \<and> ss' = ss"
| "echo_run ae cs ss ((c, w1, w2) # es) cs' ss' \<longleftrightarrow>
    (\<exists>cs1 ss1. echoed ae c cs ss w1 w2 cs1 ss1 \<and> echo_run ae cs1 ss1 es cs' ss')"

lemma echo_run_exists:
  assumes "aead_correct ae" "aead_total ae" "paired k cs ss"
    "data_seq_ok cs (length cks)" "data_seq_ok ss (length cks)"
    "list_all (\<lambda>c. length c \<le> MAX_APP_PLAINTEXT) cks"
  shows "\<exists>es cs' ss'. map fst es = cks \<and> echo_run ae cs ss es cs' ss' \<and> paired k cs' ss'"
  using assms
proof (induction cks arbitrary: cs ss)
  case Nil
  then show ?case by (intro exI [of _ "[]"]) auto
next
  case (Cons c cks)
  from echo_exchange [of ae k cs ss "length cks" c] Cons.prems obtain w1 w2 cs1 ss1 where
    1: "echoed ae c cs ss w1 w2 cs1 ss1" "paired k cs1 ss1" "data_seq_ok cs1 (length cks)" "data_seq_ok ss1 (length cks)"
    by auto
  from Cons.IH [OF Cons.prems(1,2) 1(2-4)] Cons.prems(6) obtain es cs' ss' where
    "map fst es = cks" "echo_run ae cs1 ss1 es cs' ss'" "paired k cs' ss'" by auto
  then show ?case using 1(1) by (intro exI [of _ "(c, w1, w2) # es"]) auto
qed

text \<open>Every frame of a run is one that the transport sends and delivers.\<close>

lemma echo_run_frames:
  "echo_run ae cs ss es cs' ss' \<Longrightarrow> list_all valid_frame (map (fst \<circ> snd) es @ map (snd \<circ> snd) es)"
proof (induction es arbitrary: cs ss)
  case (Cons e es)
  obtain c w1 w2 where e: "e = (c, w1, w2)" by (cases e) auto
  with Cons.prems obtain cs1 ss1 where 1: "echoed ae c cs ss w1 w2 cs1 ss1" "echo_run ae cs1 ss1 es cs' ss'" by auto
  have "valid_frame w1" "valid_frame w2" using 1(1) carried_frame unfolding echoed_def by blast+
  with Cons.IH [OF 1(2)] show ?case by (simp add: e)
qed simp

definition total_of :: "bytes list \<Rightarrow> u64 \<Rightarrow> u64" where
  "total_of cks n = fold (\<lambda>c n. saturating_add n (length c)) cks n"

lemma total_of_simps [simp]:
  "total_of [] n = n" "total_of (c # cks) n = total_of cks (saturating_add n (length c))"
  by (simp_all add: total_of_def)

lemma total_of_exact:
  "unat n + length (concat cks) < 2 ^ 64 \<Longrightarrow> total_of cks n = n + word_of_nat (length (concat cks))"
proof (induction cks arbitrary: n)
  case (Cons c cks)
  have c: "unat (word_of_nat (length c) :: u64) = length c"
    using Cons.prems by (simp add: unsigned_of_nat take_bit_nat_eq_self)
  have ck: "u64_checked_add n (word_of_nat (length c)) = Some (n + word_of_nat (length c))"
    using Cons.prems c by (simp add: u64_checked_add_def)
  then have "saturating_add n (length c) = n + word_of_nat (length c)" by (simp add: saturating_add_def)
  moreover have "unat (n + word_of_nat (length c)) = unat n + length c"
    using u64_checked_add_unat [OF ck] c by simp
  ultimately show ?case using Cons by (simp add: add.assoc)
qed simp

section \<open>The two loops over any link\<close>

text \<open>Plain input: blocks that are not empty and fit the buffer, and nothing that fails.\<close>

definition plain_stdio :: "bytes list \<Rightarrow> bytes \<Rightarrow> stdio" where
  "plain_stdio cks out = \<lparr>st_reads = map Inr cks, st_writes = [], st_flushes = [], st_out = out\<rparr>"

context frame_link
begin

lemma ex_seal_and_send:
  assumes "carried ae pt a b w a' b'"
  shows "exchanges inbox sent room (\<lambda>s. seal_and_send fs ae pt a s) [] [w] (\<lambda>s. (Inr (), a', s))"
proof -
  obtain x :: sealed_record where x: "session_seal ae MtData pt a = Some (Inr x, a')"
    "encode (Data 0 (sr_sequence x) (sr_sealed x)) = Inr w" "decode Server w = Inr (Data 0 (sr_sequence x) (sr_sealed x))"
    using assms unfolding carried_def by blast
  have "exchanges inbox sent room (\<lambda>s. seal_and_send fs ae pt a s) ([] @ []) ([w] @ []) (\<lambda>s. (Inr (), a', s))"
    by (rule exchanges_then [OF ex_send_msg [OF x(2)] exchanges_return])
       (use decode_send_check [OF x(3)] in \<open>simp_all add: seal_and_send_def x(1)\<close>)
  then show ?thesis by simp
qed

lemma ex_client_roundtrip:
  assumes "echoed ae chunk cs ss w1 w2 cs' ss'"
  shows "exchanges inbox sent room (\<lambda>s. client_roundtrip fs ae chunk cs s) [w2] [w1] (\<lambda>s. (Inr chunk, cs', s))"
proof -
  obtain cs1 ss1 where 1: "carried ae chunk cs ss w1 cs1 ss1" and 2: "carried ae chunk ss1 cs1 w2 ss' cs'"
    using assms unfolding echoed_def by blast
  obtain x :: sealed_record where x: "decode Client w2 = Inr (Data 0 (sr_sequence x) (sr_sealed x))"
    "session_open ae MtData (sr_sequence x) (sr_sealed x) cs1 = Some (Inr chunk, cs')"
    using 2 unfolding carried_def by blast
  let ?k = "\<lambda>s. case recv_msg fs Client s of
       None \<Rightarrow> None
     | Some (Inl f, s) \<Rightarrow> Some (Inl f, cs1, s)
     | Some (Inr (Data _ sq x), s) \<Rightarrow> (case session_open ae MtData sq x cs1 of
         None \<Rightarrow> None
       | Some (r, se) \<Rightarrow> Some (map_err failure_of_session r, se, s))
     | Some (Inr _, s) \<Rightarrow> Some (Inl data_out_of_order, session_close cs1, s)"
  have k: "exchanges inbox sent room ?k ([w2] @ []) ([] @ []) (\<lambda>s. (Inr chunk, cs', s))"
    by (rule exchanges_then [OF ex_recv_msg [OF x(1)] exchanges_return]) (simp add: x(2))
  have "exchanges inbox sent room (\<lambda>s. client_roundtrip fs ae chunk cs s) ([] @ [w2] @ []) ([w1] @ [] @ [])
      (\<lambda>s. (Inr chunk, cs', s))"
    by (rule exchanges_then [OF ex_seal_and_send [OF 1] k]) (simp add: client_roundtrip_def)
  then show ?thesis by simp
qed

lemma ex_echo_round:
  assumes "echoed ae chunk cs ss w1 w2 cs' ss'"
  shows "exchanges inbox sent room (\<lambda>s. echo_round fs ae ss s) [w1] [w2] (\<lambda>s. (Inr (Some chunk), ss', s))"
proof -
  obtain cs1 ss1 where 1: "carried ae chunk cs ss w1 cs1 ss1" and 2: "carried ae chunk ss1 cs1 w2 ss' cs'"
    using assms unfolding echoed_def by blast
  obtain x :: sealed_record where x: "decode Server w1 = Inr (Data 0 (sr_sequence x) (sr_sealed x))"
    "session_open ae MtData (sr_sequence x) (sr_sealed x) ss = Some (Inr chunk, ss1)"
    using 1 unfolding carried_def by blast
  let ?k = "\<lambda>s. map_option (\<lambda>(r, se, s). (map_ok (\<lambda>_. Some chunk) r, se, s)) (seal_and_send fs ae chunk ss1 s)"
  have k: "exchanges inbox sent room ?k ([] @ []) ([w2] @ []) (\<lambda>s. (Inr (Some chunk), ss', s))"
    by (rule exchanges_then [OF ex_seal_and_send [OF 2] exchanges_return]) simp
  have "exchanges inbox sent room (\<lambda>s. echo_round fs ae ss s) ([w1] @ [] @ []) ([] @ [w2] @ [])
      (\<lambda>s. (Inr (Some chunk), ss', s))"
    by (rule exchanges_then [OF exchanges_recv k]) (simp add: echo_round_def x)
  then show ?thesis by simp
qed

lemma echo_loop_finishes:
  "echo_run ae cs ss es cs' ss' \<Longrightarrow>
    finishes inbox sent room (\<lambda>s. echo_loop fs ae n ss s) (map (fst \<circ> snd) es) (map (snd \<circ> snd) es)
      (\<lambda>s. (Inr (total_of (map fst es) n), ss', s))"
proof (induction es arbitrary: cs ss n)
  case Nil
  have "finishes inbox sent room (\<lambda>s. echo_loop fs ae n ss s) [] [] (\<lambda>s. (Inr n, ss, s))"
    by (rule finishes_map [OF finishes_recv]) (simp add: echo_loop.simps [of fs ae n ss] echo_round_def)
  then show ?case using Nil by simp
next
  case (Cons e es)
  obtain c w1 w2 where e: "e = (c, w1, w2)" by (cases e) auto
  with Cons.prems obtain cs1 ss1 where 1: "echoed ae c cs ss w1 w2 cs1 ss1" "echo_run ae cs1 ss1 es cs' ss'" by auto
  have "finishes inbox sent room (\<lambda>s. echo_loop fs ae n ss s) ([w1] @ map (fst \<circ> snd) es) ([w2] @ map (snd \<circ> snd) es)
      (\<lambda>s. (Inr (total_of (map fst es) (saturating_add n (length c))), ss', s))"
    by (rule exchanges_finish [OF ex_echo_round [OF 1(1)] Cons.IH [OF 1(2)]])
       (simp add: echo_loop.simps [of fs ae n ss])
  then show ?case by (simp add: e o_def)
qed

lemma pump_block_end:
  "pump_block fs ae se s (plain_stdio [] out) = Some (Inr None, se, s, plain_stdio [] out)"
  by (simp add: pump_block_def plain_stdio_def std_read_def)

lemma pump_block_next:
  assumes "c \<noteq> []" "length c \<le> MAX_APP_PLAINTEXT" "client_roundtrip fs ae c cs s = Some (Inr c, cs1, s1)"
  shows "pump_block fs ae cs s (plain_stdio (c # cks) out) =
    Some (Inr (Some (length c)), cs1, s1, plain_stdio cks (out @ c))"
  using assms by (simp add: pump_block_def plain_stdio_def std_read_def std_write_all_def std_flush_def)

lemma pump_tail_finishes:
  "finishes inbox sent room (\<lambda>s. pump_tail fs n se s t) [] [] (\<lambda>s. (Inr n, se, s, t))"
proof (unfold finishes_def, intro allI impI)
  fix s m
  assume "room s (length (concat []) + m)" "inbox s = []"
  from half_close [OF this(1)] this(2) obtain s1 where
    1: "fs_shutdown_write fs s = (Inr (), s1)" "inbox s1 = []" "sent s1 = sent s" "room s1 0" by auto
  from recv_end [OF 1(4,2)] obtain s2 where 2: "fs_recv fs s1 = Some (Inl TrClosedByPeer, s2)" "sent s2 = sent s1"
    by blast
  have "drain_until_closed fs s1 = Some (Inr (), s2)" using 2 by (simp add: drain_until_closed.simps [of fs s1])
  then show "\<exists>s'. pump_tail fs n se s t = Some (Inr n, se, s', t) \<and> sent s' = sent s @ concat []"
    using 1 2 by (auto simp: pump_tail_def)
qed

lemma stdio_pump_finishes:
  "echo_run ae cs ss es cs' ss' \<Longrightarrow>
    list_all (\<lambda>c. c \<noteq> [] \<and> length c \<le> MAX_APP_PLAINTEXT) (map fst es) \<Longrightarrow>
    finishes inbox sent room (\<lambda>s. stdio_pump_loop fs ae n cs s (plain_stdio (map fst es) out))
      (map (snd \<circ> snd) es) (map (fst \<circ> snd) es)
      (\<lambda>s. (Inr (total_of (map fst es) n), cs', s, plain_stdio [] (out @ concat (map fst es))))"
proof (induction es arbitrary: cs ss n out)
  case Nil
  have "finishes inbox sent room (\<lambda>s. stdio_pump_loop fs ae n cs s (plain_stdio [] out)) [] []
      (\<lambda>s. (Inr n, cs, s, plain_stdio [] out))"
    by (rule finishes_map [OF pump_tail_finishes])
       (simp add: stdio_pump_loop.simps [of fs ae n cs] pump_block_end)
  then show ?case using Nil by simp
next
  case (Cons e es)
  obtain c w1 w2 where e: "e = (c, w1, w2)" by (cases e) auto
  with Cons.prems obtain cs1 ss1 where 1: "echoed ae c cs ss w1 w2 cs1 ss1" "echo_run ae cs1 ss1 es cs' ss'" by auto
  have c: "c \<noteq> []" "length c \<le> MAX_APP_PLAINTEXT" and rest: "list_all (\<lambda>c. c \<noteq> [] \<and> length c \<le> MAX_APP_PLAINTEXT) (map fst es)"
    using Cons.prems(2) by (simp_all add: e)
  have "finishes inbox sent room (\<lambda>s. stdio_pump_loop fs ae n cs s (plain_stdio (c # map fst es) out))
      ([w2] @ map (snd \<circ> snd) es) ([w1] @ map (fst \<circ> snd) es)
      (\<lambda>s. (Inr (total_of (map fst es) (saturating_add n (length c))), cs', s,
        plain_stdio [] ((out @ c) @ concat (map fst es))))"
    by (rule exchanges_finish [OF ex_client_roundtrip [OF 1(1)] Cons.IH [OF 1(2) rest]])
       (simp add: stdio_pump_loop.simps [of fs ae n cs] pump_block_next [OF c])
  then show ?case by (simp add: e o_def)
qed

end

section \<open>The service\<close>

text \<open>
  C32. The echo service gives back what it is fed. For paired sessions with sequence numbers left and any blocks
  of input that fit a message, there are requests and echoes, one valid frame each for every block,
  such that the client's pump, fed with
  the echoes and then the end of the stream, sends the requests and writes exactly its input to the
  output, and the server's loop, fed with the requests and the end of the stream, sends these
  echoes; both return the number of bytes and leave sessions that are in step. This holds over TCP and over the loopback.
\<close>

theorem echo_service:
  assumes "aead_correct ae" and "aead_total ae" and "paired k cs ss"
    and "data_seq_ok cs (length cks)" and "data_seq_ok ss (length cks)"
    and "list_all (\<lambda>c. c \<noteq> [] \<and> length c \<le> MAX_APP_PLAINTEXT) cks" and "length (concat cks) < 2 ^ 64"
  shows "\<exists>reqs echoes cs' ss'. length reqs = length cks \<and> length echoes = length cks \<and> paired k cs' ss' \<and>
    list_all (\<lambda>w. send_check w = Inr () \<and> FRAME_HEADER_LEN < length w) (reqs @ echoes) \<and>
    finishes tcp_inbox sk_sent tcp_room (\<lambda>s. client_stdio_pump tcp_stream ae cs s (plain_stdio cks [])) echoes reqs
      (\<lambda>s. (Inr (word_of_nat (length (concat cks))), cs', s, plain_stdio [] (concat cks))) \<and>
    finishes tcp_inbox sk_sent tcp_room (\<lambda>s. server_echo_loop tcp_stream ae ss s) reqs echoes
      (\<lambda>s. (Inr (word_of_nat (length (concat cks))), ss', s)) \<and>
    finishes lb_inbox lb_sent lb_room (\<lambda>s. client_stdio_pump loopback_stream ae cs s (plain_stdio cks [])) echoes reqs
      (\<lambda>s. (Inr (word_of_nat (length (concat cks))), cs', s, plain_stdio [] (concat cks))) \<and>
    finishes lb_inbox lb_sent lb_room (\<lambda>s. server_echo_loop loopback_stream ae ss s) reqs echoes
      (\<lambda>s. (Inr (word_of_nat (length (concat cks))), ss', s))"
proof -
  have "list_all (\<lambda>c. length c \<le> MAX_APP_PLAINTEXT) cks" using assms(6) by (auto simp: list_all_iff)
  from echo_run_exists [OF assms(1-5) this] obtain es cs' ss' where
    es: "map fst es = cks" "echo_run ae cs ss es cs' ss'" "paired k cs' ss'" by blast
  have n: "total_of cks 0 = word_of_nat (length (concat cks))" using total_of_exact [of 0 cks] assms(7) by simp
  note * = es(2) assms(6) [folded es(1)]
  note valid = echo_run_frames [OF es(2)]
  show ?thesis
    unfolding client_stdio_pump_def server_echo_loop_def
    using tcpl.stdio_pump_finishes [OF *, of 0 "[]"] lbl.stdio_pump_finishes [OF *, of 0 "[]"]
      tcpl.echo_loop_finishes [OF es(2), of 0] lbl.echo_loop_finishes [OF es(2), of 0] es(1,3) n valid
    by (intro exI [of _ "map (fst \<circ> snd) es"] exI [of _ "map (snd \<circ> snd) es"] exI [of _ cs'] exI [of _ ss'])
       (auto simp: map_eq_conv dest: map_eq_imp_length_eq)
qed

theorem echo_service_witness:
  "\<exists>cs ss reqs echoes cs' ss' s1 s2.
    list_all (\<lambda>w. send_check w = Inr () \<and> FRAME_HEADER_LEN < length w) (reqs @ echoes) \<and>
    client_stdio_pump tcp_stream plain_aead cs (socket_of echoes) (plain_stdio [[1, 2], [3]] []) =
      Some (Inr 3, cs', s1, plain_stdio [] [1, 2, 3]) \<and> sk_sent s1 = concat reqs \<and>
    server_echo_loop tcp_stream plain_aead ss (socket_of reqs) = Some (Inr 3, ss', s2) \<and>
    sk_sent s2 = concat echoes"
proof -
  let ?seg = "replicate 64 (5 :: byte)" and ?cks = "[[1, 2], [3 :: byte]]"
  let ?cs = "confirmed_session ?seg demo_context"
  let ?ss = "confirmed_session ?seg (demo_context\<lparr>cx_role := peer_of (cx_role demo_context)\<rparr>)"
  have t: "aead_total plain_aead" by (simp add: aead_total_def plain_aead_def)
  have q: "data_seq_ok (confirmed_session ?seg c) (length ?cks)" for c
    by (simp add: data_seq_ok_def confirmed_session_def next_send_sequence_def)
  have c: "list_all (\<lambda>c. c \<noteq> [] \<and> length c \<le> MAX_APP_PLAINTEXT) ?cks" "length (concat ?cks) < 2 ^ 64"
    "word_of_nat (length [1, 2, 3 :: byte]) = (3 :: u64)" "concat ?cks = [1, 2, 3]"
    by (simp_all add: MAX_APP_PLAINTEXT_def)
  obtain reqs echoes cs' ss' where
    ok: "list_all (\<lambda>w. send_check w = Inr () \<and> FRAME_HEADER_LEN < length w) (reqs @ echoes)"
    and cl: "finishes tcp_inbox sk_sent tcp_room
      (\<lambda>s. client_stdio_pump tcp_stream plain_aead ?cs s (plain_stdio ?cks [])) echoes reqs
      (\<lambda>s. (Inr 3, cs', s, plain_stdio [] [1, 2, 3]))"
    and sv: "finishes tcp_inbox sk_sent tcp_room (\<lambda>s. server_echo_loop tcp_stream plain_aead ?ss s) reqs echoes
      (\<lambda>s. (Inr 3, ss', s))"
    using echo_service [OF plain_aead_correct t confirmed_paired [of ?seg demo_context] q q c(1,2)]
    unfolding c(4) c(3) by blast
  have "list_all (\<lambda>w. send_check w = Inr () \<and> FRAME_HEADER_LEN < length w) echoes"
    "list_all (\<lambda>w. send_check w = Inr () \<and> FRAME_HEADER_LEN < length w) reqs" using ok by simp_all
  note ready = this [THEN socket_of_ready]
  obtain s1 where "client_stdio_pump tcp_stream plain_aead ?cs (socket_of echoes) (plain_stdio ?cks []) =
      Some (Inr 3, cs', s1, plain_stdio [] [1, 2, 3])" "sk_sent s1 = concat reqs"
    using cl ready(1) unfolding finishes_def by fastforce
  moreover obtain s2 where "server_echo_loop tcp_stream plain_aead ?ss (socket_of reqs) = Some (Inr 3, ss', s2)"
      "sk_sent s2 = concat echoes"
    using sv ready(2) unfolding finishes_def by fastforce
  ultimately show ?thesis using ok by blast
qed

text \<open>A record that was sealed leaves the session alive unless its number was the last one.\<close>

lemma seal_keeps_keys:
  assumes "keyed se" "session_seal ae MtData plain se = Some (Inr rec, se')"
  shows "keyed se' \<and> (ss_keys se' \<noteq> None \<longleftrightarrow> seq_next (sr_sequence rec) \<noteq> None)"
  using assms(1)
  by (cases rule: seal_cases [of _ ae MtData plain])
     (use assms(2) in \<open>auto simp: keyed_def split: option.splits\<close>)

lemma seal_fails_dead:
  assumes "keyed se" "session_seal ae MtData plain se = Some (Inl e, se')"
  shows "ss_keys se' = None"
  using assms(1)
  by (cases rule: seal_cases [of _ ae MtData plain]) (use assms in \<open>auto simp: keyed_def\<close>)

lemma open_fails_dead:
  assumes "keyed se" "session_open ae MtData q x se = Some (Inl e, se')"
  shows "ss_keys se' = None"
  using assms(1)
  by (cases rule: open_cases [of _ ae MtData q x]) (use assms in \<open>auto simp: keyed_def\<close>)

lemma open_keeps_keys:
  assumes "keyed se" "session_open ae MtData q x se = Some (Inr plain, se')"
  shows "keyed se'"
  using assms(1)
  by (cases rule: open_cases [of _ ae MtData q x]) (use assms in \<open>auto simp: keyed_def\<close>)

lemma close_dead: "keyed se \<Longrightarrow> ss_keys (session_close se) = None"
  by (auto simp: session_close_def keyed_def)

text \<open>The part of a round behind the decoding of a DATA message.\<close>

lemma echo_data_failure:
  assumes "keyed se"
    and "(case session_open ae MtData q x se of
         None \<Rightarrow> None
       | Some (Inl e, se) \<Rightarrow> Some (Inl (failure_of_session e), se, t)
       | Some (Inr plain, se) \<Rightarrow>
           map_option (\<lambda>(r, se, s). (map_ok (\<lambda>_. Some plain) r, se, s)) (seal_and_send fs ae plain se t)) =
      Some (Inl f, se', s')"
  shows "ss_keys se' \<noteq> None \<longleftrightarrow> (\<exists>plain se1 rec. session_open ae MtData q x se = Some (Inr plain, se1) \<and>
      session_seal ae MtData plain se1 = Some (Inr rec, se') \<and> seq_next (sr_sequence rec) \<noteq> None \<and>
      send_msg fs (Data 0 (sr_sequence rec) (sr_sealed rec)) t = Some (Inl f, s'))"
proof -
  obtain y se1 where y: "session_open ae MtData q x se = Some (y, se1)" using assms(2) by (auto split: option.splits)
  show ?thesis
  proof (cases y)
    case (Inl e)
    then show ?thesis using assms y open_fails_dead [OF assms(1)] by auto
  next
    case pl: (Inr plain)
    note k1 = open_keeps_keys [OF assms(1) y [unfolded pl]]
    obtain z se2 where z: "session_seal ae MtData plain se1 = Some (z, se2)"
      using assms(2) y pl by (auto simp: seal_and_send_def split: option.splits)
    show ?thesis
    proof (cases z)
      case (Inl e)
      then show ?thesis using assms(2) y pl z seal_fails_dead [OF k1] by (auto simp: seal_and_send_def)
    next
      case (Inr rec)
      obtain a s2 where a: "send_msg fs (Data 0 (sr_sequence rec) (sr_sealed rec)) t = Some (a, s2)"
        using assms(2) y pl z Inr by (auto simp: seal_and_send_def split: option.splits)
      then have "a = Inl f" "s2 = s'" "se2 = se'"
        using assms(2) y pl z Inr by (cases a; simp add: seal_and_send_def)+
      then show ?thesis using y pl z Inr a seal_keeps_keys [OF k1] by auto
    qed
  qed
qed


text \<open>A round whose echo meets a connection that is gone.\<close>

lemma echo_unsent:
  "\<exists>se w se' s'. is_active se \<and>
    echo_round tcp_stream plain_aead se ((socket_of [w])\<lparr>sk_writes := [WriteFails BrokenPipe]\<rparr>) =
      Some (Inl (failure_of_transport TrClosedByPeer), se', s') \<and> ss_keys se' \<noteq> None"
proof -
  let ?seg = "replicate 64 (5 :: byte)"
  let ?cs = "confirmed_session ?seg demo_context"
  let ?ss = "confirmed_session ?seg (demo_context\<lparr>cx_role := peer_of (cx_role demo_context)\<rparr>)"
  have t: "aead_total plain_aead" by (simp add: aead_total_def plain_aead_def)
  have q: "data_seq_ok (confirmed_session ?seg c) 1" for c
    by (simp add: data_seq_ok_def confirmed_session_def next_send_sequence_def)
  have l: "length [1 :: byte] \<le> MAX_APP_PLAINTEXT" by (simp add: MAX_APP_PLAINTEXT_def)
  have n: "data_seq_ok (confirmed_session ?seg c) (Suc 0)" for c using q [of c] by simp
  obtain w1 w2 cs' ss' where e: "echoed plain_aead [1] ?cs ?ss w1 w2 cs' ss'" and p: "paired (split_keys ?seg) cs' ss'"
    using echo_exchange [OF plain_aead_correct t confirmed_paired n n l] by blast
  obtain cs1 ss1 where 1: "carried plain_aead [1] ?cs ?ss w1 cs1 ss1" and 2: "carried plain_aead [1] ss1 cs1 w2 ss' cs'"
    using e unfolding echoed_def by blast
  obtain x :: sealed_record where x: "decode Server w1 = Inr (Data 0 (sr_sequence x) (sr_sealed x))"
    "session_open plain_aead MtData (sr_sequence x) (sr_sealed x) ?ss = Some (Inr [1], ss1)"
    using 1 unfolding carried_def by blast
  obtain y :: sealed_record where y: "session_seal plain_aead MtData [1] ss1 = Some (Inr y, ss')"
    "encode (Data 0 (sr_sequence y) (sr_sealed y)) = Inr w2"
    using 2 unfolding carried_def by blast
  let ?s = "(socket_of [w1])\<lparr>sk_writes := [WriteFails BrokenPipe]\<rparr>"
  have "list_all valid_frame [w1]" using carried_frame [OF 1] by simp
  from socket_of_ready [OF this, of 0] have ready: "sock_settled ?s" "frames_of (segments (sk_reads ?s)) = ([w1], TrClosedByPeer)"
    using whole_frames_Cons [of "segments (sk_reads (socket_of [w1]))" w1 "[]"]
    by (simp_all add: tcp_room_def tcp_inbox_def sock_settled_def)
  from tcpr.recv_frame_next [OF ready] carried_frame [OF 1] obtain s1 where
    r: "recv_frame tcp_io ?s = Some (Inr w1, s1)" by blast
  then have s1: "sk_writes s1 = [WriteFails BrokenPipe]" using tcp_recv_writes [OF r] by simp
  have "send_frame tcp_io w2 s1 = Some (Inl TrClosedByPeer, s1\<lparr>sk_writes := []\<rparr>)"
  proof -
    have w: "bi_write_partial tcp_io chunk s1 = Some (Inl TrClosedByPeer, s1\<lparr>sk_writes := []\<rparr>)" for chunk
      by (simp add: tcp_io_def tcp_write_partial_def sock_write_def s1)
    show ?thesis using carried_frame [OF 2] send_check_nonempty [of w2]
      by (simp add: send_frame_def send_loop.simps [of tcp_io w2 0 s1] w)
  qed
  then have snd: "send_msg tcp_stream (Data 0 (sr_sequence y) (sr_sealed y)) s1 =
      Some (Inl (failure_of_transport TrClosedByPeer), s1\<lparr>sk_writes := []\<rparr>)"
    by (simp add: send_msg_def y(2) tcp_stream_def)
  have run: "echo_round tcp_stream plain_aead ?ss ?s =
      Some (Inl (failure_of_transport TrClosedByPeer), ss', s1\<lparr>sk_writes := []\<rparr>)"
    using r x y(1) snd by (simp add: echo_round_def seal_and_send_def tcp_stream_def)
  have se: "keyed ?ss" "is_active ?ss"
    by (simp_all add: confirmed_session_def is_active_def session_new_def keyed_def)
  have "ss_keys ss' \<noteq> None"
    using paired_live [OF p] by (auto simp: keyed_def)
  then show "\<exists>se w se' s'. is_active se \<and>
    echo_round tcp_stream plain_aead se ((socket_of [w])\<lparr>sk_writes := [WriteFails BrokenPipe]\<rparr>) =
      Some (Inl (failure_of_transport TrClosedByPeer), se', s') \<and> ss_keys se' \<noteq> None"
    using run se(2) by blast
qed


end
