(* ===== verification/OtpWire.thy ===== *)
theory OtpWire
  imports OtpTypes
begin

text \<open>
  The wire format of the full one-time-pad data plane (\<open>crates/otp-fullotp/src\<close>): the frozen
  values (\<open>lib.rs\<close>), the OTP_DATA record (\<open>wire.rs\<close>), the control messages (\<open>control.rs\<close>) and the
  error types (\<open>error.rs\<close>).
\<close>

section \<open>Frozen values and errors\<close>

definition OTP_VERSION :: u16 where "OTP_VERSION = 3"
definition MSG_TYPE_OTP_DATA :: u16 where "MSG_TYPE_OTP_DATA = 0x10"
definition MODE_FULL_OTP_POLY1305 :: u8 where "MODE_FULL_OTP_POLY1305 = 1"
definition OTP_HEADER_LEN :: nat where "OTP_HEADER_LEN = 34"
definition MAX_CIPHERTEXT_LEN :: nat where "MAX_CIPHERTEXT_LEN = 4064"
definition MIN_CIPHERTEXT_LEN :: nat where "MIN_CIPHERTEXT_LEN = 1"
definition MAX_FRAME_LEN :: nat where
  "MAX_FRAME_LEN = OTP_HEADER_LEN + MAX_CIPHERTEXT_LEN + TAG_LEN"
definition PAD_HALF_WIRE :: nat where "PAD_HALF_WIRE = 4096"
definition MAC_KEY_BOUND :: nat where "MAC_KEY_BOUND = 32"
definition LOW_WATER :: nat where "LOW_WATER = 1024"

text \<open>The ASCII text \<open>otp-term/full-otp/data/v1\<close>.\<close>

definition DOMAIN_SEPARATOR :: bytes where
  "DOMAIN_SEPARATOR = map of_char ''otp-term/full-otp/data/v1''"

lemmas otp_consts = OTP_VERSION_def MSG_TYPE_OTP_DATA_def MODE_FULL_OTP_POLY1305_def
  OTP_HEADER_LEN_def MAX_CIPHERTEXT_LEN_def MIN_CIPHERTEXT_LEN_def MAX_FRAME_LEN_def
  PAD_HALF_WIRE_def MAC_KEY_BOUND_def TAG_LEN_def

datatype wire_error =
    WTooShort | WTooLong | WVersion | WMsgType | WMode | WDirection | WCiphertextLen
  | WLengthMismatch | WOffsetBounds

datatype control_error = CTooShort | CTooLong | CUnknownCode | CLengthMismatch

datatype otp_error =
    OtpWireErr wire_error | OtpDirection | OtpBundle | OtpReplay | OtpGap | OtpOffset | OtpTag
  | OtpClosed | OtpDoesNotFit

datatype send_error = SendClosed | SendEmptyPlaintext | SendSequenceExhausted | SendInternal

datatype pad_source_error = PointerMismatch u64 u64 | Reserve string

datatype pump_error = PumpData otp_error | PumpSource pad_source_error

fun otp_audit_category :: "otp_error \<Rightarrow> string" where
  "otp_audit_category (OtpWireErr _) = ''OTP_FORMAT''"
| "otp_audit_category OtpDirection = ''OTP_DIRECTION''"
| "otp_audit_category OtpBundle = ''OTP_BUNDLE''"
| "otp_audit_category OtpReplay = ''OTP_REPLAY''"
| "otp_audit_category OtpGap = ''OTP_GAP''"
| "otp_audit_category OtpOffset = ''OTP_OFFSET''"
| "otp_audit_category OtpTag = ''OTP_TAG_INVALID''"
| "otp_audit_category OtpClosed = ''OTP_CLOSED''"
| "otp_audit_category OtpDoesNotFit = ''OTP_INTERNAL''"

section \<open>The data record\<close>

fun otp_direction_wire :: "direction \<Rightarrow> u8" where
  "otp_direction_wire ClientToServer = 1"
| "otp_direction_wire ServerToClient = 2"

definition otp_direction_from_wire :: "u8 \<Rightarrow> direction option" where
  "otp_direction_from_wire v =
    (if v = 1 then Some ClientToServer else if v = 2 then Some ServerToClient else None)"

lemma otp_direction_from_wire_iff [simp]:
  "otp_direction_from_wire v = Some d \<longleftrightarrow> v = otp_direction_wire d"
  by (cases d) (auto simp: otp_direction_from_wire_def)

record otp_record =
  od_direction :: direction
  od_bundle_id :: u64
  od_base_segment :: u64
  od_record_seq :: u64
  od_pad_offset :: u16
  od_ciphertext :: bytes
  od_tag :: bytes

definition canonical_header :: "direction \<Rightarrow> u64 \<Rightarrow> u64 \<Rightarrow> u64 \<Rightarrow> u16 \<Rightarrow> nat \<Rightarrow> bytes" where
  "canonical_header d bundle base sq off len =
    to_be16 OTP_VERSION @ to_be16 MSG_TYPE_OTP_DATA @ [MODE_FULL_OTP_POLY1305, otp_direction_wire d]
    @ to_be64 bundle @ to_be64 base @ to_be64 sq @ to_be16 off @ to_be16 (word_of_nat len)"

lemma length_canonical_header [simp]: "length (canonical_header d b s q f l) = 34"
  by (simp add: canonical_header_def)

definition otp_encode :: "otp_record \<Rightarrow> bytes" where
  "otp_encode r = canonical_header (od_direction r) (od_bundle_id r) (od_base_segment r)
      (od_record_seq r) (od_pad_offset r) (length (od_ciphertext r))
    @ od_ciphertext r @ od_tag r"

definition otp_decode :: "bytes \<Rightarrow> wire_error + otp_record" where
  "otp_decode bs =
    (if length bs < OTP_HEADER_LEN + MIN_CIPHERTEXT_LEN + TAG_LEN then Inl WTooShort
     else if MAX_FRAME_LEN < length bs then Inl WTooLong
     else if from_be16 (slice_of 0 2 bs) \<noteq> OTP_VERSION then Inl WVersion
     else if from_be16 (slice_of 2 4 bs) \<noteq> MSG_TYPE_OTP_DATA then Inl WMsgType
     else if bs ! 4 \<noteq> MODE_FULL_OTP_POLY1305 then Inl WMode
     else case otp_direction_from_wire (bs ! 5) of
       None \<Rightarrow> Inl WDirection
     | Some d \<Rightarrow>
         let off = from_be16 (slice_of 30 32 bs);
             len = unat (from_be16 (slice_of 32 34 bs)) in
         if len < MIN_CIPHERTEXT_LEN \<or> MAX_CIPHERTEXT_LEN < len then Inl WCiphertextLen
         else if length bs \<noteq> OTP_HEADER_LEN + len + TAG_LEN then Inl WLengthMismatch
         else if PAD_HALF_WIRE < unat off + MAC_KEY_BOUND + len then Inl WOffsetBounds
         else Inr \<lparr>od_direction = d, od_bundle_id = from_be64 (slice_of 6 14 bs),
             od_base_segment = from_be64 (slice_of 14 22 bs),
             od_record_seq = from_be64 (slice_of 22 30 bs), od_pad_offset = off,
             od_ciphertext = slice_of OTP_HEADER_LEN (OTP_HEADER_LEN + len) bs,
             od_tag = drop (length bs - TAG_LEN) bs\<rparr>)"

text \<open>What a record on the wire satisfies: the array length of the tag and the bounds.\<close>

definition wf_otp_record :: "otp_record \<Rightarrow> bool" where
  "wf_otp_record r \<longleftrightarrow> length (od_tag r) = TAG_LEN \<and> od_ciphertext r \<noteq> [] \<and>
    unat (od_pad_offset r) + MAC_KEY_BOUND + length (od_ciphertext r) \<le> PAD_HALF_WIRE"

lemma otp_frame_fields:
  assumes "34 \<le> length bs"
  obtains v t m d i b s f l x where "bs = v @ t @ [m, d] @ i @ b @ s @ f @ l @ x" "length v = 2"
    "length t = 2" "length i = 8" "length b = 8" "length s = 8" "length f = 2" "length l = 2"
proof -
  note n = assms
  have "2 \<le> length bs" using n by simp
  then obtain v x1 where 1: "bs = v @ x1" "length v = 2" "length x1 = length bs - 2"
    by (rule split_prefix)
  have "2 \<le> length x1" using n 1(3) by simp
  then obtain t x2 where 2: "x1 = t @ x2" "length t = 2" "length x2 = length x1 - 2"
    by (rule split_prefix)
  have "2 \<le> length x2" using n 1(3) 2(3) by simp
  then obtain u x3 where 3: "x2 = u @ x3" "length u = 2" "length x3 = length x2 - 2"
    by (rule split_prefix)
  obtain m d where u: "u = [m, d]" using 3(2) by (auto simp: numeral_2_eq_2 length_Suc_conv)
  have "8 \<le> length x3" using n 1(3) 2(3) 3(3) by simp
  then obtain i x4 where 4: "x3 = i @ x4" "length i = 8" "length x4 = length x3 - 8"
    by (rule split_prefix)
  have "8 \<le> length x4" using n 1(3) 2(3) 3(3) 4(3) by simp
  then obtain b x5 where 5: "x4 = b @ x5" "length b = 8" "length x5 = length x4 - 8"
    by (rule split_prefix)
  have "8 \<le> length x5" using n 1(3) 2(3) 3(3) 4(3) 5(3) by simp
  then obtain s x6 where 6: "x5 = s @ x6" "length s = 8" "length x6 = length x5 - 8"
    by (rule split_prefix)
  have "2 \<le> length x6" using n 1(3) 2(3) 3(3) 4(3) 5(3) 6(3) by simp
  then obtain f x7 where 7: "x6 = f @ x7" "length f = 2" "length x7 = length x6 - 2"
    by (rule split_prefix)
  have "2 \<le> length x7" using n 1(3) 2(3) 3(3) 4(3) 5(3) 6(3) 7(3) by simp
  then obtain l x where 8: "x7 = l @ x" "length l = 2" "length x = length x7 - 2"
    by (rule split_prefix)
  show thesis by (rule that [of v t m d i b s f l x]) (simp_all only: 1(1,2) 2(1,2) 3(1) 4(1,2) 5(1,2) 6(1,2) 7(1,2) 8(1,2) u append.assoc)
qed

text \<open>The decoder on a frame cut into its fields.\<close>

lemma otp_decode_fields:
  assumes "length v = 2" "length t = 2" "length i = 8" "length b = 8" "length s = 8"
    "length f = 2" "length l = 2"
  shows "otp_decode (v @ t @ [m, d] @ i @ b @ s @ f @ l @ x) =
    (if length x < MIN_CIPHERTEXT_LEN + TAG_LEN then Inl WTooShort
     else if MAX_CIPHERTEXT_LEN + TAG_LEN < length x then Inl WTooLong
     else if from_be16 v \<noteq> OTP_VERSION then Inl WVersion
     else if from_be16 t \<noteq> MSG_TYPE_OTP_DATA then Inl WMsgType
     else if m \<noteq> MODE_FULL_OTP_POLY1305 then Inl WMode
     else case otp_direction_from_wire d of
       None \<Rightarrow> Inl WDirection
     | Some d \<Rightarrow>
         let off = from_be16 f; len = unat (from_be16 l) in
         if len < MIN_CIPHERTEXT_LEN \<or> MAX_CIPHERTEXT_LEN < len then Inl WCiphertextLen
         else if length x \<noteq> len + TAG_LEN then Inl WLengthMismatch
         else if PAD_HALF_WIRE < unat off + MAC_KEY_BOUND + len then Inl WOffsetBounds
         else Inr \<lparr>od_direction = d, od_bundle_id = from_be64 i, od_base_segment = from_be64 b,
             od_record_seq = from_be64 s, od_pad_offset = off, od_ciphertext = take len x,
             od_tag = drop (length x - TAG_LEN) x\<rparr>)"
proof -
  let ?bs = "v @ t @ [m, d] @ i @ b @ s @ f @ l @ x"
  have len: "length ?bs = 34 + length x" using assms by simp
  have n: "?bs ! 4 = m" "?bs ! 5 = d" using assms by (simp_all add: nth_append)
  have g: "slice_of 0 2 ?bs = v" "slice_of 2 4 ?bs = t" "slice_of 6 14 ?bs = i"
    "slice_of 14 22 ?bs = b" "slice_of 22 30 ?bs = s" "slice_of 30 32 ?bs = f"
    "slice_of 32 34 ?bs = l" "slice_of OTP_HEADER_LEN (OTP_HEADER_LEN + k) ?bs = take k x" for k
    using assms by (simp_all add: slice_of_def OTP_HEADER_LEN_def)
  have dr: "drop (34 + length x - TAG_LEN) ?bs = drop (length x - TAG_LEN) x"
    if "TAG_LEN \<le> length x"
  proof -
    have "drop 34 ?bs = x" using assms by simp
    then have "drop (length x - TAG_LEN) x = drop (length x - TAG_LEN + 34) ?bs" by (metis drop_drop)
    with that show ?thesis by (simp add: add.commute)
  qed
  have c: "(34 + length x < OTP_HEADER_LEN + MIN_CIPHERTEXT_LEN + TAG_LEN) =
      (length x < MIN_CIPHERTEXT_LEN + TAG_LEN)"
    "(MAX_FRAME_LEN < 34 + length x) = (MAX_CIPHERTEXT_LEN + TAG_LEN < length x)"
    "(34 + length x \<noteq> OTP_HEADER_LEN + k + TAG_LEN) = (length x \<noteq> k + TAG_LEN)" for k
    by (auto simp: OTP_HEADER_LEN_def MAX_FRAME_LEN_def)
  show ?thesis
  proof (cases "length x < MIN_CIPHERTEXT_LEN + TAG_LEN")
    case True
    then show ?thesis unfolding otp_decode_def len c by (simp only: if_True)
  next
    case False
    then have "TAG_LEN \<le> length x" by simp
    from dr [OF this] show ?thesis unfolding otp_decode_def len n g c Let_def by (simp only:)
  qed
qed

lemma otp_encode_fields:
  "otp_encode r = to_be16 OTP_VERSION @ to_be16 MSG_TYPE_OTP_DATA
    @ [MODE_FULL_OTP_POLY1305, otp_direction_wire (od_direction r)] @ to_be64 (od_bundle_id r)
    @ to_be64 (od_base_segment r) @ to_be64 (od_record_seq r) @ to_be16 (od_pad_offset r)
    @ to_be16 (word_of_nat (length (od_ciphertext r))) @ od_ciphertext r @ od_tag r"
  by (simp add: otp_encode_def canonical_header_def)

lemma wf_otp_bounds:
  "wf_otp_record r \<Longrightarrow> length (od_tag r) = 16 \<and> 0 < length (od_ciphertext r) \<and>
    length (od_ciphertext r) \<le> 4064 \<and> unat (od_pad_offset r) + 32 + length (od_ciphertext r) \<le> 4096"
  by (auto simp: wf_otp_record_def otp_consts)

lemma otp_decode_encode: "wf_otp_record r \<Longrightarrow> otp_decode (otp_encode r) = Inr r"
proof -
  assume "wf_otp_record r"
  note b = wf_otp_bounds [OF this]
  then have u: "unat (word_of_nat (length (od_ciphertext r)) :: u16) = length (od_ciphertext r)"
    by (simp add: unat_of_nat)
  have d: "otp_direction_from_wire (otp_direction_wire (od_direction r)) = Some (od_direction r)"
    by simp
  show ?thesis
    unfolding otp_encode_fields
    by (subst otp_decode_fields, simp_all only: length_to_be d option.case Let_def from_to_be u)
       (use b in \<open>simp_all add: otp_consts\<close>)
qed

lemma otp_decode_Inr:
  assumes dec: "otp_decode bs = Inr r"
  shows "bs = otp_encode r \<and> wf_otp_record r"
proof -
  have "34 \<le> length bs"
    using dec by (rule contrapos_pp) (simp add: otp_decode_def otp_consts)
  then obtain v t m d i b s f l x where bs: "bs = v @ t @ [m, d] @ i @ b @ s @ f @ l @ x"
    and len: "length v = 2" "length t = 2" "length i = 8" "length b = 8" "length s = 8"
      "length f = 2" "length l = 2"
    by (rule otp_frame_fields)
  note dec' = dec [unfolded bs otp_decode_fields [OF len]]
  from dec' obtain dd where h: "from_be16 v = OTP_VERSION" "from_be16 t = MSG_TYPE_OTP_DATA"
      "m = MODE_FULL_OTP_POLY1305" and d: "otp_direction_from_wire d = Some dd"
    by (auto split: if_splits option.splits)
  define n where "n = unat (from_be16 l)"
  from dec' have b: "1 \<le> n" "n \<le> 4064" "length x = n + 16" "unat (from_be16 f) + 32 + n \<le> 4096"
    and r: "r = \<lparr>od_direction = dd, od_bundle_id = from_be64 i, od_base_segment = from_be64 b,
      od_record_seq = from_be64 s, od_pad_offset = from_be16 f, od_ciphertext = take n x,
      od_tag = drop (length x - TAG_LEN) x\<rparr>"
    by (simp_all add: h d Let_def n_def [symmetric] otp_consts split: if_splits)
  have v: "v = to_be16 OTP_VERSION" "t = to_be16 MSG_TYPE_OTP_DATA"
    using h to_from_be16 [OF len(1)] to_from_be16 [OF len(2)] by simp_all
  have l: "to_be16 (word_of_nat n) = l" and x: "x \<noteq> []"
    using b len(7) by (auto simp: n_def)
  show ?thesis
    using b d len unfolding bs otp_encode_fields r
    by (simp add: v h l x wf_otp_record_def otp_consts)
qed

section \<open>Control messages\<close>

definition CONTROL_PAD_OFFER :: u8 where "CONTROL_PAD_OFFER = 1"
definition CONTROL_PAD_ACK :: u8 where "CONTROL_PAD_ACK = 2"
definition CONTROL_PAD_NEED :: u8 where "CONTROL_PAD_NEED = 3"
definition CONTROL_CLOSE :: u8 where "CONTROL_CLOSE = 4"
definition PAD_OFFER_LEN :: nat where "PAD_OFFER_LEN = 17"
definition PAD_ACK_LEN :: nat where "PAD_ACK_LEN = 9"

lemmas control_consts = CONTROL_PAD_OFFER_def CONTROL_PAD_ACK_def CONTROL_PAD_NEED_def
  CONTROL_CLOSE_def PAD_OFFER_LEN_def PAD_ACK_LEN_def

datatype pad_control = PadOffer u64 u64 | PadAck u64 | PadNeed | PadClose

fun control_encode :: "pad_control \<Rightarrow> bytes" where
  "control_encode (PadOffer bundle base) = CONTROL_PAD_OFFER # to_be64 bundle @ to_be64 base"
| "control_encode (PadAck bundle) = CONTROL_PAD_ACK # to_be64 bundle"
| "control_encode PadNeed = [CONTROL_PAD_NEED]"
| "control_encode PadClose = [CONTROL_CLOSE]"

definition control_decode :: "bytes \<Rightarrow> control_error + pad_control" where
  "control_decode bs = (case bs of
     [] \<Rightarrow> Inl CTooShort
   | code # rest \<Rightarrow>
       if code = CONTROL_PAD_OFFER then
         (if length rest \<noteq> PAD_OFFER_LEN - 1 then Inl CLengthMismatch
          else Inr (PadOffer (from_be64 (take 8 rest)) (from_be64 (drop 8 rest))))
       else if code = CONTROL_PAD_ACK then
         (if length rest \<noteq> PAD_ACK_LEN - 1 then Inl CLengthMismatch
          else Inr (PadAck (from_be64 rest)))
       else if code = CONTROL_PAD_NEED \<and> rest = [] then Inr PadNeed
       else if code = CONTROL_CLOSE \<and> rest = [] then Inr PadClose
       else if code = 3 \<or> code = 4 then Inl CLengthMismatch
       else Inl CUnknownCode)"

lemma control_decode_encode: "control_decode (control_encode c) = Inr c"
  by (cases c) (simp_all add: control_decode_def control_consts)

lemma control_decode_Inr: "control_decode bs = Inr c \<Longrightarrow> bs = control_encode c"
  by (auto simp: control_decode_def control_consts split: list.splits if_splits)

text \<open>
  C19. The decoders of the data plane and of the control messages accept exactly the images of the
  encoders: for records, those with a 16-byte tag and a nonempty ciphertext that fits behind its
  MAC key into the pad half; every control message has one encoding, of 1, 9 or 17 bytes.
\<close>

theorem otp_frame_accepts_exactly:
  "(otp_decode bs = Inr r \<longleftrightarrow> bs = otp_encode r \<and> wf_otp_record r) \<and>
   (control_decode bs = Inr c \<longleftrightarrow> bs = control_encode c) \<and> length (control_encode c) \<in> {1, 9, 17}"
proof (intro conjI)
  show "otp_decode bs = Inr r \<longleftrightarrow> bs = otp_encode r \<and> wf_otp_record r"
    using otp_decode_Inr otp_decode_encode by blast
  show "control_decode bs = Inr c \<longleftrightarrow> bs = control_encode c"
    using control_decode_Inr control_decode_encode by blast
  show "length (control_encode c) \<in> {1, 9, 17}" by (cases c) simp_all
qed

end
