(* ===== verification/OtpPad.thy ===== *)
theory OtpPad
  imports OtpWire
begin

text \<open>
  Pad material and records of the full one-time-pad data plane (\<open>crates/otp-fullotp/src\<close>:
  \<open>pad.rs\<close>, \<open>record.rs\<close>). A stream is one direction's half of a bundle: its bytes, of which
  the consumed ones are overwritten with zeros, and the cursor. Poly1305 is the crate \<open>poly1305\<close>,
  not part of the repository: it is the parameter \<open>mac\<close> of key and message. Offsets are naturals
  (\<open>usize\<close>); a slice outside the buffer is a panic, the value \<open>None\<close>. The checked
  assertions of a debug build are not modelled: the lemmas show that they hold.
\<close>

section \<open>Streams\<close>

definition PAD_HALF :: nat where "PAD_HALF = 4096"
definition MAC_KEY_LEN :: nat where "MAC_KEY_LEN = 32"
definition BUNDLE_BYTES :: nat where "BUNDLE_BYTES = 2 * PAD_HALF"

lemmas pad_consts = PAD_HALF_def MAC_KEY_LEN_def BUNDLE_BYTES_def

record pad_stream =
  ps_bundle_id :: u64
  ps_base_segment :: u64
  ps_buf :: bytes
  ps_cursor :: nat

definition from_half :: "u64 \<Rightarrow> u64 \<Rightarrow> bytes \<Rightarrow> pad_stream" where
  "from_half bundle base half =
    \<lparr>ps_bundle_id = bundle, ps_base_segment = base, ps_buf = half, ps_cursor = 0\<rparr>"

definition ps_remaining :: "pad_stream \<Rightarrow> nat" where
  "ps_remaining s = PAD_HALF - ps_cursor s"

definition max_record_len :: "pad_stream \<Rightarrow> nat" where
  "max_record_len s = min (ps_remaining s - MAC_KEY_LEN) MAX_CIPHERTEXT_LEN"

definition ps_fits :: "nat \<Rightarrow> pad_stream \<Rightarrow> bool" where
  "ps_fits l s \<longleftrightarrow> MAC_KEY_LEN + l \<le> ps_remaining s"

definition below_low_water :: "pad_stream \<Rightarrow> bool" where
  "below_low_water s \<longleftrightarrow> ps_remaining s < LOW_WATER"

text \<open>\<open>zeroize\<close> on \<open>buf[i..j]\<close>.\<close>

definition burn :: "nat \<Rightarrow> nat \<Rightarrow> bytes \<Rightarrow> bytes" where
  "burn i j bs = take i bs @ replicate (j - i) 0 @ drop j bs"

definition take_mac_key :: "pad_stream \<Rightarrow> (bytes \<times> pad_stream) option" where
  "take_mac_key s =
    (let c = ps_cursor s in
     if length (ps_buf s) < c + MAC_KEY_LEN then None
     else Some (slice_of c (c + MAC_KEY_LEN) (ps_buf s),
       s\<lparr>ps_buf := burn c (c + MAC_KEY_LEN) (ps_buf s)\<rparr>))"

text \<open>The loop mixes byte \<open>start + i\<close> of the buffer into byte \<open>i\<close> of \<open>dst\<close> and clears it.\<close>

fun xor_burn_loop :: "bytes \<Rightarrow> nat \<Rightarrow> bytes \<Rightarrow> (bytes \<times> bytes) option" where
  "xor_burn_loop [] k buf = Some ([], buf)"
| "xor_burn_loop (d # ds) k buf =
    (if length buf \<le> k then None
     else case xor_burn_loop ds (Suc k) (buf[k := 0]) of
       None \<Rightarrow> None
     | Some (xs, buf') \<Rightarrow> Some ((d XOR buf ! k) # xs, buf'))"

definition xor_burn_pad :: "bytes \<Rightarrow> pad_stream \<Rightarrow> (bytes \<times> pad_stream) option" where
  "xor_burn_pad dst s = (case xor_burn_loop dst (ps_cursor s + MAC_KEY_LEN) (ps_buf s) of
     None \<Rightarrow> None
   | Some (xs, buf) \<Rightarrow> Some (xs, s\<lparr>ps_buf := buf\<rparr>))"

definition ps_advance :: "nat \<Rightarrow> pad_stream \<Rightarrow> pad_stream" where
  "ps_advance l s = s\<lparr>ps_cursor := ps_cursor s + (MAC_KEY_LEN + l)\<rparr>"

definition waste :: "pad_stream \<Rightarrow> pad_stream" where
  "waste s = s\<lparr>ps_buf := replicate (length (ps_buf s)) 0, ps_cursor := PAD_HALF\<rparr>"

text \<open>The stream that takes over, with the cursor of the one that is retired.\<close>

definition retire_into :: "pad_stream \<Rightarrow> pad_stream \<Rightarrow> nat \<times> pad_stream" where
  "retire_into s new = (ps_cursor s, new)"

definition split_bundle :: "u64 \<Rightarrow> u64 \<Rightarrow> bytes \<Rightarrow> pad_stream \<times> pad_stream" where
  "split_bundle bundle base flat =
    (from_half bundle base (take PAD_HALF flat), from_half bundle (base + 64) (drop PAD_HALF flat))"

section \<open>Records\<close>

definition mac_input :: "bytes \<Rightarrow> bytes \<Rightarrow> bytes" where
  "mac_input header ct = DOMAIN_SEPARATOR @ to_be16 (word_of_nat (length DOMAIN_SEPARATOR))
    @ header @ ct"

definition ct_eq_16 :: "bytes \<Rightarrow> bytes \<Rightarrow> bool" where
  "ct_eq_16 a b \<longleftrightarrow> foldl (\<lambda>diff i. diff OR (a ! i XOR b ! i)) 0 [0..<TAG_LEN] = 0"

definition seal_record ::
  "(bytes \<Rightarrow> bytes \<Rightarrow> bytes) \<Rightarrow> direction \<Rightarrow> u64 \<Rightarrow> bytes \<Rightarrow> pad_stream \<Rightarrow>
    ((otp_error + otp_record) \<times> pad_stream) option" where
  "seal_record mac d sq pt s =
    (let l = length pt in
     if l = 0 then Some (Inl OtpDoesNotFit, s)
     else if \<not> ps_fits l s then Some (Inl OtpDoesNotFit, s)
     else let off = word_of_nat (min (ps_cursor s) 65535) in
       case take_mac_key s of
         None \<Rightarrow> None
       | Some (key, s1) \<Rightarrow> (case xor_burn_pad pt s1 of
           None \<Rightarrow> None
         | Some (ct, s2) \<Rightarrow>
             let header = canonical_header d (ps_bundle_id s) (ps_base_segment s) sq off l in
             Some (Inr \<lparr>od_direction = d, od_bundle_id = ps_bundle_id s,
                 od_base_segment = ps_base_segment s, od_record_seq = sq, od_pad_offset = off,
                 od_ciphertext = ct, od_tag = mac key (mac_input header ct)\<rparr>,
               ps_advance l s2)))"

record open_expectation =
  ox_direction :: direction
  ox_bundle_id :: u64
  ox_base_segment :: u64
  ox_record_seq :: u64

text \<open>The checks before the key is taken, in their order.\<close>

definition open_check :: "open_expectation \<Rightarrow> otp_record \<Rightarrow> pad_stream \<Rightarrow> otp_error + unit" where
  "open_check ex r s =
    (if od_direction r \<noteq> ox_direction ex then Inl OtpDirection
     else if od_bundle_id r \<noteq> ox_bundle_id ex \<or> od_base_segment r \<noteq> ox_base_segment ex
     then Inl OtpBundle
     else if od_record_seq r < ox_record_seq ex then Inl OtpReplay
     else if ox_record_seq ex < od_record_seq r then Inl OtpGap
     else if unat (od_pad_offset r) \<noteq> ps_cursor s then Inl OtpOffset
     else if \<not> ps_fits (length (od_ciphertext r)) s then Inl OtpOffset
     else Inr ())"

definition header_of :: "otp_record \<Rightarrow> bytes" where
  "header_of r = canonical_header (od_direction r) (od_bundle_id r) (od_base_segment r)
    (od_record_seq r) (od_pad_offset r) (length (od_ciphertext r))"

definition open_record ::
  "(bytes \<Rightarrow> bytes \<Rightarrow> bytes) \<Rightarrow> open_expectation \<Rightarrow> bytes \<Rightarrow> pad_stream \<Rightarrow>
    ((otp_error + bytes) \<times> pad_stream) option" where
  "open_record mac ex frame s = (case otp_decode frame of
     Inl e \<Rightarrow> Some (Inl (OtpWireErr e), s)
   | Inr r \<Rightarrow> (case open_check ex r s of
       Inl e \<Rightarrow> Some (Inl e, s)
     | Inr _ \<Rightarrow> (case take_mac_key s of
         None \<Rightarrow> None
       | Some (key, s1) \<Rightarrow>
           if \<not> ct_eq_16 (mac key (mac_input (header_of r) (od_ciphertext r))) (od_tag r)
           then Some (Inl OtpTag, s1)
           else (case xor_burn_pad (od_ciphertext r) s1 of
             None \<Rightarrow> None
           | Some (pt, s2) \<Rightarrow> Some (Inr pt, ps_advance (length (od_ciphertext r)) s2)))))"

text \<open>What the proofs use of Poly1305: tags are 16 bytes long.\<close>

definition mac16 :: "(bytes \<Rightarrow> bytes \<Rightarrow> bytes) \<Rightarrow> bool" where
  "mac16 mac \<longleftrightarrow> (\<forall>key msg. length (mac key msg) = TAG_LEN)"

section \<open>The constant-time comparison\<close>

lemma foldl_or_zero:
  "foldl (\<lambda>acc i. acc OR f i) a xs = 0 \<longleftrightarrow> a = (0 :: byte) \<and> (\<forall>i\<in>set xs. f i = 0)"
  by (induction xs arbitrary: a) (auto simp: or_eq_0_iff)

lemma xor_eq_zero: "a XOR b = 0 \<longleftrightarrow> a = (b :: byte)"
  by (metis xor.assoc xor.right_neutral xor.left_neutral xor_self_eq)

lemma ct_eq_16_iff: "length a = TAG_LEN \<Longrightarrow> length b = TAG_LEN \<Longrightarrow> ct_eq_16 a b \<longleftrightarrow> a = b"
  by (auto simp: ct_eq_16_def foldl_or_zero list_eq_iff_nth_eq xor_eq_zero)

section \<open>What a stream consumes\<close>

text \<open>
  The bytes of the pad that a record at offset \<open>c\<close> uses, as the key and as the mask, and the record
  that they make of a plaintext.
\<close>

definition pad_key :: "bytes \<Rightarrow> nat \<Rightarrow> bytes" where
  "pad_key P c = slice_of c (c + 32) P"

definition xor_bytes :: "bytes \<Rightarrow> bytes \<Rightarrow> bytes" where
  "xor_bytes xs ys = map2 (XOR) xs ys"

definition pad_mask :: "bytes \<Rightarrow> nat \<Rightarrow> bytes \<Rightarrow> bytes" where
  "pad_mask P c xs = xor_bytes xs (slice_of (c + 32) (c + 32 + length xs) P)"

definition pad_record ::
  "(bytes \<Rightarrow> bytes \<Rightarrow> bytes) \<Rightarrow> bytes \<Rightarrow> direction \<Rightarrow> u64 \<Rightarrow> u64 \<Rightarrow> u64 \<Rightarrow> nat \<Rightarrow> bytes \<Rightarrow> otp_record" where
  "pad_record mac P d bundle base sq c pt =
    \<lparr>od_direction = d, od_bundle_id = bundle, od_base_segment = base, od_record_seq = sq,
     od_pad_offset = word_of_nat c, od_ciphertext = pad_mask P c pt,
     od_tag = mac (pad_key P c) (mac_input (canonical_header d bundle base sq (word_of_nat c) (length pt))
       (pad_mask P c pt))\<rparr>"

text \<open>A stream follows a pad: zeros up to the cursor, the pad behind it.\<close>

definition follows_pad :: "bytes \<Rightarrow> pad_stream \<Rightarrow> bool" where
  "follows_pad P s \<longleftrightarrow> length P = PAD_HALF \<and> ps_cursor s \<le> PAD_HALF \<and>
    ps_buf s = replicate (ps_cursor s) 0 @ drop (ps_cursor s) P"

lemma follows_pad_length: "follows_pad P s \<Longrightarrow> length (ps_buf s) = PAD_HALF"
  by (simp add: follows_pad_def)

lemma follows_from_half: "length P = PAD_HALF \<Longrightarrow> follows_pad P (from_half i b P)"
  by (simp add: follows_pad_def from_half_def)

lemma from_half_simps [simp]:
  "ps_cursor (from_half i b P) = 0" "ps_bundle_id (from_half i b P) = i"
  "ps_base_segment (from_half i b P) = b" "ps_buf (from_half i b P) = P"
  by (simp_all add: from_half_def)

lemma follows_waste: "length (ps_buf s) = PAD_HALF \<Longrightarrow> length P = PAD_HALF \<Longrightarrow> follows_pad P (waste s)"
  by (simp add: follows_pad_def waste_def)

lemma xor_burn_loop_spec:
  "k + length ds \<le> length buf \<Longrightarrow>
    xor_burn_loop ds k buf = Some (xor_bytes ds (slice_of k (k + length ds) buf),
      burn k (k + length ds) buf)"
proof (induction ds arbitrary: k buf)
  case Nil
  then show ?case by (simp add: xor_bytes_def burn_def)
next
  case (Cons d ds)
  have k: "k < length buf" using Cons.prems by simp
  have "xor_burn_loop ds (Suc k) (buf[k := 0]) = Some (xor_bytes ds (slice_of (Suc k) (Suc k + length ds)
      (buf[k := 0])), burn (Suc k) (Suc k + length ds) (buf[k := 0]))"
    using Cons by simp
  moreover have "slice_of (Suc k) (Suc k + length ds) (buf[k := 0]) = slice_of (Suc k) (Suc k + length ds) buf"
    by (simp add: slice_of_def)
  moreover have "slice_of k (k + length (d # ds)) buf = buf ! k # slice_of (Suc k) (Suc k + length ds) buf"
    using k by (simp add: slice_of_def Cons_nth_drop_Suc [symmetric])
  moreover have "burn (Suc k) (Suc k + length ds) (buf[k := 0]) = burn k (k + length (d # ds)) buf"
    using k by (simp add: burn_def take_Suc_conv_app_nth)
  ultimately show ?case using k by (simp add: xor_bytes_def)
qed

lemma burn_burn: "i \<le> j \<Longrightarrow> j \<le> k \<Longrightarrow> k \<le> length bs \<Longrightarrow> burn j k (burn i j bs) = burn i k bs"
proof -
  assume a: "i \<le> j" "j \<le> k" "k \<le> length bs"
  then have "replicate (j - i) (0 :: byte) @ replicate (k - j) 0 = replicate (k - i) 0"
    by (simp add: replicate_add [symmetric])
  with a show ?thesis by (simp add: burn_def min_def)
qed

lemma burn_follows:
  assumes "follows_pad P s" "ps_cursor s \<le> n" "n \<le> PAD_HALF"
  shows "burn (ps_cursor s) n (ps_buf s) = replicate n 0 @ drop n P"
proof -
  have "replicate (ps_cursor s) (0 :: byte) @ replicate (n - ps_cursor s) 0 = replicate n 0"
    using assms by (simp add: replicate_add [symmetric])
  then show ?thesis using assms by (simp add: burn_def follows_pad_def)
qed

lemma slice_follows:
  "follows_pad P s \<Longrightarrow> ps_cursor s \<le> i \<Longrightarrow> slice_of i j (ps_buf s) = slice_of i j P"
  by (simp add: slice_of_def follows_pad_def)

lemma take_mac_key_spec:
  assumes "follows_pad P s" "ps_cursor s + 32 \<le> 4096"
  shows "take_mac_key s = Some (pad_key P (ps_cursor s),
    s\<lparr>ps_buf := burn (ps_cursor s) (ps_cursor s + 32) (ps_buf s)\<rparr>)"
  using assms follows_pad_length [OF assms(1)]
  by (simp add: take_mac_key_def pad_consts pad_key_def slice_follows Let_def)

lemma xor_after_key:
  assumes s: "follows_pad P s" and l: "ps_cursor s + 32 + length xs \<le> 4096"
  shows "xor_burn_pad xs (s\<lparr>ps_buf := burn (ps_cursor s) (ps_cursor s + 32) (ps_buf s)\<rparr>) =
    Some (pad_mask P (ps_cursor s) xs, s\<lparr>ps_buf := replicate (ps_cursor s + 32 + length xs) 0
      @ drop (ps_cursor s + 32 + length xs) P\<rparr>)"
proof -
  let ?c = "ps_cursor s" and ?b = "burn (ps_cursor s) (ps_cursor s + 32) (ps_buf s)"
  have len: "length (ps_buf s) = 4096" using follows_pad_length [OF s] by (simp add: PAD_HALF_def)
  then have lb: "length ?b = 4096" using l by (simp add: burn_def)
  have "slice_of (?c + 32) (?c + 32 + length xs) ?b = slice_of (?c + 32) (?c + 32 + length xs) (ps_buf s)"
    using len l by (simp add: burn_def slice_of_def)
  moreover have "burn (?c + 32) (?c + 32 + length xs) ?b = burn ?c (?c + 32 + length xs) (ps_buf s)"
    using len l by (simp add: burn_burn)
  moreover have "burn ?c (?c + 32 + length xs) (ps_buf s) = replicate (?c + 32 + length xs) 0
      @ drop (?c + 32 + length xs) P"
    using l by (intro burn_follows [OF s]) (simp_all add: PAD_HALF_def)
  ultimately show ?thesis
    using lb l by (simp add: xor_burn_pad_def xor_burn_loop_spec MAC_KEY_LEN_def pad_mask_def slice_follows [OF s])
qed

text \<open>The stream after a record of length \<open>l\<close>.\<close>

definition consume :: "bytes \<Rightarrow> nat \<Rightarrow> pad_stream \<Rightarrow> pad_stream" where
  "consume P l s = (let c = ps_cursor s + (32 + l) in
    s\<lparr>ps_buf := replicate c 0 @ drop c P, ps_cursor := c\<rparr>)"

lemma consume_simps [simp]:
  "ps_cursor (consume P l s) = ps_cursor s + (32 + l)"
  "ps_bundle_id (consume P l s) = ps_bundle_id s"
  "ps_base_segment (consume P l s) = ps_base_segment s"
  by (simp_all add: consume_def Let_def)

lemma follows_consume:
  "follows_pad P s \<Longrightarrow> ps_cursor s + (32 + l) \<le> 4096 \<Longrightarrow> follows_pad P (consume P l s)"
  by (simp add: follows_pad_def consume_def Let_def PAD_HALF_def)

lemma ps_fits_iff: "follows_pad P s \<Longrightarrow> ps_fits l s \<longleftrightarrow> ps_cursor s + (32 + l) \<le> 4096"
  by (auto simp: ps_fits_def ps_remaining_def pad_consts follows_pad_def)

lemma length_xor_bytes [simp]: "length (xor_bytes xs ys) = min (length xs) (length ys)"
  by (simp add: xor_bytes_def)

lemma length_pad_mask:
  "length P = 4096 \<Longrightarrow> c + (32 + length xs) \<le> 4096 \<Longrightarrow> length (pad_mask P c xs) = length xs"
  by (simp add: pad_mask_def)

lemma xor_bytes_twice: "length xs \<le> length ys \<Longrightarrow> xor_bytes (xor_bytes xs ys) ys = xs"
  by (rule nth_equalityI) (auto simp: xor_bytes_def xor.assoc)

lemma pad_mask_twice:
  "length P = 4096 \<Longrightarrow> c + (32 + length xs) \<le> 4096 \<Longrightarrow> pad_mask P c (pad_mask P c xs) = xs"
  by (simp add: pad_mask_def xor_bytes_twice)

theorem seal_record_spec:
  assumes s: "follows_pad P s"
  shows "seal_record mac d sq pt s =
    (if pt = [] \<or> 4096 < ps_cursor s + (32 + length pt) then Some (Inl OtpDoesNotFit, s)
     else Some (Inr (pad_record mac P d (ps_bundle_id s) (ps_base_segment s) sq (ps_cursor s) pt),
       consume P (length pt) s))"
proof (cases "pt = [] \<or> 4096 < ps_cursor s + (32 + length pt)")
  case True
  then show ?thesis by (auto simp: seal_record_def ps_fits_iff [OF s] Let_def)
next
  case False
  then have c: "ps_cursor s + 32 \<le> 4096" "ps_cursor s + 32 + length pt \<le> 4096" "pt \<noteq> []" by auto
  then have m: "min (ps_cursor s) 65535 = ps_cursor s" by simp
  show ?thesis
    using c by (simp add: seal_record_def ps_fits_iff [OF s] Let_def take_mac_key_spec [OF s]
        xor_after_key [OF s] m pad_record_def ps_advance_def consume_def MAC_KEY_LEN_def add.assoc)
qed

text \<open>
  What the receiver of a stream accepts: the next record of the pad, and nothing else but what
  carries a tag that verifies under the unused key.
\<close>

definition genuine_record :: "(bytes \<Rightarrow> bytes \<Rightarrow> bytes) \<Rightarrow> bytes \<Rightarrow> otp_record \<Rightarrow> bool" where
  "genuine_record mac P r \<longleftrightarrow>
    od_tag r = mac (pad_key P (unat (od_pad_offset r))) (mac_input (header_of r) (od_ciphertext r))"

lemma open_record_spec:
  assumes s: "follows_pad P s" and mac: "mac16 mac"
    and r: "otp_decode frame = Inr r" and check: "open_check ex r s = Inr ()"
  shows "open_record mac ex frame s =
    (if genuine_record mac P r
     then Some (Inr (pad_mask P (ps_cursor s) (od_ciphertext r)), consume P (length (od_ciphertext r)) s)
     else Some (Inl OtpTag, s\<lparr>ps_buf := burn (ps_cursor s) (ps_cursor s + 32) (ps_buf s)\<rparr>))"
proof -
  have c: "ps_cursor s + 32 + length (od_ciphertext r) \<le> 4096" and off: "unat (od_pad_offset r) = ps_cursor s"
    using check by (auto simp: open_check_def ps_fits_iff [OF s] split: if_splits)
  have "length (od_tag r) = TAG_LEN" using otp_decode_Inr [OF r] by (simp add: wf_otp_record_def)
  then have eq: "ct_eq_16 (mac (pad_key P (ps_cursor s)) (mac_input (header_of r) (od_ciphertext r))) (od_tag r)
      \<longleftrightarrow> genuine_record mac P r"
    using mac by (auto simp: ct_eq_16_iff genuine_record_def off mac16_def)
  have k: "ps_cursor s + 32 \<le> 4096" using c by simp
  show ?thesis
    using c by (simp add: open_record_def r check take_mac_key_spec [OF s k] eq xor_after_key [OF s]
        ps_advance_def consume_def MAC_KEY_LEN_def Let_def add.assoc)
qed

lemma open_record_total:
  assumes s: "follows_pad P s" and mac: "mac16 mac"
  obtains x s' where "open_record mac ex frame s = Some (x, s')" "length (ps_buf s') = PAD_HALF"
proof (cases "otp_decode frame")
  case (Inl e)
  then show thesis by (intro that [of "Inl (OtpWireErr e)" s])
      (simp_all add: open_record_def follows_pad_length [OF s])
next
  case r: (Inr r)
  show thesis
  proof (cases "open_check ex r s")
    case (Inl e)
    with r show thesis by (intro that [of "Inl e" s]) (simp_all add: open_record_def follows_pad_length [OF s])
  next
    case (Inr u)
    then have check: "open_check ex r s = Inr ()" by simp
    then have c: "ps_cursor s + 32 + length (od_ciphertext r) \<le> 4096"
      by (auto simp: open_check_def ps_fits_iff [OF s] split: if_splits)
    then have "follows_pad P (consume P (length (od_ciphertext r)) s)"
      by (intro follows_consume [OF s]) simp
    note len = follows_pad_length [OF this] follows_pad_length [OF s]
    show thesis
    proof (cases "genuine_record mac P r")
      case True
      then show thesis using that open_record_spec [OF s mac r check] len by simp
    next
      case False
      then show thesis
        using that open_record_spec [OF s mac r check] len c by (simp add: burn_def PAD_HALF_def)
    qed
  qed
qed

end
