(* ===== verification/OtpPump.thy ===== *)
theory OtpPump
  imports OtpPad
begin

text \<open>
  The data pump of the full one-time-pad mode (\<open>crates/otp-fullotp/src/pump.rs\<close>): two directions,
  each with a current stream and possibly the next one, the coordination by \<open>PAD_NEED\<close>,
  \<open>PAD_OFFER\<close>, \<open>PAD_ACK\<close>, and sending and receiving of records. The arrays indexed by
  \<open>direction_index\<close> are functions of the direction. The trait \<open>PadSource\<close> is the record
  \<open>pad_source\<close> of its two operations over a state of its own. Bundle numbers and counters
  wrap, as in a release build; a result \<open>None\<close> is a panic.
\<close>

section \<open>State\<close>

record 'p pad_source =
  sr_next :: "'p \<Rightarrow> (pad_source_error + u64 \<times> bytes) \<times> 'p"
  sr_at :: "u64 \<Rightarrow> 'p \<Rightarrow> (pad_source_error + bytes) \<times> 'p"

datatype pump_action = SendPadNeed | SendPadOffer u64 u64 | SendPadAck u64

datatype send_outcome = SentRecord otp_record nat bool | Backpressure

record received =
  rc_plaintext :: bytes
  rc_need_pad :: bool

record dir_plane =
  dp_current :: pad_stream
  dp_next :: "pad_stream option"

record pump =
  pu_role :: role
  pu_planes :: "direction \<Rightarrow> dir_plane"
  pu_send_seq :: u64
  pu_recv_seq :: u64
  pu_next_bundle_id :: u64
  pu_next_acked :: bool
  pu_pending_ack :: "u64 option"
  pu_session_consumed :: "direction \<Rightarrow> u64"
  pu_closed :: bool

definition pump_new :: "role \<Rightarrow> u64 \<Rightarrow> bytes \<Rightarrow> pump" where
  "pump_new rl base flat = (case split_bundle 0 base flat of (c2s, s2c) \<Rightarrow>
    \<lparr>pu_role = rl,
     pu_planes = (\<lambda>d. \<lparr>dp_current = (if d = ClientToServer then c2s else s2c), dp_next = None\<rparr>),
     pu_send_seq = 0, pu_recv_seq = 0, pu_next_bundle_id = 1, pu_next_acked = False,
     pu_pending_ack = None, pu_session_consumed = (\<lambda>_. 0), pu_closed = False\<rparr>)"

definition pu_current :: "direction \<Rightarrow> pump \<Rightarrow> pad_stream" where
  "pu_current d p = dp_current (pu_planes p d)"

definition pu_next :: "direction \<Rightarrow> pump \<Rightarrow> pad_stream option" where
  "pu_next d p = dp_next (pu_planes p d)"

definition put_current :: "direction \<Rightarrow> pad_stream \<Rightarrow> pump \<Rightarrow> pump" where
  "put_current d s p = p\<lparr>pu_planes := (pu_planes p)(d := (pu_planes p d)\<lparr>dp_current := s\<rparr>)\<rparr>"

definition pu_send_dir :: "pump \<Rightarrow> direction" where
  "pu_send_dir p = send_direction (pu_role p)"

definition pu_recv_dir :: "pump \<Rightarrow> direction" where
  "pu_recv_dir p = opposite (pu_send_dir p)"

section \<open>Closing\<close>

definition fail_waste_all :: "pump \<Rightarrow> pump" where
  "fail_waste_all p =
    p\<lparr>pu_planes := (\<lambda>d. \<lparr>dp_current = waste (dp_current (pu_planes p d)), dp_next = None\<rparr>)\<rparr>"

definition pump_fail :: "pump \<Rightarrow> pump" where
  "pump_fail p = (fail_waste_all p)\<lparr>pu_closed := True\<rparr>"

definition pump_close :: "pump \<Rightarrow> pump" where
  "pump_close p = (if \<not> pu_closed p then pump_fail p else p)"

section \<open>Switching to the next bundle\<close>

definition next_ready_for_send :: "direction \<Rightarrow> pump \<Rightarrow> bool" where
  "next_ready_for_send d p \<longleftrightarrow> pu_next d p \<noteq> None \<and> (pu_role p = Client \<or> pu_next_acked p)"

definition refresh_ack_state :: "pump \<Rightarrow> pump" where
  "refresh_ack_state p =
    (if pu_next ClientToServer p = None \<and> pu_next ServerToClient p = None
     then p\<lparr>pu_next_acked := False\<rparr> else p)"

definition switch_plane :: "direction \<Rightarrow> pad_stream \<Rightarrow> pump \<Rightarrow> pump" where
  "switch_plane d new p = refresh_ack_state
    (p\<lparr>pu_planes := (pu_planes p)(d :=
      \<lparr>dp_current = snd (retire_into (pu_current d p) new), dp_next = None\<rparr>)\<rparr>)"

section \<open>Sending\<close>

definition count_consumed :: "direction \<Rightarrow> nat \<Rightarrow> pump \<Rightarrow> pump" where
  "count_consumed d l p = p\<lparr>pu_session_consumed :=
    (pu_session_consumed p)(d := pu_session_consumed p d + word_of_nat (MAC_KEY_LEN + l))\<rparr>"

text \<open>The part of \<open>send\<close> behind the switch.\<close>

definition send_on_current ::
  "(bytes \<Rightarrow> bytes \<Rightarrow> bytes) \<Rightarrow> direction \<Rightarrow> bytes \<Rightarrow> pump \<Rightarrow> ((send_error + send_outcome) \<times> pump) option" where
  "send_on_current mac d pt p =
    (let l = min (length pt) (max_record_len (pu_current d p)) in
     case seal_record mac d (pu_send_seq p) (take l pt) (pu_current d p) of
       None \<Rightarrow> None
     | Some (Inl _, s) \<Rightarrow> Some (Inl SendInternal, pump_fail (put_current d s p))
     | Some (Inr r, s) \<Rightarrow>
         let p = put_current d s p in
         (case u64_checked_add (pu_send_seq p) 1 of
            None \<Rightarrow> Some (Inl SendSequenceExhausted, pump_close p)
          | Some n \<Rightarrow>
              let p = count_consumed d l (p\<lparr>pu_send_seq := n\<rparr>) in
              Some (Inr (SentRecord r l (below_low_water (pu_current d p))), p)))"

definition pump_send ::
  "(bytes \<Rightarrow> bytes \<Rightarrow> bytes) \<Rightarrow> bytes \<Rightarrow> pump \<Rightarrow> ((send_error + send_outcome) \<times> pump) option" where
  "pump_send mac pt p =
    (if pu_closed p then Some (Inl SendClosed, p)
     else if pt = [] then Some (Inl SendEmptyPlaintext, p)
     else let d = pu_send_dir p in
       if max_record_len (pu_current d p) = 0 then
         (if \<not> next_ready_for_send d p then Some (Inr Backpressure, p)
          else case pu_next d p of
            None \<Rightarrow> None
          | Some new \<Rightarrow> send_on_current mac d pt (switch_plane d new p))
       else send_on_current mac d pt p)"

section \<open>Receiving\<close>

definition receive_on_current ::
  "(bytes \<Rightarrow> bytes \<Rightarrow> bytes) \<Rightarrow> direction \<Rightarrow> otp_record \<Rightarrow> bytes \<Rightarrow> pump \<Rightarrow>
    ((otp_error + received) \<times> pump) option" where
  "receive_on_current mac d peek frame p =
    (let ex = \<lparr>ox_direction = d, ox_bundle_id = ps_bundle_id (pu_current d p),
        ox_base_segment = ps_base_segment (pu_current d p), ox_record_seq = pu_recv_seq p\<rparr> in
     case open_record mac ex frame (pu_current d p) of
       None \<Rightarrow> None
     | Some (Inl e, s) \<Rightarrow> Some (Inl e, pump_fail (put_current d s p))
     | Some (Inr pt, s) \<Rightarrow>
         let p = count_consumed d (length (od_ciphertext peek)) (put_current d s p);
             need = below_low_water (pu_current d p) in
         (case u64_checked_add (pu_recv_seq p) 1 of
            None \<Rightarrow> Some (Inl OtpClosed, pump_close p)
          | Some n \<Rightarrow> Some (Inr \<lparr>rc_plaintext = pt, rc_need_pad = need\<rparr>, p\<lparr>pu_recv_seq := n\<rparr>)))"

definition pump_receive ::
  "(bytes \<Rightarrow> bytes \<Rightarrow> bytes) \<Rightarrow> bytes \<Rightarrow> pump \<Rightarrow> ((otp_error + received) \<times> pump) option" where
  "pump_receive mac frame p =
    (if pu_closed p then Some (Inl OtpClosed, p)
     else let d = pu_recv_dir p in
       case otp_decode frame of
         Inl e \<Rightarrow> Some (Inl (OtpWireErr e), p)
       | Inr peek \<Rightarrow>
           if od_direction peek \<noteq> d then Some (Inl OtpDirection, pump_fail p)
           else if od_bundle_id peek = ps_bundle_id (pu_current d p) + 1 then
             (case pu_next d p of
                None \<Rightarrow> Some (Inl OtpBundle, pump_fail p)
              | Some new \<Rightarrow>
                  if ps_bundle_id new \<noteq> od_bundle_id peek then Some (Inl OtpBundle, pump_fail p)
                  else receive_on_current mac d peek frame (switch_plane d new p))
           else receive_on_current mac d peek frame p)"

section \<open>Coordination\<close>

text \<open>Both directions get the halves of the bundle as their next stream.\<close>

definition put_next :: "u64 \<Rightarrow> u64 \<Rightarrow> bytes \<Rightarrow> pump \<Rightarrow> pump" where
  "put_next bundle base flat p = (case split_bundle bundle base flat of (c2s, s2c) \<Rightarrow>
    p\<lparr>pu_planes := (\<lambda>d. (pu_planes p d)\<lparr>dp_next := Some (if d = ClientToServer then c2s else s2c)\<rparr>),
      pu_next_bundle_id := pu_next_bundle_id p + 1\<rparr>)"

definition pump_prefetch ::
  "'p pad_source \<Rightarrow> pump \<Rightarrow> 'p \<Rightarrow> (pad_source_error + pump_action option) \<times> pump \<times> 'p" where
  "pump_prefetch src p q =
    (let bundle = pu_next_bundle_id p in
     case sr_next src q of
       (Inl e, q) \<Rightarrow> (Inl e, pump_fail p, q)
     | (Inr (base, flat), q) \<Rightarrow>
         (Inr (Some (SendPadOffer bundle base)),
          (put_next bundle base flat p)\<lparr>pu_next_acked := False, pu_pending_ack := Some bundle\<rparr>, q))"

definition server_prefetch ::
  "'p pad_source \<Rightarrow> pump \<Rightarrow> 'p \<Rightarrow> (pad_source_error + pump_action option) \<times> pump \<times> 'p" where
  "server_prefetch src p q =
    (if pu_closed p then (Inr None, p, q)
     else if pu_role p \<noteq> Server then (Inl (Reserve ''coordinator-must-be-server''), pump_fail p, q)
     else if pu_next ClientToServer p \<noteq> None \<or> pu_next ServerToClient p \<noteq> None then (Inr None, p, q)
     else pump_prefetch src p q)"

definition on_pad_offer ::
  "'p pad_source \<Rightarrow> u64 \<Rightarrow> u64 \<Rightarrow> pump \<Rightarrow> 'p \<Rightarrow> (pump_error + pump_action list) \<times> pump \<times> 'p" where
  "on_pad_offer src bundle base p q =
    (if pu_role p \<noteq> Client then (Inl (PumpData OtpClosed), pump_fail p, q)
     else if bundle \<noteq> pu_next_bundle_id p then (Inl (PumpData OtpBundle), pump_fail p, q)
     else if pu_next ClientToServer p \<noteq> None \<or> pu_next ServerToClient p \<noteq> None
     then (Inl (PumpData OtpBundle), pump_fail p, q)
     else case sr_at src base q of
       (Inl e, q) \<Rightarrow> (Inl (PumpSource e), pump_fail p, q)
     | (Inr flat, q) \<Rightarrow> (Inr [SendPadAck bundle], put_next bundle base flat p, q))"

definition on_pad_ack :: "u64 \<Rightarrow> pump \<Rightarrow> (pump_error + pump_action list) \<times> pump" where
  "on_pad_ack bundle p =
    (if pu_role p \<noteq> Server then (Inl (PumpData OtpClosed), pump_fail p)
     else if pu_pending_ack p \<noteq> Some bundle then (Inl (PumpData OtpBundle), pump_fail p)
     else (Inr [], p\<lparr>pu_next_acked := True, pu_pending_ack := None\<rparr>))"

definition pump_control ::
  "'p pad_source \<Rightarrow> pad_control \<Rightarrow> pump \<Rightarrow> 'p \<Rightarrow> (pump_error + pump_action list) \<times> pump \<times> 'p" where
  "pump_control src msg p q =
    (if pu_closed p then (Inl (PumpData OtpClosed), p, q)
     else case msg of
       PadNeed \<Rightarrow>
         if pu_role p \<noteq> Server then (Inl (PumpData OtpClosed), pump_fail p, q)
         else (case server_prefetch src p q of
           (Inl e, p, q) \<Rightarrow> (Inl (PumpSource e), p, q)
         | (Inr a, p, q) \<Rightarrow> (Inr (case a of None \<Rightarrow> [] | Some x \<Rightarrow> [x]), p, q))
     | PadOffer bundle base \<Rightarrow> on_pad_offer src bundle base p q
     | PadAck bundle \<Rightarrow> (case on_pad_ack bundle p of (r, p) \<Rightarrow> (r, p, q))
     | PadClose \<Rightarrow> (Inr [], pump_close p, q))"

section \<open>Runs\<close>

datatype pump_op = OpSend bytes | OpReceive bytes | OpPrefetch | OpControl pad_control | OpShut

datatype otp_event = EvSent otp_record bytes | EvDelivered otp_record bytes | EvQuiet

definition otp_step ::
  "(bytes \<Rightarrow> bytes \<Rightarrow> bytes) \<Rightarrow> 'p pad_source \<Rightarrow> pump_op \<Rightarrow> pump \<Rightarrow> 'p \<Rightarrow> (otp_event \<times> pump \<times> 'p) option" where
  "otp_step mac src ob p q = (case ob of
     OpSend pt \<Rightarrow> (case pump_send mac pt p of
         None \<Rightarrow> None
       | Some (Inr (SentRecord r l _), p) \<Rightarrow> Some (EvSent r (take l pt), p, q)
       | Some (_, p) \<Rightarrow> Some (EvQuiet, p, q))
   | OpReceive frame \<Rightarrow> (case pump_receive mac frame p of
         None \<Rightarrow> None
       | Some (Inr rc, p) \<Rightarrow> (case otp_decode frame of
             Inr r \<Rightarrow> Some (EvDelivered r (rc_plaintext rc), p, q)
           | Inl _ \<Rightarrow> None)
       | Some (_, p) \<Rightarrow> Some (EvQuiet, p, q))
   | OpPrefetch \<Rightarrow> (case server_prefetch src p q of (_, p, q) \<Rightarrow> Some (EvQuiet, p, q))
   | OpControl msg \<Rightarrow> (case pump_control src msg p q of (_, p, q) \<Rightarrow> Some (EvQuiet, p, q))
   | OpShut \<Rightarrow> Some (EvQuiet, pump_close p, q))"

fun pump_run ::
  "(bytes \<Rightarrow> bytes \<Rightarrow> bytes) \<Rightarrow> 'p pad_source \<Rightarrow> pump_op list \<Rightarrow> pump \<Rightarrow> 'p \<Rightarrow>
    (otp_event list \<times> pump \<times> 'p) option" where
  "pump_run mac src [] p q = Some ([], p, q)"
| "pump_run mac src (x # xs) p q = (case otp_step mac src x p q of
     None \<Rightarrow> None
   | Some (e, p, q) \<Rightarrow> (case pump_run mac src xs p q of
       None \<Rightarrow> None
     | Some (es, p, q) \<Rightarrow> Some (e # es, p, q)))"

section \<open>Bundles\<close>

text \<open>
  The bundles that a pump has been given so far, in order: the base and the 8192 bytes of each.
  A stream stands on bundle \<open>k\<close> if it carries its number and base and follows the half of its
  bytes that belongs to the direction.
\<close>

definition half_of :: "direction \<Rightarrow> bytes \<Rightarrow> bytes" where
  "half_of d flat = (if d = ClientToServer then take PAD_HALF flat else drop PAD_HALF flat)"

definition half_base :: "direction \<Rightarrow> u64 \<Rightarrow> u64" where
  "half_base d base = (if d = ClientToServer then base else base + 64)"

definition on_bundle :: "(u64 \<times> bytes) list \<Rightarrow> direction \<Rightarrow> nat \<Rightarrow> pad_stream \<Rightarrow> bool" where
  "on_bundle B d k s \<longleftrightarrow> k < length B \<and> ps_bundle_id s = word_of_nat k \<and>
    ps_base_segment s = half_base d (fst (B ! k)) \<and> follows_pad (half_of d (snd (B ! k))) s"

definition plane_ok :: "(u64 \<times> bytes) list \<Rightarrow> direction \<Rightarrow> dir_plane \<Rightarrow> bool" where
  "plane_ok B d pl \<longleftrightarrow> (case dp_next pl of
     None \<Rightarrow> on_bundle B d (length B - 1) (dp_current pl)
   | Some n \<Rightarrow> 2 \<le> length B \<and> on_bundle B d (length B - 2) (dp_current pl) \<and>
       on_bundle B d (length B - 1) n \<and> ps_cursor n = 0)"

definition pump_ok :: "(u64 \<times> bytes) list \<Rightarrow> pump \<Rightarrow> bool" where
  "pump_ok B p \<longleftrightarrow> B \<noteq> [] \<and> list_all (\<lambda>b. length (snd b) = BUNDLE_BYTES) B \<and>
    pu_next_bundle_id p = word_of_nat (length B) \<and> (\<forall>d. plane_ok B d (pu_planes p d))"

text \<open>What the source promises by its type: bundles of 8192 bytes.\<close>

definition source_ok :: "'p pad_source \<Rightarrow> bool" where
  "source_ok src \<longleftrightarrow>
    (\<forall>q base flat q'. sr_next src q = (Inr (base, flat), q') \<longrightarrow> length flat = BUNDLE_BYTES) \<and>
    (\<forall>q base flat q'. sr_at src base q = (Inr flat, q') \<longrightarrow> length flat = BUNDLE_BYTES)"

lemma source_ok_next: "source_ok src \<Longrightarrow> sr_next src q = (Inr (b, flat), q') \<Longrightarrow> length flat = BUNDLE_BYTES"
  by (auto simp: source_ok_def)

lemma source_ok_at: "source_ok src \<Longrightarrow> sr_at src base q = (Inr flat, q') \<Longrightarrow> length flat = BUNDLE_BYTES"
  unfolding source_ok_def by iprover

lemma pump_ok_new:
  "length flat = BUNDLE_BYTES \<Longrightarrow> pump_ok [(base, flat)] (pump_new rl base flat)"
  by (simp add: pump_ok_def pump_new_def split_bundle_def plane_ok_def on_bundle_def half_base_def
      half_of_def from_half_def follows_pad_def pad_consts)

lemma pump_ok_fields [simp]:
  "pump_ok B (p\<lparr>pu_send_seq := a\<rparr>) = pump_ok B p"
  "pump_ok B (p\<lparr>pu_recv_seq := a\<rparr>) = pump_ok B p"
  "pump_ok B (p\<lparr>pu_next_acked := x\<rparr>) = pump_ok B p"
  "pump_ok B (p\<lparr>pu_pending_ack := y\<rparr>) = pump_ok B p"
  "pump_ok B (p\<lparr>pu_session_consumed := f\<rparr>) = pump_ok B p"
  "pump_ok B (count_consumed d l p) = pump_ok B p"
  "pump_ok B (refresh_ack_state p) = pump_ok B p"
  by (simp_all add: pump_ok_def count_consumed_def refresh_ack_state_def)

text \<open>The number of the bundle a direction stands on.\<close>

definition stands_on :: "(u64 \<times> bytes) list \<Rightarrow> direction \<Rightarrow> pump \<Rightarrow> nat" where
  "stands_on B d p = (if pu_next d p = None then length B - 1 else length B - 2)"

lemma pump_ok_current: "pump_ok B p \<Longrightarrow> on_bundle B d (stands_on B d p) (pu_current d p)"
  by (cases "pu_next d p")
     (auto simp: pump_ok_def plane_ok_def stands_on_def pu_next_def pu_current_def dest: spec [of _ d])

lemma pump_ok_next:
  assumes "pump_ok B p" "pu_next d p = Some n"
  shows "on_bundle B d (length B - 1) n \<and> ps_cursor n = 0 \<and> 2 \<le> length B \<and>
    stands_on B d p + 1 = length B - 1"
proof -
  have "plane_ok B d (pu_planes p d)" using assms(1) by (simp add: pump_ok_def)
  then show ?thesis using assms(2) by (auto simp: plane_ok_def pu_next_def stands_on_def)
qed

lemma pump_ok_half: "pump_ok B p \<Longrightarrow> k < length B \<Longrightarrow> length (half_of d (snd (B ! k))) = 4096"
  by (auto simp: pump_ok_def list_all_length half_of_def pad_consts)

lemma put_current_simps [simp]:
  "pu_current d (put_current d s p) = s"
  "d' \<noteq> d \<Longrightarrow> pu_current d' (put_current d s p) = pu_current d' p"
  "pu_next d' (put_current d s p) = pu_next d' p"
  "pu_role (put_current d s p) = pu_role p" "pu_send_seq (put_current d s p) = pu_send_seq p"
  "pu_recv_seq (put_current d s p) = pu_recv_seq p" "pu_closed (put_current d s p) = pu_closed p"
  "pu_session_consumed (put_current d s p) = pu_session_consumed p"
  "pu_next_acked (put_current d s p) = pu_next_acked p"
  "pu_pending_ack (put_current d s p) = pu_pending_ack p"
  by (simp_all add: put_current_def pu_current_def pu_next_def)

lemma pump_ok_put_current:
  assumes p: "pump_ok B p" and s: "on_bundle B d (stands_on B d p) s"
  shows "pump_ok B (put_current d s p)"
proof -
  have "plane_ok B d' (pu_planes (put_current d s p) d')" for d'
  proof (cases "d' = d")
    case True
    then show ?thesis
      using p s by (auto simp: plane_ok_def put_current_def stands_on_def pu_next_def pump_ok_def
          split: option.splits dest: spec [of _ d])
  next
    case False
    then show ?thesis using p by (simp add: put_current_def pump_ok_def)
  qed
  then show ?thesis using p by (simp add: pump_ok_def put_current_def)
qed

lemma on_bundle_consume:
  "on_bundle B d k s \<Longrightarrow> ps_cursor s + (32 + l) \<le> 4096 \<Longrightarrow>
    on_bundle B d k (consume (half_of d (snd (B ! k))) l s)"
  by (simp add: on_bundle_def follows_consume)

lemma refresh_simps [simp]:
  "pu_current d (refresh_ack_state p) = pu_current d p" "pu_next d (refresh_ack_state p) = pu_next d p"
  "pu_role (refresh_ack_state p) = pu_role p" "pu_send_seq (refresh_ack_state p) = pu_send_seq p"
  "pu_recv_seq (refresh_ack_state p) = pu_recv_seq p" "pu_closed (refresh_ack_state p) = pu_closed p"
  "pu_session_consumed (refresh_ack_state p) = pu_session_consumed p"
  "pu_pending_ack (refresh_ack_state p) = pu_pending_ack p"
  by (simp_all add: refresh_ack_state_def pu_current_def pu_next_def)

lemma switch_simps [simp]:
  "pu_current d (switch_plane d n p) = n" "pu_next d (switch_plane d n p) = None"
  "d' \<noteq> d \<Longrightarrow> pu_current d' (switch_plane d n p) = pu_current d' p"
  "d' \<noteq> d \<Longrightarrow> pu_next d' (switch_plane d n p) = pu_next d' p"
  "pu_role (switch_plane d n p) = pu_role p" "pu_send_seq (switch_plane d n p) = pu_send_seq p"
  "pu_recv_seq (switch_plane d n p) = pu_recv_seq p" "pu_closed (switch_plane d n p) = pu_closed p"
  "pu_session_consumed (switch_plane d n p) = pu_session_consumed p"
  "pu_pending_ack (switch_plane d n p) = pu_pending_ack p"
  unfolding switch_plane_def by (simp_all) (simp_all add: pu_current_def pu_next_def retire_into_def)

lemma pump_ok_switch:
  assumes p: "pump_ok B p" and n: "pu_next d p = Some n"
  shows "pump_ok B (switch_plane d n p)"
proof -
  have "plane_ok B d' (((pu_planes p)(d := \<lparr>dp_current = n, dp_next = None\<rparr>)) d')" for d'
    using p pump_ok_next [OF p n] by (simp add: plane_ok_def pump_ok_def)
  then show ?thesis
    unfolding switch_plane_def retire_into_def snd_conv pump_ok_fields(7)
    using p by (simp add: pump_ok_def)
qed

lemma on_bundle_grow: "on_bundle B d k s \<Longrightarrow> on_bundle (B @ [b]) d k s"
  by (auto simp: on_bundle_def nth_append)

lemma pump_ok_put_next:
  assumes p: "pump_ok B p" and none: "\<And>d. pu_next d p = None" and flat: "length flat = BUNDLE_BYTES"
  shows "pump_ok (B @ [(base, flat)]) (put_next (pu_next_bundle_id p) base flat p)"
proof -
  have cur: "on_bundle (B @ [(base, flat)]) d (length B - 1) (dp_current (pu_planes p d))" for d
    using pump_ok_current [OF p, of d] none [of d] on_bundle_grow by (simp add: stands_on_def pu_current_def)
  have B: "0 < length B" and id: "pu_next_bundle_id p = word_of_nat (length B)"
    using p by (auto simp: pump_ok_def)
  have h: "length (half_of d flat) = PAD_HALF" for d using flat by (simp add: half_of_def pad_consts)
  have new: "on_bundle (B @ [(base, flat)]) d (length B)
      (from_half (pu_next_bundle_id p) (half_base d base) (half_of d flat))" for d
    by (simp add: on_bundle_def id from_half_def half_of_def [symmetric] follows_pad_def h)
  have "plane_ok (B @ [(base, flat)]) d (pu_planes (put_next (pu_next_bundle_id p) base flat p) d)" for d
    using cur [of d] new [of d] B
    by (cases d) (simp_all add: plane_ok_def put_next_def split_bundle_def half_of_def half_base_def Suc_le_eq)
  moreover have "pu_next_bundle_id (put_next (pu_next_bundle_id p) base flat p) = word_of_nat (length (B @ [(base, flat)]))"
    by (simp add: put_next_def split_bundle_def id)
  ultimately show ?thesis using p flat unfolding pump_ok_def by simp
qed

section \<open>What a call does to a pump in order\<close>

lemma max_record_len_fits:
  "0 < l \<Longrightarrow> l \<le> max_record_len s \<Longrightarrow> ps_cursor s + (32 + l) \<le> 4096"
  by (auto simp: max_record_len_def ps_remaining_def pad_consts MAX_CIPHERTEXT_LEN_def)

lemma max_record_len_fresh: "ps_cursor s = 0 \<Longrightarrow> max_record_len s = 4064"
  by (simp add: max_record_len_def ps_remaining_def pad_consts MAX_CIPHERTEXT_LEN_def)

lemma count_simps [simp]:
  "pu_current d' (count_consumed d l p) = pu_current d' p" "pu_next d' (count_consumed d l p) = pu_next d' p"
  "pu_role (count_consumed d l p) = pu_role p" "pu_send_seq (count_consumed d l p) = pu_send_seq p"
  "pu_recv_seq (count_consumed d l p) = pu_recv_seq p" "pu_closed (count_consumed d l p) = pu_closed p"
  "pu_next_acked (count_consumed d l p) = pu_next_acked p"
  "pu_pending_ack (count_consumed d l p) = pu_pending_ack p"
  by (simp_all add: count_consumed_def pu_current_def pu_next_def)

lemma seq_simps [simp]:
  "pu_current d (p\<lparr>pu_send_seq := a\<rparr>) = pu_current d p" "pu_next d (p\<lparr>pu_send_seq := a\<rparr>) = pu_next d p"
  "pu_current d (p\<lparr>pu_recv_seq := a\<rparr>) = pu_current d p" "pu_next d (p\<lparr>pu_recv_seq := a\<rparr>) = pu_next d p"
  by (simp_all add: pu_current_def pu_next_def)

text \<open>The plaintext length of the next record, and the pump after the record.\<close>

definition record_len :: "bytes \<Rightarrow> pad_stream \<Rightarrow> nat" where
  "record_len pt s = min (length pt) (max_record_len s)"

definition after_record :: "(u64 \<times> bytes) list \<Rightarrow> direction \<Rightarrow> nat \<Rightarrow> pump \<Rightarrow> pump" where
  "after_record B d l p =
    put_current d (consume (half_of d (snd (B ! stands_on B d p))) l (pu_current d p)) p"

lemma after_record_simps [simp]:
  "pu_role (after_record B d l p) = pu_role p" "pu_closed (after_record B d l p) = pu_closed p"
  "pu_send_seq (after_record B d l p) = pu_send_seq p"
  "pu_recv_seq (after_record B d l p) = pu_recv_seq p"
  "pu_next d' (after_record B d l p) = pu_next d' p"
  "d' \<noteq> d \<Longrightarrow> pu_current d' (after_record B d l p) = pu_current d' p"
  "pu_current d (after_record B d l p) =
    consume (half_of d (snd (B ! stands_on B d p))) l (pu_current d p)"
  "pu_session_consumed (after_record B d l p) = pu_session_consumed p"
  "pu_next_acked (after_record B d l p) = pu_next_acked p"
  by (simp_all add: after_record_def)

lemma pump_ok_after_record:
  assumes "pump_ok B p" "ps_cursor (pu_current d p) + (32 + l) \<le> 4096"
  shows "pump_ok B (after_record B d l p)"
  unfolding after_record_def
  using on_bundle_consume [OF pump_ok_current [OF assms(1)] assms(2)] assms(1)
  by (intro pump_ok_put_current)

text \<open>The record that a pump sends next.\<close>

definition next_record ::
  "(bytes \<Rightarrow> bytes \<Rightarrow> bytes) \<Rightarrow> (u64 \<times> bytes) list \<Rightarrow> direction \<Rightarrow> bytes \<Rightarrow> pump \<Rightarrow> otp_record" where
  "next_record mac B d pt p = (let k = stands_on B d p in
    pad_record mac (half_of d (snd (B ! k))) d (word_of_nat k) (half_base d (fst (B ! k)))
      (pu_send_seq p) (ps_cursor (pu_current d p)) pt)"

lemma send_on_current_spec:
  assumes p: "pump_ok B p" and room: "0 < max_record_len (pu_current d p)" and pt: "pt \<noteq> []"
  defines "l \<equiv> record_len pt (pu_current d p)"
  shows "send_on_current mac d pt p = (case u64_checked_add (pu_send_seq p) 1 of
      None \<Rightarrow> Some (Inl SendSequenceExhausted, pump_close (after_record B d l p))
    | Some n \<Rightarrow> let p' = count_consumed d l ((after_record B d l p)\<lparr>pu_send_seq := n\<rparr>) in
        Some (Inr (SentRecord (next_record mac B d (take l pt) p) l (below_low_water (pu_current d p'))), p'))"
    (is "_ = ?r")
    and "0 < l" "l \<le> length pt" "ps_cursor (pu_current d p) + (32 + l) \<le> 4096"
proof -
  show l: "0 < l" "l \<le> length pt" using room pt by (auto simp: l_def record_len_def)
  then show c: "ps_cursor (pu_current d p) + (32 + l) \<le> 4096"
    by (intro max_record_len_fits) (auto simp: l_def record_len_def)
  have b: "on_bundle B d (stands_on B d p) (pu_current d p)" by (rule pump_ok_current [OF p])
  then have f: "follows_pad (half_of d (snd (B ! stands_on B d p))) (pu_current d p)"
    by (simp add: on_bundle_def)
  have len: "length (take l pt) = l" "take l pt \<noteq> []" using l by auto
  have "seal_record mac d (pu_send_seq p) (take l pt) (pu_current d p) =
    Some (Inr (next_record mac B d (take l pt) p), consume (half_of d (snd (B ! stands_on B d p))) l (pu_current d p))"
    using seal_record_spec [OF f, of mac d "pu_send_seq p" "take l pt"] len c b
    by (simp add: next_record_def on_bundle_def Let_def)
  then show "send_on_current mac d pt p = ?r"
    unfolding send_on_current_def record_len_def [symmetric] l_def [symmetric] Let_def
    by (auto simp: after_record_def split: option.split)
qed

text \<open>Where a pump that is asked to send stands: where it is, or at the start of the next bundle.\<close>

definition sending_from :: "direction \<Rightarrow> pump \<Rightarrow> pump option" where
  "sending_from d p =
    (if max_record_len (pu_current d p) = 0 then
       (if next_ready_for_send d p then map_option (\<lambda>n. switch_plane d n p) (pu_next d p) else None)
     else Some p)"

lemma pump_send_from:
  "pump_send mac pt p =
    (if pu_closed p then Some (Inl SendClosed, p)
     else if pt = [] then Some (Inl SendEmptyPlaintext, p)
     else case sending_from (pu_send_dir p) p of
       None \<Rightarrow> Some (Inr Backpressure, p)
     | Some p' \<Rightarrow> send_on_current mac (pu_send_dir p) pt p')"
  by (auto simp: pump_send_def sending_from_def Let_def next_ready_for_send_def)

lemma sending_from_ok:
  assumes p: "pump_ok B p" and f: "sending_from d p = Some p'"
  shows "pump_ok B p' \<and> 0 < max_record_len (pu_current d p') \<and>
    pu_role p' = pu_role p \<and> pu_closed p' = pu_closed p \<and> pu_send_seq p' = pu_send_seq p \<and>
    pu_recv_seq p' = pu_recv_seq p \<and> pu_session_consumed p' = pu_session_consumed p \<and>
    (\<forall>d'. d' \<noteq> d \<longrightarrow> pu_current d' p' = pu_current d' p \<and> pu_next d' p' = pu_next d' p) \<and>
    (p' = p \<or> stands_on B d p' = stands_on B d p + 1 \<and> ps_cursor (pu_current d p') = 0)"
proof (cases "max_record_len (pu_current d p) = 0")
  case False
  then show ?thesis using p f by (auto simp: sending_from_def)
next
  case True
  then obtain n where n: "pu_next d p = Some n" and p': "p' = switch_plane d n p"
    using f by (auto simp: sending_from_def split: if_splits)
  show ?thesis
    using pump_ok_next [OF p n] pump_ok_switch [OF p n]
    by (simp add: p' max_record_len_fresh stands_on_def n)
qed

text \<open>A dead pump holds no material: no next streams, only zeros, the cursors at the end.\<close>

definition dead :: "pump \<Rightarrow> bool" where
  "dead p \<longleftrightarrow> pu_closed p \<and> (\<forall>d. pu_next d p = None \<and> ps_cursor (pu_current d p) = PAD_HALF \<and>
    set (ps_buf (pu_current d p)) \<subseteq> {0})"

lemma dead_fail [simp]: "dead (pump_fail p)"
  by (auto simp: dead_def pump_fail_def fail_waste_all_def pu_next_def pu_current_def waste_def)

lemma dead_close [simp]: "\<not> pu_closed p \<Longrightarrow> dead (pump_close p)"
  by (simp add: pump_close_def)

lemma dead_closed: "dead p \<Longrightarrow> pu_closed p"
  by (simp add: dead_def)

text \<open>What it takes for a frame to be delivered.\<close>

definition accepts ::
  "(bytes \<Rightarrow> bytes \<Rightarrow> bytes) \<Rightarrow> (u64 \<times> bytes) list \<Rightarrow> direction \<Rightarrow> otp_record \<Rightarrow> pump \<Rightarrow> bool" where
  "accepts mac B d r p \<longleftrightarrow> (let k = stands_on B d p in
    od_direction r = d \<and> od_bundle_id r = word_of_nat k \<and>
    od_base_segment r = half_base d (fst (B ! k)) \<and> od_record_seq r = pu_recv_seq p \<and>
    unat (od_pad_offset r) = ps_cursor (pu_current d p) \<and>
    genuine_record mac (half_of d (snd (B ! k))) r)"

definition plaintext_of :: "(u64 \<times> bytes) list \<Rightarrow> direction \<Rightarrow> otp_record \<Rightarrow> pump \<Rightarrow> bytes" where
  "plaintext_of B d r p = pad_mask (half_of d (snd (B ! stands_on B d p))) (ps_cursor (pu_current d p))
    (od_ciphertext r)"

lemma receive_on_current_spec:
  assumes p: "pump_ok B p" and live: "\<not> pu_closed p" and mac: "mac16 mac"
    and r: "otp_decode frame = Inr r"
  shows "if accepts mac B d r p
    then ps_cursor (pu_current d p) + (32 + length (od_ciphertext r)) \<le> 4096 \<and>
      (let p' = count_consumed d (length (od_ciphertext r)) (after_record B d (length (od_ciphertext r)) p) in
       receive_on_current mac d r frame p = (case u64_checked_add (pu_recv_seq p) 1 of
         None \<Rightarrow> Some (Inl OtpClosed, pump_close p')
       | Some n \<Rightarrow> Some (Inr \<lparr>rc_plaintext = plaintext_of B d r p,
           rc_need_pad = below_low_water (pu_current d p')\<rparr>, p'\<lparr>pu_recv_seq := n\<rparr>)))
    else \<exists>e s. receive_on_current mac d r frame p = Some (Inl e, pump_fail (put_current d s p))"
proof -
  let ?k = "stands_on B d p" and ?s = "pu_current d p" and ?P = "half_of d (snd (B ! stands_on B d p))"
  let ?ex = "\<lparr>ox_direction = d, ox_bundle_id = ps_bundle_id ?s, ox_base_segment = ps_base_segment ?s,
    ox_record_seq = pu_recv_seq p\<rparr>"
  have b: "ps_bundle_id ?s = word_of_nat ?k" "ps_base_segment ?s = half_base d (fst (B ! ?k))"
    and f: "follows_pad ?P ?s" using pump_ok_current [OF p, of d] by (simp_all add: on_bundle_def)
  have wf: "unat (od_pad_offset r) + (32 + length (od_ciphertext r)) \<le> 4096"
    using wf_otp_bounds otp_decode_Inr [OF r] by fastforce
  have check: "open_check ?ex r ?s = Inr () \<longleftrightarrow> od_direction r = d \<and> od_bundle_id r = word_of_nat ?k \<and>
      od_base_segment r = half_base d (fst (B ! ?k)) \<and> od_record_seq r = pu_recv_seq p \<and>
      unat (od_pad_offset r) = ps_cursor ?s"
    using wf by (auto simp: open_check_def b ps_fits_iff [OF f])
  show ?thesis
  proof (cases "open_check ?ex r ?s")
    case (Inl e)
    then have "open_record mac ?ex frame ?s = Some (Inl e, ?s)" by (simp add: open_record_def r)
    then have "receive_on_current mac d r frame p = Some (Inl e, pump_fail (put_current d ?s p))"
      by (simp add: receive_on_current_def Let_def)
    moreover have "\<not> accepts mac B d r p" using Inl check by (auto simp: accepts_def Let_def)
    ultimately show ?thesis by auto
  next
    case (Inr u)
    then have ok: "open_check ?ex r ?s = Inr ()" by simp
    note opened = open_record_spec [OF f mac r ok]
    have acc: "accepts mac B d r p \<longleftrightarrow> genuine_record mac ?P r"
      using ok check by (simp add: accepts_def Let_def)
    show ?thesis
    proof (cases "genuine_record mac ?P r")
      case True
      then have o: "open_record mac ?ex frame ?s =
          Some (Inr (plaintext_of B d r p), consume ?P (length (od_ciphertext r)) ?s)"
        using opened by (simp add: plaintext_of_def)
      show ?thesis
        unfolding acc receive_on_current_def Let_def o
        using True wf ok check by (auto simp: after_record_def split: option.split)
    next
      case False
      then show ?thesis using opened acc by (auto simp: receive_on_current_def Let_def)
    qed
  qed
qed

text \<open>Where a pump that gets a frame stands: where it is, or at the start of the next bundle.\<close>

definition receiving_from :: "direction \<Rightarrow> otp_record \<Rightarrow> pump \<Rightarrow> pump option" where
  "receiving_from d r p =
    (if od_direction r \<noteq> d then None
     else if od_bundle_id r = ps_bundle_id (pu_current d p) + 1 then
       (case pu_next d p of None \<Rightarrow> None
        | Some n \<Rightarrow> if ps_bundle_id n \<noteq> od_bundle_id r then None else Some (switch_plane d n p))
     else Some p)"

lemma pump_receive_from:
  assumes "otp_decode frame = Inr r" "\<not> pu_closed p"
  shows "case receiving_from (pu_recv_dir p) r p of
      None \<Rightarrow> \<exists>e. pump_receive mac frame p = Some (Inl e, pump_fail p)
    | Some p' \<Rightarrow> pump_receive mac frame p = receive_on_current mac (pu_recv_dir p) r frame p'"
  using assms by (simp add: pump_receive_def receiving_from_def Let_def split: option.split)

lemma receiving_from_ok:
  assumes p: "pump_ok B p" and f: "receiving_from d r p = Some p'"
  shows "pump_ok B p' \<and> pu_role p' = pu_role p \<and> pu_closed p' = pu_closed p \<and>
    pu_send_seq p' = pu_send_seq p \<and> pu_recv_seq p' = pu_recv_seq p \<and>
    pu_session_consumed p' = pu_session_consumed p \<and>
    (\<forall>d'. d' \<noteq> d \<longrightarrow> pu_current d' p' = pu_current d' p \<and> pu_next d' p' = pu_next d' p) \<and>
    (p' = p \<or> stands_on B d p' = stands_on B d p + 1 \<and> ps_cursor (pu_current d p') = 0)"
proof (cases "od_bundle_id r = ps_bundle_id (pu_current d p) + 1")
  case False
  then show ?thesis using p f by (auto simp: receiving_from_def split: if_splits)
next
  case True
  then obtain n where n: "pu_next d p = Some n" and p': "p' = switch_plane d n p"
    using f by (auto simp: receiving_from_def split: if_splits option.splits)
  show ?thesis
    using pump_ok_next [OF p n] pump_ok_switch [OF p n] by (simp add: p' stands_on_def n)
qed

end
