(* ===== verification/OtpTape.thy ===== *)
theory OtpTape
  imports OtpPump
begin

text \<open>
  Runs of the pump of \<open>crates/otp-fullotp/src/pump.rs\<close>: the tape of records that a pump writes over
  its bundles, the invariant of a run, two pumps in step, and the one-sided stream that stalls.
\<close>

section \<open>The tape of a run\<close>

fun sent_by :: "otp_event list \<Rightarrow> (otp_record \<times> bytes) list" where
  "sent_by [] = []"
| "sent_by (EvSent r pt # es) = (r, pt) # sent_by es"
| "sent_by (_ # es) = sent_by es"

fun delivered_by :: "otp_event list \<Rightarrow> (otp_record \<times> bytes) list" where
  "delivered_by [] = []"
| "delivered_by (EvDelivered r pt # es) = (r, pt) # delivered_by es"
| "delivered_by (_ # es) = delivered_by es"

lemma sent_append: "sent_by (es @ fs) = sent_by es @ sent_by fs"
  by (induction es rule: sent_by.induct) simp_all

lemma delivered_append: "delivered_by (es @ fs) = delivered_by es @ delivered_by fs"
  by (induction es rule: delivered_by.induct) simp_all

lemma length_delivered: "length (delivered_by es) \<le> length es"
  by (induction es rule: delivered_by.induct) simp_all

text \<open>
  A cell of the tape: bundle, offset and plaintext of a record. \<open>past\<close> says that a cell ends before
  a position. The tape of cells is the list of records and plaintexts they stand for.
\<close>

type_synonym cell = "nat \<times> nat \<times> bytes"

fun past :: "cell \<Rightarrow> nat \<times> nat \<Rightarrow> bool" where
  "past (k, c, pt) (k', c') \<longleftrightarrow> k < k' \<or> k = k' \<and> c + (32 + length pt) \<le> c'"

fun cell_record ::
  "(bytes \<Rightarrow> bytes \<Rightarrow> bytes) \<Rightarrow> (u64 \<times> bytes) list \<Rightarrow> direction \<Rightarrow> nat \<Rightarrow> cell \<Rightarrow> otp_record \<times> bytes" where
  "cell_record mac B d i (k, c, pt) = (pad_record mac (half_of d (snd (B ! k))) d (word_of_nat k)
     (half_base d (fst (B ! k))) (word_of_nat i) c pt, pt)"

definition tape ::
  "(bytes \<Rightarrow> bytes \<Rightarrow> bytes) \<Rightarrow> (u64 \<times> bytes) list \<Rightarrow> direction \<Rightarrow> cell list \<Rightarrow> (otp_record \<times> bytes) list" where
  "tape mac B d G = map2 (cell_record mac B d) [0..<length G] G"

fun cell_ok :: "(u64 \<times> bytes) list \<Rightarrow> cell \<Rightarrow> bool" where
  "cell_ok B (k, c, pt) \<longleftrightarrow> k < length B \<and> pt \<noteq> [] \<and> c + (32 + length pt) \<le> 4096"

definition cells_ok :: "(u64 \<times> bytes) list \<Rightarrow> cell list \<Rightarrow> bool" where
  "cells_ok B G \<longleftrightarrow> list_all (cell_ok B) G \<and> sorted_wrt (\<lambda>g h. past g (fst h, fst (snd h))) G"

lemma tape_Nil [simp]: "tape mac B d [] = []"
  by (simp add: tape_def)

lemma length_tape [simp]: "length (tape mac B d G) = length G"
  by (simp add: tape_def)

lemma tape_snoc: "tape mac B d (G @ [g]) = tape mac B d G @ [cell_record mac B d (length G) g]"
  by (simp add: tape_def)

lemma nth_tape: "i < length G \<Longrightarrow> tape mac B d G ! i = cell_record mac B d i (G ! i)"
  by (simp add: tape_def)

lemma tape_grow: "list_all (cell_ok B) G \<Longrightarrow> tape mac (B @ [b]) d G = tape mac B d G"
  by (rule nth_equalityI)
     (auto simp: nth_tape list_all_length nth_append elim!: cell_ok.elims dest!: spec)

lemma past_fields:
  "past g pos \<longleftrightarrow> fst g < fst pos \<or>
    fst g = fst pos \<and> fst (snd g) + (32 + length (snd (snd g))) \<le> snd pos"
  by (cases g; cases pos) simp

lemma past_trans: "past g (k, c) \<Longrightarrow> k < k' \<or> k = k' \<and> c \<le> c' \<Longrightarrow> past g (k', c')"
  by (cases g) auto

definition consumed_in :: "(otp_record \<times> bytes) list \<Rightarrow> nat" where
  "consumed_in xs = sum_list (map (\<lambda>(r, _). 32 + length (od_ciphertext r)) xs)"

lemma consumed_in_simps [simp]:
  "consumed_in [] = 0"
  "consumed_in (xs @ [(r, pt)]) = consumed_in xs + (32 + length (od_ciphertext r))"
  by (simp_all add: consumed_in_def)

definition position :: "(u64 \<times> bytes) list \<Rightarrow> direction \<Rightarrow> pump \<Rightarrow> nat \<times> nat" where
  "position B d p = (stands_on B d p, ps_cursor (pu_current d p))"

text \<open>
  The invariant of a run: the events so far, the bundles received so far, the cells used so far.
\<close>

definition run_ok ::
  "(bytes \<Rightarrow> bytes \<Rightarrow> bytes) \<Rightarrow> role \<Rightarrow> (u64 \<times> bytes) list \<Rightarrow> cell list \<Rightarrow> otp_event list \<Rightarrow> pump \<Rightarrow> bool" where
  "run_ok mac rl B G es p \<longleftrightarrow>
    (let d = send_direction rl in
     pu_role p = rl \<and> sent_by es = tape mac B d G \<and> cells_ok B G \<and>
     list_all (\<lambda>b. length (snd b) = BUNDLE_BYTES) B \<and>
     pu_session_consumed p d = word_of_nat (consumed_in (sent_by es)) \<and>
     pu_session_consumed p (opposite d) = word_of_nat (consumed_in (delivered_by es)) \<and>
     (if pu_closed p then dead p
      else pump_ok B p \<and> (\<forall>g\<in>set G. past g (position B d p)) \<and>
        pu_send_seq p = word_of_nat (length G) \<and>
        pu_recv_seq p = word_of_nat (length (delivered_by es))))"

lemma pump_new_simps [simp]:
  "pu_role (pump_new rl base flat) = rl" "pu_closed (pump_new rl base flat) = False"
  "pu_send_seq (pump_new rl base flat) = 0" "pu_recv_seq (pump_new rl base flat) = 0"
  "pu_session_consumed (pump_new rl base flat) d = 0" "pu_next d (pump_new rl base flat) = None"
  by (simp_all add: pump_new_def split_bundle_def pu_next_def)

lemma run_ok_new:
  "length flat = BUNDLE_BYTES \<Longrightarrow> run_ok mac rl [(base, flat)] [] [] (pump_new rl base flat)"
  using pump_ok_new by (simp add: run_ok_def Let_def cells_ok_def)

lemma closing_simps [simp]:
  "pu_role (pump_fail p) = pu_role p" "pu_role (pump_close p) = pu_role p"
  "pu_session_consumed (pump_fail p) = pu_session_consumed p"
  "pu_session_consumed (pump_close p) = pu_session_consumed p"
  "pu_closed (pump_fail p)" "pu_closed (pump_close p)"
  by (simp_all add: pump_fail_def pump_close_def fail_waste_all_def)

text \<open>A quiet step that closes the pump, or leaves every position where it was.\<close>

lemma run_ok_quiet_dead:
  assumes "run_ok mac rl B G es p" "dead p'" "pu_role p' = pu_role p"
    "pu_session_consumed p' = pu_session_consumed p"
  shows "run_ok mac rl B G (es @ [EvQuiet]) p'"
  using assms by (simp add: run_ok_def Let_def sent_append delivered_append dead_closed split: if_splits)

lemma run_ok_quiet:
  assumes "run_ok mac rl B G es p" "\<not> pu_closed p" "\<not> pu_closed p'" "pump_ok B p'"
    "pu_role p' = pu_role p" "pu_session_consumed p' = pu_session_consumed p"
    "pu_send_seq p' = pu_send_seq p" "pu_recv_seq p' = pu_recv_seq p"
    "position B (send_direction rl) p' = position B (send_direction rl) p"
  shows "run_ok mac rl B G (es @ [EvQuiet]) p'"
  using assms by (simp add: run_ok_def Let_def sent_append delivered_append)

lemma run_ok_same: "run_ok mac rl B G es p \<Longrightarrow> run_ok mac rl B G (es @ [EvQuiet]) p"
  by (simp add: run_ok_def Let_def sent_append delivered_append split: if_splits)

lemma seq_advance:
  "n < 2 ^ 64 - 1 \<Longrightarrow> u64_checked_add (word_of_nat n) 1 = Some (word_of_nat (Suc n))"
proof -
  assume n: "n < 2 ^ 64 - 1"
  then have "n mod 2 ^ LENGTH(64) = n" by (intro mod_less) simp
  then have u: "unat (word_of_nat n :: u64) = n" by (simp only: unat_of_nat)
  show ?thesis unfolding u64_checked_add_def u using n by (simp add: add.commute)
qed

lemma length_sent: "length (sent_by es) \<le> length es"
  by (induction es rule: sent_by.induct) simp_all

lemma stands_after [simp]:
  "stands_on B d' (after_record B d l p) = stands_on B d' p"
  "stands_on B d' (count_consumed d l p) = stands_on B d' p"
  "stands_on B d' (p\<lparr>pu_send_seq := n\<rparr>) = stands_on B d' p"
  "stands_on B d' (p\<lparr>pu_recv_seq := n\<rparr>) = stands_on B d' p"
  by (simp_all add: stands_on_def)

lemma consumed_simps [simp]:
  "pu_session_consumed (count_consumed d l p) d = pu_session_consumed p d + word_of_nat (32 + l)"
  "d' \<noteq> d \<Longrightarrow> pu_session_consumed (count_consumed d l p) d' = pu_session_consumed p d'"
  by (simp_all add: count_consumed_def MAC_KEY_LEN_def)

lemma run_ok_send:
  assumes ok: "run_ok mac rl B G es p" and few: "length es < 2 ^ 64 - 1"
  shows "\<exists>e p' G'. otp_step mac src (OpSend pt) p q = Some (e, p', q) \<and> run_ok mac rl B G' (es @ [e]) p'"
proof -
  define d where "d = send_direction rl"
  have role: "pu_send_dir p = d" using ok by (simp add: run_ok_def Let_def pu_send_dir_def d_def)
  consider (quiet) x where "pump_send mac pt p = Some (Inl x, p)" | (wait) "pump_send mac pt p = Some (Inr Backpressure, p)"
    | (go) p1 where "\<not> pu_closed p" "pt \<noteq> []" "sending_from d p = Some p1"
        "pump_send mac pt p = send_on_current mac d pt p1"
    unfolding pump_send_from role by (cases "pu_closed p"; cases "pt = []"; cases "sending_from d p") auto
  then show ?thesis
  proof cases
    case quiet
    then show ?thesis using run_ok_same [OF ok] by (auto simp: otp_step_def)
  next
    case wait
    then show ?thesis using run_ok_same [OF ok] by (auto simp: otp_step_def)
  next
    case go
    have p: "pump_ok B p" and len: "pu_send_seq p = word_of_nat (length G)"
      and G: "sent_by es = tape mac B d G" "cells_ok B G" "\<forall>g\<in>set G. past g (position B d p)"
      using ok go(1) by (simp_all add: run_ok_def Let_def d_def)
    note from_ok = sending_from_ok [OF p go(3)]
    then have p1: "pump_ok B p1" and room: "0 < max_record_len (pu_current d p1)" by simp_all
    define l where "l = record_len pt (pu_current d p1)"
    note spec = send_on_current_spec [OF p1 room go(2), folded l_def]
    define k c where "k = stands_on B d p1" and "c = ps_cursor (pu_current d p1)"
    have n: "length G < 2 ^ 64 - 1" using G(1) length_sent [of es] few by simp
    define p2 where "p2 = count_consumed d l ((after_record B d l p1)\<lparr>pu_send_seq := word_of_nat (Suc (length G))\<rparr>)"
    let ?r = "next_record mac B d (take l pt) p1" and ?g = "(k, c, take l pt)"
    have "pump_send mac pt p = Some (Inr (SentRecord ?r l (below_low_water (pu_current d p2))), p2)"
      using go(4) spec(1) from_ok seq_advance [OF n] by (simp add: len p2_def Let_def)
    then have step: "otp_step mac src (OpSend pt) p q = Some (EvSent ?r (take l pt), p2, q)"
      by (simp add: otp_step_def)
    have lt: "length (take l pt) = l" "take l pt \<noteq> []" using spec(2,3) by auto
    have past: "\<forall>g\<in>set G. past g (k, c)"
      using G(3) from_ok past_trans unfolding position_def k_def c_def by fastforce
    have kl: "k < length B" using pump_ok_current [OF p1, of d] by (simp add: on_bundle_def k_def)
    have r: "cell_record mac B d (length G) ?g = (?r, take l pt)"
      using from_ok by (simp add: next_record_def Let_def k_def c_def len)
    have ct: "length (od_ciphertext ?r) = l"
      using length_pad_mask [OF pump_ok_half [OF p1 kl, of d], of c "take l pt"] spec(4) lt
      by (simp add: next_record_def pad_record_def Let_def k_def c_def)
    have cells: "cells_ok B (G @ [?g])"
      using G(2) past kl lt spec(4) by (simp add: cells_ok_def sorted_wrt_append c_def)
    have t: "tape mac B d (G @ [?g]) = tape mac B d G @ [(?r, take l pt)]" by (simp only: tape_snoc r)
    have pos: "position B d p2 = (k, c + (32 + l))" by (simp add: position_def p2_def k_def c_def)
    have past2: "\<forall>g\<in>set (G @ [?g]). past g (k, c + (32 + l))"
      using past past_trans lt by fastforce
    have keep: "pu_role p1 = pu_role p" "pu_closed p1 = pu_closed p" "pu_recv_seq p1 = pu_recv_seq p"
      "pu_session_consumed p1 = pu_session_consumed p" using from_ok by simp_all
    have ok2: "pump_ok B p2" using pump_ok_after_record [OF p1 spec(4)] by (simp add: p2_def)
    have "pu_session_consumed p2 d = word_of_nat (consumed_in (tape mac B d (G @ [?g])))"
      using ok go(1) ct by (simp add: t run_ok_def Let_def d_def [symmetric] p2_def keep G(1))
    moreover have "pu_session_consumed p2 (opposite d) = word_of_nat (consumed_in (delivered_by es))"
      using ok by (simp add: run_ok_def Let_def d_def [symmetric] p2_def keep)
    moreover have "\<not> pu_closed p2" "pu_role p2 = rl" "pu_recv_seq p2 = word_of_nat (length (delivered_by es))"
      "pu_send_seq p2 = word_of_nat (length (G @ [?g]))"
      using ok go(1) by (simp_all add: run_ok_def Let_def p2_def keep)
    moreover have "list_all (\<lambda>b. length (snd b) = BUNDLE_BYTES) B"
      using ok by (simp add: run_ok_def Let_def)
    ultimately have "run_ok mac rl B (G @ [?g]) (es @ [EvSent ?r (take l pt)]) p2"
      using cells ok2 past2
      unfolding run_ok_def Let_def d_def [symmetric] sent_append delivered_append G(1) pos
      by (simp add: t)
    with step show ?thesis by blast
  qed
qed

lemma run_ok_receive:
  assumes ok: "run_ok mac rl B G es p" and few: "length es < 2 ^ 64 - 1" and mac: "mac16 mac"
  shows "\<exists>e p'. otp_step mac src (OpReceive frame) p q = Some (e, p', q) \<and> run_ok mac rl B G (es @ [e]) p'"
proof (cases "pu_closed p \<or> (\<exists>x. otp_decode frame = Inl x)")
  case True
  then have "\<exists>e. pump_receive mac frame p = Some (Inl e, p)"
    by (auto simp: pump_receive_def Let_def)
  then show ?thesis using run_ok_same [OF ok] by (auto simp: otp_step_def)
next
  case False
  then obtain r where live: "\<not> pu_closed p" and r: "otp_decode frame = Inr r"
    by (cases "otp_decode frame") auto
  define d where "d = opposite (send_direction rl)"
  have dir: "pu_recv_dir p = d" "pu_send_dir p = opposite d"
    using ok by (simp_all add: run_ok_def Let_def pu_recv_dir_def pu_send_dir_def d_def)
  have sd: "send_direction rl = opposite d" by (simp add: d_def)
  have dead_case: ?thesis if "pump_receive mac frame p = Some (Inl e, p')" "dead p'" "pu_role p' = pu_role p"
      "pu_session_consumed p' = pu_session_consumed p" for e p'
    using run_ok_quiet_dead [OF ok that(2-4)] that(1) by (auto simp: otp_step_def)
  note start = pump_receive_from [OF r live, of mac, unfolded dir]
  show ?thesis
  proof (cases "receiving_from d r p")
    case None
    then show ?thesis using start dead_case by auto
  next
    case (Some p1)
    have p: "pump_ok B p" using ok live by (simp add: run_ok_def Let_def)
    note from_ok = receiving_from_ok [OF p Some]
    then have p1: "pump_ok B p1" "\<not> pu_closed p1" using live by simp_all
    have keep: "pu_role p1 = pu_role p" "pu_send_seq p1 = pu_send_seq p" "pu_recv_seq p1 = pu_recv_seq p"
      "pu_session_consumed p1 = pu_session_consumed p" using from_ok by simp_all
    have rec: "pump_receive mac frame p = receive_on_current mac d r frame p1" using start Some by simp
    note spec = receive_on_current_spec [OF p1 mac r, of d]
    show ?thesis
    proof (cases "accepts mac B d r p1")
      case False
      then show ?thesis using spec rec dead_case keep by auto
    next
      case True
      let ?l = "length (od_ciphertext r)"
      have n: "length (delivered_by es) < 2 ^ 64 - 1" using length_delivered [of es] few by simp
      have seq: "pu_recv_seq p1 = word_of_nat (length (delivered_by es))"
        using ok live by (simp add: run_ok_def Let_def keep)
      define p2 where "p2 = (count_consumed d ?l (after_record B d ?l p1))\<lparr>pu_recv_seq :=
        word_of_nat (Suc (length (delivered_by es)))\<rparr>"
      let ?pt = "plaintext_of B d r p1"
      have c: "ps_cursor (pu_current d p1) + (32 + ?l) \<le> 4096" using spec True by simp
      have "pump_receive mac frame p = Some (Inr \<lparr>rc_plaintext = ?pt,
          rc_need_pad = below_low_water (pu_current d (count_consumed d ?l (after_record B d ?l p1)))\<rparr>, p2)"
        using spec True seq_advance [OF n] by (simp add: rec p2_def Let_def seq)
      then have step: "otp_step mac src (OpReceive frame) p q = Some (EvDelivered r ?pt, p2, q)"
        by (simp add: otp_step_def r)
      have "pump_ok B p2" using pump_ok_after_record [OF p1(1) c] by (simp add: p2_def)
      moreover have "position B (opposite d) p2 = position B (opposite d) p"
        using from_ok by (simp add: p2_def position_def stands_on_def)
      moreover have "pu_session_consumed p2 d = word_of_nat (consumed_in (delivered_by es) + (32 + ?l))"
        "pu_session_consumed p2 (opposite d) = word_of_nat (consumed_in (sent_by es))"
        using ok by (simp_all add: run_ok_def Let_def sd p2_def keep)
      moreover have "\<not> pu_closed p2" "pu_role p2 = rl" "pu_send_seq p2 = word_of_nat (length G)"
        "pu_recv_seq p2 = word_of_nat (Suc (length (delivered_by es)))"
        using ok live p1(2) by (simp_all add: run_ok_def Let_def p2_def keep)
      ultimately have "run_ok mac rl B G (es @ [EvDelivered r ?pt]) p2"
        using ok live
        unfolding run_ok_def Let_def sd sent_append delivered_append
        by simp
      with step show ?thesis by blast
    qed
  qed
qed

text \<open>A new bundle.\<close>

lemma put_next_simps [simp]:
  "pu_current d (put_next i b f p) = pu_current d p" "pu_next d (put_next i b f p) \<noteq> None"
  "pu_role (put_next i b f p) = pu_role p" "pu_send_seq (put_next i b f p) = pu_send_seq p"
  "pu_recv_seq (put_next i b f p) = pu_recv_seq p" "pu_closed (put_next i b f p) = pu_closed p"
  "pu_session_consumed (put_next i b f p) = pu_session_consumed p"
  by (simp_all add: put_next_def split_bundle_def pu_current_def pu_next_def)

lemma run_ok_grow:
  assumes ok: "run_ok mac rl B G es p" and live: "\<not> pu_closed p" and none: "\<And>d. pu_next d p = None"
    and flat: "length flat = BUNDLE_BYTES"
  shows "run_ok mac rl (B @ [(base, flat)]) G es (put_next (pu_next_bundle_id p) base flat p)"
proof -
  have p: "pump_ok B p" and cells: "list_all (cell_ok B) G"
    using ok live by (simp_all add: run_ok_def Let_def cells_ok_def)
  have "list_all (cell_ok (B @ [(base, flat)])) G"
    using cells by (rule list.pred_mono_strong) auto
  moreover have "position (B @ [(base, flat)]) d (put_next (pu_next_bundle_id p) base flat p) = position B d p" for d
    using none [of d] by (simp add: position_def stands_on_def)
  ultimately show ?thesis
    using ok live flat pump_ok_put_next [OF p none flat] tape_grow [OF cells]
    by (simp add: run_ok_def Let_def cells_ok_def)
qed

lemma run_ok_acks [simp]:
  "run_ok mac rl B G es (p\<lparr>pu_next_acked := x\<rparr>) = run_ok mac rl B G es p"
  "run_ok mac rl B G es (p\<lparr>pu_pending_ack := y\<rparr>) = run_ok mac rl B G es p"
  by (simp_all add: run_ok_def Let_def dead_def position_def stands_on_def pu_next_def pu_current_def)

text \<open>
  What one step takes from the source: nothing (it is not called, or it fails), or one bundle, and
  that only when no next bundle is held, and then both directions hold it as their next one.
\<close>

definition gives :: "'p pad_source \<Rightarrow> pump \<Rightarrow> 'p \<Rightarrow> pump \<Rightarrow> 'p \<Rightarrow> (u64 \<times> bytes) list \<Rightarrow> bool" where
  "gives src p q p' q' C \<longleftrightarrow>
    C = [] \<and> (q' = q \<or> (\<exists>e. sr_next src q = (Inl e, q')) \<or> (\<exists>b e. sr_at src b q = (Inl e, q'))) \<or>
    (\<exists>b f. C = [(b, f)] \<and> (sr_next src q = (Inr (b, f), q') \<or> sr_at src b q = (Inr f, q')) \<and>
      \<not> pu_closed p \<and> (\<forall>d. pu_next d p = None \<and> pu_next d p' \<noteq> None))"

lemma gives_nothing [simp]: "gives src p q p' q []"
  by (simp add: gives_def)

lemma run_ok_prefetch:
  assumes ok: "run_ok mac rl B G es p" and src: "source_ok src"
  obtains r p' q' C where "server_prefetch src p q = (r, p', q')" "run_ok mac rl (B @ C) G (es @ [EvQuiet]) p'"
    "gives src p q p' q' C"
proof -
  consider (same) r where "server_prefetch src p q = (r, p, q)"
    | (die) r q' where "server_prefetch src p q = (r, pump_fail p, q')" "gives src p q (pump_fail p) q' []"
    | (new) r base flat q' where "\<not> pu_closed p" "\<And>d. pu_next d p = None" "length flat = BUNDLE_BYTES"
        "sr_next src q = (Inr (base, flat), q')"
        "server_prefetch src p q = (r, (put_next (pu_next_bundle_id p) base flat p)\<lparr>pu_next_acked := False,
          pu_pending_ack := Some (pu_next_bundle_id p)\<rparr>, q')"
  proof (cases "pu_closed p \<or> pu_role p \<noteq> Server \<or> pu_next ClientToServer p \<noteq> None \<or> pu_next ServerToClient p \<noteq> None")
    case True
    then have "(\<exists>r. server_prefetch src p q = (r, p, q)) \<or> (\<exists>r. server_prefetch src p q = (r, pump_fail p, q))"
      by (auto simp: server_prefetch_def)
    then show thesis using same die [OF _ gives_nothing] by blast
  next
    case False
    then have none: "\<And>d. pu_next d p = None" by (metis direction.exhaust)
    obtain x q' where call: "sr_next src q = (x, q')" by (rule prod.exhaust)
    show thesis
    proof (cases x)
      case (Inl e)
      then have "server_prefetch src p q = (Inl e, pump_fail p, q')"
        using False call by (simp add: server_prefetch_def pump_prefetch_def Let_def)
      then show thesis by (rule die) (use call Inl in \<open>simp add: gives_def\<close>)
    next
      case (Inr bf)
      obtain base flat where bf: "bf = (base, flat)" by (rule prod.exhaust)
      have "length flat = BUNDLE_BYTES"
        using source_ok_next [OF src] call Inr bf by blast
      moreover have "server_prefetch src p q = (Inr (Some (SendPadOffer (pu_next_bundle_id p) base)),
          (put_next (pu_next_bundle_id p) base flat p)\<lparr>pu_next_acked := False,
          pu_pending_ack := Some (pu_next_bundle_id p)\<rparr>, q')"
        using False call Inr bf by (simp add: server_prefetch_def pump_prefetch_def Let_def)
      ultimately show thesis using False none new call Inr bf by blast
    qed
  qed
  then show thesis
  proof cases
    case same
    then show thesis using that [of r p q "[]"] run_ok_same [OF ok] by simp
  next
    case die
    then show thesis using that [OF die(1), of "[]"] run_ok_quiet_dead [OF ok, of "pump_fail p"] by simp
  next
    case new
    have n: "pu_next d (p\<lparr>pu_next_acked := x, pu_pending_ack := y\<rparr>) = pu_next d p" for d p x y
      by (simp add: pu_next_def)
    show thesis
      using run_ok_same [OF run_ok_grow [OF ok new(1-3)]] new(1,2,4)
      by (intro that [OF new(5), of "[(base, flat)]"]) (simp_all add: gives_def n)
  qed
qed

lemma run_ok_control:
  assumes ok: "run_ok mac rl B G es p" and src: "source_ok src"
  obtains r p' q' C where "pump_control src msg p q = (r, p', q')" "run_ok mac rl (B @ C) G (es @ [EvQuiet]) p'"
    "gives src p q p' q' C"
proof -
  note result = that
  have die: thesis if "pump_control src msg p q = (r, pump_fail p, q')" "gives src p q (pump_fail p) q' []" for r q'
    using result [OF that(1), of "[]"] that(2) run_ok_quiet_dead [OF ok, of "pump_fail p"] by simp
  have keep: thesis if "pump_control src msg p q = (r, p', q)" "run_ok mac rl B G (es @ [EvQuiet]) p'" for r p'
    using result [OF that(1), of "[]"] that(2) by simp
  show thesis
  proof (cases "pu_closed p")
    case True
    then have "pump_control src msg p q = (Inl (PumpData OtpClosed), p, q)" by (simp add: pump_control_def)
    then show thesis using keep run_ok_same [OF ok] by blast
  next
    case live: False
    show thesis
    proof (cases msg)
      case PadNeed
      show thesis
      proof (cases "pu_role p = Server")
        case True
        obtain r p' q' C where s: "server_prefetch src p q = (r, p', q')"
          "run_ok mac rl (B @ C) G (es @ [EvQuiet]) p'" "gives src p q p' q' C"
          by (rule run_ok_prefetch [OF ok src])
        have "\<exists>r. pump_control src msg p q = (r, p', q')"
          using live True PadNeed s(1) by (cases r) (simp_all add: pump_control_def)
        then show thesis using that s(2,3) by blast
      next
        case False
        then show thesis using live PadNeed by (intro die [OF _ gives_nothing]) (auto simp: pump_control_def)
      qed
    next
      case (PadOffer i base)
      consider (bad) "pu_role p \<noteq> Client \<or> i \<noteq> pu_next_bundle_id p \<or> pu_next ClientToServer p \<noteq> None \<or>
          pu_next ServerToClient p \<noteq> None"
        | (good) "pu_role p = Client" "i = pu_next_bundle_id p" "\<And>d. pu_next d p = None"
        by (metis direction.exhaust)
      then show thesis
      proof cases
        case bad
        then have "\<exists>r. pump_control src msg p q = (r, pump_fail p, q)"
          using live PadOffer by (auto simp: pump_control_def on_pad_offer_def)
        then show thesis using die [OF _ gives_nothing] by blast
      next
        case good
        obtain x q' where call: "sr_at src base q = (x, q')" by (rule prod.exhaust)
        show thesis
        proof (cases x)
          case (Inl e)
          then show thesis
            using live PadOffer good call
            by (intro die [of "Inl (PumpSource e)" q']) (auto simp: pump_control_def on_pad_offer_def gives_def)
        next
          case (Inr flat)
          then have "length flat = BUNDLE_BYTES" using source_ok_at [OF src] call by blast
          then have "run_ok mac rl (B @ [(base, flat)]) G (es @ [EvQuiet]) (put_next i base flat p)"
            using run_ok_same [OF run_ok_grow [OF ok live good(3)]] good(2) by simp
          moreover have "pump_control src msg p q = (Inr [SendPadAck i], put_next i base flat p, q')"
            using live PadOffer good call Inr by (simp add: pump_control_def on_pad_offer_def)
          moreover have "gives src p q (put_next i base flat p) q' [(base, flat)]"
            using live good(3) call Inr by (simp add: gives_def)
          ultimately show thesis using that by blast
        qed
      qed
    next
      case (PadAck i)
      show thesis
      proof (cases "pu_role p = Server \<and> pu_pending_ack p = Some i")
        case True
        then have "pump_control src msg p q = (Inr [], p\<lparr>pu_next_acked := True, pu_pending_ack := None\<rparr>, q)"
          using live PadAck by (simp add: pump_control_def on_pad_ack_def)
        moreover have "run_ok mac rl B G (es @ [EvQuiet]) (p\<lparr>pu_next_acked := True, pu_pending_ack := None\<rparr>)"
          using run_ok_same [OF ok] by simp
        ultimately show thesis using keep by blast
      next
        case False
        then have "\<exists>r. pump_control src msg p q = (r, pump_fail p, q)"
          using live PadAck by (auto simp: pump_control_def on_pad_ack_def)
        then show thesis using die [OF _ gives_nothing] by blast
      qed
    next
      case PadClose
      then show thesis using live by (intro die [OF _ gives_nothing]) (simp add: pump_control_def pump_close_def)
    qed
  qed
qed

lemma run_ok_step:
  assumes ok: "run_ok mac rl B G es p" and few: "length es < 2 ^ 64 - 1" and mac: "mac16 mac"
    and src: "source_ok src"
  shows "\<exists>e p' q' C G'. otp_step mac src ob p q = Some (e, p', q') \<and>
    run_ok mac rl (B @ C) G' (es @ [e]) p' \<and> gives src p q p' q' C"
proof -
  show ?thesis
  proof (cases ob)
    case (OpSend pt)
    obtain e p' G' where x: "otp_step mac src ob p q = Some (e, p', q)" "run_ok mac rl B G' (es @ [e]) p'"
      using run_ok_send [OF ok few, of src pt q] OpSend by auto
    show ?thesis
      by (intro exI [of _ e] exI [of _ p'] exI [of _ q] exI [of _ "[]"] exI [of _ G']) (simp add: x)
  next
    case (OpReceive frame)
    obtain e p' where x: "otp_step mac src ob p q = Some (e, p', q)" "run_ok mac rl B G (es @ [e]) p'"
      using run_ok_receive [OF ok few mac, of src frame q] OpReceive by auto
    show ?thesis
      by (intro exI [of _ e] exI [of _ p'] exI [of _ q] exI [of _ "[]"] exI [of _ G]) (simp add: x)
  next
    case OpPrefetch
    obtain r p' q' C where "server_prefetch src p q = (r, p', q')"
      "run_ok mac rl (B @ C) G (es @ [EvQuiet]) p'" "gives src p q p' q' C"
      by (rule run_ok_prefetch [OF ok src])
    then show ?thesis using OpPrefetch by (auto simp: otp_step_def)
  next
    case (OpControl msg)
    obtain r p' q' C where "pump_control src msg p q = (r, p', q')"
      "run_ok mac rl (B @ C) G (es @ [EvQuiet]) p'" "gives src p q p' q' C"
      by (rule run_ok_control [OF ok src])
    then show ?thesis using OpControl by (auto simp: otp_step_def)
  next
    case OpShut
    have "run_ok mac rl B G (es @ [EvQuiet]) (pump_close p)"
    proof (cases "pu_closed p")
      case True
      then show ?thesis using run_ok_same [OF ok] by (simp add: pump_close_def)
    next
      case False
      then show ?thesis using run_ok_quiet_dead [OF ok] by simp
    qed
    then show ?thesis using OpShut
      by (intro exI [of _ EvQuiet] exI [of _ "pump_close p"] exI [of _ q] exI [of _ "[]"] exI [of _ G])
         (simp add: otp_step_def)
  qed
qed

section \<open>The bundles the source gave\<close>

text \<open>
  A source that keeps a list of the bundles it has given away, in order. It answers exactly as the
  source it wraps, so a pump runs over it as it runs over that one.
\<close>

definition logged :: "'p pad_source \<Rightarrow> ('p \<times> (u64 \<times> bytes) list) pad_source" where
  "logged src = \<lparr>
    sr_next = (\<lambda>(q, l). case sr_next src q of
      (Inl e, q') \<Rightarrow> (Inl e, (q', l))
    | (Inr b, q') \<Rightarrow> (Inr b, (q', l @ [b]))),
    sr_at = (\<lambda>base (q, l). case sr_at src base q of
      (Inl e, q') \<Rightarrow> (Inl e, (q', l))
    | (Inr f, q') \<Rightarrow> (Inr f, (q', l @ [(base, f)])))\<rparr>"

lemma logged_simps [simp]:
  "sr_next (logged src) (q, l) = (case sr_next src q of
      (Inl e, q') \<Rightarrow> (Inl e, (q', l)) | (Inr b, q') \<Rightarrow> (Inr b, (q', l @ [b])))"
  "sr_at (logged src) base (q, l) = (case sr_at src base q of
      (Inl e, q') \<Rightarrow> (Inl e, (q', l)) | (Inr f, q') \<Rightarrow> (Inr f, (q', l @ [(base, f)])))"
  by (simp_all add: logged_def)

lemma logged_ok: "source_ok src \<Longrightarrow> source_ok (logged src)"
  by (auto simp: source_ok_def split: prod.splits sum.splits; blast)

lemma logged_calls:
  "sr_next (logged src) (q, l) = (Inl e, q', l') \<Longrightarrow> l' = l"
  "sr_at (logged src) b (q, l) = (Inl e, q', l') \<Longrightarrow> l' = l"
  "sr_next (logged src) (q, l) = (Inr x, q', l') \<Longrightarrow> l' = l @ [x]"
  "sr_at (logged src) b (q, l) = (Inr f, q', l') \<Longrightarrow> l' = l @ [(b, f)]"
  by (auto split: prod.splits sum.splits)

lemma logged_gives: "gives (logged src) p (q, l) p' (q', l') C \<Longrightarrow> l' = l @ C"
  by (auto simp: gives_def simp del: logged_simps dest: logged_calls)

definition unlog :: "'e \<times> pump \<times> 'p \<times> (u64 \<times> bytes) list \<Rightarrow> 'e \<times> pump \<times> 'p" where
  "unlog x = (case x of (e, p, q, l) \<Rightarrow> (e, p, q))"

lemma unlog_simp [simp]: "unlog (e, p, q, l) = (e, p, q)"
  by (simp add: unlog_def)

lemma unlog_prefetch: "unlog (server_prefetch (logged src) p (q, l)) = server_prefetch src p q"
  by (auto simp: server_prefetch_def pump_prefetch_def Let_def split: prod.splits sum.splits)

lemma unlog_offer: "unlog (on_pad_offer (logged src) i b p (q, l)) = on_pad_offer src i b p q"
  by (auto simp: on_pad_offer_def split: prod.splits sum.splits)

lemma unlog_control: "unlog (pump_control (logged src) msg p (q, l)) = pump_control src msg p q"
proof -
  obtain r p' q' l' where s: "server_prefetch (logged src) p (q, l) = (r, p', q', l')" by (metis prod_cases4)
  have s': "server_prefetch src p q = (r, p', q')" using unlog_prefetch [of src p q l] by (simp add: s)
  show ?thesis
    by (simp add: pump_control_def s s' unlog_offer split: pad_control.split sum.split prod.split)
qed

lemma unlog_step: "map_option unlog (otp_step mac (logged src) x p (q, l)) = otp_step mac src x p q"
proof (cases x)
  case OpPrefetch
  then show ?thesis
    by (auto simp: otp_step_def unlog_prefetch [of src p q l, symmetric] unlog_def split: prod.splits)
next
  case (OpControl msg)
  then show ?thesis
    by (auto simp: otp_step_def unlog_control [of src msg p q l, symmetric] unlog_def split: prod.splits)
qed (auto simp: otp_step_def split: option.splits sum.splits send_outcome.splits)

lemma unlog_run: "map_option unlog (pump_run mac (logged src) xs p (q, l)) = pump_run mac src xs p q"
proof (induction xs arbitrary: p q l)
  case (Cons x xs)
  show ?case
  proof (cases "otp_step mac (logged src) x p (q, l)")
    case None
    then show ?thesis using unlog_step [of mac src x p q l] by simp
  next
    case (Some y)
    obtain e p1 q1 l1 where y: "y = (e, p1, q1, l1)" by (rule prod_cases4)
    have "otp_step mac src x p q = Some (e, p1, q1)" using unlog_step [of mac src x p q l] by (simp add: Some y)
    then show ?thesis using Cons.IH [of p1 q1 l1, symmetric]
      by (cases "pump_run mac (logged src) xs p1 (q1, l1)") (auto simp: Some y unlog_def split: prod.splits)
  qed
qed simp

text \<open>
  A server to which no data record is delivered: once it holds a second bundle, the next stream of
  the direction it receives on stays, so it takes no third one.
\<close>

definition no_data :: "pump_op \<Rightarrow> bool" where
  "no_data ob \<longleftrightarrow> (case ob of OpReceive _ \<Rightarrow> False | _ \<Rightarrow> True)"

definition one_sided :: "(u64 \<times> bytes) list \<Rightarrow> pump \<Rightarrow> bool" where
  "one_sided B p \<longleftrightarrow> length B = 1 \<or> length B = 2 \<and> (pu_closed p \<or> pu_next ClientToServer p \<noteq> None)"

lemma put_current_next [simp]:
  "pu_next d' (put_current d s p) = pu_next d' p" "pu_closed (put_current d s p) = pu_closed p"
  "pu_next d' (count_consumed d l p) = pu_next d' p" "pu_next d' (p\<lparr>pu_send_seq := n\<rparr>) = pu_next d' p"
  "pu_next d' (p\<lparr>pu_next_acked := x\<rparr>) = pu_next d' p" "pu_next d' (p\<lparr>pu_pending_ack := y\<rparr>) = pu_next d' p"
  by (simp_all add: put_current_def count_consumed_def pu_next_def)

lemma send_on_current_next:
  "send_on_current mac d pt p = Some (r, p') \<Longrightarrow> pu_closed p' \<or> pu_next d' p' = pu_next d' p"
  by (auto simp: send_on_current_def Let_def split: option.splits sum.splits)

lemma prefetch_next:
  assumes "server_prefetch src p q = (r, p', q')" "pu_closed p \<or> pu_next ClientToServer p \<noteq> None"
  shows "pu_closed p' \<or> pu_next ClientToServer p' \<noteq> None"
  using assms by (auto simp: server_prefetch_def split: if_splits)

lemma next_stays:
  assumes st: "otp_step mac src ob p q = Some (e, p', q')" and ob: "no_data ob" and rl: "pu_role p = Server"
    and hold: "pu_closed p \<or> pu_next ClientToServer p \<noteq> None"
  shows "pu_closed p' \<or> pu_next ClientToServer p' \<noteq> None"
proof (cases ob)
  case (OpSend pt)
  obtain r where s: "pump_send mac pt p = Some (r, p')"
    using st OpSend by (auto simp: otp_step_def split: option.splits sum.splits send_outcome.splits prod.splits)
  have d: "pu_send_dir p = ServerToClient" using rl by (simp add: pu_send_dir_def)
  have "pu_next ClientToServer (switch_plane ServerToClient n p) = pu_next ClientToServer p" for n
    by (simp add: switch_plane_def refresh_ack_state_def pu_next_def)
  then show ?thesis
    using s hold send_on_current_next
    by (force simp: pump_send_def d Let_def split: if_splits option.splits)
next
  case (OpControl msg)
  then obtain r where s: "pump_control src msg p q = (r, p', q')"
    using st by (auto simp: otp_step_def split: prod.splits)
  obtain r1 p1 q1 where f: "server_prefetch src p q = (r1, p1, q1)" by (rule prod_cases3)
  show ?thesis
    using s hold prefetch_next [OF f hold] rl
    by (cases r1) (auto simp: pump_control_def f on_pad_offer_def on_pad_ack_def pump_close_def
      split: if_splits pad_control.splits prod.splits)
next
  case OpPrefetch
  then show ?thesis using st hold prefetch_next by (fastforce simp: otp_step_def split: prod.splits)
qed (use st ob hold in \<open>auto simp: otp_step_def no_data_def pump_close_def\<close>)

lemma one_sided_step:
  assumes st: "otp_step mac src ob p q = Some (e, p', q')" and ob: "no_data ob" and rl: "pu_role p = Server"
    and one: "one_sided B p" and g: "gives src p q p' q' C"
  shows "one_sided (B @ C) p'"
  using one g next_stays [OF st ob rl] by (auto simp: one_sided_def gives_def)

lemma run_ok_run:
  assumes "run_ok mac rl B G es p" "length es + length xs < 2 ^ 64 - 1" "mac16 mac" "source_ok src"
  shows "\<exists>fs p' q' C G'. pump_run mac (logged src) xs p (q, l) = Some (fs, p', q', l @ C) \<and>
    run_ok mac rl (B @ C) G' (es @ fs) p' \<and> length C \<le> length xs \<and>
    (rl = Server \<longrightarrow> list_all no_data xs \<longrightarrow> one_sided B p \<longrightarrow> one_sided (B @ C) p')"
  using assms(1,2)
proof (induction xs arbitrary: B G es p q l)
  case Nil
  then show ?case by (intro exI [of _ "[]"] exI [of _ G]) auto
next
  case (Cons x xs)
  have few: "length es < 2 ^ 64 - 1" using Cons.prems(2) by simp
  have role: "pu_role p = rl" using Cons.prems(1) by (simp add: run_ok_def Let_def)
  obtain e p1 q1 l1 C1 G1 where s: "otp_step mac (logged src) x p (q, l) = Some (e, p1, q1, l1)"
    "run_ok mac rl (B @ C1) G1 (es @ [e]) p1" and g: "gives (logged src) p (q, l) p1 (q1, l1) C1"
    using run_ok_step [OF Cons.prems(1) few assms(3) logged_ok [OF assms(4)], of x "(q, l)"]
    by (auto elim!: prod_cases4)
  have C1: "length C1 \<le> 1" using g by (auto simp: gives_def)
  have "length (es @ [e]) + length xs < 2 ^ 64 - 1" using Cons.prems(2) by simp
  from Cons.IH [OF s(2) this, of q1 l1] obtain fs p' q' C G' where
    r: "pump_run mac (logged src) xs p1 (q1, l1) = Some (fs, p', q', l1 @ C)"
      "run_ok mac rl ((B @ C1) @ C) G' ((es @ [e]) @ fs) p'" "length C \<le> length xs"
      "rl = Server \<longrightarrow> list_all no_data xs \<longrightarrow> one_sided (B @ C1) p1 \<longrightarrow> one_sided ((B @ C1) @ C) p'" by blast
  have "rl = Server \<longrightarrow> list_all no_data (x # xs) \<longrightarrow> one_sided B p \<longrightarrow> one_sided ((B @ C1) @ C) p'"
    using one_sided_step [OF s(1) _ _ _ g] r(4) role by auto
  then show ?case using s(1) C1 r(1-3) logged_gives [OF g]
    by (intro exI [of _ "e # fs"] exI [of _ p'] exI [of _ q'] exI [of _ "C1 @ C"] exI [of _ G']) simp
qed

section \<open>Properties\<close>

definition uses_before :: "otp_record \<Rightarrow> otp_record \<Rightarrow> bool" where
  "uses_before r r' \<longleftrightarrow> unat (od_bundle_id r) < unat (od_bundle_id r') \<or>
    od_bundle_id r = od_bundle_id r' \<and>
    unat (od_pad_offset r) + (32 + length (od_ciphertext r)) \<le> unat (od_pad_offset r')"

lemma unat_small: "n < 2 ^ 64 \<Longrightarrow> unat (word_of_nat n :: u64) = n" "m < 2 ^ 16 \<Longrightarrow> unat (word_of_nat m :: u16) = m"
proof -
  assume "n < 2 ^ 64"
  then have "n mod 2 ^ LENGTH(64) = n" by simp
  then show "unat (word_of_nat n :: u64) = n" by (simp only: unat_of_nat)
next
  assume "m < 2 ^ 16"
  then have "m mod 2 ^ LENGTH(16) = m" by simp
  then show "unat (word_of_nat m :: u16) = m" by (simp only: unat_of_nat)
qed

text \<open>A cell and the record it stands for, once its numbers are known to be small.\<close>

lemma cell_record_fields:
  assumes "cell_ok B (k, c, pt)" "length B < 2 ^ 64" "length (half_of d (snd (B ! k))) = 4096"
  shows "unat (od_bundle_id (fst (cell_record mac B d i (k, c, pt)))) = k"
    "unat (od_pad_offset (fst (cell_record mac B d i (k, c, pt)))) = c"
    "length (od_ciphertext (fst (cell_record mac B d i (k, c, pt)))) = length pt"
  using assms unat_small(1) [of k] unat_small(2) [of c] length_pad_mask [OF assms(3)]
  by (simp_all add: pad_record_def)

lemma run_ok_bundles:
  "run_ok mac rl B G es p \<Longrightarrow> sent_by es = tape mac B (send_direction rl) G \<and> cells_ok B G \<and>
    list_all (\<lambda>b. length (snd b) = BUNDLE_BYTES) B"
  by (simp add: run_ok_def Let_def)

lemma run_from_new:
  assumes src: "source_ok src" and mac: "mac16 mac" and flat: "length flat = BUNDLE_BYTES"
    and few: "length xs < 2 ^ 64 - 1"
  obtains es p q' C G where "pump_run mac src xs (pump_new rl base flat) q = Some (es, p, q')"
    "pump_run mac (logged src) xs (pump_new rl base flat) (q, l) = Some (es, p, q', l @ C)"
    "run_ok mac rl ((base, flat) # C) G es p" "length C \<le> length xs"
    "rl = Server \<longrightarrow> list_all no_data xs \<longrightarrow> one_sided ((base, flat) # C) p"
proof -
  have n: "length ([] :: otp_event list) + length xs < 2 ^ 64 - 1" using few by simp
  obtain es p q' C G where r:
    "pump_run mac (logged src) xs (pump_new rl base flat) (q, l) = Some (es, p, q', l @ C)"
    "run_ok mac rl ([(base, flat)] @ C) G ([] @ es) p" "length C \<le> length xs"
    "rl = Server \<longrightarrow> list_all no_data xs \<longrightarrow> one_sided ([(base, flat)] @ C) p"
    using run_ok_run [OF run_ok_new [OF flat] n mac src, of rl base q l]
    by (auto simp: one_sided_def)
  have "pump_run mac src xs (pump_new rl base flat) q = Some (es, p, q')"
    using unlog_run [of mac src xs "pump_new rl base flat" q l] by (simp add: r(1))
  then show thesis using that r by simp
qed

text \<open>The records of a run as records over its bundles.\<close>

lemma run_ok_pads:
  assumes ok: "run_ok mac rl B G es p" and small: "length B < 2 ^ 64"
  shows "list_all (\<lambda>b. length (snd b) = BUNDLE_BYTES) B \<and>
    (\<forall>i < length (sent_by es). case sent_by es ! i of (r, pt) \<Rightarrow>
      (let d = send_direction rl; k = unat (od_bundle_id r); c = unat (od_pad_offset r) in
       k < length B \<and> c + (32 + length pt) \<le> 4096 \<and>
       r = pad_record mac (half_of d (snd (B ! k))) d (od_bundle_id r) (half_base d (fst (B ! k)))
         (word_of_nat i) c pt)) \<and>
    sorted_wrt uses_before (map fst (sent_by es))"
proof -
  define d where "d = send_direction rl"
  have tape: "sent_by es = tape mac B d G" and cells: "cells_ok B G"
    and lens: "list_all (\<lambda>b. length (snd b) = BUNDLE_BYTES) B"
    using run_ok_bundles [OF ok] by (simp_all add: d_def)
  have half: "length (half_of d (snd (B ! k))) = 4096" if "k < length B" for k
    using lens that unfolding list_all_length by (auto simp: half_of_def pad_consts)
  have fields: "unat (od_bundle_id (fst (cell_record mac B d i g))) = fst g"
      "unat (od_pad_offset (fst (cell_record mac B d i g))) = fst (snd g)"
      "length (od_ciphertext (fst (cell_record mac B d i g))) = length (snd (snd g))"
      "fst g < length B" "fst (snd g) + (32 + length (snd (snd g))) \<le> 4096" if "g \<in> set G" for g i
  proof -
    obtain k c pt where g: "g = (k, c, pt)" by (rule prod_cases3)
    have "cell_ok B (k, c, pt)" using that cells g by (simp add: cells_ok_def list_all_iff del: cell_ok.simps)
    then show "unat (od_bundle_id (fst (cell_record mac B d i g))) = fst g"
      "unat (od_pad_offset (fst (cell_record mac B d i g))) = fst (snd g)"
      "length (od_ciphertext (fst (cell_record mac B d i g))) = length (snd (snd g))"
      "fst g < length B" "fst (snd g) + (32 + length (snd (snd g))) \<le> 4096"
      using cell_record_fields [of B k c pt d mac i, OF _ small half] by (simp_all add: g)
  qed
  show ?thesis
  proof (intro conjI allI impI)
    fix i assume "i < length (sent_by es)"
    then have i: "i < length G" by (simp add: tape)
    obtain k c pt where g: "G ! i = (k, c, pt)" by (rule prod_cases3)
    have "(k, c, pt) \<in> set G" using i g by (metis nth_mem)
    from fields [OF this] show "case sent_by es ! i of (r, pt) \<Rightarrow>
      (let d = send_direction rl; k = unat (od_bundle_id r); c = unat (od_pad_offset r) in
       k < length B \<and> c + (32 + length pt) \<le> 4096 \<and>
       r = pad_record mac (half_of d (snd (B ! k))) d (od_bundle_id r) (half_base d (fst (B ! k)))
         (word_of_nat i) c pt)"
      by (simp add: tape nth_tape i g d_def [symmetric] Let_def pad_record_def)
  next
    show "sorted_wrt uses_before (map fst (sent_by es))"
      unfolding sorted_wrt_iff_nth_less
    proof (intro allI impI)
      fix i j assume "i < j" "j < length (map fst (sent_by es))"
      then have ij: "i < j" "j < length G" by (simp_all add: tape)
      then have "past (G ! i) (fst (G ! j), fst (snd (G ! j)))"
        using cells by (simp add: cells_ok_def sorted_wrt_iff_nth_less)
      then show "uses_before (map fst (sent_by es) ! i) (map fst (sent_by es) ! j)"
        using fields [of "G ! i"] fields [of "G ! j"] ij
        by (simp add: past_fields uses_before_def tape nth_tape word_unat_eq_iff)
    qed
  qed (use lens in simp_all)
qed

text \<open>
  C20. Whatever is asked of a pump, no pad byte is used twice. Let B be the bundle of the start
  and then the bundles that the source gave during the run, in the order in which it gave them:
  the records the pump sends carry the numbers 0, 1, 2 and so on, the record that names bundle k
  is the one-time-pad record of its plaintext at its offset in the sending half of the k-th bundle
  of B, key and mask inside that half, and the ranges of later records lie behind those of earlier
  ones, in the same bundle or in a later one.
\<close>

theorem pump_pads_once:
  assumes run: "pump_run mac src xs (pump_new rl base flat) q = Some (es, p, q')"
    and src: "source_ok src" and mac: "mac16 mac" and flat: "length flat = BUNDLE_BYTES"
    and few: "length xs < 2 ^ 64 - 1"
  shows "\<exists>B. pump_run mac (logged src) xs (pump_new rl base flat) (q, [(base, flat)]) = Some (es, p, q', B) \<and>
    hd B = (base, flat) \<and> list_all (\<lambda>b. length (snd b) = BUNDLE_BYTES) B \<and>
    (\<forall>i < length (sent_by es). case sent_by es ! i of (r, pt) \<Rightarrow>
      (let d = send_direction rl; k = unat (od_bundle_id r); c = unat (od_pad_offset r) in
       k < length B \<and> c + (32 + length pt) \<le> 4096 \<and>
       r = pad_record mac (half_of d (snd (B ! k))) d (od_bundle_id r) (half_base d (fst (B ! k)))
         (word_of_nat i) c pt)) \<and>
    sorted_wrt uses_before (map fst (sent_by es))"
proof -
  obtain C G where log: "pump_run mac (logged src) xs (pump_new rl base flat) (q, [(base, flat)]) =
      Some (es, p, q', (base, flat) # C)"
    and ok: "run_ok mac rl ((base, flat) # C) G es p" and C: "length C \<le> length xs"
    by (rule run_from_new [OF src mac flat few, of rl base q "[(base, flat)]"]) (use run in auto)
  have "length ((base, flat) # C) < 2 ^ 64" using C few by simp
  from run_ok_pads [OF ok this] log show ?thesis by (intro exI [of _ "(base, flat) # C"]) simp
qed

text \<open>
  No call of a pump panics, and the accounting is exact: in each direction the session has
  consumed 32 bytes and the plaintext length for every record that was sent or delivered (modulo
  the width of the counter). A pump that is closed, by a call or by a failure, holds no pad byte.
\<close>

theorem pump_accounting:
  assumes "source_ok src" "mac16 mac" "length flat = BUNDLE_BYTES" "length xs < 2 ^ 64 - 1"
  shows "\<exists>es p q'. pump_run mac src xs (pump_new rl base flat) q = Some (es, p, q') \<and>
    pu_session_consumed p (send_direction rl) = word_of_nat (consumed_in (sent_by es)) \<and>
    pu_session_consumed p (opposite (send_direction rl)) = word_of_nat (consumed_in (delivered_by es)) \<and>
    (pu_closed p \<longrightarrow> dead p)"
proof -
  obtain es p q' C G where r: "pump_run mac src xs (pump_new rl base flat) q = Some (es, p, q')"
    "run_ok mac rl ((base, flat) # C) G es p"
    by (rule run_from_new [OF assms])
  then show ?thesis by (auto simp: run_ok_def Let_def)
qed

text \<open>
  C21. A pump answers a frame with an error in two ways. If the frame is malformed, nothing
  happens to the pump: it stays open with all its material. Every other error closes it and wastes
  all its material.
\<close>

theorem pump_receive_errors:
  assumes "pump_ok B p" "\<not> pu_closed p" "mac16 mac" "pump_receive mac frame p = Some (Inl e, p')"
  shows "case otp_decode frame of
      Inl w \<Rightarrow> e = OtpWireErr w \<and> p' = p \<and> \<not> pu_closed p'
    | Inr _ \<Rightarrow> dead p'"
proof (cases "otp_decode frame")
  case (Inl w)
  then show ?thesis using assms by (simp add: pump_receive_def Let_def)
next
  case r: (Inr r)
  note start = pump_receive_from [OF r assms(2), of mac]
  show ?thesis
  proof (cases "receiving_from (pu_recv_dir p) r p")
    case None
    then show ?thesis using start assms(4) r by auto
  next
    case (Some p1)
    note f = receiving_from_ok [OF assms(1) Some]
    then have p1: "pump_ok B p1" "\<not> pu_closed p1" using assms(2) by simp_all
    have "receive_on_current mac (pu_recv_dir p) r frame p1 = Some (Inl e, p')"
      using start Some assms(4) by simp
    then show ?thesis
      using receive_on_current_spec [OF p1 assms(3) r, of "pu_recv_dir p"] r p1(2)
      by (auto simp: Let_def split: if_splits option.splits)
  qed
qed

section \<open>Two pumps\<close>

text \<open>
  A sender and a receiver are in step in a direction if they stand at the same place of the same
  bundle with the same record number, and agree on the bundles that both have.
\<close>

definition in_step :: "(u64 \<times> bytes) list \<Rightarrow> (u64 \<times> bytes) list \<Rightarrow> pump \<Rightarrow> pump \<Rightarrow> bool" where
  "in_step B C p r \<longleftrightarrow> pump_ok B p \<and> pump_ok C r \<and> \<not> pu_closed p \<and> \<not> pu_closed r \<and>
    pu_recv_dir r = pu_send_dir p \<and> pu_send_seq p = pu_recv_seq r \<and>
    position B (pu_send_dir p) p = position C (pu_send_dir p) r \<and>
    (\<forall>i. i < length B \<and> i < length C \<longrightarrow> B ! i = C ! i)"

lemma stands_lt: "pump_ok B p \<Longrightarrow> stands_on B d p < length B"
  using pump_ok_current [of B p d] by (simp add: on_bundle_def)

lemma in_step_switch:
  assumes s: "in_step B C p r" and n: "pu_next (pu_send_dir p) p = Some n" and m: "pu_next (pu_send_dir p) r = Some m"
  shows "in_step B C (switch_plane (pu_send_dir p) n p) (switch_plane (pu_send_dir p) m r)"
proof -
  let ?d = "pu_send_dir p"
  have p: "pump_ok B p" and r: "pump_ok C r" using s by (simp_all add: in_step_def)
  have "stands_on B ?d p = stands_on C ?d r" using s by (simp add: in_step_def position_def)
  then have "position B ?d (switch_plane ?d n p) = position C ?d (switch_plane ?d m r)"
    using pump_ok_next [OF p n] pump_ok_next [OF r m] by (simp add: position_def stands_on_def)
  then show ?thesis
    using s pump_ok_switch [OF p n] pump_ok_switch [OF r m]
    by (simp add: in_step_def pu_send_dir_def pu_recv_dir_def)
qed

lemma deliver_on_current:
  assumes s: "in_step B C p r" and mac: "mac16 mac"
    and sent: "send_on_current mac (pu_send_dir p) pt p = Some (Inr (SentRecord rec l need), p')"
    and room: "0 < max_record_len (pu_current (pu_send_dir p) p)" and pt: "pt \<noteq> []"
  shows "\<exists>r'. receive_on_current mac (pu_send_dir p) rec (otp_encode rec) r =
      Some (Inr \<lparr>rc_plaintext = take l pt, rc_need_pad = need\<rparr>, r') \<and> in_step B C p' r' \<and>
    otp_decode (otp_encode rec) = Inr rec \<and> od_direction rec = pu_send_dir p \<and>
    od_bundle_id rec = word_of_nat (stands_on B (pu_send_dir p) p)"
proof -
  define d where "d = pu_send_dir p"
  define k c where "k = stands_on B d p" and "c = ps_cursor (pu_current d p)"
  have p: "pump_ok B p" and r: "pump_ok C r" and live: "\<not> pu_closed p" "\<not> pu_closed r"
    and dirs: "pu_recv_dir r = d" "pu_send_dir p = d" and seq: "pu_send_seq p = pu_recv_seq r"
    and kr: "stands_on C d r = k" and cr: "ps_cursor (pu_current d r) = c"
    and agree: "\<And>i. i < length B \<Longrightarrow> i < length C \<Longrightarrow> B ! i = C ! i"
    using s by (simp_all add: in_step_def position_def d_def k_def c_def)
  have kB: "k < length B" and kC: "k < length C"
    using stands_lt [OF p, of d] stands_lt [OF r, of d] by (simp_all add: k_def kr)
  have Bk: "C ! k = B ! k" using agree kB kC by simp
  have room': "0 < max_record_len (pu_current d p)" using room by (simp add: d_def)
  note spec = send_on_current_spec [OF p room' pt]
  define l' where "l' = record_len pt (pu_current d p)"
  obtain n where n: "u64_checked_add (pu_send_seq p) 1 = Some n"
    using sent spec(1) [of mac] by (simp add: d_def [symmetric] Let_def split: option.splits)
  define p2 where "p2 = count_consumed d l' ((after_record B d l' p)\<lparr>pu_send_seq := n\<rparr>)"
  have rec: "rec = next_record mac B d (take l' pt) p" and l: "l = l'" and p': "p' = p2"
    and need: "need = below_low_water (pu_current d p2)"
    using sent spec(1) [of mac] n by (auto simp: d_def [symmetric] Let_def l'_def p2_def)
  have len: "length (take l' pt) = l'" "take l' pt \<noteq> []" and c: "c + (32 + l') \<le> 4096"
    using spec(2-4) by (auto simp: l'_def c_def)
  let ?P = "half_of d (snd (B ! k))"
  have P: "length ?P = 4096" by (rule pump_ok_half [OF p kB])
  have rec': "rec = pad_record mac ?P d (word_of_nat k) (half_base d (fst (B ! k))) (pu_recv_seq r) c (take l' pt)"
    by (simp add: rec next_record_def Let_def k_def c_def seq)
  have ct: "od_ciphertext rec = pad_mask ?P c (take l' pt)" and ctl: "length (od_ciphertext rec) = l'"
    using length_pad_mask [OF P, of c "take l' pt"] c len by (simp_all add: rec' pad_record_def)
  have off: "unat (od_pad_offset rec) = c"
    using c unat_small(2) [of c] by (simp add: rec' pad_record_def)
  have "wf_otp_record rec"
    using mac c ctl len off unfolding wf_otp_record_def otp_consts
    by (auto simp: rec' pad_record_def mac16_def TAG_LEN_def)
  then have dec: "otp_decode (otp_encode rec) = Inr rec" by (rule otp_decode_encode)
  have "genuine_record mac ?P rec"
    using off len c ctl ct by (simp add: genuine_record_def header_of_def rec' pad_record_def)
  then have acc: "accepts mac C d rec r"
    by (simp add: accepts_def Let_def kr Bk cr off) (simp add: rec' pad_record_def)
  have plain: "plaintext_of C d rec r = take l' pt"
    using pad_mask_twice [OF P, of c "take l' pt"] c len by (simp add: plaintext_of_def kr Bk cr ct)
  define r2 where "r2 = (count_consumed d l' (after_record C d l' r))\<lparr>pu_recv_seq := n\<rparr>"
  have got: "receive_on_current mac d rec (otp_encode rec) r =
      Some (Inr \<lparr>rc_plaintext = take l' pt, rc_need_pad = below_low_water (pu_current d r2)\<rparr>, r2)"
    using receive_on_current_spec [OF r live(2) mac dec, of d] acc n seq
    by (simp add: ctl plain Let_def r2_def)
  have "below_low_water (pu_current d r2) = need"
    by (simp add: need p2_def r2_def below_low_water_def ps_remaining_def cr c_def)
  moreover have "pump_ok B p2" "pump_ok C r2"
    using pump_ok_after_record [OF p] pump_ok_after_record [OF r] c
    by (simp_all add: p2_def r2_def cr c_def [symmetric])
  moreover have "position B d p2 = position C d r2"
    by (simp add: position_def p2_def r2_def kr cr k_def c_def)
  moreover have "pu_send_dir p2 = d" "pu_recv_dir r2 = d"
    using dirs by (simp_all add: pu_send_dir_def pu_recv_dir_def p2_def r2_def)
  ultimately show ?thesis
    using got dec live agree unfolding dirs(2) in_step_def p' l
    by (auto simp: rec' pad_record_def p2_def r2_def k_def)
qed

text \<open>
  C22. A pump that is in step with the sender delivers every record that the sender makes: exactly
  the plaintext bytes that the record consumed, also when the sender has just switched to the next
  bundle, if the receiver has that bundle; and both stay in step.
\<close>

theorem pump_delivers:
  assumes s: "in_step B C p r" and mac: "mac16 mac"
    and sent: "pump_send mac pt p = Some (Inr (SentRecord rec l need), p')"
    and has: "pu_next (pu_send_dir p) p \<noteq> None \<longrightarrow> pu_next (pu_send_dir p) r \<noteq> None"
  shows "\<exists>r'. pump_receive mac (otp_encode rec) r =
      Some (Inr \<lparr>rc_plaintext = take l pt, rc_need_pad = need\<rparr>, r') \<and> in_step B C p' r'"
proof -
  let ?d = "pu_send_dir p"
  have live: "\<not> pu_closed p" "\<not> pu_closed r" and p: "pump_ok B p" and r: "pump_ok C r"
    and dir: "pu_recv_dir r = ?d" and pos: "stands_on B ?d p = stands_on C ?d r"
    using s by (simp_all add: in_step_def position_def)
  have pt: "pt \<noteq> []" and "sending_from ?d p \<noteq> None"
    using sent live by (auto simp: pump_send_from split: option.splits if_splits)
  then obtain p1 where p1: "sending_from ?d p = Some p1" by blast
  then have sent1: "send_on_current mac ?d pt p1 = Some (Inr (SentRecord rec l need), p')"
    using sent live pt by (simp add: pump_send_from)
  note from_ok = sending_from_ok [OF p p1]
  have d1: "pu_send_dir p1 = ?d" using from_ok by (simp add: pu_send_dir_def)
  have room: "0 < max_record_len (pu_current (pu_send_dir p1) p1)" using from_ok by (simp add: d1)
  have cur: "ps_bundle_id (pu_current ?d r) = word_of_nat (stands_on B ?d p)"
    using pump_ok_current [OF r, of ?d] by (simp add: on_bundle_def pos)
  obtain r1 where step1: "in_step B C p1 r1" and recv: "\<And>x. od_direction x = ?d \<Longrightarrow>
      od_bundle_id x = word_of_nat (stands_on B ?d p1) \<Longrightarrow> receiving_from ?d x r = Some r1"
  proof (cases "max_record_len (pu_current ?d p) = 0")
    case False
    then have "p1 = p" using p1 by (simp add: sending_from_def)
    then show thesis using that [of r] s cur by (simp add: receiving_from_def)
  next
    case True
    then obtain n where n: "pu_next ?d p = Some n" and pn: "p1 = switch_plane ?d n p"
      using p1 by (auto simp: sending_from_def split: if_splits)
    then obtain m where m: "pu_next ?d r = Some m" using has by auto
    have nxt: "stands_on B ?d p1 = stands_on B ?d p + 1" "stands_on B ?d p + 1 = length C - 1"
      using pump_ok_next [OF p n] pump_ok_next [OF r m] pos by (simp_all add: pn stands_on_def)
    have m1: "ps_bundle_id m = word_of_nat (stands_on B ?d p + 1)"
      using pump_ok_next [OF r m] unfolding nxt(2) by (simp add: on_bundle_def)
    show thesis
    proof (rule that [of "switch_plane ?d m r"])
      show "in_step B C p1 (switch_plane ?d m r)" using in_step_switch [OF s n m] by (simp add: pn)
      fix x :: otp_record
      assume x: "od_direction x = ?d" "od_bundle_id x = word_of_nat (stands_on B ?d p1)"
      then have "od_bundle_id x = ps_bundle_id m" "od_bundle_id x = ps_bundle_id (pu_current ?d r) + 1"
        by (simp_all add: m1 nxt(1) cur add.commute)
      then show "receiving_from ?d x r = Some (switch_plane ?d m r)"
        using x(1) m by (simp add: receiving_from_def)
    qed
  qed
  from deliver_on_current [OF step1 mac _ room pt, unfolded d1, OF sent1] obtain r' where
    got: "receive_on_current mac ?d rec (otp_encode rec) r1 =
      Some (Inr \<lparr>rc_plaintext = take l pt, rc_need_pad = need\<rparr>, r')" "in_step B C p' r'"
    "otp_decode (otp_encode rec) = Inr rec" "od_direction rec = ?d"
    "od_bundle_id rec = word_of_nat (stands_on B ?d p1)" by blast
  have "pump_receive mac (otp_encode rec) r = receive_on_current mac ?d rec (otp_encode rec) r1"
    using pump_receive_from [OF got(3) live(2), of mac] recv [OF got(4,5)] by (simp add: dir)
  then show ?thesis using got(1,2) by auto
qed

section \<open>A one-sided stream\<close>

text \<open>A send of what fits into the current stream.\<close>

lemma send_fitting:
  assumes p: "pump_ok B p" and live: "\<not> pu_closed p" and pt: "pt \<noteq> []"
    and fits: "length pt \<le> max_record_len (pu_current (pu_send_dir p) p)"
    and seq: "pu_send_seq p = word_of_nat n" "n < 2 ^ 64 - 1"
  shows "\<exists>need. pump_send mac pt p = Some (Inr (SentRecord (next_record mac B (pu_send_dir p) pt p) (length pt) need),
    count_consumed (pu_send_dir p) (length pt) ((after_record B (pu_send_dir p) (length pt) p)\<lparr>pu_send_seq :=
      word_of_nat (Suc n)\<rparr>))"
proof -
  let ?d = "pu_send_dir p"
  have room: "0 < max_record_len (pu_current ?d p)" using fits pt by (cases pt) auto
  have l: "record_len pt (pu_current ?d p) = length pt" using fits by (simp add: record_len_def)
  have "sending_from ?d p = Some p" using room by (simp add: sending_from_def)
  then have "pump_send mac pt p = send_on_current mac ?d pt p" using live pt by (simp add: pump_send_from)
  then show ?thesis
    using send_on_current_spec(1) [OF p room pt, of mac] seq_advance [OF seq(2)]
    by (simp add: l seq(1) Let_def)
qed

definition stall_op :: "pump_op \<Rightarrow> bool" where
  "stall_op x = (case x of OpSend _ \<Rightarrow> True | OpPrefetch \<Rightarrow> True | OpControl PadNeed \<Rightarrow> True | _ \<Rightarrow> False)"

lemma stalled_run:
  assumes "\<not> pu_closed p" "pu_role p = Server" "max_record_len (pu_current ServerToClient p) = 0"
    "pu_next ServerToClient p = None" "pu_next ClientToServer p \<noteq> None" "list_all stall_op xs"
  shows "pump_run mac src xs p q = Some (replicate (length xs) EvQuiet, p, q)"
  using assms(6)
proof (induction xs)
  case Nil
  then show ?case by simp
next
  case (Cons x xs)
  have "otp_step mac src x p q = Some (EvQuiet, p, q)"
    using Cons.prems assms(1-5)
    by (cases x) (auto simp: stall_op_def otp_step_def pump_send_def Let_def pu_send_dir_def
        next_ready_for_send_def server_prefetch_def pump_control_def split: pad_control.splits)
  then show ?case using Cons by simp
qed

lemma pump_run_Cons:
  "otp_step mac src x p q = Some (e, p1, q1) \<Longrightarrow> pump_run mac src xs p1 q1 = Some (es, p2, q2) \<Longrightarrow>
    pump_run mac src (x # xs) p q = Some (e # es, p2, q2)"
  by simp

text \<open>The two bundles of a server can be used up, and it stays open.\<close>

lemma two_bundles_used:
  assumes flat: "length flat = BUNDLE_BYTES" and src: "sr_next src q = (Inr (base1, flat1), q1)"
    and flat1: "length flat1 = BUNDLE_BYTES" and full: "length a = 4064" "length b = 4064"
  shows "\<exists>r1 r2 p. pump_run mac src [OpPrefetch, OpControl (PadAck 1), OpSend a, OpSend b]
      (pump_new Server base flat) q = Some ([EvQuiet, EvQuiet, EvSent r1 a, EvSent r2 b], p, q1) \<and>
    \<not> pu_closed p \<and> ps_bundle_id (pu_current ServerToClient p) = 1 \<and>
    max_record_len (pu_current ServerToClient p) = 0"
proof -
  let ?p0 = "pump_new Server base flat" and ?S = ServerToClient
  let ?B = "[(base, flat), (base1, flat1)]"
  have n0: "\<And>d. pu_next d ?p0 = None" and i0: "pu_next_bundle_id ?p0 = 1"
    by (simp_all add: pump_new_def split_bundle_def pu_next_def)
  define p1 where "p1 = (put_next 1 base1 flat1 ?p0)\<lparr>pu_next_acked := False, pu_pending_ack := Some 1\<rparr>"
  define p2 where "p2 = p1\<lparr>pu_next_acked := True, pu_pending_ack := None\<rparr>"
  have acks [simp]: "pu_current d (p\<lparr>pu_next_acked := x\<rparr>) = pu_current d p" "pu_next d (p\<lparr>pu_next_acked := x\<rparr>) = pu_next d p"
    "pu_current d (p\<lparr>pu_pending_ack := y\<rparr>) = pu_current d p" "pu_next d (p\<lparr>pu_pending_ack := y\<rparr>) = pu_next d p" for d p x y
    by (simp_all add: pu_current_def pu_next_def)
  have s1: "otp_step mac src OpPrefetch ?p0 q = Some (EvQuiet, p1, q1)"
    using src n0 i0 by (simp add: otp_step_def server_prefetch_def pump_prefetch_def Let_def p1_def)
  have s2: "otp_step mac src (OpControl (PadAck 1)) p1 q1 = Some (EvQuiet, p2, q1)"
    by (simp add: otp_step_def pump_control_def on_pad_ack_def p2_def p1_def)
  have ok2: "pump_ok ?B p2"
    using pump_ok_put_next [OF pump_ok_new [OF flat] n0 flat1, where base = base1] i0
    by (simp add: p2_def p1_def)
  have f2: "\<not> pu_closed p2" "pu_role p2 = Server" "pu_send_seq p2 = 0" "\<And>d. pu_next d p2 \<noteq> None"
    "pu_next_acked p2" "pu_send_dir p2 = ?S" "ps_cursor (pu_current ?S p2) = 0"
    by (simp_all add: p2_def p1_def pu_send_dir_def pump_new_def split_bundle_def pu_current_def put_next_def
        pu_next_def)
  have ab: "a \<noteq> []" "b \<noteq> []" using full by auto
  define p3 where "p3 = count_consumed ?S 4064 ((after_record ?B ?S 4064 p2)\<lparr>pu_send_seq := word_of_nat (Suc 0)\<rparr>)"
  obtain r1 need1 where "pump_send mac a p2 = Some (Inr (SentRecord r1 4064 need1), p3)"
    using send_fitting [OF ok2 f2(1) ab(1), where n = 0 and mac = mac] f2 full
    by (auto simp: p3_def max_record_len_fresh)
  then have s3: "otp_step mac src (OpSend a) p2 q1 = Some (EvSent r1 a, p3, q1)"
    using full by (simp add: otp_step_def)
  have f3: "\<not> pu_closed p3" "pu_role p3 = Server" "pu_send_seq p3 = word_of_nat 1" "\<And>d. pu_next d p3 \<noteq> None"
    "pu_next_acked p3" "pu_send_dir p3 = ?S" "ps_cursor (pu_current ?S p3) = 4096"
    using f2 by (simp_all add: p3_def pu_send_dir_def)
  have ok3: "pump_ok ?B p3" using pump_ok_after_record [OF ok2, of ?S 4064] f2 by (simp add: p3_def)
  obtain n where n: "pu_next ?S p3 = Some n" using f3(4) by blast
  define p4 where "p4 = switch_plane ?S n p3"
  have ok4: "pump_ok ?B p4" unfolding p4_def by (rule pump_ok_switch [OF ok3 n])
  have f4: "\<not> pu_closed p4" "pu_role p4 = Server" "pu_send_seq p4 = word_of_nat 1" "pu_next ?S p4 = None"
    "pu_next ClientToServer p4 \<noteq> None" "pu_send_dir p4 = ?S" "ps_cursor (pu_current ?S p4) = 0"
    using f3 pump_ok_next [OF ok3 n] by (simp_all add: p4_def pu_send_dir_def)
  define p5 where "p5 = count_consumed ?S 4064 ((after_record ?B ?S 4064 p4)\<lparr>pu_send_seq := word_of_nat (Suc 1)\<rparr>)"
  obtain r2 need2 where p4s: "pump_send mac b p4 = Some (Inr (SentRecord r2 4064 need2), p5)"
    using send_fitting [OF ok4 f4(1) ab(2), where n = 1 and mac = mac] f4 full
    by (auto simp: p5_def max_record_len_fresh)
  have m3: "max_record_len (pu_current ?S p3) = 0"
    using f3(7) by (simp add: max_record_len_def ps_remaining_def pad_consts)
  then have "sending_from ?S p3 = Some p4" using f3 n by (simp add: sending_from_def next_ready_for_send_def p4_def)
  moreover have "sending_from ?S p4 = Some p4" using f4(7) by (simp add: sending_from_def max_record_len_fresh)
  ultimately have "pump_send mac b p3 = Some (Inr (SentRecord r2 4064 need2), p5)"
    using p4s f3 f4 ab by (simp add: pump_send_from)
  then have s4: "otp_step mac src (OpSend b) p3 q1 = Some (EvSent r2 b, p5, q1)"
    using full by (simp add: otp_step_def)
  have f5: "\<not> pu_closed p5" "pu_role p5 = Server" "pu_next ?S p5 = None" "pu_next ClientToServer p5 \<noteq> None"
    "max_record_len (pu_current ?S p5) = 0"
    using f4 by (simp_all add: p5_def max_record_len_def ps_remaining_def pad_consts)
  have ok5: "pump_ok ?B p5" using pump_ok_after_record [OF ok4, of ?S 4064] f4 by (simp add: p5_def)
  have "stands_on ?B ?S p5 = 1" using f5(3) by (simp add: stands_on_def)
  then have "ps_bundle_id (pu_current ?S p5) = 1"
    using pump_ok_current [OF ok5, of ?S] by (simp add: on_bundle_def)
  moreover have "pump_run mac src [OpPrefetch, OpControl (PadAck 1), OpSend a, OpSend b] ?p0 q =
    Some ([EvQuiet, EvQuiet, EvSent r1 a, EvSent r2 b], p5, q1)"
    using s1 s2 s3 s4 by simp
  ultimately show ?thesis using f5 by blast
qed

text \<open>The cells of a tape take no more than the bundles hold.\<close>

lemma cells_sum:
  "list_all (cell_ok B) G \<Longrightarrow> sorted_wrt (\<lambda>g h. past g (fst h, fst (snd h))) G \<Longrightarrow>
    \<forall>g\<in>set G. past g (k, c) \<Longrightarrow> sum_list (map (\<lambda>g. 32 + length (snd (snd g))) G) \<le> 4096 * k + c"
proof (induction G arbitrary: k c rule: rev_induct)
  case (snoc g G)
  obtain k1 c1 pt where g: "g = (k1, c1, pt)" by (rule prod_cases3)
  have "sum_list (map (\<lambda>g. 32 + length (snd (snd g))) G) \<le> 4096 * k1 + c1"
    using snoc.prems by (intro snoc.IH) (simp_all add: sorted_wrt_append g)
  moreover have "c1 + (32 + length pt) \<le> 4096" using snoc.prems(1) by (simp add: g)
  moreover have "k1 < k \<or> k1 = k \<and> c1 + (32 + length pt) \<le> c" using snoc.prems(3) by (simp add: g)
  ultimately show ?case by (auto simp: g)
qed simp

lemma run_ok_sum:
  assumes "run_ok mac rl B G es p"
  shows "sum_list (map (\<lambda>(r, pt). 32 + length pt) (sent_by es)) \<le> 4096 * length B"
proof -
  have x: "sent_by es = tape mac B (send_direction rl) G" "cells_ok B G"
    using run_ok_bundles [OF assms] by simp_all
  have "map (\<lambda>(r, pt). 32 + length pt) (sent_by es) = map (\<lambda>g. 32 + length (snd (snd g))) G"
    by (rule nth_equalityI) (auto simp: x(1) nth_tape split: prod.splits elim!: cell_record.elims)
  moreover have "\<forall>g\<in>set G. past g (length B, 0)"
    using x(2) by (auto simp: cells_ok_def list_all_iff past_fields)
  ultimately show ?thesis using cells_sum [of B G "length B" 0] x(2) by (simp add: cells_ok_def)
qed

lemma used_up_stands:
  assumes ok: "run_ok mac Server B G es p" and one: "one_sided B p" and live: "\<not> pu_closed p"
    and second: "ps_bundle_id (pu_current ServerToClient p) = 1"
  shows "pu_role p = Server \<and> pu_next ServerToClient p = None \<and> pu_next ClientToServer p \<noteq> None"
proof -
  have p: "pump_ok B p" "pu_role p = Server" using ok live by (simp_all add: run_ok_def Let_def)
  note on = pump_ok_current [OF p(1), of ServerToClient, unfolded on_bundle_def]
  have B: "length B = 1 \<or> length B = 2 \<and> pu_next ClientToServer p \<noteq> None"
    using one live by (auto simp: one_sided_def)
  have "stands_on B ServerToClient p \<noteq> 0"
  proof
    assume "stands_on B ServerToClient p = 0"
    then have "ps_bundle_id (pu_current ServerToClient p) = 0" using on by simp
    with second show False by simp
  qed
  then have "pu_next ServerToClient p = None" "length B \<noteq> 1"
    using B by (auto simp: stands_on_def split: if_splits)
  then show ?thesis using p(2) B by blast
qed

text \<open>
  C23. A server to which no data record is delivered cannot get past two bundles: whatever sends,
  prefetches, control messages and closings reach it, in whatever order and number, the source
  gives it at most one bundle behind the first, and its records take at most the two server halves,
  8192 bytes of pad in all with the 32 bytes of every key. And once the half of the second bundle
  is used up, an open pump stands still: every further send is held back and every request for a
  bundle, its own or the client's, is answered with nothing, for ever, because the client's half of
  the second bundle is still untouched.
\<close>

theorem one_sided_stream_stalls:
  assumes src: "source_ok src" and mac: "mac16 mac" and flat: "length flat = BUNDLE_BYTES"
    and few: "length xs < 2 ^ 64 - 1" and silent: "list_all no_data xs"
    and run: "pump_run mac src xs (pump_new Server base flat) q = Some (es, p, q')"
  shows "(\<exists>C. pump_run mac (logged src) xs (pump_new Server base flat) (q, []) = Some (es, p, q', C) \<and>
      length C \<le> 1) \<and>
    sum_list (map (\<lambda>(r, pt). 32 + length pt) (sent_by es)) \<le> 2 * PAD_HALF \<and>
    (\<not> pu_closed p \<longrightarrow> ps_bundle_id (pu_current ServerToClient p) = 1 \<longrightarrow>
     max_record_len (pu_current ServerToClient p) = 0 \<longrightarrow> list_all stall_op ys \<longrightarrow>
     pump_run mac src ys p q' = Some (replicate (length ys) EvQuiet, p, q'))"
proof -
  obtain C G where log: "pump_run mac (logged src) xs (pump_new Server base flat) (q, []) = Some (es, p, q', C)"
    and ok: "run_ok mac Server ((base, flat) # C) G es p" and one: "one_sided ((base, flat) # C) p"
    by (rule run_from_new [OF src mac flat few, of Server base q "[]"]) (use run silent in auto)
  have "length C \<le> 1" using one by (auto simp: one_sided_def)
  moreover have "sum_list (map (\<lambda>(r, pt). 32 + length pt) (sent_by es)) \<le> 2 * PAD_HALF"
    using run_ok_sum [OF ok] calculation by (simp add: pad_consts)
  moreover have "pump_run mac src ys p q' = Some (replicate (length ys) EvQuiet, p, q')"
    if "\<not> pu_closed p" "ps_bundle_id (pu_current ServerToClient p) = 1"
      "max_record_len (pu_current ServerToClient p) = 0" "list_all stall_op ys"
    using used_up_stands [OF ok one that(1,2)] that by (intro stalled_run) simp_all
  ultimately show ?thesis using log by blast
qed

section \<open>Examples\<close>

definition zero_mac :: "bytes \<Rightarrow> bytes \<Rightarrow> bytes" where
  "zero_mac key msg = replicate TAG_LEN 0"

definition zero_flat :: bytes where
  "zero_flat = replicate BUNDLE_BYTES 0"

definition zero_source :: "unit pad_source" where
  "zero_source = \<lparr>sr_next = (\<lambda>q. (Inr (128, zero_flat), q)), sr_at = (\<lambda>base q. (Inr zero_flat, q))\<rparr>"

lemma zero_ok: "source_ok zero_source" "mac16 zero_mac" "length zero_flat = BUNDLE_BYTES"
  by (simp_all add: source_ok_def zero_source_def mac16_def zero_mac_def zero_flat_def)

text \<open>A server fills its halves of two bundles; the source gives the second one.\<close>

definition seven_flat :: bytes where
  "seven_flat = replicate BUNDLE_BYTES 7"

definition seven_source :: "unit pad_source" where
  "seven_source = \<lparr>sr_next = (\<lambda>q. (Inr (128, seven_flat), q)), sr_at = (\<lambda>base q. (Inr seven_flat, q))\<rparr>"

lemma seven_ok: "source_ok seven_source" "length seven_flat = BUNDLE_BYTES"
  by (simp_all add: source_ok_def seven_source_def seven_flat_def)

abbreviation fill_ops :: "pump_op list" where
  "fill_ops \<equiv> [OpPrefetch, OpControl (PadAck 1), OpSend (replicate 4064 1), OpSend (replicate 4064 2)]"

lemma seven_run:
  obtains r1 r2 p where
    "pump_run zero_mac (logged seven_source) fill_ops (pump_new Server 0 zero_flat) ((), l) =
      Some ([EvQuiet, EvQuiet, EvSent r1 (replicate 4064 1), EvSent r2 (replicate 4064 2)], p, (), l @ [(128, seven_flat)])"
    "pump_run zero_mac seven_source fill_ops (pump_new Server 0 zero_flat) () =
      Some ([EvQuiet, EvQuiet, EvSent r1 (replicate 4064 1), EvSent r2 (replicate 4064 2)], p, ())"
    "\<not> pu_closed p" "ps_bundle_id (pu_current ServerToClient p) = 1"
    "max_record_len (pu_current ServerToClient p) = 0"
proof -
  have src: "sr_next (logged seven_source) ((), l) = (Inr (128, seven_flat), (), l @ [(128, seven_flat)])"
    by (simp add: seven_source_def)
  obtain r1 r2 p where r: "pump_run zero_mac (logged seven_source) fill_ops (pump_new Server 0 zero_flat) ((), l) =
      Some ([EvQuiet, EvQuiet, EvSent r1 (replicate 4064 1), EvSent r2 (replicate 4064 2)], p, (), l @ [(128, seven_flat)])"
    and p: "\<not> pu_closed p" "ps_bundle_id (pu_current ServerToClient p) = 1"
      "max_record_len (pu_current ServerToClient p) = 0"
    using two_bundles_used [OF zero_ok(3) src seven_ok(2) length_replicate length_replicate] by blast
  have "pump_run zero_mac seven_source fill_ops (pump_new Server 0 zero_flat) () =
      Some ([EvQuiet, EvQuiet, EvSent r1 (replicate 4064 1), EvSent r2 (replicate 4064 2)], p, ())"
    using unlog_run [of zero_mac seven_source fill_ops "pump_new Server 0 zero_flat" "()" l, unfolded r] by simp
  then show thesis using that r p by blast
qed

theorem pump_pads_once_witness:
  "\<exists>r1 r2 p. pump_run zero_mac seven_source fill_ops (pump_new Server 0 zero_flat) () =
      Some ([EvQuiet, EvQuiet, EvSent r1 (replicate 4064 1), EvSent r2 (replicate 4064 2)], p, ()) \<and>
    uses_before r1 r2 \<and> od_bundle_id r2 = 1 \<and>
    r2 = pad_record zero_mac (half_of ServerToClient seven_flat) ServerToClient 1
      (half_base ServerToClient 128) 1 0 (replicate 4064 2)"
proof -
  obtain r1 r2 p where log: "pump_run zero_mac (logged seven_source) fill_ops (pump_new Server 0 zero_flat)
        ((), [(0, zero_flat)]) = Some ([EvQuiet, EvQuiet, EvSent r1 (replicate 4064 1),
          EvSent r2 (replicate 4064 2)], p, (), [(0, zero_flat)] @ [(128, seven_flat)])"
    and run: "pump_run zero_mac seven_source fill_ops (pump_new Server 0 zero_flat) () =
      Some ([EvQuiet, EvQuiet, EvSent r1 (replicate 4064 1), EvSent r2 (replicate 4064 2)], p, ())"
    by (rule seven_run)
  let ?s = "sent_by [EvQuiet, EvQuiet, EvSent r1 (replicate 4064 1), EvSent r2 (replicate 4064 2)]"
  let ?B = "[(0, zero_flat), (128, seven_flat)] :: (u64 \<times> bytes) list" and ?d = ServerToClient
  let ?k = "unat (od_bundle_id r2)" and ?c = "unat (od_pad_offset r2)"
  have few: "length fill_ops < 2 ^ 64 - 1" by simp
  obtain B where B: "pump_run zero_mac (logged seven_source) fill_ops (pump_new Server 0 zero_flat)
        ((), [(0, zero_flat)]) = Some ([EvQuiet, EvQuiet, EvSent r1 (replicate 4064 1),
          EvSent r2 (replicate 4064 2)], p, (), B)"
    and each: "\<forall>i < length ?s. case ?s ! i of (r, pt) \<Rightarrow>
      (let d = send_direction Server; k = unat (od_bundle_id r); c = unat (od_pad_offset r) in
       k < length B \<and> c + (32 + length pt) \<le> 4096 \<and>
       r = pad_record zero_mac (half_of d (snd (B ! k))) d (od_bundle_id r) (half_base d (fst (B ! k)))
         (word_of_nat i) c pt)"
    and s: "sorted_wrt uses_before (map fst ?s)"
    using pump_pads_once [OF run seven_ok(1) zero_ok(2,3) few] by blast
  have "B = ?B" using log B by simp
  with each [rule_format, of 1] have "?k < 2 \<and> ?c = 0 \<and>
      r2 = pad_record zero_mac (half_of ?d (snd (?B ! ?k))) ?d (od_bundle_id r2) (half_base ?d (fst (?B ! ?k)))
        1 ?c (replicate 4064 2)" by (simp add: Let_def cong: conj_cong del: One_nat_def)
  then have r2: "?k < 2" "?c = 0"
      "r2 = pad_record zero_mac (half_of ?d (snd (?B ! ?k))) ?d (od_bundle_id r2) (half_base ?d (fst (?B ! ?k)))
        1 ?c (replicate 4064 2)" by blast+
  have u: "uses_before r1 r2" using s by simp
  have "unat (od_bundle_id r1) \<noteq> ?k" using u r2(2) by (auto simp: uses_before_def)
  then have k: "?k = 1" using u r2(1) by (auto simp: uses_before_def)
  then have "od_bundle_id r2 = 1" by (simp add: word_unat_eq_iff)
  then show ?thesis using run u r2(3) by (auto simp: k r2(2))
qed

theorem pump_accounting_witness:
  "\<exists>es p q'. pump_run zero_mac zero_source [OpSend [7], OpReceive [], OpShut] (pump_new Client 0 zero_flat) ()
      = Some (es, p, q') \<and>
    pu_session_consumed p ClientToServer = word_of_nat (consumed_in (sent_by es))"
  using pump_accounting [OF zero_ok, of "[OpSend [7], OpReceive [], OpShut]" Client 0 "()"] by auto

theorem pump_receive_errors_witness:
  "pump_receive zero_mac [] (pump_new Client 0 zero_flat) =
      Some (Inl (OtpWireErr WTooShort), pump_new Client 0 zero_flat) \<and>
    \<not> pu_closed (pump_new Client 0 zero_flat)"
proof -
  have d: "otp_decode [] = Inl WTooShort" by (simp add: otp_decode_def otp_consts)
  have r: "pump_receive zero_mac [] (pump_new Client 0 zero_flat) =
      Some (Inl (OtpWireErr WTooShort), pump_new Client 0 zero_flat)"
    by (simp add: pump_receive_def d Let_def)
  from pump_receive_errors [OF pump_ok_new [OF zero_ok(3)] _ zero_ok(2) r] r show ?thesis by (simp add: d)
qed

theorem pump_delivers_witness:
  "\<exists>rec need p' r'. pump_send zero_mac [7] (pump_new Client 0 zero_flat) = Some (Inr (SentRecord rec 1 need), p') \<and>
    pump_receive zero_mac (otp_encode rec) (pump_new Server 0 zero_flat) =
      Some (Inr \<lparr>rc_plaintext = [7], rc_need_pad = need\<rparr>, r')"
proof -
  let ?B = "[(0, zero_flat)]" and ?c = "pump_new Client 0 zero_flat" and ?s = "pump_new Server 0 zero_flat"
  have ok: "pump_ok ?B (pump_new rl 0 zero_flat)" for rl by (rule pump_ok_new [OF zero_ok(3)])
  have step: "in_step ?B ?B ?c ?s"
    using ok by (simp add: in_step_def pu_send_dir_def pu_recv_dir_def position_def stands_on_def
        pump_new_def split_bundle_def pu_current_def pu_next_def)
  have "max_record_len (pu_current ClientToServer ?c) = 4064"
    by (rule max_record_len_fresh) (simp add: pump_new_def split_bundle_def pu_current_def)
  then obtain rec need p' where sent: "pump_send zero_mac [7] ?c = Some (Inr (SentRecord rec 1 need), p')"
    using send_fitting [OF ok, of Client "[7]" 0 zero_mac] by (auto simp: pu_send_dir_def)
  from pump_delivers [OF step zero_ok(2) sent] obtain r' where
    "pump_receive zero_mac (otp_encode rec) ?s = Some (Inr \<lparr>rc_plaintext = take 1 [7], rc_need_pad = need\<rparr>, r')"
    by auto
  then show ?thesis using sent by auto
qed

theorem one_sided_stream_stalls_witness:
  "\<exists>r1 r2 p. pump_run zero_mac seven_source fill_ops (pump_new Server 0 zero_flat) () =
      Some ([EvQuiet, EvQuiet, EvSent r1 (replicate 4064 1), EvSent r2 (replicate 4064 2)], p, ()) \<and>
    \<not> pu_closed p \<and>
    sum_list (map (\<lambda>(r, pt). 32 + length pt) [(r1, replicate 4064 (1 :: u8)), (r2, replicate 4064 2)]) = 2 * PAD_HALF \<and>
    pump_run zero_mac seven_source [OpSend [3], OpControl PadNeed, OpPrefetch, OpSend [3]] p () =
      Some (replicate 4 EvQuiet, p, ())"
proof -
  obtain r1 r2 p where run: "pump_run zero_mac seven_source fill_ops (pump_new Server 0 zero_flat) () =
      Some ([EvQuiet, EvQuiet, EvSent r1 (replicate 4064 1), EvSent r2 (replicate 4064 2)], p, ())"
    and p: "\<not> pu_closed p" "ps_bundle_id (pu_current ServerToClient p) = 1"
      "max_record_len (pu_current ServerToClient p) = 0"
    by (rule seven_run)
  let ?ys = "[OpSend [3], OpControl PadNeed, OpPrefetch, OpSend [3]]"
  have few: "length fill_ops < 2 ^ 64 - 1" and quiet: "list_all no_data fill_ops"
    and later: "list_all stall_op ?ys" and four: "length ?ys = 4"
    by (simp_all add: no_data_def stall_op_def)
  have "pump_run zero_mac seven_source ?ys p () = Some (replicate 4 EvQuiet, p, ())"
    using one_sided_stream_stalls [OF seven_ok(1) zero_ok(2,3) few quiet run, of ?ys] p later
    unfolding four by blast
  then show ?thesis using run p(1) by (simp add: pad_consts)
qed

end
