(* ===== verification/TermFrame.thy ===== *)
theory TermFrame
  imports Handshake Transport
begin

text \<open>
  The application frames of the remote terminal (\<open>crates/otp-terminal/src/frame.rs\<close>) with the
  errors and small types of \<open>lib.rs\<close>. The frames are the plaintext inside \<open>Data\<close> records. An
  \<open>i32\<close> is its 32-bit pattern. \<open>None\<close> as the result of \<open>term_encode\<close> is its panic on a chunk
  that the caller has not split.
\<close>

section \<open>Types\<close>

datatype terminal_error =
    TeLeaseHeldByOther u64 | TeStaleWriter | TeTerminalGone | TeHandshake handshake_error
  | TeSession session_error | TeTransport transport_error | TeIo | TeClosed | TeProtocol | TeTimeout

record window_size =
  wi_rows :: u16
  wi_cols :: u16

definition FRAME_OVERHEAD :: nat where "FRAME_OVERHEAD = 3"
definition DATA_CHUNK_MAX :: nat where "DATA_CHUNK_MAX = MAX_APP_PLAINTEXT - FRAME_OVERHEAD"

definition T_OPEN :: u8 where "T_OPEN = 0x01"
definition T_ATTACH :: u8 where "T_ATTACH = 0x02"
definition T_INPUT :: u8 where "T_INPUT = 0x03"
definition T_RESIZE :: u8 where "T_RESIZE = 0x04"
definition T_PING :: u8 where "T_PING = 0x05"
definition T_GRANTED :: u8 where "T_GRANTED = 0x11"
definition T_DENIED :: u8 where "T_DENIED = 0x12"
definition T_OUTPUT :: u8 where "T_OUTPUT = 0x13"
definition T_EXIT :: u8 where "T_EXIT = 0x14"

lemmas term_tags = T_OPEN_def T_ATTACH_def T_INPUT_def T_RESIZE_def T_PING_def T_GRANTED_def
  T_DENIED_def T_OUTPUT_def T_EXIT_def

lemma DATA_CHUNK_MAX_value: "DATA_CHUNK_MAX = 65533"
  by (simp add: DATA_CHUNK_MAX_def MAX_APP_PLAINTEXT_def FRAME_OVERHEAD_def)

datatype deny_reason = DrBusy | DrGone | DrFenced

fun deny_wire :: "deny_reason \<Rightarrow> u8" where
  "deny_wire DrBusy = 1"
| "deny_wire DrGone = 2"
| "deny_wire DrFenced = 3"

definition DENY_WIRE :: "deny_reason list" where
  "DENY_WIRE = [DrBusy, DrGone, DrFenced]"

datatype terminal_frame =
    TfOpen u16 u16
  | TfAttach u64 u16 u16
  | TfInput bytes
  | TfResize u16 u16
  | TfPing
  | TfGranted u64 u64
  | TfDenied deny_reason
  | TfOutput bytes
  | TfExit u32

section \<open>Coding\<close>

definition encode_chunk :: "u8 \<Rightarrow> bytes \<Rightarrow> bytes option" where
  "encode_chunk tag data =
    (if length data \<le> DATA_CHUNK_MAX then Some (tag # to_be16 (word_of_nat (length data)) @ data) else None)"

fun term_encode :: "terminal_frame \<Rightarrow> bytes option" where
  "term_encode (TfOpen r c) = Some (T_OPEN # to_be16 r @ to_be16 c)"
| "term_encode (TfAttach h r c) = Some (T_ATTACH # to_be64 h @ to_be16 r @ to_be16 c)"
| "term_encode (TfInput d) = encode_chunk T_INPUT d"
| "term_encode (TfOutput d) = encode_chunk T_OUTPUT d"
| "term_encode (TfResize r c) = Some (T_RESIZE # to_be16 r @ to_be16 c)"
| "term_encode TfPing = Some [T_PING]"
| "term_encode (TfGranted h t) = Some (T_GRANTED # to_be64 h @ to_be64 t)"
| "term_encode (TfDenied d) = Some [T_DENIED, deny_wire d]"
| "term_encode (TfExit c) = Some (T_EXIT # to_be32 c)"

definition decode_chunk :: "bytes \<Rightarrow> terminal_error + bytes" where
  "decode_chunk rest =
    (if length rest < 2 then Inl TeProtocol
     else let len = unat (from_be16 (take 2 rest)); body = drop 2 rest in
       if length body \<noteq> len \<or> DATA_CHUNK_MAX < len then Inl TeProtocol else Inr body)"

definition decode_denied :: "bytes \<Rightarrow> terminal_error + terminal_frame" where
  "decode_denied rest = (case rest of
     [r] \<Rightarrow> (case find (\<lambda>c. deny_wire c = r) DENY_WIRE of
        Some d \<Rightarrow> Inr (TfDenied d) | None \<Rightarrow> Inl TeProtocol)
   | _ \<Rightarrow> Inl TeProtocol)"

definition term_decode :: "bytes \<Rightarrow> terminal_error + terminal_frame" where
  "term_decode bs = (case bs of
     [] \<Rightarrow> Inl TeProtocol
   | t # rest \<Rightarrow>
     if t = T_OPEN then
       (if length rest \<noteq> 4 then Inl TeProtocol
        else Inr (TfOpen (from_be16 (take 2 rest)) (from_be16 (drop 2 rest))))
     else if t = T_ATTACH then
       (if length rest \<noteq> 12 then Inl TeProtocol
        else Inr (TfAttach (from_be64 (take 8 rest)) (from_be16 (slice_of 8 10 rest)) (from_be16 (drop 10 rest))))
     else if t = T_INPUT then map_ok TfInput (decode_chunk rest)
     else if t = T_OUTPUT then map_ok TfOutput (decode_chunk rest)
     else if t = T_RESIZE then
       (if length rest \<noteq> 4 then Inl TeProtocol
        else Inr (TfResize (from_be16 (take 2 rest)) (from_be16 (drop 2 rest))))
     else if t = T_PING then (if rest \<noteq> [] then Inl TeProtocol else Inr TfPing)
     else if t = T_GRANTED then
       (if length rest \<noteq> 16 then Inl TeProtocol
        else Inr (TfGranted (from_be64 (take 8 rest)) (from_be64 (drop 8 rest))))
     else if t = T_DENIED then decode_denied rest
     else if t = T_EXIT then
       (if length rest \<noteq> 4 then Inl TeProtocol else Inr (TfExit (from_be32 rest)))
     else Inl TeProtocol)"

text \<open>\<open>data.chunks(n)\<close>, and \<open>chunk_input\<close>.\<close>

function chunks_of :: "nat \<Rightarrow> 'a list \<Rightarrow> 'a list list" where
  "chunks_of n xs = (if xs = [] \<or> n = 0 then [] else take n xs # chunks_of n (drop n xs))"
  by pat_completeness auto

termination by (relation "measure (\<lambda>(n, xs). length xs)") auto

declare chunks_of.simps [simp del]

definition chunk_input :: "bytes \<Rightarrow> bytes list" where
  "chunk_input data = chunks_of DATA_CHUNK_MAX data"

lemma concat_chunks: "0 < n \<Longrightarrow> concat (chunks_of n xs) = xs"
proof (induction n xs rule: chunks_of.induct)
  case (1 n xs)
  then show ?case by (cases "xs = []") (simp_all add: chunks_of.simps [of n xs] chunks_of.simps [of n "[]"])
qed

lemma chunks_bounded: "0 < n \<Longrightarrow> list_all (\<lambda>c. c \<noteq> [] \<and> length c \<le> n) (chunks_of n xs)"
proof (induction n xs rule: chunks_of.induct)
  case (1 n xs)
  then show ?case by (cases "xs = []") (simp_all add: chunks_of.simps [of n xs] chunks_of.simps [of n "[]"])
qed

lemma chunk_input_spec:
  "concat (chunk_input data) = data" "list_all (\<lambda>c. c \<noteq> [] \<and> length c \<le> DATA_CHUNK_MAX) (chunk_input data)"
  using concat_chunks [of DATA_CHUNK_MAX data] chunks_bounded [of DATA_CHUNK_MAX data]
  by (simp_all add: chunk_input_def DATA_CHUNK_MAX_value)

section \<open>The coding is strict\<close>

lemma decode_chunk_encode: "encode_chunk t d = Some bs \<Longrightarrow> bs = t # tl bs \<and> decode_chunk (tl bs) = Inr d"
  by (auto simp: encode_chunk_def decode_chunk_def DATA_CHUNK_MAX_value unat_of_nat Let_def split: if_splits)

lemma decode_chunk_Inr: "decode_chunk rest = Inr d \<Longrightarrow> encode_chunk t d = Some (t # rest)"
proof -
  assume *: "decode_chunk rest = Inr d"
  then have l: "length (take 2 rest) = 2" "length rest = 2 + length d" "d = drop 2 rest"
    and len: "unat (from_be16 (take 2 rest)) = length d" "length d \<le> DATA_CHUNK_MAX"
    by (auto simp: decode_chunk_def Let_def split: if_splits)
  have "word_of_nat (length d) = from_be16 (take 2 rest)" 
    using arg_cong [OF len(1), of "word_of_nat :: nat \<Rightarrow> u16"] by simp
  then have "to_be16 (word_of_nat (length d)) = take 2 rest" using to_from_be16 [OF l(1)] by simp
  then have "to_be16 (word_of_nat (length d)) @ d = rest" unfolding l(3) by simp
  then show ?thesis by (simp only: encode_chunk_def len(2) if_True)
qed

lemma term_decode_encode: "term_encode f = Some bs \<Longrightarrow> term_decode bs = Inr f"
proof (cases f)
  case (TfInput d)
  assume "term_encode f = Some bs"
  then show ?thesis using decode_chunk_encode [of T_INPUT d bs] TfInput
    by (auto simp: term_decode_def term_tags split: list.split)
next
  case (TfOutput d)
  assume "term_encode f = Some bs"
  then show ?thesis using decode_chunk_encode [of T_OUTPUT d bs] TfOutput
    by (auto simp: term_decode_def term_tags split: list.split)
next
  case (TfDenied d)
  assume "term_encode f = Some bs"
  then show ?thesis using TfDenied
    by (cases d) (auto simp: term_decode_def term_tags decode_denied_def DENY_WIRE_def)
qed (auto simp: term_decode_def term_tags slice_of_def)

lemma be16_pair: "length rest = 4 \<Longrightarrow> rest = to_be16 (from_be16 (take 2 rest)) @ to_be16 (from_be16 (drop 2 rest))"
  by simp

lemma attach_fields: "take 8 xs @ slice_of 8 10 xs @ drop 10 xs = xs"
  using slice_append_drop [of 8 10 xs] by simp

lemma term_decode_Inr: "term_decode bs = Inr f \<Longrightarrow> term_encode f = Some bs"
  by (auto simp: term_decode_def decode_denied_def DENY_WIRE_def map_ok_Inr_iff be16_pair [symmetric]
      attach_fields decode_chunk_Inr split: list.splits if_splits)

text \<open>
  C26. A byte string decodes to a terminal frame if and only if it is the frame's encoding; encoding
  fails exactly for an input or output chunk above 65533 bytes, every encoding fits into the
  application plaintext of one record, and any data splits into chunks that can be encoded and
  that add up to it.
\<close>

theorem term_frames_strict:
  "(term_decode bs = Inr f \<longleftrightarrow> term_encode f = Some bs) \<and>
   (term_encode f = None \<longleftrightarrow> (\<exists>d. (f = TfInput d \<or> f = TfOutput d) \<and> DATA_CHUNK_MAX < length d)) \<and>
   (\<forall>e. term_encode f = Some e \<longrightarrow> 1 \<le> length e \<and> length e \<le> MAX_APP_PLAINTEXT) \<and>
   concat (chunk_input data) = data \<and>
   (\<forall>c \<in> set (chunk_input data). term_encode (TfInput c) \<noteq> None \<and> term_encode (TfOutput c) \<noteq> None)"
proof (intro conjI)
  show "term_decode bs = Inr f \<longleftrightarrow> term_encode f = Some bs"
    using term_decode_encode term_decode_Inr by blast
  show "term_encode f = None \<longleftrightarrow> (\<exists>d. (f = TfInput d \<or> f = TfOutput d) \<and> DATA_CHUNK_MAX < length d)"
    by (cases f) (auto simp: encode_chunk_def)
  show "\<forall>e. term_encode f = Some e \<longrightarrow> 1 \<le> length e \<and> length e \<le> MAX_APP_PLAINTEXT"
    by (cases f) (auto simp: encode_chunk_def DATA_CHUNK_MAX_value MAX_APP_PLAINTEXT_def split: if_splits)
  show "concat (chunk_input data) = data" by (rule chunk_input_spec(1))
  show "\<forall>c \<in> set (chunk_input data). term_encode (TfInput c) \<noteq> None \<and> term_encode (TfOutput c) \<noteq> None"
    using chunk_input_spec(2) [of data] by (auto simp: encode_chunk_def list_all_iff)
qed

theorem term_frames_strict_witness:
  "term_encode (TfDenied DrGone) = Some [0x12, 2] \<and> term_decode [0x12, 2] = Inr (TfDenied DrGone)"
  using term_frames_strict [of "[0x12, 2]" "TfDenied DrGone" "[]"] by (simp add: T_DENIED_def)

end
