(* ===== verification/Lease.thy ===== *)
theory Lease
  imports TermFrame
begin

text \<open>
  The write lease of a terminal with its fencing token (\<open>crates/otp-terminal/src/lease.rs\<close>). Every
  operation holds the mutex from its first to its last step, so a history of the lease is a
  sequence of operations; each is given one reading of the clock, which does not run backwards. \<open>acquire\<close>
  and \<open>heartbeat\<close> read it twice, to test the old lease and to date the new one: the model gives
  both readings the same value, so in the program a lease may last longer by the time between the two. The abstract specification is a machine
  with at most one writer that only counts upwards; the lease refines it.
\<close>

section \<open>The lease\<close>

datatype lease_denied = LdBusy u64 u64

record lease =
  le_token :: u64
  le_holder :: "u64 option"
  le_last_seen :: nat
  le_abandoned :: bool
  le_timeout :: nat

record lease_snapshot =
  lsn_token :: u64
  lsn_holder :: "u64 option"
  lsn_abandoned :: bool
  lsn_expired :: bool

definition lease_new :: "nat \<Rightarrow> nat \<Rightarrow> lease option" where
  "lease_new timeout now = (if 0 < timeout then
     Some \<lparr>le_token = 0, le_holder = None, le_last_seen = now, le_abandoned = True, le_timeout = timeout\<rparr>
   else None)"

definition is_expired :: "nat \<Rightarrow> lease \<Rightarrow> bool" where
  "is_expired now l \<longleftrightarrow> le_timeout l < now - le_last_seen l"

definition lease_acquire :: "u64 \<Rightarrow> nat \<Rightarrow> lease \<Rightarrow> ((lease_denied + u64) \<times> lease) option" where
  "lease_acquire conn now l =
    (case le_holder l of
       Some holder \<Rightarrow>
         if \<not> le_abandoned l \<and> \<not> is_expired now l then Some (Inl (LdBusy holder (le_token l)), l)
         else (case u64_checked_add (le_token l) 1 of
           None \<Rightarrow> None
         | Some t \<Rightarrow> Some (Inr t, l\<lparr>le_token := t, le_holder := Some conn, le_last_seen := now, le_abandoned := False\<rparr>))
     | None \<Rightarrow> (case u64_checked_add (le_token l) 1 of
           None \<Rightarrow> None
         | Some t \<Rightarrow> Some (Inr t, l\<lparr>le_token := t, le_holder := Some conn, le_last_seen := now, le_abandoned := False\<rparr>)))"

definition grant_drop :: "u64 \<Rightarrow> lease \<Rightarrow> lease" where
  "grant_drop token l =
    (if le_token l = token \<and> \<not> le_abandoned l then l\<lparr>le_abandoned := True\<rparr> else l)"

definition lease_is_current :: "u64 \<Rightarrow> nat \<Rightarrow> lease \<Rightarrow> bool" where
  "lease_is_current token now l \<longleftrightarrow> le_token l = token \<and> \<not> le_abandoned l \<and> \<not> is_expired now l"

definition lease_heartbeat :: "u64 \<Rightarrow> nat \<Rightarrow> lease \<Rightarrow> (terminal_error + unit) \<times> lease" where
  "lease_heartbeat token now l =
    (if le_token l \<noteq> token \<or> le_abandoned l \<or> is_expired now l then (Inl TeStaleWriter, l)
     else (Inr (), l\<lparr>le_last_seen := now\<rparr>))"

definition with_write_gate ::
  "u64 \<Rightarrow> nat \<Rightarrow> ('w \<Rightarrow> (terminal_error + 'a) \<times> 'w) \<Rightarrow> lease \<Rightarrow> 'w \<Rightarrow> (terminal_error + 'a) \<times> 'w" where
  "with_write_gate token now action l w =
    (if le_token l \<noteq> token \<or> le_abandoned l \<or> is_expired now l then (Inl TeStaleWriter, w)
     else action w)"

definition lease_snapshot_of :: "nat \<Rightarrow> lease \<Rightarrow> lease_snapshot" where
  "lease_snapshot_of now l = \<lparr>lsn_token = le_token l, lsn_holder = le_holder l,
    lsn_abandoned = le_abandoned l, lsn_expired = is_expired now l\<rparr>"

section \<open>Histories\<close>

text \<open>
  The operations of all connections on one lease. The write of a chunk is the gate with an action
  that appends to the output; every reading of the clock is the time since the previous one.
\<close>

datatype lease_op = LoAcquire u64 | LoHeartbeat u64 | LoDrop u64 | LoWrite u64 bytes

datatype lease_event = LvGranted u64 | LvDenied | LvAlive u64 | LvStale u64 | LvWrote u64 bytes | LvDropped u64

definition lease_step :: "lease_op \<Rightarrow> nat \<Rightarrow> lease \<Rightarrow> (lease_event \<times> lease) option" where
  "lease_step x now l = (case x of
     LoAcquire conn \<Rightarrow> (case lease_acquire conn now l of
         None \<Rightarrow> None
       | Some (r, l) \<Rightarrow> Some (case r of Inl _ \<Rightarrow> LvDenied | Inr t \<Rightarrow> LvGranted t, l))
   | LoHeartbeat t \<Rightarrow> (case lease_heartbeat t now l of
         (r, l) \<Rightarrow> Some (case r of Inl _ \<Rightarrow> LvStale t | Inr _ \<Rightarrow> LvAlive t, l))
   | LoDrop t \<Rightarrow> Some (LvDropped t, grant_drop t l)
   | LoWrite t bs \<Rightarrow> (case with_write_gate t now (\<lambda>w. (Inr (), w @ bs)) l [] of
         (r, w) \<Rightarrow> Some (case r of Inl _ \<Rightarrow> LvStale t | Inr _ \<Rightarrow> LvWrote t w, l)))"

fun lease_run :: "(nat \<times> lease_op) list \<Rightarrow> nat \<Rightarrow> lease \<Rightarrow> (lease_event list \<times> nat \<times> lease) option" where
  "lease_run [] now l = Some ([], now, l)"
| "lease_run ((dt, x) # xs) now l = (case lease_step x (now + dt) l of
     None \<Rightarrow> None
   | Some (e, l) \<Rightarrow> (case lease_run xs (now + dt) l of
       None \<Rightarrow> None
     | Some (es, now, l) \<Rightarrow> Some (e # es, now, l)))"

section \<open>The specification\<close>

text \<open>
  A fence has a writer or none, and has counted its writers. A new writer gets the next number and
  enters only after the last one is gone; the writer may go at any time; only the writer writes
  or stays alive.
\<close>

record fence =
  fe_writer :: "nat option"
  fe_count :: nat

inductive fence_step :: "fence \<Rightarrow> lease_event option \<Rightarrow> fence \<Rightarrow> bool" where
  fence_goes: "fence_step f None (f\<lparr>fe_writer := None\<rparr>)"
| fence_enters: "fe_writer f = None \<Longrightarrow> unat t = Suc (fe_count f) \<Longrightarrow>
    fence_step f (Some (LvGranted t)) \<lparr>fe_writer = Some (unat t), fe_count = Suc (fe_count f)\<rparr>"
| fence_busy: "fe_writer f \<noteq> None \<Longrightarrow> fence_step f (Some LvDenied) f"
| fence_writes: "fe_writer f = Some (unat t) \<Longrightarrow> fence_step f (Some (LvWrote t bs)) f"
| fence_alive: "fe_writer f = Some (unat t) \<Longrightarrow> fence_step f (Some (LvAlive t)) f"
| fence_stale: "fe_writer f \<noteq> Some (unat t) \<Longrightarrow> fence_step f (Some (LvStale t)) f"
| fence_drops: "fe_writer f \<noteq> Some (unat t) \<Longrightarrow> fence_step f (Some (LvDropped t)) f"

text \<open>The visible events of a run of the fence.\<close>

inductive fence_trace :: "fence \<Rightarrow> lease_event list \<Rightarrow> fence \<Rightarrow> bool" where
  trace_nil: "fence_trace f [] f"
| trace_quiet: "fence_step f None g \<Longrightarrow> fence_trace g es h \<Longrightarrow> fence_trace f es h"
| trace_event: "fence_step f (Some e) g \<Longrightarrow> fence_trace g es h \<Longrightarrow> fence_trace f (e # es) h"

inductive_cases fence_event: "fence_step f (Some e) g"
inductive_cases fence_quiet: "fence_step f None g"

definition fence_of :: "nat \<Rightarrow> lease \<Rightarrow> fence" where
  "fence_of now l = \<lparr>fe_writer = (if le_abandoned l \<or> is_expired now l then None else Some (unat (le_token l))),
    fe_count = unat (le_token l)\<rparr>"

definition lease_ok :: "lease \<Rightarrow> bool" where
  "lease_ok l \<longleftrightarrow> (le_holder l = None \<longrightarrow> le_abandoned l) \<and> 0 < le_timeout l"

text \<open>As time passes the writer may go, and nothing else happens.\<close>

lemma fence_passes: "fence_of (now + dt) l = fence_of now l \<or> fence_of (now + dt) l = (fence_of now l)\<lparr>fe_writer := None\<rparr>"
  by (auto simp: fence_of_def is_expired_def)

lemma is_expired_seen [simp]:
  "0 < le_timeout l \<Longrightarrow> le_last_seen l = now \<Longrightarrow> \<not> is_expired now l"
  by (simp add: is_expired_def)

lemma unat_inject [simp]: "(unat (a :: u64) = unat b) = (a = b)"
  by (simp add: word_unat_eq_iff)

lemma lease_acquire_free:
  assumes "lease_ok l" "lease_acquire conn now l = Some (Inr t, l')"
  shows "fe_writer (fence_of now l) = None \<and> unat t = Suc (unat (le_token l)) \<and> lease_ok l' \<and>
    fence_of now l' = \<lparr>fe_writer = Some (unat t), fe_count = Suc (unat (le_token l))\<rparr>"
proof -
  have ts: "u64_checked_add (le_token l) 1 = Some t"
    and l': "l' = l\<lparr>le_token := t, le_holder := Some conn, le_last_seen := now, le_abandoned := False\<rparr>"
    using assms(2) by (auto simp: lease_acquire_def split: option.splits if_splits)
  have t: "unat t = Suc (unat (le_token l))" using u64_checked_add_unat [OF ts] by simp
  have "le_abandoned l \<or> is_expired now l"
    using assms by (auto simp: lease_ok_def lease_acquire_def split: option.splits if_splits)
  then show ?thesis using t assms(1) by (auto simp: l' fence_of_def lease_ok_def is_expired_def)
qed

lemma lease_acquire_busy:
  assumes "lease_acquire conn now l = Some (Inl e, l')"
  shows "l' = l \<and> fe_writer (fence_of now l) \<noteq> None"
  using assms by (auto simp: lease_acquire_def fence_of_def split: option.splits if_splits)

text \<open>Every operation is one event of the fence, behind the departure of the writer for a drop.\<close>

lemma lease_step_refines:
  assumes "lease_ok l" "lease_step x now l = Some (e, l')"
  shows "lease_ok l' \<and> fence_trace (fence_of now l) [e] (fence_of now l')"
proof (cases x)
  case (LoAcquire conn)
  then obtain r where r: "lease_acquire conn now l = Some (r, l')"
    and e: "e = (case r of Inl _ \<Rightarrow> LvDenied | Inr t \<Rightarrow> LvGranted t)"
    using assms(2) by (auto simp: lease_step_def split: option.splits)
  show ?thesis
  proof (cases r)
    case (Inl d)
    then show ?thesis using lease_acquire_busy r e assms(1)
      by (metis (no_types, lifting) fence_busy old.sum.simps(5) trace_event trace_nil)
  next
    case (Inr t)
    have "fence_step (fence_of now l) (Some (LvGranted t)) (fence_of now l')"
      using lease_acquire_free [OF assms(1) r [unfolded Inr]] fence_enters [of "fence_of now l" t]
      by (simp add: fence_of_def)
    then show ?thesis using lease_acquire_free [OF assms(1) r [unfolded Inr]] e Inr
      by (auto intro: trace_event trace_nil)
  qed
next
  case (LoHeartbeat t)
  show ?thesis
  proof (cases "lease_is_current t now l")
    case True
    then have "l' = l\<lparr>le_last_seen := now\<rparr>" "e = LvAlive t"
      using assms(2) LoHeartbeat by (auto simp: lease_step_def lease_heartbeat_def lease_is_current_def)
    moreover have "fence_of now (l\<lparr>le_last_seen := now\<rparr>) = fence_of now l"
      using True by (auto simp: fence_of_def lease_is_current_def is_expired_def)
    moreover have "fe_writer (fence_of now l) = Some (unat t)"
      using True by (auto simp: fence_of_def lease_is_current_def)
    ultimately show ?thesis using assms(1)
      by (auto simp: lease_ok_def intro: trace_event [OF fence_alive] trace_nil)
  next
    case False
    then have "l' = l" "e = LvStale t" "fe_writer (fence_of now l) \<noteq> Some (unat t)"
      using assms(2) LoHeartbeat
      by (auto simp: lease_step_def lease_heartbeat_def lease_is_current_def fence_of_def)
    then show ?thesis using assms(1) by (auto intro: trace_event [OF fence_stale] trace_nil)
  qed
next
  case (LoDrop t)
  then have l': "l' = grant_drop t l" and e: "e = LvDropped t" using assms(2) by (auto simp: lease_step_def)
  let ?g = "(fence_of now l)\<lparr>fe_writer := None\<rparr>"
  show ?thesis
  proof (cases "le_token l = t \<and> \<not> le_abandoned l")
    case True
    then have "fence_of now l' = ?g" "lease_ok l'"
      using assms(1) by (auto simp: l' grant_drop_def fence_of_def lease_ok_def)
    moreover have "fence_trace (fence_of now l) [LvDropped t] ?g"
      by (rule trace_quiet [OF fence_goes], rule trace_event [OF fence_drops]) (simp_all add: trace_nil)
    ultimately show ?thesis by (simp add: e)
  next
    case False
    then have "fe_writer (fence_of now l) \<noteq> Some (unat t)" "l' = l"
      by (auto simp: l' grant_drop_def fence_of_def)
    then show ?thesis unfolding e using assms(1) by (auto intro: trace_event [OF fence_drops] trace_nil)
  qed
next
  case (LoWrite t bs)
  show ?thesis
  proof (cases "lease_is_current t now l")
    case True
    then have "l' = l" "e = LvWrote t bs" "fe_writer (fence_of now l) = Some (unat t)"
      using assms(2) LoWrite
      by (auto simp: lease_step_def with_write_gate_def lease_is_current_def fence_of_def)
    then show ?thesis using assms(1) by (auto intro: trace_event [OF fence_writes] trace_nil)
  next
    case False
    then have "l' = l" "e = LvStale t" "fe_writer (fence_of now l) \<noteq> Some (unat t)"
      using assms(2) LoWrite
      by (auto simp: lease_step_def with_write_gate_def lease_is_current_def fence_of_def)
    then show ?thesis using assms(1) by (auto intro: trace_event [OF fence_stale] trace_nil)
  qed
qed

lemma fence_trace_append: "fence_trace f es g \<Longrightarrow> fence_trace g es' h \<Longrightarrow> fence_trace f (es @ es') h"
  by (induction rule: fence_trace.induct) (auto intro: trace_quiet trace_event)

lemma lease_run_refines:
  "lease_ok l \<Longrightarrow> lease_run xs now l = Some (es, now', l') \<Longrightarrow>
    lease_ok l' \<and> fence_trace (fence_of now l) es (fence_of now' l')"
proof (induction xs arbitrary: now l es)
  case Nil
  then show ?case by (auto intro: trace_nil)
next
  case (Cons x xs)
  obtain dt y where x: "x = (dt, y)" by fastforce
  obtain e k fs where e: "lease_step y (now + dt) l = Some (e, k)"
    and r: "lease_run xs (now + dt) k = Some (fs, now', l')" and es: "es = e # fs"
    using Cons.prems(2) by (auto simp: x split: option.splits)
  note s = lease_step_refines [OF Cons.prems(1) e]
  have "fence_trace (fence_of (now + dt) l) es (fence_of now' l')"
    using fence_trace_append [of "fence_of (now + dt) l" "[e]"] s Cons.IH [OF _ r] es by auto
  moreover have "fence_of (now + dt) l = fence_of now l \<or> fence_step (fence_of now l) None (fence_of (now + dt) l)"
    using fence_passes [of now dt l] fence_goes [of "fence_of now l"] by metis
  ultimately show ?case using Cons.IH [OF _ r] s by (metis trace_quiet)
qed

section \<open>What the fence guarantees\<close>

fun grants :: "lease_event list \<Rightarrow> u64 list" where
  "grants [] = []"
| "grants (LvGranted t # es) = t # grants es"
| "grants (_ # es) = grants es"

definition fence_ok :: "fence \<Rightarrow> bool" where
  "fence_ok f \<longleftrightarrow> fe_writer f = None \<or> fe_writer f = Some (fe_count f)"

lemma fence_step_ok: "fence_step f e g \<Longrightarrow> fence_ok f \<Longrightarrow> fence_ok g"
  by (induction rule: fence_step.induct) (auto simp: fence_ok_def)

lemma fence_trace_grants:
  "fence_trace f es g \<Longrightarrow> fence_ok f \<Longrightarrow>
    fence_ok g \<and> fe_count f \<le> fe_count g \<and> map unat (grants es) = [Suc (fe_count f) ..< Suc (fe_count g)]"
proof (induction rule: fence_trace.induct)
  case (trace_nil f)
  then show ?case by simp
next
  case (trace_quiet f g es h)
  then show ?case using fence_step_ok [OF trace_quiet(1)] by (auto elim!: fence_quiet)
next
  case (trace_event f e g es h)
  have IH: "fence_ok h \<and> fe_count g \<le> fe_count h \<and> map unat (grants es) = [Suc (fe_count g) ..< Suc (fe_count h)]"
    using trace_event.IH fence_step_ok [OF trace_event(1)] trace_event.prems by blast
  from trace_event(1) show ?case
    using IH by (cases rule: fence_step.cases) (auto simp: upt_conv_Cons)
qed

lemma fence_trace_split:
  "fence_trace f es h \<Longrightarrow> es = as @ bs \<Longrightarrow> \<exists>g. fence_trace f as g \<and> fence_trace g bs h"
proof (induction arbitrary: as rule: fence_trace.induct)
  case (trace_nil f)
  then show ?case by (auto intro: fence_trace.trace_nil)
next
  case (trace_quiet f g es h)
  then show ?case by (blast intro: fence_trace.trace_quiet)
next
  case (trace_event f e g es h)
  show ?case
  proof (cases as)
    case Nil
    then show ?thesis using trace_event by (auto intro: fence_trace.intros)
  next
    case (Cons a as')
    then show ?thesis using trace_event by (auto intro: fence_trace.trace_event)
  qed
qed

lemma fence_trace_writer:
  "fence_trace f es h \<Longrightarrow> es = e # bs \<Longrightarrow> fence_ok f \<Longrightarrow> e = LvWrote t d \<Longrightarrow>
    unat t = fe_count f \<and> fe_writer f \<noteq> None"
proof (induction rule: fence_trace.induct)
  case (trace_quiet f g es h)
  have "fence_ok g" using fence_step_ok [OF trace_quiet(1)] trace_quiet by blast
  then show ?case using trace_quiet by (auto elim!: fence_quiet)
next
  case (trace_event f e g es h)
  then show ?case by (auto elim!: fence_event simp: fence_ok_def)
qed simp

lemma fence_trace_unwritten:
  "fence_trace f es g \<Longrightarrow> fe_writer f = None \<Longrightarrow> grants es = [] \<Longrightarrow> fe_writer g = None"
proof (induction rule: fence_trace.induct)
  case (trace_quiet f g es h)
  then show ?case by (auto elim!: fence_quiet)
next
  case (trace_event f e g es h)
  from trace_event(1) show ?case using trace_event by (cases rule: fence_step.cases) auto
qed simp

lemma fence_write_last:
  assumes tr: "fence_trace f (as @ LvWrote t d # bs) h" and f: "fence_ok f" "fe_writer f = None"
  shows "grants as \<noteq> [] \<and> last (grants as) = t"
proof -
  obtain g where g: "fence_trace f as g" "fence_trace g (LvWrote t d # bs) h"
    using fence_trace_split [OF tr refl] by blast
  have *: "fence_ok g" "map unat (grants as) = [Suc (fe_count f) ..< Suc (fe_count g)]"
    using fence_trace_grants [OF g(1) f(1)] by auto
  have t: "unat t = fe_count g" "fe_writer g \<noteq> None"
    using fence_trace_writer [OF g(2) refl *(1) refl] by auto
  have ne: "grants as \<noteq> []" using fence_trace_unwritten [OF g(1) f(2)] t(2) by blast
  then have "[Suc (fe_count f) ..< Suc (fe_count g)] \<noteq> []" using *(2) by (metis map_is_Nil_conv)
  then have "last [Suc (fe_count f) ..< Suc (fe_count g)] = fe_count g" by (simp split: if_splits)
  then have "unat (last (grants as)) = fe_count g" using *(2) ne by (metis last_map)
  then show ?thesis using t(1) ne by (metis unat_inject)
qed



end
