(* ===== verification/TermHub.thy ===== *)
theory TermHub
  imports Lease
begin

text \<open>
  The terminals of the server and their registry (\<open>crates/otp-terminal/src/hub.rs\<close>). The kernel's
  side of a terminal, \<open>pty\<close>, is given by the results of its calls: the reads of the master, the
  bounded writes, the window ioctls and the polls of the child process; a list that is used up means
  no output, success and a running child. A hub is shared by the registry and the connections that
  hold it, so hubs live in a store under their handles. Killing the child when the last reference to
  a hub is dropped has no counterpart.
\<close>

section \<open>The kernel's side\<close>

datatype pty_read = PrData bytes | PrEof | PrTimeout | PrFails

datatype pty_write = PwAll | PwFails nat

datatype wait_result = WtRunning | WtExited u32 | WtSignaled u32 | WtFails

record pty =
  pt_reads :: "pty_read list"
  pt_writes :: "pty_write list"
  pt_resizes :: "bool list"
  pt_waits :: "wait_result list"
  pt_written :: bytes
  pt_window :: window_size

definition pty_write_bounded :: "bytes \<Rightarrow> pty \<Rightarrow> bool \<times> pty" where
  "pty_write_bounded data t = (case pt_writes t of
     [] \<Rightarrow> (True, t\<lparr>pt_written := pt_written t @ data\<rparr>)
   | PwAll # ws \<Rightarrow> (True, t\<lparr>pt_written := pt_written t @ data, pt_writes := ws\<rparr>)
   | PwFails n # ws \<Rightarrow> (False, t\<lparr>pt_written := pt_written t @ take n data, pt_writes := ws\<rparr>))"

definition pty_set_winsize :: "window_size \<Rightarrow> pty \<Rightarrow> bool \<times> pty" where
  "pty_set_winsize w t = (case pt_resizes t of
     [] \<Rightarrow> (True, t\<lparr>pt_window := w\<rparr>)
   | ok # rs \<Rightarrow> (ok, if ok then t\<lparr>pt_window := w, pt_resizes := rs\<rparr> else t\<lparr>pt_resizes := rs\<rparr>))"

definition pty_read_now :: "pty \<Rightarrow> pty_read \<times> pty" where
  "pty_read_now t = (case pt_reads t of [] \<Rightarrow> (PrTimeout, t) | r # rs \<Rightarrow> (r, t\<lparr>pt_reads := rs\<rparr>))"

definition pty_try_wait :: "pty \<Rightarrow> wait_result \<times> pty" where
  "pty_try_wait t = (case pt_waits t of [] \<Rightarrow> (WtRunning, t) | r # rs \<Rightarrow> (r, t\<lparr>pt_waits := rs\<rparr>))"

section \<open>Hubs\<close>

definition PTY_WRITE_SLICE :: nat where "PTY_WRITE_SLICE = 2048"

record hub =
  hb_handle :: u64
  hb_shell :: "string list"
  hb_lease :: lease
  hb_pty :: pty
  hb_exit :: "u32 option"

definition hub_from_parts :: "u64 \<Rightarrow> string list \<Rightarrow> pty \<Rightarrow> nat \<Rightarrow> nat \<Rightarrow> hub option" where
  "hub_from_parts handle shell pty lease_timeout now = (case lease_new lease_timeout now of
     None \<Rightarrow> None
   | Some l \<Rightarrow> Some \<lparr>hb_handle = handle, hb_shell = shell, hb_lease = l, hb_pty = pty, hb_exit = None\<rparr>)"

definition hub_acquire :: "u64 \<Rightarrow> nat \<Rightarrow> hub \<Rightarrow> ((lease_denied + u64) \<times> hub) option" where
  "hub_acquire conn now h = (case lease_acquire conn now (hb_lease h) of
     None \<Rightarrow> None
   | Some (r, l) \<Rightarrow> Some (r, h\<lparr>hb_lease := l\<rparr>))"

definition hub_heartbeat :: "u64 \<Rightarrow> nat \<Rightarrow> hub \<Rightarrow> (terminal_error + unit) \<times> hub" where
  "hub_heartbeat token now h = (case lease_heartbeat token now (hb_lease h) of (r, l) \<Rightarrow> (r, h\<lparr>hb_lease := l\<rparr>))"

definition hub_lease_is_current :: "u64 \<Rightarrow> nat \<Rightarrow> hub \<Rightarrow> bool" where
  "hub_lease_is_current token now h = lease_is_current token now (hb_lease h)"

definition hub_write_input :: "u64 \<Rightarrow> bytes \<Rightarrow> nat \<Rightarrow> hub \<Rightarrow> (terminal_error + unit) \<times> hub" where
  "hub_write_input token data now h = with_write_gate token now
    (\<lambda>h. if hb_exit h \<noteq> None then (Inl TeClosed, h)
      else case pty_write_bounded data (hb_pty h) of
        (ok, t) \<Rightarrow> (if ok then Inr () else Inl TeIo, h\<lparr>hb_pty := t\<rparr>)) (hb_lease h) h"

definition hub_resize :: "u64 \<Rightarrow> window_size \<Rightarrow> nat \<Rightarrow> hub \<Rightarrow> (terminal_error + unit) \<times> hub" where
  "hub_resize token window now h = with_write_gate token now
    (\<lambda>h. if hb_exit h \<noteq> None then (Inl TeClosed, h)
      else case pty_set_winsize window (hb_pty h) of
        (ok, t) \<Rightarrow> (if ok then Inr () else Inl TeIo, h\<lparr>hb_pty := t\<rparr>)) (hb_lease h) h"

text \<open>A read of the master, \<open>PrFails\<close> for the error \<open>Io\<close>.\<close>

definition hub_drain_output :: "hub \<Rightarrow> pty_read \<times> hub" where
  "hub_drain_output h = (case pty_read_now (hb_pty h) of (r, t) \<Rightarrow> (r, h\<lparr>hb_pty := t\<rparr>))"

definition hub_poll_exit :: "hub \<Rightarrow> u32 option \<times> hub" where
  "hub_poll_exit h = (case hb_exit h of
     Some code \<Rightarrow> (Some code, h)
   | None \<Rightarrow> (case pty_try_wait (hb_pty h) of
       (WtExited code, t) \<Rightarrow> (Some code, h\<lparr>hb_pty := t, hb_exit := Some code\<rparr>)
     | (WtSignaled sig, t) \<Rightarrow> (Some (128 + sig), h\<lparr>hb_pty := t, hb_exit := Some (128 + sig)\<rparr>)
     | (_, t) \<Rightarrow> (None, h\<lparr>hb_pty := t\<rparr>)))"

definition hub_has_exited :: "hub \<Rightarrow> bool" where
  "hub_has_exited h \<longleftrightarrow> hb_exit h \<noteq> None"

section \<open>The registry\<close>

text \<open>
  \<open>rg_spawns\<close> are the results of the jobs of the spawn thread: a terminal, or the failure to open
  one, to start the child or to reach the thread. The hubs that were ever opened are in \<open>rg_store\<close>,
  the registered handles in \<open>rg_live\<close>.
\<close>

record registry =
  rg_shell :: "string list"
  rg_lease_timeout :: nat
  rg_conn_counter :: u64
  rg_next_handle :: u64
  rg_live :: "u64 list"
  rg_store :: "u64 \<Rightarrow> hub option"
  rg_spawns :: "pty option list"

definition registry_new :: "string list \<Rightarrow> nat \<Rightarrow> pty option list \<Rightarrow> registry" where
  "registry_new shell lease_timeout spawns = \<lparr>rg_shell = shell, rg_lease_timeout = lease_timeout,
    rg_conn_counter = 0, rg_next_handle = 1, rg_live = [], rg_store = (\<lambda>_. None), rg_spawns = spawns\<rparr>"

definition registry_next_conn :: "registry \<Rightarrow> u64 \<times> registry" where
  "registry_next_conn g = (rg_conn_counter g + 1, g\<lparr>rg_conn_counter := rg_conn_counter g + 1\<rparr>)"

definition spawn_via_worker :: "window_size \<Rightarrow> registry \<Rightarrow> (terminal_error + pty) \<times> registry" where
  "spawn_via_worker w g = (case rg_spawns g of
     Some t # rs \<Rightarrow> (Inr (t\<lparr>pt_window := w\<rparr>), g\<lparr>rg_spawns := rs\<rparr>)
   | None # rs \<Rightarrow> (Inl TeIo, g\<lparr>rg_spawns := rs\<rparr>)
   | [] \<Rightarrow> (Inl TeIo, g))"

definition registry_open :: "window_size \<Rightarrow> nat \<Rightarrow> registry \<Rightarrow> ((terminal_error + u64) \<times> registry) option" where
  "registry_open w now g =
    (let handle = rg_next_handle g in
     case u64_checked_add handle 1 of
       None \<Rightarrow> None
     | Some n \<Rightarrow> (case spawn_via_worker w (g\<lparr>rg_next_handle := n\<rparr>) of
         (Inl e, g) \<Rightarrow> Some (Inl e, g)
       | (Inr t, g) \<Rightarrow> (case hub_from_parts handle (rg_shell g) t (rg_lease_timeout g) now of
           None \<Rightarrow> None
         | Some h \<Rightarrow> Some (Inr handle,
             g\<lparr>rg_live := handle # rg_live g, rg_store := (rg_store g)(handle \<mapsto> h)\<rparr>))))"

definition registry_find :: "u64 \<Rightarrow> registry \<Rightarrow> u64 option" where
  "registry_find handle g = (if handle \<in> set (rg_live g) then Some handle else None)"

definition registry_retire :: "u64 \<Rightarrow> registry \<Rightarrow> registry" where
  "registry_retire handle g = g\<lparr>rg_live := removeAll handle (rg_live g)\<rparr>"

definition live_handles :: "registry \<Rightarrow> nat" where
  "live_handles g = length (rg_live g)"

section \<open>Handles are never reused\<close>

definition registry_ok :: "registry \<Rightarrow> bool" where
  "registry_ok g \<longleftrightarrow> distinct (rg_live g) \<and>
    (\<forall>h. rg_store g h \<noteq> None \<longrightarrow> 1 \<le> h \<and> h < rg_next_handle g) \<and>
    (\<forall>h \<in> set (rg_live g). rg_store g h \<noteq> None) \<and>
    (\<forall>h b. rg_store g h = Some b \<longrightarrow> hb_handle b = h) \<and> 1 \<le> rg_next_handle g"

lemma registry_ok_new: "registry_ok (registry_new shell t spawns)"
  by (simp add: registry_ok_def registry_new_def)

lemma registry_ok_retire: "registry_ok g \<Longrightarrow> registry_ok (registry_retire h g)"
  by (simp add: registry_ok_def registry_retire_def distinct_removeAll)

lemma u64_succ_less: "u64_checked_add a 1 = Some n \<Longrightarrow> a < n \<and> 1 \<le> n \<and> (h < n \<longleftrightarrow> h \<le> a)"
  using u64_checked_add_unat [of a 1 n] by (simp add: word_less_nat_alt word_le_nat_alt less_Suc_eq_le)

lemma registry_ok_open:
  assumes g: "registry_ok g" and o: "registry_open w now g = Some (r, g')"
  shows "registry_ok g' \<and> rg_next_handle g < rg_next_handle g' \<and>
    (\<forall>x. r = Inr x \<longrightarrow> x = rg_next_handle g \<and> rg_store g x = None \<and> registry_find x g' = Some x)"
proof -
  obtain n where n: "u64_checked_add (rg_next_handle g) 1 = Some n"
    using o by (auto simp: registry_open_def Let_def split: option.splits)
  have le: "rg_next_handle g < n" "\<And>h. h < rg_next_handle g \<Longrightarrow> h < n" "1 \<le> n"
    using u64_succ_less [OF n] by auto
  have fresh: "rg_store g (rg_next_handle g) = None" using g by (auto simp: registry_ok_def)
  then have new: "rg_next_handle g \<notin> set (rg_live g)" using g by (auto simp: registry_ok_def)
  show ?thesis
    using o n g le fresh new
    by (auto simp: registry_open_def Let_def spawn_via_worker_def hub_from_parts_def registry_ok_def
        registry_find_def split: list.splits option.splits if_splits)
qed

text \<open>The write gate: output reaches the terminal under the current, unexpired grant only.\<close>

lemma take_clip: "\<exists>k \<le> length xs. take n xs = take k xs"
  by (rule exI [of _ "min n (length xs)"]) (simp add: min_def)

lemma hub_write_input_cases:
  assumes "hub_write_input token data now h = (r, h')"
  shows "hb_lease h' = hb_lease h \<and> hb_exit h' = hb_exit h \<and>
    (\<exists>k \<le> length data. pt_written (hb_pty h') = pt_written (hb_pty h) @ take k data \<and>
      (r = Inr () \<longrightarrow> k = length data) \<and> (0 < k \<longrightarrow> lease_is_current token now (hb_lease h)))"
proof (cases "lease_is_current token now (hb_lease h) \<and> hb_exit h = None")
  case False
  then have "r \<noteq> Inr () \<and> h' = h" using assms
    by (auto simp: hub_write_input_def with_write_gate_def lease_is_current_def split: if_splits)
  then show ?thesis by auto
next
  case True
  then show ?thesis using assms
    by (cases "pt_writes (hb_pty h)")
      (auto simp: hub_write_input_def with_write_gate_def lease_is_current_def pty_write_bounded_def
        split: pty_write.splits intro: exI [of _ "length data"] take_clip)
qed

end
