(* ===== verification/TermServer.thy ===== *)
theory TermServer
  imports TermHub
begin

text \<open>
  The server's driver of one terminal connection (\<open>crates/otp-terminal/src/server.rs\<close>). The
  connection runs between others: before every call that reads the clock or takes the lease, the world
  moves on by one entry of \<open>sv_env\<close>, in which time passes and other connections work on leases
  or retire handles. The byte stream is a parameter, \<open>framed\<close>, instantiated by the transports.
  \<open>sv_inputs\<close> records the input that was received, and \<open>pt_written\<close> of the hub what this connection
  wrote to the terminal; no operation reads them.
\<close>

section \<open>Worlds\<close>

datatype env_act = EnLease u64 lease_op | EnRetire u64

record 's serve =
  sv_io :: 's
  sv_session :: session
  sv_reg :: registry
  sv_now :: nat
  sv_env :: "(nat \<times> env_act list) list"
  sv_inputs :: bytes

definition env_act_on :: "nat \<Rightarrow> env_act \<Rightarrow> registry \<Rightarrow> registry" where
  "env_act_on now a g = (case a of
     EnRetire h \<Rightarrow> registry_retire h g
   | EnLease h x \<Rightarrow> (case rg_store g h of
       None \<Rightarrow> g
     | Some b \<Rightarrow> (case lease_step x now (hb_lease b) of
         None \<Rightarrow> g
       | Some (_, l) \<Rightarrow> g\<lparr>rg_store := (rg_store g)(h \<mapsto> b\<lparr>hb_lease := l\<rparr>)\<rparr>)))"

definition tick :: "'s serve \<Rightarrow> 's serve" where
  "tick w = (case sv_env w of
     [] \<Rightarrow> w
   | (dt, acts) # env \<Rightarrow> w\<lparr>sv_now := sv_now w + dt, sv_env := env,
       sv_reg := fold (env_act_on (sv_now w + dt)) acts (sv_reg w)\<rparr>)"

definition sv_hub :: "u64 \<Rightarrow> 's serve \<Rightarrow> hub option" where
  "sv_hub h w = rg_store (sv_reg w) h"

definition put_hub :: "u64 \<Rightarrow> hub \<Rightarrow> 's serve \<Rightarrow> 's serve" where
  "put_hub h b w = w\<lparr>sv_reg := (sv_reg w)\<lparr>rg_store := (rg_store (sv_reg w))(h \<mapsto> b)\<rparr>\<rparr>"

text \<open>
  A call on the hub of a handle, behind one step of the environment. A connection only uses the handle
  of a hub that it holds, so the hub is there.
\<close>

definition on_hub :: "u64 \<Rightarrow> (nat \<Rightarrow> hub \<Rightarrow> 'a \<times> hub) \<Rightarrow> 's serve \<Rightarrow> ('a \<times> 's serve) option" where
  "on_hub h f w = (let w = tick w in
     case sv_hub h w of
       None \<Rightarrow> None
     | Some b \<Rightarrow> (case f (sv_now w) b of (r, b) \<Rightarrow> Some (r, put_hub h b w)))"

section \<open>Options and results\<close>

record serve_options =
  so_first_frame_timeout :: nat
  so_poll_slice :: nat
  so_exit_grace :: nat

definition default_serve_options :: serve_options where
  "default_serve_options = \<lparr>so_first_frame_timeout = 30000, so_poll_slice = 25, so_exit_grace = 250\<rparr>"

datatype serve_end =
    SeShellExited u32 | SePeerClosed | SeFenced | SeLeaseExpired | SeDeniedBusy | SeDeniedGone
  | SeProtocol | SeFailed terminal_error

record serve_summary =
  sm_handle :: u64
  sm_token :: u64
  sm_input_bytes :: u64
  sm_output_bytes :: u64
  sm_exit :: "u32 option"
  sm_end :: serve_end

section \<open>Frames over the session\<close>

datatype recv_outcome = RoFrame terminal_frame | RoTimeout | RoClosed terminal_error

definition recv_terminal_frame :: "'s framed \<Rightarrow> aead \<Rightarrow> 's serve \<Rightarrow> (recv_outcome \<times> 's serve) option" where
  "recv_terminal_frame fs ae w = (case fs_recv fs (sv_io w) of
     None \<Rightarrow> None
   | Some (Inl TrTimeout, io) \<Rightarrow> Some (RoTimeout, w\<lparr>sv_io := io\<rparr>)
   | Some (Inl e, io) \<Rightarrow> Some (RoClosed (TeTransport e), w\<lparr>sv_io := io\<rparr>)
   | Some (Inr wire, io) \<Rightarrow>
     let w = w\<lparr>sv_io := io\<rparr> in
     (case decode Server wire of
        Inr (Data epoch sq data) \<Rightarrow> (case session_open ae MtData sq data (sv_session w) of
            None \<Rightarrow> None
          | Some (Inl e, s) \<Rightarrow> Some (RoClosed (TeSession e), w\<lparr>sv_session := s\<rparr>)
          | Some (Inr plain, s) \<Rightarrow>
            let w = w\<lparr>sv_session := s\<rparr> in
            (case term_decode plain of
               Inr f \<Rightarrow> Some (RoFrame f, w)
             | Inl _ \<Rightarrow> Some (RoClosed TeProtocol, w)))
      | _ \<Rightarrow> Some (RoClosed TeProtocol, w)))"

definition send_terminal_frame ::
  "'s framed \<Rightarrow> aead \<Rightarrow> terminal_frame \<Rightarrow> 's serve \<Rightarrow> ((terminal_error + unit) \<times> 's serve) option" where
  "send_terminal_frame fs ae f w = (case term_encode f of
     None \<Rightarrow> None
   | Some plain \<Rightarrow> (case session_seal ae MtData plain (sv_session w) of
       None \<Rightarrow> None
     | Some (Inl e, s) \<Rightarrow> Some (Inl (TeSession e), w\<lparr>sv_session := s\<rparr>)
     | Some (Inr rec, s) \<Rightarrow>
       let w = w\<lparr>sv_session := s\<rparr> in
       (case encode (Data 0 (sr_sequence rec) (sr_sealed rec)) of
          Inl _ \<Rightarrow> Some (Inl TeProtocol, w)
        | Inr wire \<Rightarrow> (case fs_send fs wire (sv_io w) of
            None \<Rightarrow> None
          | Some (r, io) \<Rightarrow> Some (map_err TeTransport r, w\<lparr>sv_io := io\<rparr>)))))"

section \<open>Output\<close>

text \<open>
  The locals of \<open>drive\<close>. The first loop of \<open>drain_pty\<close> collects what the terminal has until it would
  block, ends, or a whole chunk is there.
\<close>

record drive_locals =
  dl_input_bytes :: u64
  dl_output_bytes :: u64
  dl_pty_eof :: bool
  dl_pending :: bytes
  dl_exit :: "u32 option"
  dl_exit_sent_at :: "nat option"

function drain_reads :: "bytes \<Rightarrow> hub \<Rightarrow> (terminal_error + bool) \<times> bytes \<times> hub" where
  "drain_reads pending b = (case hub_drain_output b of
     (PrData bs, b') \<Rightarrow>
       if DATA_CHUNK_MAX \<le> length (pending @ bs) then (Inr False, pending @ bs, b')
       else drain_reads (pending @ bs) b'
   | (PrEof, b') \<Rightarrow> (Inr True, pending, b')
   | (PrTimeout, b') \<Rightarrow> (Inr False, pending, b')
   | (PrFails, b') \<Rightarrow> (Inl TeIo, pending, b'))"
  by pat_completeness auto

termination
  by (relation "measure (\<lambda>(pending, b). length (pt_reads (hb_pty b)))")
    (auto simp: hub_drain_output_def pty_read_now_def split: list.splits)

fun send_chunks ::
  "'s framed \<Rightarrow> aead \<Rightarrow> bytes list \<Rightarrow> u64 \<Rightarrow> 's serve \<Rightarrow> ((terminal_error + unit) \<times> u64 \<times> 's serve) option" where
  "send_chunks fs ae [] n w = Some (Inr (), n, w)"
| "send_chunks fs ae (c # cs) n w = (case send_terminal_frame fs ae (TfOutput c) w of
     None \<Rightarrow> None
   | Some (Inl e, w) \<Rightarrow> Some (Inl e, n, w)
   | Some (Inr _, w) \<Rightarrow> send_chunks fs ae cs (saturating_add n (length c)) w)"

definition drain_pty ::
  "'s framed \<Rightarrow> aead \<Rightarrow> u64 \<Rightarrow> drive_locals \<Rightarrow> 's serve \<Rightarrow> ((terminal_error + unit) \<times> drive_locals \<times> 's serve) option" where
  "drain_pty fs ae h dl w =
    (if dl_pty_eof dl then Some (Inr (), dl, w)
     else case sv_hub h w of
       None \<Rightarrow> None
     | Some b \<Rightarrow> (case drain_reads (dl_pending dl) b of
         (Inl e, pending, b) \<Rightarrow> Some (Inl e, dl\<lparr>dl_pending := pending\<rparr>, put_hub h b w)
       | (Inr eof, pending, b) \<Rightarrow>
         (case send_chunks fs ae (chunk_input pending) (dl_output_bytes dl) (put_hub h b w) of
            None \<Rightarrow> None
          | Some (Inl e, n, w) \<Rightarrow> Some (Inl e, dl\<lparr>dl_pty_eof := eof, dl_pending := pending, dl_output_bytes := n\<rparr>, w)
          | Some (Inr _, n, w) \<Rightarrow> Some (Inr (), dl\<lparr>dl_pty_eof := eof, dl_pending := [], dl_output_bytes := n\<rparr>, w))))"

section \<open>Input\<close>

text \<open>
  The slices of one input frame: each is written behind the gate, and the echo is drained before
  the next one. The result is the end of the connection, if there is one.
\<close>

definition input_slices :: "bytes \<Rightarrow> bytes list" where
  "input_slices data = concat (map (chunks_of PTY_WRITE_SLICE) (chunk_input data))"

fun write_slices ::
  "'s framed \<Rightarrow> aead \<Rightarrow> u64 \<Rightarrow> u64 \<Rightarrow> bytes list \<Rightarrow> drive_locals \<Rightarrow> 's serve \<Rightarrow>
    (serve_end option \<times> drive_locals \<times> 's serve) option" where
  "write_slices fs ae h token [] dl w = Some (None, dl, w)"
| "write_slices fs ae h token (s # ss) dl w = (case on_hub h (hub_write_input token s) w of
     None \<Rightarrow> None
   | Some (Inl TeStaleWriter, w) \<Rightarrow> Some (Some SeFenced, dl, w)
   | Some (Inl e, w) \<Rightarrow> Some (Some (SeFailed e), dl, w)
   | Some (Inr _, w) \<Rightarrow>
     (case drain_pty fs ae h (dl\<lparr>dl_input_bytes := saturating_add (dl_input_bytes dl) (length s)\<rparr>) w of
        None \<Rightarrow> None
      | Some (Inl e, dl, w) \<Rightarrow> Some (Some (SeFailed e), dl, w)
      | Some (Inr _, dl, w) \<Rightarrow> write_slices fs ae h token ss dl w))"

text \<open>
  A received frame. The second component tells whether the round goes on behind it: the source leaves the
  loop at once for a stale grant and a protocol violation, but drains and checks for the exit of the
  shell after an input that failed.
\<close>

definition serve_frame ::
  "'s framed \<Rightarrow> aead \<Rightarrow> u64 \<Rightarrow> u64 \<Rightarrow> terminal_frame \<Rightarrow> drive_locals \<Rightarrow> 's serve \<Rightarrow>
    (serve_end option \<times> bool \<times> drive_locals \<times> 's serve) option" where
  "serve_frame fs ae h token f dl w = (case on_hub h (hub_heartbeat token) w of
     None \<Rightarrow> None
   | Some (alive, w) \<Rightarrow>
     let fresh = \<not> is_err alive in
     (case f of
        TfInput data \<Rightarrow>
          let w = w\<lparr>sv_inputs := sv_inputs w @ data\<rparr> in
          if fresh then map_option (\<lambda>(e, dl, w). (e, True, dl, w)) (write_slices fs ae h token (input_slices data) dl w)
          else Some (Some SeFenced, False, dl, w)
      | TfResize rows cols \<Rightarrow>
          if fresh then
            (case on_hub h (hub_resize token \<lparr>wi_rows = rows, wi_cols = cols\<rparr>) w of
               None \<Rightarrow> None
             | Some (r, w) \<Rightarrow>
                 if r = Inl TeStaleWriter then Some (Some SeFenced, False, dl, w) else Some (None, True, dl, w))
          else Some (Some SeFenced, False, dl, w)
      | TfPing \<Rightarrow> Some (None, True, dl, w)
      | _ \<Rightarrow> Some (Some SeProtocol, False, dl, w)))"

section \<open>One round of the data plane\<close>

definition serve_recv ::
  "'s framed \<Rightarrow> aead \<Rightarrow> u64 \<Rightarrow> u64 \<Rightarrow> drive_locals \<Rightarrow> 's serve \<Rightarrow>
    (serve_end option \<times> bool \<times> drive_locals \<times> 's serve) option" where
  "serve_recv fs ae h token dl w = (case recv_terminal_frame fs ae w of
     None \<Rightarrow> None
   | Some (RoFrame f, w) \<Rightarrow> serve_frame fs ae h token f dl w
   | Some (RoTimeout, w) \<Rightarrow> Some (None, True, dl, w)
   | Some (RoClosed e, w) \<Rightarrow>
       if dl_exit_sent_at dl \<noteq> None then Some (None, True, dl, w)
       else Some (Some (if e = TeTransport TrClosedByPeer then SePeerClosed else SeFailed e), False, dl, w))"

definition poll_exit_twice :: "u64 \<Rightarrow> bool \<Rightarrow> 's serve \<Rightarrow> (u32 option \<times> 's serve) option" where
  "poll_exit_twice h eof w =
    (let second = (\<lambda>w. case sv_hub h w of
         None \<Rightarrow> None
       | Some b \<Rightarrow> (case hub_poll_exit b of (x, b) \<Rightarrow> Some (x, put_hub h b w))) in
     if eof then second w
     else (case second w of
       None \<Rightarrow> None
     | Some (None, w) \<Rightarrow> Some (None, w)
     | Some (Some _, w) \<Rightarrow> second w))"

definition serve_exit ::
  "'s framed \<Rightarrow> aead \<Rightarrow> u64 \<Rightarrow> drive_locals \<Rightarrow> 's serve \<Rightarrow> ((terminal_error + unit) \<times> drive_locals \<times> 's serve) option" where
  "serve_exit fs ae h dl w =
    (if dl_exit dl \<noteq> None then Some (Inr (), dl, w)
     else case poll_exit_twice h (dl_pty_eof dl) w of
       None \<Rightarrow> None
     | Some (None, w) \<Rightarrow> Some (Inr (), dl, w)
     | Some (Some code, w) \<Rightarrow>
       let dl = dl\<lparr>dl_exit := Some code\<rparr> in
       (case send_terminal_frame fs ae (TfExit code) w of
          None \<Rightarrow> None
        | Some (Inl e, w) \<Rightarrow> Some (Inl e, dl, w)
        | Some (Inr _, w) \<Rightarrow>
          let w = tick (w\<lparr>sv_io := snd (fs_shutdown_write fs (sv_io w))\<rparr>) in
          Some (Inr (), dl\<lparr>dl_exit_sent_at := Some (sv_now w)\<rparr>, w)))"

definition serve_control :: "u64 \<Rightarrow> u64 \<Rightarrow> 's serve \<Rightarrow> (serve_end option \<times> 's serve) option" where
  "serve_control h token w = (case on_hub h (\<lambda>now b. (hub_lease_is_current token now b, b)) w of
     None \<Rightarrow> None
   | Some (True, w) \<Rightarrow> Some (None, w)
   | Some (False, w) \<Rightarrow> (case on_hub h (\<lambda>now b. (lease_snapshot_of now (hb_lease b), b)) w of
       None \<Rightarrow> None
     | Some (snap, w) \<Rightarrow> Some (Some (if token < lsn_token snap then SeFenced else SeLeaseExpired), w)))"

definition serve_round ::
  "'s framed \<Rightarrow> aead \<Rightarrow> serve_options \<Rightarrow> u64 \<Rightarrow> u64 \<Rightarrow> drive_locals \<Rightarrow> 's serve \<Rightarrow>
    ((terminal_error + serve_end option) \<times> drive_locals \<times> 's serve) option" where
  "serve_round fs ae opts h token dl w = (case serve_recv fs ae h token dl w of
     None \<Rightarrow> None
   | Some (end, False, dl, w) \<Rightarrow> Some (Inr end, dl, w)
   | Some (end, True, dl, w) \<Rightarrow> (case drain_pty fs ae h dl w of
       None \<Rightarrow> None
     | Some (Inl e, dl, w) \<Rightarrow> Some (Inr (Some (SeFailed e)), dl, w)
     | Some (Inr _, dl, w) \<Rightarrow> (case serve_exit fs ae h dl w of
         None \<Rightarrow> None
       | Some (Inl e, dl, w) \<Rightarrow> Some (Inl e, dl, w)
       | Some (Inr _, dl, w) \<Rightarrow> (case dl_exit_sent_at dl of
           Some at \<Rightarrow>
             let w = tick w in
             if so_exit_grace opts \<le> sv_now w - at
             then Some (Inr (Some (SeShellExited (case dl_exit dl of None \<Rightarrow> 0 | Some c \<Rightarrow> c))), dl, w)
             else Some (Inr end, dl, w)
         | None \<Rightarrow>
             if end \<noteq> None then Some (Inr end, dl, w)
             else (case serve_control h token w of
               None \<Rightarrow> None
             | Some (end, w) \<Rightarrow> Some (Inr end, dl, w))))))"

partial_function (option) serve_loop ::
  "'s framed \<Rightarrow> aead \<Rightarrow> serve_options \<Rightarrow> u64 \<Rightarrow> u64 \<Rightarrow> drive_locals \<Rightarrow> 's serve \<Rightarrow>
    ((terminal_error + serve_end) \<times> drive_locals \<times> 's serve) option" where
  "serve_loop fs ae opts h token dl w = (case serve_round fs ae opts h token dl w of
     None \<Rightarrow> None
   | Some (r, dl', w') \<Rightarrow> (case r of
       Inl e \<Rightarrow> Some (Inl e, dl', w')
     | Inr end \<Rightarrow> (case end of
         Some e \<Rightarrow> Some (Inr e, dl', w')
       | None \<Rightarrow> serve_loop fs ae opts h token dl' w')))"

section \<open>The connection\<close>

datatype first_outcome = FoWait | FoHub u64 window_size | FoGone u64

definition first_step ::
  "'s framed \<Rightarrow> aead \<Rightarrow> nat \<Rightarrow> 's serve \<Rightarrow> ((terminal_error + first_outcome) \<times> 's serve) option" where
  "first_step fs ae deadline w = (case recv_terminal_frame fs ae w of
     None \<Rightarrow> None
   | Some (RoFrame (TfOpen rows cols), w) \<Rightarrow>
       let w = tick w; win = \<lparr>wi_rows = rows, wi_cols = cols\<rparr> in
       (case registry_open win (sv_now w) (sv_reg w) of
          None \<Rightarrow> None
        | Some (r, g) \<Rightarrow> Some (map_ok (\<lambda>h. FoHub h win) r, w\<lparr>sv_reg := g\<rparr>))
   | Some (RoFrame (TfAttach handle rows cols), w) \<Rightarrow>
       let w = tick w in
       (case registry_find handle (sv_reg w) of
          Some h \<Rightarrow> Some (Inr (FoHub h \<lparr>wi_rows = rows, wi_cols = cols\<rparr>), w)
        | None \<Rightarrow> (case send_terminal_frame fs ae (TfDenied DrGone) w of
            None \<Rightarrow> None
          | Some (Inl e, w) \<Rightarrow> Some (Inl e, w)
          | Some (Inr _, w) \<Rightarrow> Some (Inr (FoGone handle), w\<lparr>sv_io := snd (fs_shutdown_write fs (sv_io w))\<rparr>)))
   | Some (RoFrame _, w) \<Rightarrow> Some (Inl TeProtocol, w)
   | Some (RoClosed e, w) \<Rightarrow> Some (Inl e, w)
   | Some (RoTimeout, w) \<Rightarrow>
       let w = tick w in Some (if deadline \<le> sv_now w then Inl TeProtocol else Inr FoWait, w))"

partial_function (option) first_frame ::
  "'s framed \<Rightarrow> aead \<Rightarrow> nat \<Rightarrow> 's serve \<Rightarrow> ((terminal_error + first_outcome) \<times> 's serve) option" where
  "first_frame fs ae deadline w = (case first_step fs ae deadline w of
     None \<Rightarrow> None
   | Some (r, w') \<Rightarrow> if r = Inr FoWait then first_frame fs ae deadline w' else Some (r, w'))"

definition locals0 :: drive_locals where
  "locals0 = \<lparr>dl_input_bytes = 0, dl_output_bytes = 0, dl_pty_eof = False, dl_pending = [],
    dl_exit = None, dl_exit_sent_at = None\<rparr>"

definition no_summary :: "u64 \<Rightarrow> serve_end \<Rightarrow> serve_summary" where
  "no_summary h e = \<lparr>sm_handle = h, sm_token = 0, sm_input_bytes = 0, sm_output_bytes = 0, sm_exit = None, sm_end = e\<rparr>"

text \<open>
  The connection behind the grant. The guard of the grant is dropped on the way out, also when sending
  failed.
\<close>

definition drop_grant :: "u64 \<Rightarrow> u64 \<Rightarrow> 's serve \<Rightarrow> 's serve option" where
  "drop_grant h token w = map_option snd (on_hub h (\<lambda>now b. ((), b\<lparr>hb_lease := grant_drop token (hb_lease b)\<rparr>)) w)"

definition serve_granted ::
  "'s framed \<Rightarrow> aead \<Rightarrow> serve_options \<Rightarrow> u64 \<Rightarrow> u64 \<Rightarrow> window_size \<Rightarrow> 's serve \<Rightarrow>
    ((terminal_error + serve_summary) \<times> 's serve) option" where
  "serve_granted fs ae opts h token win w = (case send_terminal_frame fs ae (TfGranted h token) w of
     None \<Rightarrow> None
   | Some (Inl e, w) \<Rightarrow> map_option (\<lambda>w. (Inl e, w)) (drop_grant h token w)
   | Some (Inr _, w) \<Rightarrow> (case on_hub h (hub_resize token win) w of
       None \<Rightarrow> None
     | Some (_, w) \<Rightarrow> (case serve_loop fs ae opts h token locals0 w of
         None \<Rightarrow> None
       | Some (r, dl, w) \<Rightarrow> (case drop_grant h token w of
           None \<Rightarrow> None
         | Some w \<Rightarrow> (case r of
             Inl e \<Rightarrow> Some (Inl e, w)
           | Inr end \<Rightarrow> (case sv_hub h w of
               None \<Rightarrow> None
             | Some b \<Rightarrow>
               Some (Inr \<lparr>sm_handle = h, sm_token = token, sm_input_bytes = dl_input_bytes dl,
                   sm_output_bytes = dl_output_bytes dl, sm_exit = dl_exit dl, sm_end = end\<rparr>,
                 if hub_has_exited b then w\<lparr>sv_reg := registry_retire h (sv_reg w)\<rparr> else w)))))))"

definition drive ::
  "'s framed \<Rightarrow> aead \<Rightarrow> serve_options \<Rightarrow> u64 \<Rightarrow> 's serve \<Rightarrow> ((terminal_error + serve_summary) \<times> 's serve) option" where
  "drive fs ae opts conn w = (case fs_set_deadline fs (so_poll_slice opts) (sv_io w) of
     (Inl e, io) \<Rightarrow> Some (Inl (TeTransport e), w\<lparr>sv_io := io\<rparr>)
   | (Inr _, io) \<Rightarrow>
     let w = tick (w\<lparr>sv_io := io\<rparr>) in
     (case first_frame fs ae (sv_now w + so_first_frame_timeout opts) w of
        None \<Rightarrow> None
      | Some (Inl e, w) \<Rightarrow> Some (Inl e, w)
      | Some (Inr FoWait, w) \<Rightarrow> None
      | Some (Inr (FoGone handle), w) \<Rightarrow> Some (Inr (no_summary handle SeDeniedGone), w)
      | Some (Inr (FoHub h win), w) \<Rightarrow>
        let w = tick w in
        (case sv_hub h w of
           None \<Rightarrow> None
         | Some b \<Rightarrow> (case hub_acquire conn (sv_now w) b of
             None \<Rightarrow> None
           | Some (Inl _, b) \<Rightarrow>
             (case send_terminal_frame fs ae (TfDenied DrBusy) (put_hub h b w) of
                None \<Rightarrow> None
              | Some (Inl e, w) \<Rightarrow> Some (Inl e, w)
              | Some (Inr _, w) \<Rightarrow>
                  Some (Inr (no_summary h SeDeniedBusy), w\<lparr>sv_io := snd (fs_shutdown_write fs (sv_io w))\<rparr>))
           | Some (Inr token, b) \<Rightarrow> serve_granted fs ae opts h token win (put_hub h b w)))))"

definition serve_connection ::
  "'s framed \<Rightarrow> aead \<Rightarrow> serve_options \<Rightarrow> u64 \<Rightarrow> 's serve \<Rightarrow> (serve_summary \<times> 's serve) option" where
  "serve_connection fs ae opts conn w = (case drive fs ae opts conn w of
     None \<Rightarrow> None
   | Some (r, w) \<Rightarrow>
     let w = (case r of Inr _ \<Rightarrow> w | Inl _ \<Rightarrow> w\<lparr>sv_session := session_close (sv_session w)\<rparr>);
         summary = (case r of Inr s \<Rightarrow> s | Inl e \<Rightarrow> no_summary 0 (SeFailed e)) in
     Some (summary, w\<lparr>sv_io := snd (fs_close fs (sv_io w))\<rparr>))"

declare drain_reads.simps [simp del] write_slices.simps [simp del]

section \<open>What reaches the terminal\<close>

definition written :: "u64 \<Rightarrow> 's serve \<Rightarrow> bytes option" where
  "written h w = map_option (\<lambda>b. pt_written (hb_pty b)) (sv_hub h w)"

text \<open>Worlds that agree in what was received and in what every terminal was given.\<close>

definition same_input :: "'s serve \<Rightarrow> 's serve \<Rightarrow> bool" where
  "same_input w w' \<longleftrightarrow> (\<forall>h. written h w' = written h w) \<and> sv_inputs w' = sv_inputs w"

lemma same_input_refl [simp]: "same_input w w" by (simp add: same_input_def)

lemma same_input_trans [trans]: "same_input u v \<Longrightarrow> same_input v w \<Longrightarrow> same_input u w"
  by (simp add: same_input_def)

lemma same_input_io [simp]:
  "same_input w (w\<lparr>sv_io := io\<rparr>)" "same_input w (w\<lparr>sv_session := s\<rparr>)"
  "same_input w (w\<lparr>sv_io := io, sv_session := s\<rparr>)" "same_input w (w\<lparr>sv_session := s, sv_io := io\<rparr>)"
  by (simp_all add: same_input_def written_def sv_hub_def)

lemma env_act_written:
  "map_option (\<lambda>b. pt_written (hb_pty b)) (rg_store (env_act_on now a g) h) =
   map_option (\<lambda>b. pt_written (hb_pty b)) (rg_store g h)"
  by (auto simp: env_act_on_def registry_retire_def split: env_act.splits option.splits)

lemma env_acts_written:
  "map_option (\<lambda>b. pt_written (hb_pty b)) (rg_store (fold (env_act_on now) acts g) h) =
   map_option (\<lambda>b. pt_written (hb_pty b)) (rg_store g h)"
  by (induction acts arbitrary: g) (simp_all add: env_act_written)

lemma same_input_tick [simp]: "same_input w (tick w)"
  by (cases "sv_env w") (auto simp: tick_def same_input_def written_def sv_hub_def env_acts_written)

lemma put_hub_written:
  "written h' (put_hub h b w) = (if h' = h then Some (pt_written (hb_pty b)) else written h' w)"
  "sv_inputs (put_hub h b w) = sv_inputs w"
  by (auto simp: written_def put_hub_def sv_hub_def)

lemma same_input_put:
  assumes "sv_hub h w = Some b" "pt_written (hb_pty b') = pt_written (hb_pty b)"
  shows "same_input w (put_hub h b' w)"
  unfolding same_input_def put_hub_written using assms by (simp add: written_def)

lemma on_hub_same:
  assumes "on_hub h f w = Some (r, w')"
    and f: "\<And>now b. pt_written (hb_pty (snd (f now b))) = pt_written (hb_pty b)"
  shows "same_input w w'"
proof -
  obtain b where b: "sv_hub h (tick w) = Some b" and w': "w' = put_hub h (snd (f (sv_now (tick w)) b)) (tick w)"
    using assms(1) by (auto simp: on_hub_def Let_def split: option.splits prod.splits)
  show ?thesis unfolding w' using same_input_trans [OF same_input_tick same_input_put [OF b f]] .
qed

lemma recv_same: "recv_terminal_frame fs ae w = Some (x, w') \<Longrightarrow> same_input w w'"
  by (auto simp: recv_terminal_frame_def Let_def
      split: option.splits sum.splits transport_error.splits message.splits)

lemma send_same: "send_terminal_frame fs ae f w = Some (x, w') \<Longrightarrow> same_input w w'"
  by (auto simp: send_terminal_frame_def Let_def split: option.splits sum.splits)

lemma hub_ops_written:
  "pt_written (hb_pty (snd (hub_heartbeat t now b))) = pt_written (hb_pty b)"
  "pt_written (hb_pty (snd (hub_resize t win now b))) = pt_written (hb_pty b)"
  "pt_written (hb_pty (snd (hub_drain_output b))) = pt_written (hb_pty b)"
  "pt_written (hb_pty (snd (hub_poll_exit b))) = pt_written (hb_pty b)"
  by (auto simp: hub_heartbeat_def hub_resize_def hub_drain_output_def hub_poll_exit_def with_write_gate_def
      pty_set_winsize_def pty_read_now_def pty_try_wait_def
      split: prod.splits list.splits option.splits wait_result.splits if_splits)

lemma drain_reads_written: "pt_written (hb_pty (snd (snd (drain_reads p b)))) = pt_written (hb_pty b)"
proof (induction p b rule: drain_reads.induct)
  case (1 p b)
  obtain r b' where r: "hub_drain_output b = (r, b')" by fastforce
  then have "pt_written (hb_pty b') = pt_written (hb_pty b)" using hub_ops_written(3) [of b] by simp
  then show ?case using "1.IH" r by (cases r) (simp_all add: drain_reads.simps [of p b])
qed

lemma send_chunks_same: "send_chunks fs ae cs n w = Some (x, m, w') \<Longrightarrow> same_input w w'"
proof (induction cs arbitrary: n w)
  case (Cons c cs)
  then obtain r v where s: "send_terminal_frame fs ae (TfOutput c) w = Some (r, v)"
    by (auto split: option.splits)
  then show ?case using Cons same_input_trans [OF send_same [OF s]] send_same [OF s]
    by (auto split: sum.splits)
qed simp

lemma drain_pty_same:
  "drain_pty fs ae h dl w = Some (r, dl', w') \<Longrightarrow> same_input w w' \<and> dl_input_bytes dl' = dl_input_bytes dl \<and>
    dl_exit_sent_at dl' = dl_exit_sent_at dl"
proof -
  assume d: "drain_pty fs ae h dl w = Some (r, dl', w')"
  show ?thesis
  proof (cases "dl_pty_eof dl")
    case False
    then obtain b where b: "sv_hub h w = Some b" using d by (auto simp: drain_pty_def split: option.splits)
    obtain q p b' where q: "drain_reads (dl_pending dl) b = (q, p, b')" by (metis prod_cases3)
    have "pt_written (hb_pty b') = pt_written (hb_pty b)" using drain_reads_written [of "dl_pending dl" b] q by simp
    then have s: "same_input w (put_hub h b' w)" by (rule same_input_put [OF b])
    show ?thesis
      using d False b q s send_chunks_same same_input_trans [OF s]
      by (auto simp: drain_pty_def split: sum.splits option.splits) blast+
  qed (use d in \<open>simp add: drain_pty_def\<close>)
qed

text \<open>
  Some calls of a connection hand input over to the terminal: of the bytes \<open>xs\<close> that came in, the first
  \<open>k\<close> reach the terminal of \<open>h\<close>, and the count of input bytes grows by at most as much.
\<close>

definition hands_over ::
  "u64 \<Rightarrow> bytes \<Rightarrow> nat \<Rightarrow> 's serve \<times> u64 \<Rightarrow> 's serve \<times> u64 \<Rightarrow> bool" where
  "hands_over h xs k a b \<longleftrightarrow> k \<le> length xs \<and> sv_inputs (fst b) = sv_inputs (fst a) @ xs \<and>
    written h (fst b) = map_option (\<lambda>ys. ys @ take k xs) (written h (fst a)) \<and>
    unat (snd b) \<le> unat (snd a) + k"

lemma saturating_add_le: "unat (saturating_add a n) \<le> unat a + n"
proof (cases "n < 2 ^ 64")
  case True
  then have n: "unat (word_of_nat n :: u64) = n" by (simp add: unat_of_nat)
  show ?thesis
  proof (cases "u64_checked_add a (word_of_nat n)")
    case None
    then have "2 ^ 64 \<le> unat a + n" using n by (simp add: u64_checked_add_None)
    moreover have "unat (saturating_add a n) < 2 ^ 64" by simp
    ultimately show ?thesis by (meson le_trans less_imp_le)
  next
    case (Some c)
    then show ?thesis using u64_checked_add_unat [OF Some] n by (simp add: saturating_add_def)
  qed
next
  case False
  moreover have "unat (saturating_add a n) < 2 ^ 64" by simp
  ultimately show ?thesis by (meson le_add2 le_trans less_imp_le not_less)
qed

lemma hands_over_same: "same_input w w' \<Longrightarrow> hands_over h [] 0 (w, n) (w', n)"
  by (simp add: hands_over_def same_input_def option.map_ident)

lemma hands_over_quiet:
  assumes "same_input u u'" "hands_over h xs k (u', n) (v, m)" "same_input v v'"
  shows "hands_over h xs k (u, n) (v', m)"
  using assms by (simp add: hands_over_def same_input_def)

lemma on_hub_write:
  assumes "on_hub h (hub_write_input token s) w = Some (r, w')"
  shows "sv_inputs w' = sv_inputs w \<and>
    (\<exists>k \<le> length s. written h w' = map_option (\<lambda>ys. ys @ take k s) (written h w) \<and> (r = Inr () \<longrightarrow> k = length s))"
proof -
  obtain b b' where b: "sv_hub h (tick w) = Some b" and wr: "hub_write_input token s (sv_now (tick w)) b = (r, b')"
    and w': "w' = put_hub h b' (tick w)"
    using assms by (auto simp: on_hub_def Let_def split: option.splits prod.splits)
  have "written h (tick w) = Some (pt_written (hb_pty b))" by (simp add: written_def b)
  then have "written h w = Some (pt_written (hb_pty b))" "sv_inputs (tick w) = sv_inputs w"
    using same_input_tick [of w] unfolding same_input_def by simp_all
  then show ?thesis using hub_write_input_cases [OF wr] by (auto simp: w' put_hub_written)
qed

lemma write_slices_hands_over:
  "write_slices fs ae h token ss dl w = Some (e, dl', w') \<Longrightarrow>
    sv_inputs w' = sv_inputs w \<and> dl_exit_sent_at dl' = dl_exit_sent_at dl \<and>
    (\<exists>k \<le> length (concat ss). written h w' = map_option (\<lambda>ys. ys @ take k (concat ss)) (written h w) \<and>
      unat (dl_input_bytes dl') \<le> unat (dl_input_bytes dl) + k \<and> (e = None \<longrightarrow> k = length (concat ss))) \<and>
    (\<forall>x. e = Some x \<longrightarrow> x = SeFenced \<or> (\<exists>y. x = SeFailed y))"
proof (induction ss arbitrary: dl w)
  case Nil
  then show ?case by (simp add: write_slices.simps option.map_ident)
next
  case (Cons s ss)
  obtain r u where w: "on_hub h (hub_write_input token s) w = Some (r, u)"
    using Cons.prems by (auto simp: write_slices.simps split: option.splits)
  obtain k where k: "k \<le> length s" "written h u = map_option (\<lambda>ys. ys @ take k s) (written h w)"
      "r = Inr () \<longrightarrow> k = length s" and iu: "sv_inputs u = sv_inputs w"
    using on_hub_write [OF w] by blast
  show ?case
  proof (cases r)
    case (Inl x)
    then have "w' = u" "dl' = dl" "e = Some SeFenced \<or> (\<exists>y. e = Some (SeFailed y))"
      using Cons.prems w by (auto simp: write_slices.simps split: terminal_error.splits)
    then show ?thesis using k iu by (auto intro!: exI [of _ k])
  next
    case (Inr z)
    let ?dl = "dl\<lparr>dl_input_bytes := saturating_add (dl_input_bytes dl) (length s)\<rparr>"
    obtain q d v where q: "drain_pty fs ae h ?dl u = Some (q, d, v)"
      using Cons.prems w Inr by (auto simp: write_slices.simps split: option.splits)
    note same = drain_pty_same [OF q]
    have full: "written h v = map_option (\<lambda>ys. ys @ s) (written h w)" "sv_inputs v = sv_inputs w"
      using same k Inr iu by (auto simp: same_input_def)
    have cnt: "unat (dl_input_bytes d) \<le> unat (dl_input_bytes dl) + length s"
      using same saturating_add_le by simp
    show ?thesis
    proof (cases q)
      case (Inl y)
      then have "w' = v" "dl' = d" "e = Some (SeFailed y)"
        using Cons.prems w Inr q by (auto simp: write_slices.simps)
      then show ?thesis using full cnt same by (auto intro!: exI [of _ "length s"])
    next
      case r2: (Inr y)
      then have rec: "write_slices fs ae h token ss d v = Some (e, dl', w')"
        using Cons.prems w Inr q by (simp add: write_slices.simps)
      from Cons.IH [OF rec] obtain j where j: "j \<le> length (concat ss)"
          "written h w' = map_option (\<lambda>ys. ys @ take j (concat ss)) (written h v)"
          "unat (dl_input_bytes dl') \<le> unat (dl_input_bytes d) + j" "e = None \<longrightarrow> j = length (concat ss)"
        by blast
      show ?thesis using Cons.IH [OF rec] j full cnt same
        by (auto simp: option.map_comp o_def intro!: exI [of _ "length s + j"])
    qed
  qed
qed

lemma concat_slices: "concat (input_slices data) = data"
proof -
  have "concat (concat (map (chunks_of PTY_WRITE_SLICE) cs)) = concat cs" for cs :: "bytes list"
    by (induction cs) (simp_all add: concat_chunks PTY_WRITE_SLICE_def)
  then show ?thesis by (simp add: input_slices_def chunk_input_spec)
qed

text \<open>The ends that leave received input unwritten.\<close>

fun cuts_input :: "serve_end \<Rightarrow> bool" where
  "cuts_input SeFenced \<longleftrightarrow> True"
| "cuts_input (SeFailed e) \<longleftrightarrow> True"
| "cuts_input (SeShellExited c) \<longleftrightarrow> True"
| "cuts_input e \<longleftrightarrow> False"

definition moves ::
  "u64 \<Rightarrow> bool \<Rightarrow> 's serve \<times> drive_locals \<Rightarrow> 's serve \<times> drive_locals \<Rightarrow> bool" where
  "moves h c a b \<longleftrightarrow> (\<exists>xs k. hands_over h xs k (fst a, dl_input_bytes (snd a)) (fst b, dl_input_bytes (snd b)) \<and>
    (k < length xs \<longrightarrow> c))"

lemma moves_same: "same_input w w' \<Longrightarrow> dl_input_bytes dl' = dl_input_bytes dl \<Longrightarrow> moves h c (w, dl) (w', dl')"
  unfolding moves_def using hands_over_same [of w w' h "dl_input_bytes dl"] by fastforce

lemma moves_then_same:
  "moves h c a (v, dl) \<Longrightarrow> same_input v v' \<Longrightarrow> dl_input_bytes dl' = dl_input_bytes dl \<Longrightarrow> (c \<Longrightarrow> c') \<Longrightarrow>
    moves h c' a (v', dl')"
  unfolding moves_def hands_over_def same_input_def by auto

lemma same_then_moves:
  "same_input u u' \<Longrightarrow> moves h c (u', dl) b \<Longrightarrow> moves h c (u, dl) b"
  unfolding moves_def hands_over_def same_input_def by auto

lemma moves_trans:
  assumes "moves h False a b" "moves h c b d" shows "moves h c a d"
proof -
  obtain xs k where x: "hands_over h xs k (fst a, dl_input_bytes (snd a)) (fst b, dl_input_bytes (snd b))" "k = length xs"
    using assms(1) unfolding moves_def hands_over_def by (auto simp: le_less)
  obtain ys j where y: "hands_over h ys j (fst b, dl_input_bytes (snd b)) (fst d, dl_input_bytes (snd d))"
      "j < length ys \<longrightarrow> c"
    using assms(2) unfolding moves_def by blast
  have "hands_over h (xs @ ys) (k + j) (fst a, dl_input_bytes (snd a)) (fst d, dl_input_bytes (snd d))"
    using x y unfolding hands_over_def by (auto simp: option.map_comp o_def)
  then show ?thesis using x(2) y(2) unfolding moves_def by fastforce
qed

definition end_cuts :: "serve_end option \<Rightarrow> bool" where
  "end_cuts e \<longleftrightarrow> (case e of None \<Rightarrow> False | Some x \<Rightarrow> cuts_input x)"

lemma moves_input:
  assumes "same_input w u" "sv_inputs w' = sv_inputs u @ data"
    and "written h w' = map_option (\<lambda>ys. ys @ take k data) (written h u)" "k \<le> length data"
    and "unat (dl_input_bytes dl') \<le> unat (dl_input_bytes dl) + k" "k < length data \<longrightarrow> c"
  shows "moves h c (w, dl) (w', dl')"
  unfolding moves_def hands_over_def using assms
  by (intro exI [of _ data] exI [of _ k]) (simp add: same_input_def)

lemma serve_frame_moves:
  assumes "serve_frame fs ae h token f dl w = Some (e, go, dl', w')"
  shows "moves h (end_cuts e) (w, dl) (w', dl') \<and> dl_exit_sent_at dl' = dl_exit_sent_at dl"
proof -
  obtain alive u where hb: "on_hub h (hub_heartbeat token) w = Some (alive, u)"
    using assms by (auto simp: serve_frame_def split: option.splits)
  have u: "same_input w u" by (rule on_hub_same [OF hb]) (rule hub_ops_written(1))
  show ?thesis
  proof (cases f)
    case (TfInput data)
    let ?v = "u\<lparr>sv_inputs := sv_inputs u @ data\<rparr>"
    have v: "written h ?v = written h u" by (simp add: written_def sv_hub_def)
    show ?thesis
    proof (cases "is_err alive")
      case True
      then have "e = Some SeFenced" "dl' = dl" "w' = ?v"
        using assms hb TfInput by (auto simp: serve_frame_def)
      then show ?thesis using v
        by (auto intro!: moves_input [OF u, of _ data _ 0] simp: end_cuts_def option.map_ident)
    next
      case False
      then have ws: "write_slices fs ae h token (input_slices data) dl ?v = Some (e, dl', w')"
        using assms hb TfInput by (auto simp: serve_frame_def)
      note sl = write_slices_hands_over [OF ws, unfolded concat_slices]
      obtain k where k: "k \<le> length data" "written h w' = map_option (\<lambda>ys. ys @ take k data) (written h ?v)"
          "unat (dl_input_bytes dl') \<le> unat (dl_input_bytes dl) + k" "e = None \<longrightarrow> k = length data"
        using sl by blast
      have "k < length data \<longrightarrow> end_cuts e" using k(4) sl by (cases e) (auto simp: end_cuts_def)
      then show ?thesis using sl k v by (auto intro!: moves_input [OF u, of _ data _ k])
    qed
  next
    case (TfResize r c)
    show ?thesis
    proof (cases "is_err alive")
      case True
      then show ?thesis using assms hb TfResize u
        by (auto simp: serve_frame_def intro: moves_same)
    next
      case False
      then obtain q v where q: "on_hub h (hub_resize token \<lparr>wi_rows = r, wi_cols = c\<rparr>) u = Some (q, v)"
        and w': "w' = v" "dl' = dl"
        using assms hb TfResize by (auto simp: serve_frame_def split: option.splits if_splits)
      have "same_input u v" by (rule on_hub_same [OF q]) (rule hub_ops_written(2))
      then show ?thesis using same_input_trans [OF u] w' by (auto intro: moves_same)
    qed
  qed (use assms hb u in \<open>auto simp: serve_frame_def intro: moves_same\<close>)
qed

lemma serve_recv_moves:
  assumes "serve_recv fs ae h token dl w = Some (e, go, dl', w')"
  shows "moves h (end_cuts e) (w, dl) (w', dl')"
proof -
  obtain x u where x: "recv_terminal_frame fs ae w = Some (x, u)"
    using assms by (auto simp: serve_recv_def split: option.splits)
  note u = recv_same [OF x]
  show ?thesis
  proof (cases x)
    case (RoFrame f)
    then show ?thesis using assms x same_then_moves [OF u] serve_frame_moves
      by (fastforce simp: serve_recv_def)
  qed (use assms x u in \<open>auto simp: serve_recv_def intro!: moves_same split: if_splits\<close>)
qed

lemma poll_exit_same:
  assumes "poll_exit_twice h eof w = Some (x, w')" shows "same_input w w'"
proof -
  have one: "same_input u (put_hub h b' u)" if "sv_hub h u = Some b" "hub_poll_exit b = (z, b')"
    for u :: "'a serve" and b b' z
    using same_input_put [OF that(1)] hub_ops_written(4) [of b] that(2) by simp
  show ?thesis
  proof (cases eof)
    case True
    then show ?thesis using assms one
      by (auto simp: poll_exit_twice_def Let_def split: option.splits prod.splits)
  next
    case False
    obtain b where b: "sv_hub h w = Some b"
      using False assms by (auto simp: poll_exit_twice_def Let_def split: option.splits)
    obtain y b1 where y: "hub_poll_exit b = (y, b1)" by fastforce
    have s1: "same_input w (put_hub h b1 w)" by (rule one [OF b y])
    have h1: "sv_hub h (put_hub h b1 w) = Some b1" by (simp add: sv_hub_def put_hub_def)
    obtain z b2 where z: "hub_poll_exit b1 = (z, b2)" by fastforce
    have s2: "same_input (put_hub h b1 w) (put_hub h b2 (put_hub h b1 w))" by (rule one [OF h1 z])
    show ?thesis using False assms b y h1 z s1 same_input_trans [OF s1 s2]
      by (auto simp: poll_exit_twice_def Let_def split: option.splits)
  qed
qed

lemma serve_exit_same:
  assumes "serve_exit fs ae h dl w = Some (r, dl', w')"
  shows "same_input w w' \<and> dl_input_bytes dl' = dl_input_bytes dl"
proof (cases "dl_exit dl")
  case None
  then obtain x u where x: "poll_exit_twice h (dl_pty_eof dl) w = Some (x, u)"
    using assms by (auto simp: serve_exit_def split: option.splits)
  note u = poll_exit_same [OF x]
  show ?thesis
  proof (cases x)
    case (Some code)
    then obtain q v where q: "send_terminal_frame fs ae (TfExit code) u = Some (q, v)"
      using assms None x by (auto simp: serve_exit_def Let_def split: option.splits)
    have v: "same_input w v" by (rule same_input_trans [OF u send_same [OF q]])
    show ?thesis
      using assms None x Some q v same_input_trans [OF same_input_trans [OF v same_input_io(1)] same_input_tick]
      by (auto simp: serve_exit_def Let_def split: sum.splits)
  qed (use assms None x u in \<open>auto simp: serve_exit_def\<close>)
qed (use assms in \<open>simp add: serve_exit_def\<close>)

lemma serve_control_same:
  assumes "serve_control h token w = Some (e, w')" shows "same_input w w'"
proof -
  obtain cur u where c: "on_hub h (\<lambda>now b. (hub_lease_is_current token now b, b)) w = Some (cur, u)"
    using assms by (auto simp: serve_control_def split: option.splits)
  have u: "same_input w u" by (rule on_hub_same [OF c]) simp
  show ?thesis
  proof (cases cur)
    case True
    then show ?thesis using assms c u by (auto simp: serve_control_def)
  next
    case False
    then obtain snap v where s: "on_hub h (\<lambda>now b. (lease_snapshot_of now (hb_lease b), b)) u = Some (snap, v)"
      using assms c by (auto simp: serve_control_def split: option.splits)
    have "same_input u v" by (rule on_hub_same [OF s]) simp
    then show ?thesis using same_input_trans [OF u] assms c s False
      by (auto simp: serve_control_def)
  qed
qed

lemma serve_round_moves:
  assumes "serve_round fs ae opts h token dl w = Some (r, dl', w')"
  shows "moves h (case r of Inl _ \<Rightarrow> True | Inr e \<Rightarrow> end_cuts e) (w, dl) (w', dl')"
proof -
  obtain e go d u where f: "serve_recv fs ae h token dl w = Some (e, go, d, u)"
    using assms by (auto simp: serve_round_def split: option.splits)
  note mu = serve_recv_moves [OF f]
  show ?thesis
  proof (cases go)
    case False
    then show ?thesis using assms f mu by (auto simp: serve_round_def)
  next
    case True
    then obtain q d1 v where q: "drain_pty fs ae h d u = Some (q, d1, v)"
      using assms f by (auto simp: serve_round_def split: option.splits)
    have mv: "moves h c' (w, dl) (v, d1)" if "end_cuts e \<Longrightarrow> c'" for c'
      using moves_then_same [OF mu _ _ that] drain_pty_same [OF q] by simp
    show ?thesis
    proof (cases q)
      case (Inl x)
      then show ?thesis using assms f q True mv [of True]
        by (auto simp: serve_round_def end_cuts_def)
    next
      case (Inr y)
      then obtain p d2 x where p: "serve_exit fs ae h d1 v = Some (p, d2, x)"
        using assms f q True by (auto simp: serve_round_def split: option.splits)
      have mx: "moves h c' (w, dl) (x', d2)" if "end_cuts e \<Longrightarrow> c'" "same_input x x'" for c' x'
        using moves_then_same [OF mv [OF that(1)], of x'] serve_exit_same [OF p] that(2) same_input_trans by blast
      show ?thesis
      proof (cases p)
        case (Inl z)
        then show ?thesis using assms f q True Inr p mx [of True x] by (auto simp: serve_round_def)
      next
        case r2: (Inr z)
        show ?thesis
        proof (cases "dl_exit_sent_at d2")
          case (Some at)
          then show ?thesis
            using assms f q True Inr p r2 mx [of True "tick x"] mx [of "end_cuts e" "tick x"]
            by (auto simp: serve_round_def Let_def end_cuts_def split: if_splits)
        next
          case None
          show ?thesis
          proof (cases "e = None")
            case False
            then show ?thesis using assms f q True Inr p r2 None mx [of "end_cuts e" x]
              by (auto simp: serve_round_def)
          next
            case e: True
            then obtain e2 where c: "serve_control h token x = Some (e2, w')" and r: "r = Inr e2" "dl' = d2"
              using assms f q True Inr p r2 None by (auto simp: serve_round_def split: option.splits)
            have "same_input x w'" using serve_control_same [OF c] by blast
            then show ?thesis using mx [of "end_cuts e2" w'] e by (simp add: r end_cuts_def)
          qed
        qed
      qed
    qed
  qed
qed

lemma serve_loop_moves:
  assumes "serve_loop fs ae opts h token dl w = Some (r, dl', w')"
  shows "moves h (case r of Inl _ \<Rightarrow> True | Inr e \<Rightarrow> cuts_input e) (w, dl) (w', dl')"
proof -
  have "case y of (r, dl', w') \<Rightarrow> moves h (case r of Inl _ \<Rightarrow> True | Inr e \<Rightarrow> cuts_input e) (w, dl) (w', dl')"
    if "serve_loop fs ae opts h token dl w = Some y" for y
  proof (rule serve_loop.raw_induct [where P = "\<lambda>fs ae opts h token dl w y. case y of (r, dl', w') \<Rightarrow>
      moves h (case r of Inl _ \<Rightarrow> True | Inr e \<Rightarrow> cuts_input e) (w, dl) (w', dl')", OF _ that], goal_cases)
    case (1 loop fs ae opts h token dl w y)
    obtain q d u where q: "serve_round fs ae opts h token dl w = Some (q, d, u)"
      using 1(2) by (auto split: option.splits)
    note m = serve_round_moves [OF q]
    show ?case
    proof (cases q)
      case (Inl e)
      then show ?thesis using 1(2) q m by auto
    next
      case (Inr e)
      show ?thesis
      proof (cases e)
        case None
        then have "loop fs ae opts h token d u = Some y" using 1(2) q Inr by simp
        from 1(1) [OF this] show ?thesis
          using m Inr None moves_trans by (auto simp: end_cuts_def split: prod.splits)
      next
        case (Some x)
        then show ?thesis using 1(2) q m Inr by (auto simp: end_cuts_def)
      qed
    qed
  qed
  then show ?thesis using assms by fastforce
qed

lemma drop_grant_same:
  assumes "drop_grant h token w = Some w'"
  shows "same_input w w' \<and> (\<forall>b now. sv_hub h w' = Some b \<longrightarrow> \<not> lease_is_current token now (hb_lease b))"
proof -
  obtain r where r: "on_hub h (\<lambda>now b. ((), b\<lparr>hb_lease := grant_drop token (hb_lease b)\<rparr>)) w = Some (r, w')"
    using assms by (auto simp: drop_grant_def)
  then obtain c where "w' = put_hub h (c\<lparr>hb_lease := grant_drop token (hb_lease c)\<rparr>) (tick w)"
    by (auto simp: on_hub_def Let_def split: option.splits)
  then have "\<forall>b now. sv_hub h w' = Some b \<longrightarrow> \<not> lease_is_current token now (hb_lease b)"
    by (auto simp: sv_hub_def put_hub_def grant_drop_def lease_is_current_def)
  then show ?thesis using on_hub_same [OF r] by simp
qed

lemma same_input_retire: "same_input w (w\<lparr>sv_reg := registry_retire h (sv_reg w)\<rparr>)"
  by (simp add: same_input_def written_def sv_hub_def registry_retire_def)

lemma retire_hub: "sv_hub h' (w\<lparr>sv_reg := registry_retire h (sv_reg w)\<rparr>) = sv_hub h' w"
  by (simp add: sv_hub_def registry_retire_def)

text \<open>
  C28. Behind its grant a connection writes to the terminal a prefix of the input that it receives, in
  order, and reports no more input bytes than it wrote. The prefix is all of the input, unless the
  connection was fenced, failed, or outlived the shell. When the connection has ended, its grant is gone.
\<close>

theorem serve_input_in_order:
  assumes "serve_granted fs ae opts h token win w = Some (r, w')" "written h w = Some ys"
  shows "(\<exists>xs k. sv_inputs w' = sv_inputs w @ xs \<and> k \<le> length xs \<and> written h w' = Some (ys @ take k xs) \<and>
      (\<forall>s. r = Inr s \<longrightarrow> unat (sm_input_bytes s) \<le> k \<and> (k < length xs \<longrightarrow> cuts_input (sm_end s)))) \<and>
    (\<forall>b now. sv_hub h w' = Some b \<longrightarrow> \<not> lease_is_current token now (hb_lease b))"
proof -
  obtain q u where q: "send_terminal_frame fs ae (TfGranted h token) w = Some (q, u)"
    using assms(1) by (auto simp: serve_granted_def split: option.splits)
  note u = send_same [OF q]
  have wu: "written h u = Some ys" "sv_inputs u = sv_inputs w" using u assms(2) by (simp_all add: same_input_def)
  show ?thesis
  proof (cases q)
    case (Inl e)
    then have d: "drop_grant h token u = Some w'" and r: "r = Inl e"
      using assms(1) q by (auto simp: serve_granted_def)
    show ?thesis using drop_grant_same [OF d] wu r
      by (auto simp: same_input_def intro!: exI [of _ "[]"])
  next
    case (Inr z)
    then obtain p v where p: "on_hub h (hub_resize token win) u = Some (p, v)"
      using assms(1) q by (auto simp: serve_granted_def split: option.splits)
    have uv: "same_input u v" by (rule on_hub_same [OF p]) (rule hub_ops_written(2))
    obtain a dl x where l: "serve_loop fs ae opts h token locals0 v = Some (a, dl, x)"
      using assms(1) q Inr p by (auto simp: serve_granted_def split: option.splits)
    obtain y where y: "drop_grant h token x = Some y"
      using assms(1) q Inr p l by (auto simp: serve_granted_def split: option.splits)
    have same: "same_input y w' \<and> (\<forall>b now. sv_hub h w' = Some b \<longrightarrow> sv_hub h y = Some b) \<and>
        (\<forall>s. r = Inr s \<longrightarrow> sm_input_bytes s = dl_input_bytes dl \<and> a = Inr (sm_end s))"
      using assms(1) q Inr p l y
      by (auto simp: serve_granted_def same_input_retire retire_hub split: sum.splits option.splits if_splits)
    obtain xs k where hx: "hands_over h xs k (v, 0) (x, dl_input_bytes dl)"
      and cut: "k < length xs \<longrightarrow> (case a of Inl _ \<Rightarrow> True | Inr e \<Rightarrow> cuts_input e)"
      using serve_loop_moves [OF l] by (auto simp: moves_def locals0_def)
    have "sv_inputs w' = sv_inputs w @ xs" "k \<le> length xs" "written h w' = Some (ys @ take k xs)"
      "unat (dl_input_bytes dl) \<le> k"
      using hx wu uv same drop_grant_same [OF y] by (simp_all add: hands_over_def same_input_def)
    then show ?thesis using same cut drop_grant_same [OF y] by fastforce
  qed
qed

section \<open>A frame in two segments\<close>

lemma be_bytes_split: "be_bytes (m + n) v = be_bytes m (v div 256 ^ n) @ be_bytes n v"
  by (induction n arbitrary: v) (simp_all add: div_mult2_eq)

lemma recv_first_segment:
  assumes "length a = 8" "0 < declared_len a" "declared_len a \<le> MAX_FRAME_PAYLOAD"
  shows "recv_frame tcp_io \<lparr>sk_reads = [Segment a, ReadFails WouldBlock, Segment b], sk_writes = ws, sk_sent = o'\<rparr> =
    Some (Inl TrTimeout, \<lparr>sk_reads = [Segment b], sk_writes = ws, sk_sent = o'\<rparr>)"
proof -
  have "a \<noteq> []" using assms(1) by auto
  then show ?thesis using assms
    by (simp add: recv_frame_def tcp_io_def tcp_read_full_def FRAME_HEADER_LEN_def sock_read_def
        tcp_read_loop.simps [of 8 "[]"] tcp_read_loop.simps [of 8 a] tcp_read_loop.simps [of "declared_len a" "[]"])
qed

lemma recv_zero_header:
  assumes "8 < length b" "declared_len b = 0"
  shows "recv_frame tcp_io \<lparr>sk_reads = [Segment b], sk_writes = ws, sk_sent = o'\<rparr> =
    Some (Inr (take 8 b), \<lparr>sk_reads = [Segment (drop 8 b)], sk_writes = ws, sk_sent = o'\<rparr>)"
proof -
  have d: "declared_len (take 8 b) = 0" using declared_len_take [of b] assms by simp
  have n: "take 8 b \<noteq> []" "length (take 8 b) = 8" using assms(1) by auto
  show ?thesis using assms d n
    by (simp add: recv_frame_def tcp_io_def tcp_read_full_def FRAME_HEADER_LEN_def sock_read_def
        tcp_read_loop.simps [of 8 "[]"] tcp_read_loop.simps [of 8 "take 8 b"] tcp_read_loop.simps [of 0 "[]"])
qed

text \<open>
  C29. The driver goes on after a timeout of the transport, which drops the part of a frame that it has
  read. If the header of an honest data frame, with a sequence number
  below 2 to the 32nd, comes in a segment of its own and the rest after the
  poll slice, the first poll is taken as idle, and the next one reads the payload as a header
  and ends the connection as a protocol violation; in one segment the frame is received.
\<close>

theorem slow_frame_is_fatal:
  assumes "encode (Data 0 sq d) = Inr f" "unat sq < 2 ^ 32"
  shows "\<exists>w1 w2. recv_terminal_frame tcp_stream ae
        (w\<lparr>sv_io := \<lparr>sk_reads = [Segment (take 8 f), ReadFails WouldBlock, Segment (drop 8 f)], sk_writes = ws, sk_sent = o'\<rparr>\<rparr>) =
      Some (RoTimeout, w1) \<and>
    recv_terminal_frame tcp_stream ae w1 = Some (RoClosed TeProtocol, w2) \<and>
    recv_frame tcp_io \<lparr>sk_reads = [Segment f], sk_writes = ws, sk_sent = o'\<rparr> =
      Some (Inr f, \<lparr>sk_reads = [], sk_writes = ws, sk_sent = o'\<rparr>)"
proof -
  let ?n = "16 + length d"
  define h where "h = to_be16 VERSION @ to_be16 (msg_type_wire MTData) @ to_be32 (word_of_nat ?n)"
  define p where "p = to_be32 0 @ to_be64 sq @ to_be32 (word_of_nat (length d)) @ d"
  have d: "16 \<le> length d" "length d \<le> 65552" and f: "f = h @ p"
    using assms(1) by (auto simp: encode_Inr_iff encode_check_Data frame_of_def h_def p_def
        payload_len_of_def)
  have lh: "length h = 8" by (simp add: h_def)
  have tf: "take 8 f = h" "drop 8 f = p" using lh by (simp_all add: f)
  have n: "unat (word_of_nat ?n :: u32) = ?n" using d by (simp only: unat_of_nat) simp
  have "slice_of 4 8 h = to_be32 (word_of_nat ?n)" by (simp add: h_def slice_of_def)
  then have dh: "declared_len h = ?n" using n by (simp add: declared_len_def)
  have z4: "be_bytes 4 0 = [0, 0, 0, 0]" by code_simp
  have "to_be64 sq = be_bytes 4 (unat sq div 256 ^ 4) @ be_bytes 4 (unat sq)"
    using be_bytes_split [of 4 4 "unat sq"] by (simp add: to_be64_def)
  also have "unat sq div 256 ^ 4 = 0" using assms(2) by simp
  finally have p8: "p = [0, 0, 0, 0] @ [0, 0, 0, 0] @ be_bytes 4 (unat sq) @ to_be32 (word_of_nat (length d)) @ d"
    by (simp add: p_def to_be32_def z4)
  have dp: "declared_len p = 0" "take 8 p = [0, 0, 0, 0, 0, 0, 0, 0]" "8 < length p"
    by (simp_all add: p8 declared_len_def slice_of_def from_be32_def be_nat_def)
  have bad: "decode Server [0, 0, 0, 0, 0, 0, 0, 0] = Inl BAD_VERSION"
    by (simp add: decode_def FRAME_HEADER_LEN_def VERSION_def from_be16_def be_nat_def)
  have r1: "recv_frame tcp_io \<lparr>sk_reads = [Segment h, ReadFails WouldBlock, Segment p], sk_writes = ws, sk_sent = o'\<rparr> =
      Some (Inl TrTimeout, \<lparr>sk_reads = [Segment p], sk_writes = ws, sk_sent = o'\<rparr>)"
    by (rule recv_first_segment) (use d dh lh in \<open>simp_all add: MAX_FRAME_PAYLOAD_def\<close>)
  note r2 = recv_zero_header [OF dp(3,1), of ws o', unfolded dp(2)]
  have "recv_frame tcp_io \<lparr>sk_reads = [Segment f], sk_writes = ws, sk_sent = o'\<rparr> =
      Some (Inr f, \<lparr>sk_reads = [], sk_writes = ws, sk_sent = o'\<rparr>)"
  proof -
    have "length p = ?n" by (simp add: p_def)
    moreover from this have "p \<noteq> []" by auto
    moreover have "h \<noteq> []" using lh by auto
    ultimately show ?thesis using lh dh d
      by (simp add: recv_frame_def tcp_io_def tcp_read_full_def FRAME_HEADER_LEN_def sock_read_def f
          tcp_read_loop.simps [of 8 "[]"] tcp_read_loop.simps [of 8 h] tcp_read_loop.simps [of ?n "[]"]
          tcp_read_loop.simps [of ?n p] MAX_FRAME_PAYLOAD_def)
  qed
  then show ?thesis unfolding tf
    by (simp add: recv_terminal_frame_def tcp_stream_def r1 r2 bad)
qed

theorem slow_frame_is_fatal_witness:
  "\<forall>ae w ws o'. \<exists>f w1 w2. encode (Data 0 1 (replicate 16 7)) = Inr f \<and>
    recv_terminal_frame tcp_stream ae
      (w\<lparr>sv_io := \<lparr>sk_reads = [Segment (take 8 f), ReadFails WouldBlock, Segment (drop 8 f)], sk_writes = ws, sk_sent = o'\<rparr>\<rparr>) =
      Some (RoTimeout, w1) \<and>
    recv_terminal_frame tcp_stream ae w1 = Some (RoClosed TeProtocol, w2)"
proof (intro allI)
  fix ae and w :: "socket serve" and ws o'
  have "encode_check (Data 0 1 (replicate 16 7)) = Inr ()" by (simp add: encode_check_Data)
  then have e: "encode (Data 0 1 (replicate 16 7)) = Inr (frame_of (Data 0 1 (replicate 16 7)))"
    by (simp add: encode_Inr_iff)
  show "\<exists>f w1 w2. encode (Data 0 1 (replicate 16 7)) = Inr f \<and>
    recv_terminal_frame tcp_stream ae
      (w\<lparr>sv_io := \<lparr>sk_reads = [Segment (take 8 f), ReadFails WouldBlock, Segment (drop 8 f)], sk_writes = ws, sk_sent = o'\<rparr>\<rparr>) =
      Some (RoTimeout, w1) \<and>
    recv_terminal_frame tcp_stream ae w1 = Some (RoClosed TeProtocol, w2)"
    using e slow_frame_is_fatal [OF e, where ae = ae and w = w and ws = ws and o' = o'] by auto
qed

text \<open>A connection that receives one byte of input and is then closed by its peer.\<close>

definition demo_stream :: "bytes list framed" where
  "demo_stream = \<lparr>fs_send = (\<lambda>b s. Some (Inr (), s)),
    fs_recv = (\<lambda>s. case s of [] \<Rightarrow> Some (Inl TrClosedByPeer, []) | x # xs \<Rightarrow> Some (Inr x, xs)),
    fs_set_deadline = (\<lambda>t s. (Inr (), s)), fs_shutdown_write = (\<lambda>s. (Inr (), s)), fs_close = (\<lambda>s. (Inr (), s))\<rparr>"

definition demo_aead :: aead where
  "demo_aead = \<lparr>ae_seal = (\<lambda>k n a p. Some (p, replicate 16 0)), ae_open = (\<lambda>k n a c t. Some c)\<rparr>"

definition demo_hub :: hub where
  "demo_hub = \<lparr>hb_handle = 1, hb_shell = [],
    hb_lease = \<lparr>le_token = 1, le_holder = Some 1, le_last_seen = 0, le_abandoned = False, le_timeout = 10\<rparr>,
    hb_pty = \<lparr>pt_reads = [], pt_writes = [], pt_resizes = [], pt_waits = [], pt_written = [],
      pt_window = \<lparr>wi_rows = 24, wi_cols = 80\<rparr>\<rparr>, hb_exit = None\<rparr>"

definition demo_session :: "seqno \<Rightarrow> seqno option \<Rightarrow> session" where
  "demo_session n m = (session_new (replicate 64 0) (ctx0\<lparr>cx_role := Server\<rparr>))
      \<lparr>ss_send := (\<lambda>d. if d = ServerToClient then n else 1), ss_recv := (\<lambda>d. if d = ClientToServer then m else Some 0)\<rparr>"

lemma demo_seal: "session_seal demo_aead MtData pt (demo_session 1 m) =
   Some (Inr \<lparr>sr_sequence = 1, sr_sealed = pt @ replicate 16 0\<rparr>, demo_session 2 m)"
  by (simp add: session_seal_def demo_session_def ensure_active_def session_new_def ctx0_def pairing_valid_def
    seq_discipline_def is_confirm_def aead_material_def demo_aead_def seq_next_def Let_def fun_eq_iff u64_checked_add_def)

lemma demo_open: "session_open demo_aead MtData 1 (pt @ replicate 16 0) (demo_session n (Some 0)) =
   Some (Inr pt, demo_session n (Some 1))"
  by (simp add: session_open_def demo_session_def ensure_active_def session_new_def ctx0_def pairing_valid_def
    seq_discipline_def is_confirm_def aead_material_def demo_aead_def seq_next_def Let_def fun_eq_iff TAG_LEN_def u64_checked_add_def)

definition demo_frame1 :: bytes where "demo_frame1 = frame_of (Data 0 1 ([3, 0, 1, 65] @ replicate 16 0))"

lemma demo_decode: "decode Server demo_frame1 = Inr (Data 0 1 ([3, 0, 1, 65] @ replicate 16 0))"
  unfolding demo_frame1_def
  by (subst decode_frame_of) (simp_all add: encode_check_Data direction_rejects_def)

lemma demo_term: "term_decode [3, 0, 1, 65] = Inr (TfInput [65])"
  by (simp add: term_decode_def term_tags decode_chunk_def from_be16_def be_nat_def DATA_CHUNK_MAX_value)

definition demo_w :: "bytes list \<Rightarrow> session \<Rightarrow> hub \<Rightarrow> bytes \<Rightarrow> bytes list serve" where
  "demo_w io s b i = \<lparr>sv_io = io, sv_session = s,
    sv_reg = (registry_new [] 10 [])\<lparr>rg_live := [1], rg_store := [1 \<mapsto> b]\<rparr>,
    sv_now = 0, sv_env = [], sv_inputs = i\<rparr>"

lemma demo_granted: "send_terminal_frame demo_stream demo_aead (TfGranted 1 1) (demo_w io (demo_session 1 m) b i) =
   Some (Inr (), demo_w io (demo_session 2 m) b i)"
proof -
  have "encode (Data 0 1 ((T_GRANTED # to_be64 1 @ to_be64 1) @ replicate 16 0)) =
     Inr (frame_of (Data 0 1 ((T_GRANTED # to_be64 1 @ to_be64 1) @ replicate 16 0)))"
    unfolding encode_Inr_iff by (simp add: encode_check_Data)
  then show ?thesis
  by (simp add: send_terminal_frame_def demo_w_def demo_seal demo_stream_def)
qed

lemma demo_hubs [simp]: "tick (demo_w io s b i) = demo_w io s b i" "sv_hub 1 (demo_w io s b i) = Some b"
   "put_hub 1 b' (demo_w io s b i) = demo_w io s b' i" "sv_now (demo_w io s b i) = 0"
  by (simp_all add: demo_w_def tick_def sv_hub_def put_hub_def)

definition demo_hub' where "demo_hub' = demo_hub\<lparr>hb_pty := (hb_pty demo_hub)\<lparr>pt_written := [65]\<rparr>\<rparr>"

lemma demo_resize: "hub_resize 1 \<lparr>wi_rows = 24, wi_cols = 80\<rparr> 0 demo_hub = (Inr (), demo_hub)"
  by (simp add: hub_resize_def with_write_gate_def demo_hub_def is_expired_def pty_set_winsize_def)

lemma demo_beat: "hub_heartbeat 1 0 demo_hub = (Inr (), demo_hub)"
  by (simp add: hub_heartbeat_def lease_heartbeat_def demo_hub_def is_expired_def)

lemma demo_write: "hub_write_input 1 [65] 0 demo_hub = (Inr (), demo_hub')"
  by (simp add: hub_write_input_def with_write_gate_def demo_hub_def demo_hub'_def is_expired_def pty_write_bounded_def)

lemma demo_slices: "input_slices [65] = [[65]]"
  by (simp add: input_slices_def chunk_input_def chunks_of.simps [of _ "[65]"] chunks_of.simps [of _ "[]"] DATA_CHUNK_MAX_value PTY_WRITE_SLICE_def)

lemma demo_drain: "drain_pty fs ae 1 (locals0\<lparr>dl_input_bytes := n\<rparr>) (demo_w io s demo_hub' i) = Some (Inr (), locals0\<lparr>dl_input_bytes := n\<rparr>, demo_w io s demo_hub' i)"
  by (simp add: drain_pty_def locals0_def drain_reads.simps hub_drain_output_def pty_read_now_def demo_hub'_def demo_hub_def chunk_input_def chunks_of.simps [of _ "[]"])

lemma demo_recv1: "recv_terminal_frame demo_stream demo_aead (demo_w [demo_frame1] (demo_session 2 (Some 0)) b i) =
   Some (RoFrame (TfInput [65]), demo_w [] (demo_session 2 (Some 1)) b i)"
proof -
  have "session_open demo_aead MtData 1 ([3, 0, 1, 65] @ replicate 16 0) (demo_session 2 (Some 0)) = Some (Inr [3,0,1,65], demo_session 2 (Some 1))"
    by (rule demo_open)
  then show ?thesis
  by (simp add: recv_terminal_frame_def demo_w_def demo_stream_def demo_decode demo_term)
qed

lemma demo_recv2: "recv_terminal_frame demo_stream demo_aead (demo_w [] s b i) = Some (RoClosed (TeTransport TrClosedByPeer), demo_w [] s b i)"
  by (simp add: recv_terminal_frame_def demo_w_def demo_stream_def)

lemma demo_inputs: "demo_w io s b i\<lparr>sv_inputs := j\<rparr> = demo_w io s b j" "sv_inputs (demo_w io s b i) = i" by (simp_all add: demo_w_def)

lemma demo_sat: "saturating_add 0 (Suc 0) = 1" by (simp add: saturating_add_def u64_checked_add_def)

lemma demo_poll: "poll_exit_twice 1 False (demo_w io s demo_hub' i) = Some (None, demo_w io s demo_hub' i)"
  by (simp add: poll_exit_twice_def hub_poll_exit_def pty_try_wait_def demo_hub'_def demo_hub_def)

lemma demo_control: "serve_control 1 1 (demo_w io s demo_hub' i) = Some (None, demo_w io s demo_hub' i)"
  by (simp add: serve_control_def on_hub_def hub_lease_is_current_def lease_is_current_def is_expired_def demo_hub'_def demo_hub_def)

lemma demo_serve_recv:
  "serve_recv demo_stream demo_aead 1 1 locals0 (demo_w [demo_frame1] (demo_session 2 (Some 0)) demo_hub []) =
    Some (None, True, locals0\<lparr>dl_input_bytes := 1\<rparr>, demo_w [] (demo_session 2 (Some 1)) demo_hub' [65])"
proof -
  have l: "dl_input_bytes locals0 = 0" by (simp add: locals0_def)
  show ?thesis
    by (simp add: serve_recv_def demo_recv1 serve_frame_def on_hub_def demo_beat demo_inputs demo_slices
      demo_write demo_sat demo_drain l write_slices.simps)
qed

lemma demo_round1: "serve_round demo_stream demo_aead opts 1 1 locals0 (demo_w [demo_frame1] (demo_session 2 (Some 0)) demo_hub []) =
   Some (Inr None, locals0\<lparr>dl_input_bytes := 1\<rparr>, demo_w [] (demo_session 2 (Some 1)) demo_hub' [65])"
proof -
  have e: "dl_exit (locals0\<lparr>dl_input_bytes := 1\<rparr>) = None" "dl_exit_sent_at (locals0\<lparr>dl_input_bytes := 1\<rparr>) = None"
     "dl_pty_eof (locals0\<lparr>dl_input_bytes := 1\<rparr>) = False"
    by (simp_all add: locals0_def)
  show ?thesis
    by (simp add: serve_round_def demo_serve_recv demo_drain serve_exit_def e [simplified] demo_poll demo_control del: drive_locals.simps)
qed

lemma demo_round2: "serve_round demo_stream demo_aead opts 1 1 (locals0\<lparr>dl_input_bytes := 1\<rparr>) (demo_w [] s b i) =
   Some (Inr (Some SePeerClosed), locals0\<lparr>dl_input_bytes := 1\<rparr>, demo_w [] s b i)"
  by (simp add: serve_round_def serve_recv_def demo_recv2 locals0_def)

lemma demo_run:
  "serve_granted demo_stream demo_aead default_serve_options 1 1 \<lparr>wi_rows = 24, wi_cols = 80\<rparr>
      (demo_w [demo_frame1] (demo_session 1 (Some 0)) demo_hub []) =
    Some (Inr \<lparr>sm_handle = 1, sm_token = 1, sm_input_bytes = 1, sm_output_bytes = 0, sm_exit = None,
      sm_end = SePeerClosed\<rparr>, demo_w [] (demo_session 2 (Some 1)) (demo_hub'\<lparr>hb_lease := (hb_lease demo_hub)\<lparr>le_abandoned := True\<rparr>\<rparr>) [65])"
proof -
  have "serve_loop demo_stream demo_aead default_serve_options 1 1 locals0 (demo_w [demo_frame1] (demo_session 2 (Some 0)) demo_hub []) =
    Some (Inr SePeerClosed, locals0\<lparr>dl_input_bytes := 1\<rparr>, demo_w [] (demo_session 2 (Some 1)) demo_hub' [65])"
    by (simp add: serve_loop.simps [of _ _ _ _ _ locals0] demo_round1
      serve_loop.simps [of _ _ _ _ _ "locals0\<lparr>dl_input_bytes := 1\<rparr>"] demo_round2)
  moreover have "grant_drop 1 (hb_lease demo_hub') = (hb_lease demo_hub)\<lparr>le_abandoned := True\<rparr>" "hb_exit demo_hub' = None"
    by (simp_all add: grant_drop_def demo_hub'_def demo_hub_def)
  ultimately show ?thesis
    by (simp add: serve_granted_def demo_granted on_hub_def demo_resize drop_grant_def hub_has_exited_def) (simp add: locals0_def)
qed

theorem serve_input_in_order_witness:
  "\<exists>w w' r. serve_granted demo_stream demo_aead default_serve_options 1 1 \<lparr>wi_rows = 24, wi_cols = 80\<rparr> w = Some (r, w') \<and>
    written 1 w = Some [] \<and> written 1 w' = Some [65] \<and> sv_inputs w' = [65] \<and>
    (\<exists>xs k. sv_inputs w' = sv_inputs w @ xs \<and> k \<le> length xs \<and> written 1 w' = Some ([] @ take k xs))"
proof -
  have w: "written 1 (demo_w [demo_frame1] (demo_session 1 (Some 0)) demo_hub []) = Some []"
    by (simp add: written_def demo_hub_def)
  have "\<exists>xs k. [65] = [] @ xs \<and> k \<le> length xs \<and>
      written 1 (demo_w [] (demo_session 2 (Some 1)) (demo_hub'\<lparr>hb_lease := (hb_lease demo_hub)\<lparr>le_abandoned := True\<rparr>\<rparr>) [65]) =
        Some ([] @ take k xs)"
    using serve_input_in_order [OF demo_run w] unfolding demo_inputs by blast
  then show ?thesis using demo_run w
    by (intro exI conjI) (assumption, assumption, auto simp: written_def demo_hub'_def demo_inputs)
qed

end
