(* ===== verification/TermClient.thy ===== *)
theory TermClient
  imports TermServer Records Stdio
begin

text \<open>
  The client of a remote terminal (\<open>crates/otp-terminal/src/client.rs\<close>): attaching, input, window
  changes and heartbeats, events, and the interactive pump. The byte stream is a parameter; the clock
  is given by the time that passes before each of its readings, the keyboard thread by what the
  channel holds at each look, and the window by its probes. Time is in milliseconds. \<open>None\<close> is a
  panic, or a loop that never ends.
\<close>

section \<open>Clock and arguments\<close>

record clock =
  ck_now :: nat
  ck_steps :: "nat list"

text \<open>\<open>Instant::now\<close>. After the last step the time stands still.\<close>

definition clock_now :: "clock \<Rightarrow> nat \<times> clock" where
  "clock_now c = (case ck_steps c of
     [] \<Rightarrow> (ck_now c, c)
   | d # ds \<Rightarrow> (ck_now c + d, \<lparr>ck_now = ck_now c + d, ck_steps = ds\<rparr>))"

datatype attach_mode = AmNew window_size | AmRecover u64 window_size

record client_options =
  cl_attach_timeout :: nat

definition default_client_options :: client_options where
  "default_client_options = \<lparr>cl_attach_timeout = 30000\<rparr>"

datatype terminal_event = TvOutput bytes | TvExit u32

record 's terminal_session =
  ts_io :: 's
  ts_session :: session
  ts_handle :: u64
  ts_token :: u64
  ts_exit :: "u32 option"
  ts_closed :: bool

section \<open>Frames\<close>

definition client_send ::
  "'s framed \<Rightarrow> aead \<Rightarrow> terminal_frame \<Rightarrow> session \<Rightarrow> 's \<Rightarrow> ((terminal_error + unit) \<times> session \<times> 's) option" where
  "client_send fs ae f se s = (case term_encode f of
     None \<Rightarrow> None
   | Some plain \<Rightarrow> (case session_seal ae MtData plain se of
       None \<Rightarrow> None
     | Some (Inl e, se) \<Rightarrow> Some (Inl (TeSession e), se, s)
     | Some (Inr rec, se) \<Rightarrow> (case encode (Data 0 (sr_sequence rec) (sr_sealed rec)) of
         Inl _ \<Rightarrow> Some (Inl TeProtocol, se, s)
       | Inr wire \<Rightarrow> map_option (\<lambda>(r, s). (map_err TeTransport r, se, s)) (fs_send fs wire s))))"

definition client_recv_raw ::
  "'s framed \<Rightarrow> aead \<Rightarrow> session \<Rightarrow> 's \<Rightarrow> ((terminal_error + terminal_frame option) \<times> session \<times> 's) option" where
  "client_recv_raw fs ae se s = (case fs_recv fs s of
     None \<Rightarrow> None
   | Some (Inl TrTimeout, s) \<Rightarrow> Some (Inr None, se, s)
   | Some (Inl e, s) \<Rightarrow> Some (Inl (TeTransport e), se, s)
   | Some (Inr wire, s) \<Rightarrow> (case decode Client wire of
       Inr (Data _ sq x) \<Rightarrow> (case session_open ae MtData sq x se of
         None \<Rightarrow> None
       | Some (Inl e, se) \<Rightarrow> Some (Inl (TeSession e), se, s)
       | Some (Inr plain, se) \<Rightarrow> Some (map_ok Some (term_decode plain), se, s))
     | _ \<Rightarrow> Some (Inl TeProtocol, se, s)))"

section \<open>Attaching\<close>

text \<open>
  The result carries the session and the stream, of which a failure leaves nothing to the caller.
\<close>

definition attach_frame :: "attach_mode \<Rightarrow> terminal_frame" where
  "attach_frame mode = (case mode of
     AmNew w \<Rightarrow> TfOpen (wi_rows w) (wi_cols w)
   | AmRecover h w \<Rightarrow> TfAttach h (wi_rows w) (wi_cols w))"

definition denied_error :: "deny_reason \<Rightarrow> terminal_error" where
  "denied_error r = (case r of
     DrBusy \<Rightarrow> TeLeaseHeldByOther 0 | DrGone \<Rightarrow> TeTerminalGone | DrFenced \<Rightarrow> TeStaleWriter)"

definition attach_give_up ::
  "'s framed \<Rightarrow> terminal_error \<Rightarrow> session \<Rightarrow> 's \<Rightarrow> clock \<Rightarrow>
    ((terminal_error + 's terminal_session) \<times> session \<times> 's \<times> clock)" where
  "attach_give_up fs e se s ck = (Inl e, session_close se, snd (fs_close fs s), ck)"

partial_function (option) attach_loop ::
  "'s framed \<Rightarrow> aead \<Rightarrow> nat \<Rightarrow> session \<Rightarrow> 's \<Rightarrow> clock \<Rightarrow>
    ((terminal_error + 's terminal_session) \<times> session \<times> 's \<times> clock) option" where
  "attach_loop fs ae deadline se s ck = (case client_recv_raw fs ae se s of
     None \<Rightarrow> None
   | Some (r, se', s') \<Rightarrow> (case r of
       Inl e \<Rightarrow> Some (Inl e, se', s', ck)
     | Inr (Some (TfGranted h t)) \<Rightarrow> Some (Inr \<lparr>ts_io = s', ts_session = se', ts_handle = h, ts_token = t,
         ts_exit = None, ts_closed = False\<rparr>, se', s', ck)
     | Inr (Some (TfDenied d)) \<Rightarrow> Some (attach_give_up fs (denied_error d) se' s' ck)
     | Inr (Some _) \<Rightarrow> Some (attach_give_up fs TeProtocol se' s' ck)
     | Inr None \<Rightarrow>
         if deadline \<le> fst (clock_now ck) then Some (attach_give_up fs TeTimeout se' s' (snd (clock_now ck)))
         else attach_loop fs ae deadline se' s' (snd (clock_now ck))))"

definition attach ::
  "'s framed \<Rightarrow> aead \<Rightarrow> attach_mode \<Rightarrow> client_options \<Rightarrow> session \<Rightarrow> 's \<Rightarrow> clock \<Rightarrow>
    ((terminal_error + 's terminal_session) \<times> session \<times> 's \<times> clock) option" where
  "attach fs ae mode opts se s ck = (case fs_set_deadline fs 50 s of
     (Inl e, s) \<Rightarrow> Some (Inl (TeTransport e), se, s, ck)
   | (Inr _, s) \<Rightarrow> (case client_send fs ae (attach_frame mode) se s of
       None \<Rightarrow> None
     | Some (Inl e, se, s) \<Rightarrow> Some (Inl e, se, s, ck)
     | Some (Inr _, se, s) \<Rightarrow> (case clock_now ck of
         (now, ck) \<Rightarrow> attach_loop fs ae (now + cl_attach_timeout opts) se s ck)))"

section \<open>Operations\<close>

definition ensure_open :: "'s terminal_session \<Rightarrow> terminal_error + unit" where
  "ensure_open t = (if ts_closed t \<or> \<not> is_active (ts_session t) then Inl TeClosed else Inr ())"

definition session_send ::
  "'s framed \<Rightarrow> aead \<Rightarrow> terminal_frame \<Rightarrow> 's terminal_session \<Rightarrow> ((terminal_error + unit) \<times> 's terminal_session) option" where
  "session_send fs ae f t = map_option (\<lambda>(r, se, s). (r, t\<lparr>ts_session := se, ts_io := s\<rparr>))
    (client_send fs ae f (ts_session t) (ts_io t))"

fun send_inputs ::
  "'s framed \<Rightarrow> aead \<Rightarrow> bytes list \<Rightarrow> 's terminal_session \<Rightarrow> ((terminal_error + unit) \<times> 's terminal_session) option" where
  "send_inputs fs ae [] t = Some (Inr (), t)"
| "send_inputs fs ae (c # cs) t = (case session_send fs ae (TfInput c) t of
     None \<Rightarrow> None
   | Some (Inl e, t) \<Rightarrow> Some (Inl e, t)
   | Some (Inr _, t) \<Rightarrow> send_inputs fs ae cs t)"

definition send_input ::
  "'s framed \<Rightarrow> aead \<Rightarrow> bytes \<Rightarrow> 's terminal_session \<Rightarrow> ((terminal_error + unit) \<times> 's terminal_session) option" where
  "send_input fs ae data t = (case ensure_open t of
     Inl e \<Rightarrow> Some (Inl e, t)
   | Inr _ \<Rightarrow> send_inputs fs ae (chunk_input data) t)"

definition client_resize ::
  "'s framed \<Rightarrow> aead \<Rightarrow> window_size \<Rightarrow> 's terminal_session \<Rightarrow> ((terminal_error + unit) \<times> 's terminal_session) option" where
  "client_resize fs ae w t = (case ensure_open t of
     Inl e \<Rightarrow> Some (Inl e, t)
   | Inr _ \<Rightarrow> session_send fs ae (TfResize (wi_rows w) (wi_cols w)) t)"

definition client_close :: "'s framed \<Rightarrow> 's terminal_session \<Rightarrow> 's terminal_session" where
  "client_close fs t = t\<lparr>ts_session := session_close (ts_session t), ts_io := snd (fs_close fs (ts_io t)),
    ts_closed := True\<rparr>"

definition client_ping ::
  "'s framed \<Rightarrow> aead \<Rightarrow> 's terminal_session \<Rightarrow> ((terminal_error + unit) \<times> 's terminal_session) option" where
  "client_ping fs ae t = (case ensure_open t of
     Inl e \<Rightarrow> Some (Inl e, t)
   | Inr _ \<Rightarrow> session_send fs ae TfPing t)"

definition poll_event ::
  "'s framed \<Rightarrow> aead \<Rightarrow> nat \<Rightarrow> 's terminal_session \<Rightarrow> ((terminal_error + terminal_event option) \<times> 's terminal_session) option" where
  "poll_event fs ae wait t = (case ts_exit t of
     Some code \<Rightarrow> Some (Inr (Some (TvExit code)), t)
   | None \<Rightarrow> (case fs_set_deadline fs wait (ts_io t) of
       (Inl e, s) \<Rightarrow> Some (Inl (TeTransport e), t\<lparr>ts_io := s\<rparr>)
     | (Inr _, s) \<Rightarrow> (case client_recv_raw fs ae (ts_session t) s of
         None \<Rightarrow> None
       | Some (r, se, s) \<Rightarrow>
         let t = t\<lparr>ts_session := se, ts_io := s\<rparr> in
         (case r of
            Inl e \<Rightarrow> Some (Inl e, t)
          | Inr None \<Rightarrow> Some (Inr None, t)
          | Inr (Some (TfOutput data)) \<Rightarrow> Some (Inr (Some (TvOutput data)), t)
          | Inr (Some (TfExit code)) \<Rightarrow> Some (Inr (Some (TvExit code)), t\<lparr>ts_exit := Some code\<rparr>)
          | Inr (Some _) \<Rightarrow> Some (Inl TeProtocol, t)))))"

text \<open>Waiting for the exit; \<open>out\<close> collects what is handed to the callback.\<close>

partial_function (option) wait_loop ::
  "'s framed \<Rightarrow> aead \<Rightarrow> nat \<Rightarrow> bytes \<Rightarrow> clock \<Rightarrow> 's terminal_session \<Rightarrow>
    ((terminal_error + u32) \<times> bytes \<times> clock \<times> 's terminal_session) option" where
  "wait_loop fs ae deadline out ck t =
    (let remain = deadline - fst (clock_now ck); ck' = snd (clock_now ck) in
     if remain = 0 then Some (Inl TeTimeout, out, ck', t)
     else (case poll_event fs ae (min remain 200) t of
       None \<Rightarrow> None
     | Some (r, t') \<Rightarrow> (case r of
         Inl e \<Rightarrow> Some (Inl e, out, ck', t')
       | Inr ev \<Rightarrow> (case ev of
           None \<Rightarrow> wait_loop fs ae deadline out ck' t'
         | Some (TvExit code) \<Rightarrow> Some (Inr code, out, ck', t')
         | Some (TvOutput data) \<Rightarrow> wait_loop fs ae deadline (out @ data) ck' t'))))"

definition wait_exit ::
  "'s framed \<Rightarrow> aead \<Rightarrow> nat \<Rightarrow> clock \<Rightarrow> 's terminal_session \<Rightarrow>
    ((terminal_error + u32) \<times> bytes \<times> clock \<times> 's terminal_session) option" where
  "wait_exit fs ae budget ck t = (case ts_exit t of
     Some code \<Rightarrow> Some (Inr code, [], ck, t)
   | None \<Rightarrow> (case clock_now ck of (now, ck) \<Rightarrow> wait_loop fs ae (now + budget) [] ck t))"

section \<open>The interactive pump\<close>

datatype rx_event = RxChunk bytes | RxEof | RxEmpty | RxDisconnected

record 's interactive =
  iv_term :: "'s terminal_session"
  iv_clock :: clock
  iv_rx :: "rx_event list"
  iv_windows :: "window_size option list"
  iv_out :: stdio
  iv_last_ping :: nat
  iv_last_window :: "window_size option"
  iv_eof_at :: "nat option"

definition DETACH_GRACE :: nat where "DETACH_GRACE = 800"

definition iv_now :: "'s interactive \<Rightarrow> nat \<times> 's interactive" where
  "iv_now v = (case clock_now (iv_clock v) of (now, ck) \<Rightarrow> (now, v\<lparr>iv_clock := ck\<rparr>))"

text \<open>A step of the pump goes on, or leaves the loop with a result.\<close>

type_synonym 's pump_step = "((terminal_error + u32) option \<times> 's interactive) option"

definition on_term ::
  "(terminal_error + unit) \<times> 's terminal_session \<Rightarrow> 's interactive \<Rightarrow> (terminal_error + u32) option \<times> 's interactive" where
  "on_term rt v = (case rt of (r, t) \<Rightarrow> (case r of Inl e \<Rightarrow> Some (Inl e) | Inr _ \<Rightarrow> None, v\<lparr>iv_term := t\<rparr>))"

definition pump_detach :: "'s interactive \<Rightarrow> 's pump_step" where
  "pump_detach v = (case iv_eof_at v of
     None \<Rightarrow> Some (None, v)
   | Some at \<Rightarrow> (case iv_now v of (now, v) \<Rightarrow>
       Some (if DETACH_GRACE \<le> now - at then Some (Inr 0) else None, v)))"

definition pump_heartbeat :: "'s framed \<Rightarrow> aead \<Rightarrow> nat \<Rightarrow> 's interactive \<Rightarrow> 's pump_step" where
  "pump_heartbeat fs ae interval v = (case iv_now v of (now, v) \<Rightarrow>
     if now - iv_last_ping v < interval then Some (None, v)
     else (case fs_set_deadline fs 2000 (ts_io (iv_term v)) of
       (Inl e, s) \<Rightarrow> Some (Some (Inl (TeTransport e)), v\<lparr>iv_term := (iv_term v)\<lparr>ts_io := s\<rparr>\<rparr>)
     | (Inr _, s) \<Rightarrow> (case client_ping fs ae ((iv_term v)\<lparr>ts_io := s\<rparr>) of
         None \<Rightarrow> None
       | Some rt \<Rightarrow> (case on_term rt v of
           (Some e, v) \<Rightarrow> Some (Some e, v)
         | (None, v) \<Rightarrow> (case iv_now v of (now, v) \<Rightarrow> Some (None, v\<lparr>iv_last_ping := now\<rparr>))))))"

definition pump_input :: "'s framed \<Rightarrow> aead \<Rightarrow> 's interactive \<Rightarrow> 's pump_step" where
  "pump_input fs ae v = (case iv_rx v of
     [] \<Rightarrow> Some (None, v)
   | RxChunk chunk # rs \<Rightarrow> (case send_input fs ae chunk (iv_term v) of
       None \<Rightarrow> None
     | Some rt \<Rightarrow> (case on_term rt (v\<lparr>iv_rx := rs\<rparr>) of
         (Some e, v) \<Rightarrow> Some (Some e, v)
       | (None, v) \<Rightarrow> (case iv_now v of (now, v) \<Rightarrow> Some (None, v\<lparr>iv_last_ping := now\<rparr>))))
   | RxEof # rs \<Rightarrow>
       let v = v\<lparr>iv_rx := rs\<rparr> in
       if iv_eof_at v = None then (case iv_now v of (now, v) \<Rightarrow> Some (None, v\<lparr>iv_eof_at := Some now\<rparr>))
       else Some (None, v)
   | _ # rs \<Rightarrow> Some (None, v\<lparr>iv_rx := rs\<rparr>))"

definition window_probe :: "'s interactive \<Rightarrow> window_size option \<times> 's interactive" where
  "window_probe v = (case iv_windows v of [] \<Rightarrow> (None, v) | w # ws \<Rightarrow> (w, v\<lparr>iv_windows := ws\<rparr>))"

definition pump_window :: "'s framed \<Rightarrow> aead \<Rightarrow> 's interactive \<Rightarrow> 's pump_step" where
  "pump_window fs ae v = (case window_probe v of (current, v) \<Rightarrow>
     if current = iv_last_window v then Some (None, v)
     else (case current of
       None \<Rightarrow> Some (None, v\<lparr>iv_last_window := current\<rparr>)
     | Some w \<Rightarrow> (case client_resize fs ae w (iv_term v) of
         None \<Rightarrow> None
       | Some rt \<Rightarrow> (case on_term rt v of
           (Some e, v) \<Rightarrow> Some (Some e, v)
         | (None, v) \<Rightarrow> Some (None, v\<lparr>iv_last_window := current\<rparr>)))))"

definition pump_event :: "'s framed \<Rightarrow> aead \<Rightarrow> 's interactive \<Rightarrow> 's pump_step" where
  "pump_event fs ae v = (case poll_event fs ae 30 (iv_term v) of
     None \<Rightarrow> None
   | Some (r, t) \<Rightarrow>
     let v = v\<lparr>iv_term := t\<rparr> in
     (case r of
        Inl e \<Rightarrow> Some (Some (Inl e), v)
      | Inr None \<Rightarrow> Some (None, v)
      | Inr (Some (TvExit code)) \<Rightarrow> Some (Some (Inr code), v)
      | Inr (Some (TvOutput data)) \<Rightarrow> (case std_write_all data (iv_out v) of
          (Inl _, out) \<Rightarrow> Some (Some (Inl TeIo), v\<lparr>iv_out := out\<rparr>)
        | (Inr _, out) \<Rightarrow> Some (None, v\<lparr>iv_out := snd (std_flush out)\<rparr>))))"

definition and_then :: "'s pump_step \<Rightarrow> ('s interactive \<Rightarrow> 's pump_step) \<Rightarrow> 's pump_step" where
  "and_then p k = (case p of
     None \<Rightarrow> None
   | Some (Some r, v) \<Rightarrow> Some (Some r, v)
   | Some (None, v) \<Rightarrow> k v)"

definition pump_round :: "'s framed \<Rightarrow> aead \<Rightarrow> nat \<Rightarrow> 's interactive \<Rightarrow> 's pump_step" where
  "pump_round fs ae interval v =
    and_then (pump_detach v) (\<lambda>v. and_then (pump_heartbeat fs ae interval v) (\<lambda>v.
      and_then (pump_input fs ae v) (\<lambda>v. and_then (pump_window fs ae v) (pump_event fs ae))))"

partial_function (option) term_pump ::
  "'s framed \<Rightarrow> aead \<Rightarrow> nat \<Rightarrow> 's interactive \<Rightarrow> ((terminal_error + u32) \<times> 's interactive) option" where
  "term_pump fs ae interval v = (case pump_round fs ae interval v of
     None \<Rightarrow> None
   | Some (q, v') \<Rightarrow> (case q of
       Some r \<Rightarrow> Some (r, v')
     | None \<Rightarrow> term_pump fs ae interval v'))"

definition run_interactive ::
  "'s framed \<Rightarrow> aead \<Rightarrow> nat \<Rightarrow> rx_event list \<Rightarrow> window_size option list \<Rightarrow> stdio \<Rightarrow> clock \<Rightarrow>
    's terminal_session \<Rightarrow> ((terminal_error + u32) \<times> 's interactive) option" where
  "run_interactive fs ae interval rx windows out ck t =
    (case clock_now ck of (now, ck) \<Rightarrow>
     let v = \<lparr>iv_term = t, iv_clock = ck, iv_rx = rx, iv_windows = windows, iv_out = out,
           iv_last_ping = now, iv_last_window = None, iv_eof_at = None\<rparr> in
     (case window_probe v of (w, v) \<Rightarrow>
       map_option (\<lambda>(r, v). (r, v\<lparr>iv_term := (iv_term v)\<lparr>ts_session := session_close (ts_session (iv_term v)),
           ts_io := snd (fs_close fs (ts_io (iv_term v)))\<rparr>\<rparr>))
         (term_pump fs ae interval (v\<lparr>iv_last_window := w\<rparr>))))"

section \<open>What an attachment rests on\<close>

text \<open>The session \<open>se\<close> has just accepted the frame \<open>f\<close> from the server.\<close>

definition accepted :: "aead \<Rightarrow> terminal_frame \<Rightarrow> session \<Rightarrow> bool" where
  "accepted ae f se \<longleftrightarrow> (\<exists>sq x se0 plain. session_open ae MtData sq x se0 = Some (Inr plain, se) \<and>
    term_decode plain = Inr f)"

lemma recv_raw_frame:
  assumes "client_recv_raw fs ae se s = Some (Inr (Some f), se', s')"
  shows "accepted ae f se'"
  using assms
  by (auto simp: client_recv_raw_def accepted_def map_ok_def split: option.splits sum.splits
      transport_error.splits message.splits) blast

lemma closed_inactive: "\<not> is_active (session_close se)"
  by (simp add: session_close_def is_active_def terminate_def)

text \<open>The verdicts of an attachment and what stands behind each of them.\<close>

definition attach_verdict ::
  "'s framed \<Rightarrow> aead \<Rightarrow> (terminal_error + 's terminal_session) \<times> session \<times> 's \<times> clock \<Rightarrow> bool" where
  "attach_verdict fs ae res = (case res of (r, se, s, ck) \<Rightarrow> (case r of
     Inr t \<Rightarrow> t = \<lparr>ts_io = s, ts_session = se, ts_handle = ts_handle t, ts_token = ts_token t,
         ts_exit = None, ts_closed = False\<rparr> \<and> accepted ae (TfGranted (ts_handle t) (ts_token t)) se
   | Inl e \<Rightarrow> (case e of
       TeLeaseHeldByOther h \<Rightarrow> h = 0 \<and> (\<exists>se1. accepted ae (TfDenied DrBusy) se1 \<and> se = session_close se1)
     | TeTerminalGone \<Rightarrow> \<exists>se1. accepted ae (TfDenied DrGone) se1 \<and> se = session_close se1
     | TeStaleWriter \<Rightarrow> \<exists>se1. accepted ae (TfDenied DrFenced) se1 \<and> se = session_close se1
     | TeTimeout \<Rightarrow> \<not> is_active se
     | TeSession _ \<Rightarrow> True
     | TeTransport _ \<Rightarrow> True
     | TeProtocol \<Rightarrow> True
     | _ \<Rightarrow> False)))"

lemma term_decode_error: "term_decode bs = Inl e \<Longrightarrow> e = TeProtocol"
  by (auto simp: term_decode_def decode_chunk_def decode_denied_def map_ok_def Let_def
      split: list.splits if_splits sum.splits option.splits)

lemma map_err_Inl_iff: "map_err g r = Inl e \<longleftrightarrow> (\<exists>x. r = Inl x \<and> e = g x)"
  by (cases r) auto

text \<open>Failures of the frame layer.\<close>

definition link_error :: "terminal_error \<Rightarrow> bool" where
  "link_error e \<longleftrightarrow> (\<exists>x. e = TeSession x) \<or> (\<exists>x. e = TeTransport x) \<or> e = TeProtocol"

lemma recv_raw_error: "client_recv_raw fs ae se s = Some (Inl e, se', s') \<Longrightarrow> link_error e"
  by (auto simp: client_recv_raw_def map_ok_def link_error_def dest!: term_decode_error split: option.splits sum.splits
      transport_error.splits message.splits)

lemma client_send_error: "client_send fs ae f se s = Some (Inl e, se', s') \<Longrightarrow> link_error e"
  by (auto simp: client_send_def map_err_Inl_iff link_error_def split: option.splits sum.splits)

lemma link_error_verdict: "link_error e \<Longrightarrow> attach_verdict fs ae (Inl e, se, s, ck)"
  by (auto simp: link_error_def attach_verdict_def)

lemma attach_loop_verdict:
  assumes "attach_loop fs ae deadline se s ck = Some res"
  shows "attach_verdict fs ae res"
proof (rule attach_loop.raw_induct [where P = "\<lambda>fs ae deadline se s ck res. attach_verdict fs ae res", OF _ assms],
    goal_cases)
  case (1 loop fs ae deadline se s ck res)
  note run = 1(2)
  obtain r se' s' where r: "client_recv_raw fs ae se s = Some (r, se', s')"
    using run by (auto split: option.splits)
  show ?case
  proof (cases r)
    case (Inl e)
    then show ?thesis using run r by (auto intro!: link_error_verdict dest: recv_raw_error)
  next
    case (Inr q)
    show ?thesis
    proof (cases q)
      case None
      then show ?thesis
        using run r Inr 1(1)
        by (auto simp: attach_verdict_def attach_give_up_def closed_inactive split: if_splits)
    next
      case (Some f)
      with r Inr have f: "accepted ae f se'" using recv_raw_frame [of fs ae se s f se' s'] by simp
      show ?thesis
        using run r Inr Some f link_error_verdict [of TeProtocol]
        by (cases f) (auto simp: attach_verdict_def attach_give_up_def denied_error_def split: deny_reason.splits)
    qed
  qed
qed

text \<open>
  An attachment reports what the server said. It returns a terminal only with the handle and the token of a
  grant that its own session accepted; it reports a busy, a gone or a fenced terminal only for an accepted
  refusal with that reason, and the session is closed then, as it is after the time limit; every
  other failure is one of the transport, of the session or of the protocol.
\<close>

theorem attach_reports_verdict:
  "case attach fs ae mode opts se s ck of None \<Rightarrow> True | Some res \<Rightarrow> attach_verdict fs ae res"
proof -
  have "attach_verdict fs ae (Inl (TeTransport e), se, s, ck)" for e se s ck
    by (rule link_error_verdict) (simp add: link_error_def)
  then show ?thesis
    by (auto simp: attach_def dest: attach_loop_verdict client_send_error intro: link_error_verdict
        split: option.splits prod.splits sum.splits)
qed

section \<open>Heartbeats\<close>

definition iv_time :: "'s interactive \<Rightarrow> nat" where
  "iv_time v = ck_now (iv_clock v)"

lemma iv_now_time: "iv_now v = (now, v') \<Longrightarrow> now = iv_time v' \<and> iv_time v \<le> now \<and> iv_last_ping v' = iv_last_ping v"
  by (auto simp: iv_now_def iv_time_def clock_now_def split: list.splits)

lemma on_term_time [simp]:
  "iv_time (snd (on_term rt v)) = iv_time v" "iv_last_ping (snd (on_term rt v)) = iv_last_ping v"
  by (simp_all add: on_term_def iv_time_def split: prod.split)

text \<open>
  What a round does between two states of the pump: it sends a ping, with the time of the last
  heartbeat set to the present; it sends a chunk of input, with the same effect on that time; or it
  leaves the terminal session and that time as they are.
\<close>

definition ping_sent :: "'s framed \<Rightarrow> aead \<Rightarrow> 's interactive \<Rightarrow> 's interactive \<Rightarrow> bool" where
  "ping_sent fs ae v u \<longleftrightarrow> iv_last_ping u = iv_time u \<and>
    (\<exists>s. fs_set_deadline fs 2000 (ts_io (iv_term v)) = (Inr (), s) \<and>
      client_ping fs ae ((iv_term v)\<lparr>ts_io := s\<rparr>) = Some (Inr (), iv_term u))"

definition input_sent :: "'s framed \<Rightarrow> aead \<Rightarrow> 's interactive \<Rightarrow> 's interactive \<Rightarrow> bool" where
  "input_sent fs ae u w \<longleftrightarrow> iv_last_ping w = iv_time w \<and>
    (\<exists>chunk rs. iv_rx u = RxChunk chunk # rs \<and> send_input fs ae chunk (iv_term u) = Some (Inr (), iv_term w))"

definition untouched :: "'s interactive \<Rightarrow> 's interactive \<Rightarrow> bool" where
  "untouched v u \<longleftrightarrow> iv_term u = iv_term v \<and> iv_last_ping u = iv_last_ping v"

lemma and_then_goes_on:
  "and_then p k = Some (None, v') \<longleftrightarrow> (\<exists>v. p = Some (None, v) \<and> k v = Some (None, v'))"
  by (auto simp: and_then_def split: option.splits prod.splits)

lemma detach_goes_on: "pump_detach v = Some (None, u) \<Longrightarrow> untouched v u \<and> iv_rx u = iv_rx v \<and> iv_time v \<le> iv_time u"
  by (auto simp: pump_detach_def untouched_def iv_now_def iv_time_def clock_now_def
      split: option.splits list.splits if_splits)

lemma heartbeat_goes_on:
  assumes "pump_heartbeat fs ae interval v = Some (None, u)"
  shows "\<exists>now. iv_time v \<le> now \<and> now \<le> iv_time u \<and>
    (if interval \<le> now - iv_last_ping v then ping_sent fs ae v u else untouched v u)"
  using assms
  by (auto simp: pump_heartbeat_def on_term_def iv_time_def iv_now_def clock_now_def ping_sent_def untouched_def
      split: list.splits option.splits prod.splits sum.splits if_splits intro!: exI [of _ "fst (clock_now (iv_clock v))"])

lemma input_goes_on:
  "pump_input fs ae u = Some (None, w) \<Longrightarrow> (input_sent fs ae u w \<or> untouched u w) \<and> iv_time u \<le> iv_time w"
  by (auto simp: pump_input_def input_sent_def untouched_def on_term_def iv_time_def iv_now_def clock_now_def Let_def
      split: list.splits rx_event.splits option.splits prod.splits sum.splits if_splits)

lemma window_goes_on:
  "pump_window fs ae w = Some (None, x) \<Longrightarrow> iv_last_ping x = iv_last_ping w \<and> iv_time x = iv_time w"
  by (auto simp: pump_window_def on_term_def iv_time_def window_probe_def
      split: list.splits option.splits prod.splits sum.splits if_splits)

lemma event_goes_on:
  "pump_event fs ae x = Some (None, v') \<Longrightarrow> iv_last_ping v' = iv_last_ping x \<and> iv_time v' = iv_time x"
  by (auto simp: pump_event_def iv_time_def Let_def
      split: option.splits prod.splits sum.splits terminal_event.splits)

lemma pump_round_heartbeat:
  assumes "pump_round fs ae interval v = Some (None, v')" "0 < interval"
  shows "iv_time v < iv_last_ping v' + interval \<and>
    (\<exists>now u w. iv_time v \<le> now \<and> now \<le> iv_time u \<and> iv_time u \<le> iv_time w \<and> iv_time w = iv_time v' \<and>
      (if interval \<le> now - iv_last_ping v then ping_sent fs ae v u else untouched v u) \<and>
      (input_sent fs ae u w \<or> untouched u w) \<and>
      and_then (pump_window fs ae w) (pump_event fs ae) = Some (None, v') \<and> iv_last_ping v' = iv_last_ping w)"
proof -
  obtain v1 u w x where st: "pump_detach v = Some (None, v1)" "pump_heartbeat fs ae interval v1 = Some (None, u)"
    "pump_input fs ae u = Some (None, w)" "pump_window fs ae w = Some (None, x)" "pump_event fs ae x = Some (None, v')"
    using assms(1) unfolding pump_round_def and_then_goes_on by blast
  note d = detach_goes_on [OF st(1)]
  obtain now where h: "iv_time v1 \<le> now" "now \<le> iv_time u"
    "if interval \<le> now - iv_last_ping v1 then ping_sent fs ae v1 u else untouched v1 u"
    using heartbeat_goes_on [OF st(2)] by blast
  have h': "if interval \<le> now - iv_last_ping v then ping_sent fs ae v u else untouched v u"
    using h(3) d by (simp add: ping_sent_def untouched_def split: if_splits)
  note i = input_goes_on [OF st(3)]
  have k: "iv_last_ping v' = iv_last_ping w" "iv_time v' = iv_time w"
    using window_goes_on [OF st(4)] event_goes_on [OF st(5)] by simp_all
  have "now < iv_last_ping u + interval"
    using h' h(2) assms(2) by (auto simp: ping_sent_def untouched_def split: if_splits)
  then have "iv_time v < iv_last_ping v' + interval"
    using d h i k assms(2) by (auto simp: input_sent_def untouched_def)
  moreover have "and_then (pump_window fs ae w) (pump_event fs ae) = Some (None, v')"
    unfolding and_then_goes_on using st(4,5) by blast
  ultimately show ?thesis using d h h' i k by (intro conjI exI [of _ now] exI [of _ u] exI [of _ w]) auto
qed

lemma run_interactive_closes:
  "run_interactive fs ae interval rx windows out ck t = Some (r, u) \<Longrightarrow> \<not> is_active (ts_session (iv_term u))"
  by (auto simp: run_interactive_def closed_inactive Let_def split: prod.splits)


text \<open>A client whose ping is due while output of the terminal is waiting on its stream.\<close>

definition busy_interactive :: "session \<Rightarrow> bytes list \<Rightarrow> socket interactive" where
  "busy_interactive se ws = \<lparr>iv_term = \<lparr>ts_io = socket_of ws, ts_session = se, ts_handle = 1, ts_token = 1,
      ts_exit = None, ts_closed = False\<rparr>,
    iv_clock = \<lparr>ck_now = 5000, ck_steps = [1, 1]\<rparr>, iv_rx = [], iv_windows = [],
    iv_out = \<lparr>st_reads = [], st_writes = [], st_flushes = [], st_out = []\<rparr>,
    iv_last_ping = 0, iv_last_window = None, iv_eof_at = None\<rparr>"

text \<open>One ping to the server and one piece of output from it, between two paired sessions.\<close>

lemma ping_and_output:
  obtains cs cs1 cs2 wp wo po and xp xo :: sealed_record where "is_active cs" "valid_frame wp" "valid_frame wo"
    "session_seal plain_aead MtData [T_PING] cs = Some (Inr xp, cs1)"
    "encode (Data 0 (sr_sequence xp) (sr_sealed xp)) = Inr wp"
    "decode Client wo = Inr (Data 0 (sr_sequence xo) (sr_sealed xo))"
    "session_open plain_aead MtData (sr_sequence xo) (sr_sealed xo) cs1 = Some (Inr po, cs2)"
    "term_decode po = Inr (TfOutput [97])"
proof -
  obtain po where po: "term_encode (TfOutput [97]) = Some po" by (simp add: encode_chunk_def DATA_CHUNK_MAX_value)
  let ?seg = "replicate 64 (5 :: byte)"
  let ?cs = "confirmed_session ?seg demo_context"
  let ?ss = "confirmed_session ?seg (demo_context\<lparr>cx_role := peer_of (cx_role demo_context)\<rparr>)"
  have t: "aead_total plain_aead" by (simp add: aead_total_def plain_aead_def)
  have q: "data_seq_ok (confirmed_session ?seg c) (Suc 0)" for c
    by (simp add: data_seq_ok_def confirmed_session_def next_send_sequence_def)
  have l: "length [T_PING] \<le> MAX_APP_PLAINTEXT" "length po \<le> MAX_APP_PLAINTEXT"
    using po by (auto simp: MAX_APP_PLAINTEXT_def encode_chunk_def DATA_CHUNK_MAX_value split: if_splits)
  from data_exchange [OF plain_aead_correct t confirmed_paired q l(1)] obtain wp cs1 ss1 where
    1: "carried plain_aead [T_PING] ?cs ?ss wp cs1 ss1" "paired (split_keys ?seg) cs1 ss1"
      "next_send_sequence ss1 = next_send_sequence ?ss" by blast
  have "data_seq_ok ss1 (Suc 0)" using data_seq_ok_same [OF 1(3)] q by simp
  from data_exchange [OF plain_aead_correct t paired_sym [OF 1(2)] this l(2)] obtain wo ss2 cs2 where
    2: "carried plain_aead po ss1 cs1 wo ss2 cs2" by blast
  have "is_active ?cs" by (simp add: is_active_def confirmed_session_def session_new_def)
  moreover obtain xp where "session_seal plain_aead MtData [T_PING] ?cs = Some (Inr xp, cs1)"
    "encode (Data 0 (sr_sequence xp) (sr_sealed xp)) = Inr wp" using 1(1) unfolding carried_def by blast
  moreover obtain xo :: sealed_record where "decode Client wo = Inr (Data 0 (sr_sequence xo) (sr_sealed xo))"
    "session_open plain_aead MtData (sr_sequence xo) (sr_sealed xo) cs1 = Some (Inr po, cs2)"
    using 2 unfolding carried_def by blast
  ultimately show thesis
    by (rule that [OF _ carried_frame [OF 1(1)] carried_frame [OF 2] _ _ _ _ term_decode_encode [OF po]])
qed


end
