(* ===== verification/TermRun.thy ===== *)
theory TermRun
  imports TermClient
begin

text \<open>
  The two ends of a terminal connection together: what the client types arrives at the server, and
  what the server sends of the terminal's output arrives at the client, byte for byte and in
  order, over any link.
\<close>

section \<open>One frame across\<close>

definition frame_carried :: "aead \<Rightarrow> terminal_frame \<Rightarrow> session \<Rightarrow> session \<Rightarrow> bytes \<Rightarrow> session \<Rightarrow> session \<Rightarrow> bool" where
  "frame_carried ae f a b w a' b' \<longleftrightarrow> (\<exists>plain. term_encode f = Some plain \<and> carried ae plain a b w a' b')"

lemma term_encode_bound: "term_encode f = Some bs \<Longrightarrow> length bs \<le> MAX_APP_PLAINTEXT"
  by (cases f) (auto simp: encode_chunk_def DATA_CHUNK_MAX_value MAX_APP_PLAINTEXT_def split: if_splits)

lemma frame_exchange:
  assumes "aead_correct ae" "aead_total ae" "paired k a b" "data_seq_ok a (Suc n)" "term_encode f = Some plain"
  shows "\<exists>w a' b'. frame_carried ae f a b w a' b' \<and> paired k a' b' \<and> data_seq_ok a' n"
  using data_exchange [OF assms(1-4) term_encode_bound [OF assms(5)]] assms(5) unfolding frame_carried_def by blast

text \<open>A sequence of frames, all in one direction.\<close>

fun frames_carried ::
  "aead \<Rightarrow> terminal_frame list \<Rightarrow> session \<Rightarrow> session \<Rightarrow> bytes list \<Rightarrow> session \<Rightarrow> session \<Rightarrow> bool" where
  "frames_carried ae [] a b ws a' b' \<longleftrightarrow> ws = [] \<and> a' = a \<and> b' = b"
| "frames_carried ae (f # fs) a b ws a' b' \<longleftrightarrow> (\<exists>w vs a1 b1. ws = w # vs \<and>
    frame_carried ae f a b w a1 b1 \<and> frames_carried ae fs a1 b1 vs a' b')"

lemma frames_exchange:
  assumes "aead_correct ae" "aead_total ae" "paired k a b" "data_seq_ok a (length fs)"
    "list_all (\<lambda>f. term_encode f \<noteq> None) fs"
  shows "\<exists>ws a' b'. frames_carried ae fs a b ws a' b' \<and> paired k a' b'"
  using assms
proof (induction fs arbitrary: a b)
  case (Cons f fs)
  then obtain plain where "term_encode f = Some plain" by auto
  with frame_exchange [of ae k a b "length fs" f plain] Cons.prems obtain w a1 b1 where
    "frame_carried ae f a b w a1 b1" "paired k a1 b1" "data_seq_ok a1 (length fs)" by auto
  with Cons.IH [of a1 b1] Cons.prems show ?case by fastforce
qed auto

lemma frames_carried_valid: "frames_carried ae fs a b ws a' b' \<Longrightarrow> list_all valid_frame ws"
  by (induction ae fs a b ws a' b' rule: frames_carried.induct) (auto simp: frame_carried_def dest: carried_frame)

section \<open>Over a link\<close>

text \<open>What a server reads of a sequence of input frames, and a client of a sequence of output frames.\<close>

fun read_inputs :: "'s framed \<Rightarrow> aead \<Rightarrow> nat \<Rightarrow> 's serve \<Rightarrow> (bytes \<times> 's serve) option" where
  "read_inputs fs ae 0 w = Some ([], w)"
| "read_inputs fs ae (Suc n) w = (case recv_terminal_frame fs ae w of
     Some (RoFrame (TfInput d), w) \<Rightarrow> map_option (\<lambda>(ds, w). (d @ ds, w)) (read_inputs fs ae n w)
   | _ \<Rightarrow> None)"

fun read_outputs :: "'s framed \<Rightarrow> aead \<Rightarrow> nat \<Rightarrow> nat \<Rightarrow> 's terminal_session \<Rightarrow> (bytes \<times> 's terminal_session) option" where
  "read_outputs fs ae wait 0 t = Some ([], t)"
| "read_outputs fs ae wait (Suc n) t = (case poll_event fs ae wait t of
     Some (Inr (Some (TvOutput d)), t) \<Rightarrow> map_option (\<lambda>(ds, t). (d @ ds, t)) (read_outputs fs ae wait n t)
   | _ \<Rightarrow> None)"

context frame_link
begin

lemma ex_fs_send:
  assumes "carried ae plain a b w a' b'"
  shows "exchanges inbox sent room (fs_send fs w) [] [w] (\<lambda>s. (Inr (), s))"
proof -
  obtain x :: sealed_record where "decode Server w = Inr (Data 0 (sr_sequence x) (sr_sealed x))"
    using assms unfolding carried_def by blast
  from decode_send_check [OF this] show ?thesis by (intro exchanges_send) simp
qed

lemma ex_client_send:
  assumes "frame_carried ae f a b w a' b'"
  shows "exchanges inbox sent room (\<lambda>s. client_send fs ae f a s) [] [w] (\<lambda>s. (Inr (), a', s))"
proof -
  obtain plain where p: "term_encode f = Some plain" and c: "carried ae plain a b w a' b'"
    using assms unfolding frame_carried_def by blast
  have "exchanges inbox sent room (\<lambda>s. client_send fs ae f a s) ([] @ []) ([w] @ []) (\<lambda>s. (Inr (), a', s))"
    by (rule exchanges_then [OF ex_fs_send [OF c] exchanges_return])
       (use p c in \<open>auto simp: client_send_def carried_def\<close>)
  then show ?thesis by simp
qed

lemma ex_client_recv:
  assumes "frame_carried ae f a b w a' b'"
  shows "exchanges inbox sent room (\<lambda>s. client_recv_raw fs ae b s) [w] [] (\<lambda>s. (Inr (Some f), b', s))"
proof -
  obtain plain where p: "term_decode plain = Inr f" and c: "carried ae plain a b w a' b'"
    using assms term_decode_encode unfolding frame_carried_def by blast
  have "exchanges inbox sent room (\<lambda>s. client_recv_raw fs ae b s) ([w] @ []) ([] @ []) (\<lambda>s. (Inr (Some f), b', s))"
    by (rule exchanges_then [OF exchanges_recv exchanges_return])
       (use p c in \<open>auto simp: client_recv_raw_def carried_def\<close>)
  then show ?thesis by simp
qed

lemma ex_server_send:
  assumes "frame_carried ae f a b x a' b'"
  shows "exchanges inbox sent room (\<lambda>s. send_terminal_frame fs ae f (w\<lparr>sv_io := s, sv_session := a\<rparr>)) [] [x]
    (\<lambda>s. (Inr (), w\<lparr>sv_io := s, sv_session := a'\<rparr>))"
proof -
  obtain plain where p: "term_encode f = Some plain" and c: "carried ae plain a b x a' b'"
    using assms unfolding frame_carried_def by blast
  have "exchanges inbox sent room (\<lambda>s. send_terminal_frame fs ae f (w\<lparr>sv_io := s, sv_session := a\<rparr>))
      ([] @ []) ([x] @ []) (\<lambda>s. (Inr (), w\<lparr>sv_io := s, sv_session := a'\<rparr>))"
    by (rule exchanges_then [OF ex_fs_send [OF c] exchanges_return])
       (use p c in \<open>auto simp: send_terminal_frame_def carried_def\<close>)
  then show ?thesis by simp
qed

lemma ex_server_recv:
  assumes "frame_carried ae f a b x a' b'"
  shows "exchanges inbox sent room (\<lambda>s. recv_terminal_frame fs ae (w\<lparr>sv_io := s, sv_session := b\<rparr>)) [x] []
    (\<lambda>s. (RoFrame f, w\<lparr>sv_io := s, sv_session := b'\<rparr>))"
proof -
  obtain plain where p: "term_decode plain = Inr f" and c: "carried ae plain a b x a' b'"
    using assms term_decode_encode unfolding frame_carried_def by blast
  have "exchanges inbox sent room (\<lambda>s. recv_terminal_frame fs ae (w\<lparr>sv_io := s, sv_session := b\<rparr>))
      ([x] @ []) ([] @ []) (\<lambda>s. (RoFrame f, w\<lparr>sv_io := s, sv_session := b'\<rparr>))"
    by (rule exchanges_then [OF exchanges_recv exchanges_return])
       (use p c in \<open>auto simp: recv_terminal_frame_def carried_def\<close>)
  then show ?thesis by simp
qed

lemma ex_send_inputs:
  "frames_carried ae (map TfInput cs) a b ws a' b' \<Longrightarrow>
    exchanges inbox sent room (\<lambda>s. send_inputs fs ae cs (t\<lparr>ts_session := a, ts_io := s\<rparr>)) [] ws
      (\<lambda>s. (Inr (), t\<lparr>ts_session := a', ts_io := s\<rparr>))"
proof (induction cs arbitrary: a b ws)
  case Nil
  then show ?case by (simp add: exchanges_return)
next
  case (Cons c cs)
  then obtain w vs a1 b1 where 1: "ws = w # vs" "frame_carried ae (TfInput c) a b w a1 b1"
    "frames_carried ae (map TfInput cs) a1 b1 vs a' b'" by auto
  have "exchanges inbox sent room (\<lambda>s. send_inputs fs ae (c # cs) (t\<lparr>ts_session := a, ts_io := s\<rparr>)) ([] @ []) ([w] @ vs)
      (\<lambda>s. (Inr (), t\<lparr>ts_session := a', ts_io := s\<rparr>))"
    by (rule exchanges_then [OF ex_client_send [OF 1(2)] Cons.IH [OF 1(3)]]) (simp add: session_send_def)
  then show ?case by (simp only: 1(1) append_Nil append_Cons)
qed

lemma ex_read_inputs:
  "frames_carried ae (map TfInput cs) a b ws a' b' \<Longrightarrow>
    exchanges inbox sent room (\<lambda>s. read_inputs fs ae (length cs) (w\<lparr>sv_io := s, sv_session := b\<rparr>)) ws []
      (\<lambda>s. (concat cs, w\<lparr>sv_io := s, sv_session := b'\<rparr>))"
proof (induction cs arbitrary: a b ws)
  case Nil
  then show ?case by (simp add: exchanges_return)
next
  case (Cons c cs)
  then obtain x vs a1 b1 where 1: "ws = x # vs" "frame_carried ae (TfInput c) a b x a1 b1"
    "frames_carried ae (map TfInput cs) a1 b1 vs a' b'" by auto
  let ?k = "\<lambda>s. map_option (\<lambda>(ds, w). (c @ ds, w)) (read_inputs fs ae (length cs) (w\<lparr>sv_io := s, sv_session := b1\<rparr>))"
  have "exchanges inbox sent room ?k (vs @ []) ([] @ []) (\<lambda>s. (c @ concat cs, w\<lparr>sv_io := s, sv_session := b'\<rparr>))"
    by (rule exchanges_then [OF Cons.IH [OF 1(3)] exchanges_return]) simp
  then have k: "exchanges inbox sent room ?k vs [] (\<lambda>s. (c @ concat cs, w\<lparr>sv_io := s, sv_session := b'\<rparr>))" by simp
  have "exchanges inbox sent room (\<lambda>s. read_inputs fs ae (length (c # cs)) (w\<lparr>sv_io := s, sv_session := b\<rparr>))
      ([x] @ vs) ([] @ []) (\<lambda>s. (c @ concat cs, w\<lparr>sv_io := s, sv_session := b'\<rparr>))"
    by (rule exchanges_then [OF ex_server_recv [where w = w, OF 1(2)] k]) simp
  then show ?case by (simp only: 1(1) append_Nil append_Cons concat.simps)
qed

lemma ex_send_chunks:
  "frames_carried ae (map TfOutput cs) a b ws a' b' \<Longrightarrow>
    exchanges inbox sent room (\<lambda>s. send_chunks fs ae cs n (w\<lparr>sv_io := s, sv_session := a\<rparr>)) [] ws
      (\<lambda>s. (Inr (), fold (\<lambda>c n. saturating_add n (length c)) cs n, w\<lparr>sv_io := s, sv_session := a'\<rparr>))"
proof (induction cs arbitrary: a b ws n)
  case Nil
  then show ?case by (simp add: exchanges_return)
next
  case (Cons c cs)
  then obtain x vs a1 b1 where 1: "ws = x # vs" "frame_carried ae (TfOutput c) a b x a1 b1"
    "frames_carried ae (map TfOutput cs) a1 b1 vs a' b'" by auto
  have "exchanges inbox sent room (\<lambda>s. send_chunks fs ae (c # cs) n (w\<lparr>sv_io := s, sv_session := a\<rparr>)) ([] @ []) ([x] @ vs)
      (\<lambda>s. (Inr (), fold (\<lambda>c n. saturating_add n (length c)) cs (saturating_add n (length c)),
        w\<lparr>sv_io := s, sv_session := a'\<rparr>))"
    by (rule exchanges_then [OF ex_server_send [where w = w, OF 1(2)] Cons.IH [OF 1(3)]]) simp
  then show ?case by (simp only: 1(1) append_Nil append_Cons fold_simps comp_def)
qed

lemma ex_poll_output:
  assumes "frame_carried ae (TfOutput c) a b w a' b'" "0 < wait" "ts_exit t = None"
  shows "exchanges inbox sent room (\<lambda>s. poll_event fs ae wait (t\<lparr>ts_session := b, ts_io := s\<rparr>)) [w] []
    (\<lambda>s. (Inr (Some (TvOutput c)), t\<lparr>ts_session := b', ts_io := s\<rparr>))"
proof -
  let ?k = "\<lambda>s. case client_recv_raw fs ae b s of
       None \<Rightarrow> None
     | Some (r, se, s) \<Rightarrow>
       let t = t\<lparr>ts_session := se, ts_io := s\<rparr> in
       (case r of
          Inl e \<Rightarrow> Some (Inl e, t)
        | Inr None \<Rightarrow> Some (Inr None, t)
        | Inr (Some (TfOutput data)) \<Rightarrow> Some (Inr (Some (TvOutput data)), t)
        | Inr (Some (TfExit code)) \<Rightarrow> Some (Inr (Some (TvExit code)), t\<lparr>ts_exit := Some code\<rparr>)
        | Inr (Some _) \<Rightarrow> Some (Inl TeProtocol, t))"
  have k: "exchanges inbox sent room ?k ([w] @ []) ([] @ [])
      (\<lambda>s. (Inr (Some (TvOutput c)), t\<lparr>ts_session := b', ts_io := s\<rparr>))"
    by (rule exchanges_then [OF ex_client_recv [OF assms(1)] exchanges_return]) simp
  have "exchanges inbox sent room (\<lambda>s. poll_event fs ae wait (t\<lparr>ts_session := b, ts_io := s\<rparr>)) ([] @ [w] @ []) ([] @ [] @ [])
      (\<lambda>s. (Inr (Some (TvOutput c)), t\<lparr>ts_session := b', ts_io := s\<rparr>))"
    by (rule exchanges_then [OF exchanges_deadline [OF assms(2)] k])
       (auto simp: poll_event_def assms(3) Let_def split: option.split)
  then show ?thesis by simp
qed

lemma ex_read_outputs:
  "frames_carried ae (map TfOutput cs) a b ws a' b' \<Longrightarrow> 0 < wait \<Longrightarrow> ts_exit t = None \<Longrightarrow>
    exchanges inbox sent room (\<lambda>s. read_outputs fs ae wait (length cs) (t\<lparr>ts_session := b, ts_io := s\<rparr>)) ws []
      (\<lambda>s. (concat cs, t\<lparr>ts_session := b', ts_io := s\<rparr>))"
proof (induction cs arbitrary: a b ws)
  case Nil
  then show ?case by (simp add: exchanges_return)
next
  case (Cons c cs)
  then obtain x vs a1 b1 where 1: "ws = x # vs" "frame_carried ae (TfOutput c) a b x a1 b1"
    "frames_carried ae (map TfOutput cs) a1 b1 vs a' b'" by auto
  let ?k = "\<lambda>s. map_option (\<lambda>(ds, t). (c @ ds, t)) (read_outputs fs ae wait (length cs) (t\<lparr>ts_session := b1, ts_io := s\<rparr>))"
  have "exchanges inbox sent room ?k (vs @ []) ([] @ []) (\<lambda>s. (c @ concat cs, t\<lparr>ts_session := b', ts_io := s\<rparr>))"
    by (rule exchanges_then [OF Cons.IH [OF 1(3) Cons.prems(2,3)] exchanges_return]) simp
  then have k: "exchanges inbox sent room ?k vs [] (\<lambda>s. (c @ concat cs, t\<lparr>ts_session := b', ts_io := s\<rparr>))" by simp
  have "exchanges inbox sent room (\<lambda>s. read_outputs fs ae wait (length (c # cs)) (t\<lparr>ts_session := b, ts_io := s\<rparr>))
      ([x] @ vs) ([] @ []) (\<lambda>s. (c @ concat cs, t\<lparr>ts_session := b', ts_io := s\<rparr>))"
    by (rule exchanges_then [OF ex_poll_output [where t = t, OF 1(2) Cons.prems(2,3)] k]) simp
  then show ?case by (simp only: 1(1) append_Nil append_Cons concat.simps)
qed

end

section \<open>Both directions\<close>

lemma chunks_encode:
  "list_all (\<lambda>f. term_encode f \<noteq> None) (map TfInput (chunk_input data))"
  "list_all (\<lambda>f. term_encode f \<noteq> None) (map TfOutput (chunk_input data))"
  using chunk_input_spec(2) [of data] by (auto simp: list_all_iff encode_chunk_def)

text \<open>
  The four parts: the client's \<open>send_input\<close>, a server that reads as many frames, the server's loop over
  its chunks, and a client that polls as many events.
\<close>

definition client_types ::
  "('s \<Rightarrow> bytes list) \<Rightarrow> ('s \<Rightarrow> bytes) \<Rightarrow> ('s \<Rightarrow> nat \<Rightarrow> bool) \<Rightarrow> 's framed \<Rightarrow> aead \<Rightarrow> bytes \<Rightarrow>
    session \<Rightarrow> bytes list \<Rightarrow> session \<Rightarrow> bool" where
  "client_types inbox sent room fs ae data cs ws cs' \<longleftrightarrow> (\<forall>t. \<not> ts_closed t \<longrightarrow>
    exchanges inbox sent room (\<lambda>s. send_input fs ae data (t\<lparr>ts_session := cs, ts_io := s\<rparr>)) [] ws
      (\<lambda>s. (Inr (), t\<lparr>ts_session := cs', ts_io := s\<rparr>)))"

definition server_reads ::
  "('s \<Rightarrow> bytes list) \<Rightarrow> ('s \<Rightarrow> bytes) \<Rightarrow> ('s \<Rightarrow> nat \<Rightarrow> bool) \<Rightarrow> 's framed \<Rightarrow> aead \<Rightarrow> bytes \<Rightarrow>
    session \<Rightarrow> bytes list \<Rightarrow> session \<Rightarrow> bool" where
  "server_reads inbox sent room fs ae data ss ws ss' \<longleftrightarrow> (\<forall>w.
    exchanges inbox sent room (\<lambda>s. read_inputs fs ae (length ws) (w\<lparr>sv_io := s, sv_session := ss\<rparr>)) ws []
      (\<lambda>s. (data, w\<lparr>sv_io := s, sv_session := ss'\<rparr>)))"

definition server_prints ::
  "('s \<Rightarrow> bytes list) \<Rightarrow> ('s \<Rightarrow> bytes) \<Rightarrow> ('s \<Rightarrow> nat \<Rightarrow> bool) \<Rightarrow> 's framed \<Rightarrow> aead \<Rightarrow> bytes \<Rightarrow>
    session \<Rightarrow> bytes list \<Rightarrow> session \<Rightarrow> bool" where
  "server_prints inbox sent room fs ae data ss ws ss' \<longleftrightarrow> (\<forall>w n. \<exists>m.
    exchanges inbox sent room (\<lambda>s. send_chunks fs ae (chunk_input data) n (w\<lparr>sv_io := s, sv_session := ss\<rparr>)) [] ws
      (\<lambda>s. (Inr (), m, w\<lparr>sv_io := s, sv_session := ss'\<rparr>)))"

definition client_shows ::
  "('s \<Rightarrow> bytes list) \<Rightarrow> ('s \<Rightarrow> bytes) \<Rightarrow> ('s \<Rightarrow> nat \<Rightarrow> bool) \<Rightarrow> 's framed \<Rightarrow> aead \<Rightarrow> bytes \<Rightarrow>
    session \<Rightarrow> bytes list \<Rightarrow> session \<Rightarrow> bool" where
  "client_shows inbox sent room fs ae data cs ws cs' \<longleftrightarrow> (\<forall>t wait. 0 < wait \<longrightarrow> ts_exit t = None \<longrightarrow>
    exchanges inbox sent room (\<lambda>s. read_outputs fs ae wait (length ws) (t\<lparr>ts_session := cs, ts_io := s\<rparr>)) ws []
      (\<lambda>s. (data, t\<lparr>ts_session := cs', ts_io := s\<rparr>)))"

lemma frames_carried_length: "frames_carried ae fs a b ws a' b' \<Longrightarrow> length ws = length fs"
  by (induction ae fs a b ws a' b' rule: frames_carried.induct) auto

context frame_link
begin

lemma input_crosses:
  assumes "frames_carried ae (map TfInput (chunk_input data)) cs ss ws cs' ss'" "is_active cs"
  shows "client_types inbox sent room fs ae data cs ws cs' \<and> server_reads inbox sent room fs ae data ss ws ss'"
  using ex_send_inputs [OF assms(1)] ex_read_inputs [OF assms(1)] frames_carried_length [OF assms(1)] assms(2)
    chunk_input_spec(1) [of data]
  by (simp add: client_types_def server_reads_def send_input_def ensure_open_def)

lemma output_crosses:
  assumes "frames_carried ae (map TfOutput (chunk_input data)) ss cs ws ss' cs'"
  shows "server_prints inbox sent room fs ae data ss ws ss' \<and> client_shows inbox sent room fs ae data cs ws cs'"
  using ex_send_chunks [OF assms] ex_read_outputs [OF assms] frames_carried_length [OF assms]
    chunk_input_spec(1) [of data]
  by (auto simp: server_prints_def client_shows_def)

end

text \<open>
  C35. The terminal is transparent. Whatever the client types, the frames that its \<open>send_input\<close> puts on the stream
  are valid ones and give exactly these bytes to the server that reads them, and whatever output the server
  splits into chunks and sends, in valid frames, the client's events hand out exactly these bytes; both sessions stay in step.
  This holds for any data, over TCP and over the loopback, as long as there are sequence numbers.
\<close>

theorem terminal_is_transparent:
  assumes "aead_correct ae" and "aead_total ae" and "paired k cs ss"
    and "data_seq_ok cs (length (chunk_input typed))" and "data_seq_ok ss (length (chunk_input printed))"
  shows "(\<exists>ws cs' ss'. paired k cs' ss' \<and>
      list_all (\<lambda>w. send_check w = Inr () \<and> FRAME_HEADER_LEN < length w) ws \<and>
      client_types tcp_inbox sk_sent tcp_room tcp_stream ae typed cs ws cs' \<and>
      server_reads tcp_inbox sk_sent tcp_room tcp_stream ae typed ss ws ss' \<and>
      client_types lb_inbox lb_sent lb_room loopback_stream ae typed cs ws cs' \<and>
      server_reads lb_inbox lb_sent lb_room loopback_stream ae typed ss ws ss') \<and>
    (\<exists>ws cs' ss'. paired k cs' ss' \<and>
      list_all (\<lambda>w. send_check w = Inr () \<and> FRAME_HEADER_LEN < length w) ws \<and>
      server_prints tcp_inbox sk_sent tcp_room tcp_stream ae printed ss ws ss' \<and>
      client_shows tcp_inbox sk_sent tcp_room tcp_stream ae printed cs ws cs' \<and>
      server_prints lb_inbox lb_sent lb_room loopback_stream ae printed ss ws ss' \<and>
      client_shows lb_inbox lb_sent lb_room loopback_stream ae printed cs ws cs')"
proof -
  have act: "is_active cs" using paired_live [OF assms(3)] by (simp add: is_active_def)
  obtain ws cs' ss' where i: "frames_carried ae (map TfInput (chunk_input typed)) cs ss ws cs' ss'" "paired k cs' ss'"
    using frames_exchange [OF assms(1-3) _ chunks_encode(1) [of typed]] assms(4) by auto
  obtain vs ss2 cs2 where o: "frames_carried ae (map TfOutput (chunk_input printed)) ss cs vs ss2 cs2" "paired k ss2 cs2"
    using frames_exchange [OF assms(1,2) paired_sym [OF assms(3)] _ chunks_encode(2) [of printed]] assms(5) by auto
  show ?thesis
    using tcpl.input_crosses [OF i(1) act] lbl.input_crosses [OF i(1) act] i(2)
      tcpl.output_crosses [OF o(1)] lbl.output_crosses [OF o(1)] paired_sym [OF o(2)]
      frames_carried_valid [OF i(1)] frames_carried_valid [OF o(1)] by blast
qed

text \<open>A session of the terminal for the example.\<close>

definition demo_terminal :: "session \<Rightarrow> socket \<Rightarrow> socket terminal_session" where
  "demo_terminal se s = \<lparr>ts_io = s, ts_session = se, ts_handle = 1, ts_token = 1, ts_exit = None, ts_closed = False\<rparr>"

lemma demo_terminal_simps:
  "(demo_terminal a r)\<lparr>ts_session := b, ts_io := s\<rparr> = demo_terminal b s" "\<not> ts_closed (demo_terminal a r)"
  "ts_exit (demo_terminal a r) = None"
  by (simp_all add: demo_terminal_def)

theorem terminal_is_transparent_witness:
  "\<exists>cs ss ws vs cs' ss' cs2 ss2 s1 s4.
    list_all (\<lambda>w. send_check w = Inr () \<and> FRAME_HEADER_LEN < length w) (ws @ vs) \<and>
    send_input tcp_stream plain_aead [108, 115, 10] (demo_terminal cs (socket_of [])) =
      Some (Inr (), demo_terminal cs' s1) \<and> sk_sent s1 = concat ws \<and>
    (\<forall>w :: socket serve. \<exists>s2. read_inputs tcp_stream plain_aead (length ws)
        (w\<lparr>sv_io := socket_of ws, sv_session := ss\<rparr>) = Some ([108, 115, 10], w\<lparr>sv_io := s2, sv_session := ss'\<rparr>)) \<and>
    (\<forall>w :: socket serve. \<exists>m s3. send_chunks tcp_stream plain_aead (chunk_input [97]) 0
        (w\<lparr>sv_io := socket_of [], sv_session := ss\<rparr>) = Some (Inr (), m, w\<lparr>sv_io := s3, sv_session := ss2\<rparr>) \<and>
      sk_sent s3 = concat vs) \<and>
    read_outputs tcp_stream plain_aead 5 (length vs) (demo_terminal cs (socket_of vs)) =
      Some ([97], demo_terminal cs2 s4)"
proof -
  let ?cs = "confirmed_session (replicate 64 5) demo_context"
  let ?ss = "confirmed_session (replicate 64 5) (demo_context\<lparr>cx_role := peer_of (cx_role demo_context)\<rparr>)"
  have t: "aead_total plain_aead" by (simp add: aead_total_def plain_aead_def)
  have "chunk_input [108, 115, 10 :: byte] = [[108, 115, 10]]" "chunk_input [97 :: byte] = [[97]]"
    by (simp_all add: chunk_input_def chunks_of.simps [of _ "_ # _"] chunks_of.simps [of _ "[]"] DATA_CHUNK_MAX_value)
  then have q: "data_seq_ok (confirmed_session seg c) (length (chunk_input [108, 115, 10]))"
    "data_seq_ok (confirmed_session seg c) (length (chunk_input [97]))" for seg c
    by (simp_all add: data_seq_ok_def confirmed_session_def next_send_sequence_def)
  obtain ws vs cs' ss' cs2 ss2 where
    ok: "list_all (\<lambda>w. send_check w = Inr () \<and> FRAME_HEADER_LEN < length w) ws"
      "list_all (\<lambda>w. send_check w = Inr () \<and> FRAME_HEADER_LEN < length w) vs"
    and typed: "client_types tcp_inbox sk_sent tcp_room tcp_stream plain_aead [108, 115, 10] ?cs ws cs'"
      "server_reads tcp_inbox sk_sent tcp_room tcp_stream plain_aead [108, 115, 10] ?ss ws ss'"
    and printed: "server_prints tcp_inbox sk_sent tcp_room tcp_stream plain_aead [97] ?ss vs ss2"
      "client_shows tcp_inbox sk_sent tcp_room tcp_stream plain_aead [97] ?cs vs cs2"
    using terminal_is_transparent [OF plain_aead_correct t confirmed_paired q] by blast
  have "list_all (\<lambda>w. send_check w = Inr () \<and> FRAME_HEADER_LEN < length w) []" by simp
  note ready = socket_of_ready [OF ok(1)] socket_of_ready [OF ok(2)] socket_of_ready [OF this]
  have "\<exists>s1. send_input tcp_stream plain_aead [108, 115, 10] (demo_terminal ?cs (socket_of [])) =
      Some (Inr (), demo_terminal cs' s1) \<and> sk_sent s1 = concat ws"
    using typed(1) [unfolded client_types_def exchanges_def, rule_format, of "demo_terminal ?cs (socket_of [])" "socket_of []" 0 "[]"]
      ready(3) by (auto simp: demo_terminal_simps)
  moreover have "\<exists>s2. read_inputs tcp_stream plain_aead (length ws) (w\<lparr>sv_io := socket_of ws, sv_session := ?ss\<rparr>) =
      Some ([108, 115, 10], w\<lparr>sv_io := s2, sv_session := ss'\<rparr>)" for w :: "socket serve"
    using typed(2) [unfolded server_reads_def exchanges_def, rule_format, of "socket_of ws" 0 "[]" w]
      ready(1) by auto
  moreover have "\<exists>m s3. send_chunks tcp_stream plain_aead (chunk_input [97]) 0
        (w\<lparr>sv_io := socket_of [], sv_session := ?ss\<rparr>) = Some (Inr (), m, w\<lparr>sv_io := s3, sv_session := ss2\<rparr>) \<and>
      sk_sent s3 = concat vs" for w :: "socket serve"
  proof -
    obtain m where "exchanges tcp_inbox sk_sent tcp_room
        (\<lambda>s. send_chunks tcp_stream plain_aead (chunk_input [97]) 0 (w\<lparr>sv_io := s, sv_session := ?ss\<rparr>)) [] vs
        (\<lambda>s. (Inr (), m, w\<lparr>sv_io := s, sv_session := ss2\<rparr>))"
      using printed(1) unfolding server_prints_def by blast
    from this [unfolded exchanges_def, rule_format, of "socket_of []" 0 "[]"] ready(3) show ?thesis by auto
  qed
  moreover have "\<exists>s4. read_outputs tcp_stream plain_aead 5 (length vs) (demo_terminal ?cs (socket_of vs)) =
      Some ([97], demo_terminal cs2 s4)"
    using printed(2) [unfolded client_shows_def exchanges_def, rule_format, of 5 "demo_terminal ?cs (socket_of [])" "socket_of vs" 0 "[]"]
      ready(2) by (auto simp: demo_terminal_simps)
  ultimately show ?thesis using ok by (simp only: list_all_append) blast
qed

end
