(* ===== verification/TermTyping.thy ===== *)
theory TermTyping
  imports TermServer
begin

text \<open>
  The typing of the terminal registry (\<open>crates/otp-terminal/src/hub.rs\<close>, \<open>server.rs\<close>): every
  handle below the next one names at most one hub, every registered handle names a hub, the hub of
  a handle knows its handle. Each step of a connection, and of the other connections around it,
  keeps this and loses no hub.
\<close>

definition evolves :: "'s serve \<Rightarrow> 's serve \<Rightarrow> bool" where
  "evolves w w' \<longleftrightarrow> (registry_ok (sv_reg w) \<longrightarrow>
     registry_ok (sv_reg w') \<and> rg_next_handle (sv_reg w) \<le> rg_next_handle (sv_reg w') \<and>
     (\<forall>h b. sv_hub h w = Some b \<longrightarrow> sv_hub h w' \<noteq> None))"

lemma evolves_refl [simp]: "evolves w w" by (simp add: evolves_def)

lemma evolves_trans [trans]: "evolves u v \<Longrightarrow> evolves v w \<Longrightarrow> evolves u w"
  by (auto simp: evolves_def)

lemma evolves_same_reg: "sv_reg w' = sv_reg w \<Longrightarrow> evolves w w'"
  by (simp add: evolves_def sv_hub_def)

lemma evolves_put:
  "sv_hub h w = Some b \<Longrightarrow> hb_handle b' = hb_handle b \<Longrightarrow> evolves w (put_hub h b' w)"
  by (auto simp: evolves_def registry_ok_def put_hub_def sv_hub_def)

lemma evolves_retire: "evolves w (w\<lparr>sv_reg := registry_retire h (sv_reg w)\<rparr>)"
  using registry_ok_retire [of "sv_reg w" h] by (simp add: evolves_def sv_hub_def registry_retire_def)

lemma env_act_ok:
  "registry_ok g \<Longrightarrow> registry_ok (env_act_on now a g) \<and> rg_next_handle (env_act_on now a g) = rg_next_handle g \<and>
    (\<forall>h. (rg_store (env_act_on now a g) h = None) = (rg_store g h = None))"
  by (auto simp: env_act_on_def registry_ok_def registry_retire_def distinct_removeAll
      split: env_act.splits option.splits)

lemma env_acts_ok:
  "registry_ok g \<Longrightarrow> registry_ok (fold (env_act_on now) acts g) \<and>
    rg_next_handle (fold (env_act_on now) acts g) = rg_next_handle g \<and>
    (\<forall>h. (rg_store (fold (env_act_on now) acts g) h = None) = (rg_store g h = None))"
  using env_act_ok by (induction acts arbitrary: g) fastforce+

lemma evolves_tick [simp]: "evolves w (tick w)"
proof (cases "sv_env w")
  case (Cons e env)
  then show ?thesis
    using env_acts_ok [of "sv_reg w" "sv_now w + fst e" "snd e"]
    by (cases e) (auto simp: tick_def evolves_def sv_hub_def)
qed (simp add: tick_def)

lemma on_hub_evolves:
  assumes "on_hub h f w = Some (r, w')" and "\<And>now b. hb_handle (snd (f now b)) = hb_handle b"
  shows "evolves w w'"
proof -
  obtain b where b: "sv_hub h (tick w) = Some b" and w': "w' = put_hub h (snd (f (sv_now (tick w)) b)) (tick w)"
    using assms(1) by (auto simp: on_hub_def Let_def split: option.splits prod.splits)
  show ?thesis unfolding w' using evolves_trans [OF evolves_tick evolves_put [OF b assms(2)]] .
qed

lemma hub_ops_handle:
  "hb_handle (snd (hub_heartbeat t now b)) = hb_handle b"
  "hb_handle (snd (hub_resize t win now b)) = hb_handle b"
  "hb_handle (snd (hub_drain_output b)) = hb_handle b"
  "hb_handle (snd (hub_poll_exit b)) = hb_handle b"
  "hb_handle (snd (hub_write_input t d now b)) = hb_handle b"
  by (auto simp: hub_heartbeat_def hub_resize_def hub_drain_output_def hub_poll_exit_def
      hub_write_input_def with_write_gate_def split: prod.splits option.splits wait_result.splits if_splits)

lemma recv_evolves: "recv_terminal_frame fs ae w = Some (x, w') \<Longrightarrow> evolves w w'"
  by (rule evolves_same_reg) (auto simp: recv_terminal_frame_def Let_def
      split: option.splits sum.splits transport_error.splits message.splits)

lemma send_evolves: "send_terminal_frame fs ae f w = Some (x, w') \<Longrightarrow> evolves w w'"
  by (rule evolves_same_reg) (auto simp: send_terminal_frame_def Let_def split: option.splits sum.splits)

lemma drain_reads_handle: "hb_handle (snd (snd (drain_reads p b))) = hb_handle b"
proof (induction p b rule: drain_reads.induct)
  case (1 p b)
  obtain r b' where r: "hub_drain_output b = (r, b')" by fastforce
  then have "hb_handle b' = hb_handle b" using hub_ops_handle(3) [of b] by simp
  then show ?case using "1.IH" r by (cases r) (simp_all add: drain_reads.simps [of p b])
qed

lemma send_chunks_evolves: "send_chunks fs ae cs n w = Some (x, m, w') \<Longrightarrow> evolves w w'"
proof (induction cs arbitrary: n w)
  case (Cons c cs)
  then obtain r v where s: "send_terminal_frame fs ae (TfOutput c) w = Some (r, v)"
    by (auto split: option.splits)
  then show ?case using Cons evolves_trans [OF send_evolves [OF s]] send_evolves [OF s]
    by (auto split: sum.splits)
qed simp

lemma drain_pty_evolves:
  assumes "drain_pty fs ae h dl w = Some (r, dl', w')"
  shows "evolves w w'"
proof (cases "dl_pty_eof dl")
  case False
  then obtain b where b: "sv_hub h w = Some b" using assms by (auto simp: drain_pty_def split: option.splits)
  obtain q p b' where q: "drain_reads (dl_pending dl) b = (q, p, b')" by (metis prod_cases3)
  have s: "evolves w (put_hub h b' w)"
    using drain_reads_handle [of "dl_pending dl" b] q by (intro evolves_put [OF b]) simp
  show ?thesis
    using assms False b q s send_chunks_evolves evolves_trans [OF s]
    by (auto simp: drain_pty_def split: sum.splits option.splits) blast+
qed (use assms in \<open>simp add: drain_pty_def\<close>)

lemma write_slices_evolves:
  "write_slices fs ae h token ss dl w = Some (e, dl', w') \<Longrightarrow> evolves w w'"
proof (induction ss arbitrary: dl w)
  case (Cons s ss)
  obtain r v where r: "on_hub h (hub_write_input token s) w = Some (r, v)"
    using Cons.prems by (auto simp: write_slices.simps split: option.splits)
  have v: "evolves w v" by (rule on_hub_evolves [OF r]) (rule hub_ops_handle(5))
  show ?case
  proof (cases r)
    case (Inl e)
    then show ?thesis using Cons.prems r v by (cases e) (auto simp: write_slices.simps)
  next
    case (Inr z)
    then obtain q d x where q: "drain_pty fs ae h
        (dl\<lparr>dl_input_bytes := saturating_add (dl_input_bytes dl) (length s)\<rparr>) v = Some (q, d, x)"
      using Cons.prems r by (auto simp: write_slices.simps split: option.splits)
    note x = evolves_trans [OF v drain_pty_evolves [OF q]]
    show ?thesis using Cons.prems Cons.IH r Inr q x evolves_trans [OF x]
      by (cases q) (auto simp: write_slices.simps)
  qed
qed (simp add: write_slices.simps)

lemma serve_frame_evolves:
  assumes "serve_frame fs ae h token f dl w = Some (e, go, dl', w')"
  shows "evolves w w'"
proof -
  obtain alive u where hb: "on_hub h (hub_heartbeat token) w = Some (alive, u)"
    using assms by (auto simp: serve_frame_def split: option.splits)
  have u: "evolves w u" by (rule on_hub_evolves [OF hb]) (rule hub_ops_handle(1))
  have i: "evolves u (u\<lparr>sv_inputs := x\<rparr>)" for x by (rule evolves_same_reg) simp
  show ?thesis
  proof (cases f)
    case (TfInput data)
    then show ?thesis
      using assms hb evolves_trans [OF u i] evolves_trans [OF evolves_trans [OF u i]] write_slices_evolves
      by (auto simp: serve_frame_def Let_def split: if_splits) blast+
  next
    case (TfResize r c)
    have "evolves u v" if "on_hub h (hub_resize token win) u = Some (q, v)" for win q v
      by (rule on_hub_evolves [OF that]) (rule hub_ops_handle(2))
    then show ?thesis using assms hb TfResize u evolves_trans [OF u]
      by (auto simp: serve_frame_def Let_def split: if_splits option.splits)
  qed (use assms hb u in \<open>auto simp: serve_frame_def\<close>)
qed

lemma serve_recv_evolves:
  assumes "serve_recv fs ae h token dl w = Some (e, go, dl', w')"
  shows "evolves w w'"
proof -
  obtain x u where x: "recv_terminal_frame fs ae w = Some (x, u)"
    using assms by (auto simp: serve_recv_def split: option.splits)
  note u = recv_evolves [OF x]
  show ?thesis using assms x u serve_frame_evolves evolves_trans [OF u]
    by (cases x) (fastforce simp: serve_recv_def split: if_splits)+
qed
lemma poll_exit_evolves:
  assumes "poll_exit_twice h eof w = Some (x, w')"
  shows "evolves w w'"
proof -
  have one: "evolves u (put_hub h b' u)" if "sv_hub h u = Some b" "hub_poll_exit b = (z, b')"
    for u :: "'a serve" and b b' z
    using evolves_put [OF that(1)] hub_ops_handle(4) [of b] that(2) by simp
  have here: "sv_hub h (put_hub h b' u) = Some b'" for u :: "'a serve" and b'
    by (simp add: sv_hub_def put_hub_def)
  show ?thesis
    using assms one evolves_trans [OF one one [OF here]] here
    by (auto simp: poll_exit_twice_def Let_def split: if_splits option.splits prod.splits)
qed

lemma serve_exit_evolves:
  assumes "serve_exit fs ae h dl w = Some (r, dl', w')"
  shows "evolves w w'"
proof (cases "dl_exit dl")
  case None
  then obtain x u where x: "poll_exit_twice h (dl_pty_eof dl) w = Some (x, u)"
    using assms by (auto simp: serve_exit_def split: option.splits)
  note u = poll_exit_evolves [OF x]
  show ?thesis
  proof (cases x)
    case (Some code)
    then obtain q v where q: "send_terminal_frame fs ae (TfExit code) u = Some (q, v)"
      using assms None x by (auto simp: serve_exit_def Let_def split: option.splits)
    have v: "evolves w v" by (rule evolves_trans [OF u send_evolves [OF q]])
    have "evolves v (tick (v\<lparr>sv_io := io\<rparr>))" for io
      by (rule evolves_trans [OF evolves_same_reg evolves_tick]) simp
    then show ?thesis using assms None x Some q v evolves_trans [OF v]
      by (auto simp: serve_exit_def Let_def split: sum.splits)
  qed (use assms None x u in \<open>auto simp: serve_exit_def\<close>)
qed (use assms in \<open>simp add: serve_exit_def\<close>)

lemma serve_control_evolves:
  assumes "serve_control h token w = Some (e, w')"
  shows "evolves w w'"
proof -
  obtain cur u where c: "on_hub h (\<lambda>now b. (hub_lease_is_current token now b, b)) w = Some (cur, u)"
    using assms by (auto simp: serve_control_def split: option.splits)
  have u: "evolves w u" by (rule on_hub_evolves [OF c]) simp
  have "evolves u v" if "on_hub h (\<lambda>now b. (lease_snapshot_of now (hb_lease b), b)) u = Some (s, v)" for s v
    by (rule on_hub_evolves [OF that]) simp
  then show ?thesis using assms c u evolves_trans [OF u]
    by (cases cur) (auto simp: serve_control_def split: option.splits)
qed

lemma serve_round_evolves:
  assumes "serve_round fs ae opts h token dl w = Some (r, dl', w')"
  shows "evolves w w'"
proof -
  obtain e go d u where f: "serve_recv fs ae h token dl w = Some (e, go, d, u)"
    using assms by (auto simp: serve_round_def split: option.splits)
  note eu = serve_recv_evolves [OF f]
  show ?thesis
  proof (cases go)
    case False
    then show ?thesis using assms f eu by (auto simp: serve_round_def)
  next
    case True
    then obtain q d1 v where q: "drain_pty fs ae h d u = Some (q, d1, v)"
      using assms f by (auto simp: serve_round_def split: option.splits)
    note ev = evolves_trans [OF eu drain_pty_evolves [OF q]]
    show ?thesis
    proof (cases q)
      case (Inl x)
      then show ?thesis using assms f q True ev by (auto simp: serve_round_def)
    next
      case (Inr y)
      then obtain p d2 x where p: "serve_exit fs ae h d1 v = Some (p, d2, x)"
        using assms f q True by (auto simp: serve_round_def split: option.splits)
      note ex = evolves_trans [OF ev serve_exit_evolves [OF p]]
      show ?thesis
        using assms f q True Inr p ex evolves_trans [OF ex evolves_tick]
          evolves_trans [OF ex serve_control_evolves]
        by (auto simp: serve_round_def Let_def split: sum.splits option.splits if_splits)
    qed
  qed
qed

lemma serve_loop_evolves:
  assumes "serve_loop fs ae opts h token dl w = Some (r, dl', w')"
  shows "evolves w w'"
proof -
  have "case y of (r, dl', w') \<Rightarrow> evolves w w'" if "serve_loop fs ae opts h token dl w = Some y" for y
  proof (rule serve_loop.raw_induct [where P = "\<lambda>fs ae opts h token dl w y. case y of (r, dl', w') \<Rightarrow>
      evolves w w'", OF _ that], goal_cases)
    case (1 loop fs ae opts h token dl w y)
    obtain q d u where q: "serve_round fs ae opts h token dl w = Some (q, d, u)"
      using 1(2) by (auto split: option.splits)
    note e = serve_round_evolves [OF q]
    show ?case
      using 1 q e evolves_trans [OF e] by (fastforce split: sum.splits option.splits prod.splits)
  qed
  then show ?thesis using assms by fastforce
qed

lemma drop_grant_evolves: "drop_grant h token w = Some w' \<Longrightarrow> evolves w w'"
  by (auto simp: drop_grant_def elim: on_hub_evolves)

lemma serve_granted_evolves:
  assumes "serve_granted fs ae opts h token win w = Some (r, w')"
  shows "evolves w w'"
proof -
  obtain q u where q: "send_terminal_frame fs ae (TfGranted h token) w = Some (q, u)"
    using assms by (auto simp: serve_granted_def split: option.splits)
  note u = send_evolves [OF q]
  show ?thesis
  proof (cases q)
    case (Inl e)
    then show ?thesis using assms q evolves_trans [OF u drop_grant_evolves]
      by (auto simp: serve_granted_def)
  next
    case (Inr z)
    then obtain p v where p: "on_hub h (hub_resize token win) u = Some (p, v)"
      using assms q by (auto simp: serve_granted_def split: option.splits)
    have "evolves u v" by (rule on_hub_evolves [OF p]) (rule hub_ops_handle(2))
    note v = evolves_trans [OF u this]
    obtain a dl x where l: "serve_loop fs ae opts h token locals0 v = Some (a, dl, x)"
      using assms q Inr p by (auto simp: serve_granted_def split: option.splits)
    obtain y where y: "drop_grant h token x = Some y"
      using assms q Inr p l by (auto simp: serve_granted_def split: option.splits)
    note ey = evolves_trans [OF v evolves_trans [OF serve_loop_evolves [OF l] drop_grant_evolves [OF y]]]
    show ?thesis using assms q Inr p l y ey evolves_trans [OF ey evolves_retire]
      by (auto simp: serve_granted_def split: sum.splits option.splits if_splits)
  qed
qed

text \<open>Before the grant: the first frame may open a hub, which takes a handle of its own.\<close>

lemma evolves_open:
  assumes "registry_open win now (sv_reg w) = Some (r, g)"
  shows "evolves w (w\<lparr>sv_reg := g\<rparr>)"
proof -
  have "rg_store g h \<noteq> None" if "rg_store (sv_reg w) h = Some b" for h b
    using assms that by (auto simp: registry_open_def Let_def spawn_via_worker_def
        split: option.splits list.splits)
  then show ?thesis using registry_ok_open [OF _ assms]
    by (auto simp: evolves_def sv_hub_def less_imp_le)
qed

lemma first_step_evolves:
  assumes "first_step fs ae deadline w = Some (r, w')"
  shows "evolves w w'"
proof -
  obtain x u where x: "recv_terminal_frame fs ae w = Some (x, u)"
    using assms by (auto simp: first_step_def split: option.splits)
  note u = recv_evolves [OF x]
  note t = evolves_trans [OF u evolves_tick]
  show ?thesis
  proof (cases x)
    case (RoFrame f)
    show ?thesis
    proof (cases f)
      case (TfOpen rows cols)
      then show ?thesis using assms x RoFrame evolves_trans [OF t evolves_open]
        by (auto simp: first_step_def Let_def split: option.splits prod.splits)
    next
      case (TfAttach handle rows cols)
      have "evolves w (v\<lparr>sv_io := io\<rparr>)" if "send_terminal_frame fs ae (TfDenied DrGone) (tick u) = Some (q, v)"
        for q v io
        by (rule evolves_trans [OF evolves_trans [OF t send_evolves [OF that]] evolves_same_reg]) simp
      then show ?thesis using assms x RoFrame TfAttach t evolves_trans [OF t send_evolves]
        by (auto simp: first_step_def Let_def split: option.splits sum.splits)
    qed (use assms x RoFrame u in \<open>auto simp: first_step_def\<close>)
  qed (use assms x u t in \<open>auto simp: first_step_def Let_def\<close>)
qed

lemma first_frame_evolves:
  assumes "first_frame fs ae deadline w = Some (r, w')"
  shows "evolves w w'"
proof -
  have "evolves w (snd y)" if "first_frame fs ae deadline w = Some y" for y
  proof (rule first_frame.raw_induct [where P = "\<lambda>fs ae deadline w y. evolves w (snd y)", OF _ that], goal_cases)
    case (1 loop fs ae deadline w y)
    obtain q u where q: "first_step fs ae deadline w = Some (q, u)"
      using 1(2) by (auto split: option.splits)
    note e = first_step_evolves [OF q]
    show ?case using 1 q e evolves_trans [OF e] by (auto split: if_splits)
  qed
  then show ?thesis using assms by fastforce
qed

lemma hub_acquire_handle: "hub_acquire conn now b = Some (r, b') \<Longrightarrow> hb_handle b' = hb_handle b"
  by (auto simp: hub_acquire_def split: option.splits)

lemma drive_evolves:
  assumes "drive fs ae opts conn w = Some (r, w')"
  shows "evolves w w'"
proof -
  have io: "evolves u (u\<lparr>sv_io := io\<rparr>)" for u io by (rule evolves_same_reg) simp
  obtain q io where q: "fs_set_deadline fs (so_poll_slice opts) (sv_io w) = (q, io)" by fastforce
  show ?thesis
  proof (cases q)
    case (Inl e)
    then show ?thesis using assms q io by (auto simp: drive_def)
  next
    case (Inr z)
    let ?u = "tick (w\<lparr>sv_io := io\<rparr>)"
    note u = evolves_trans [OF io evolves_tick]
    obtain x v where x: "first_frame fs ae (sv_now ?u + so_first_frame_timeout opts) ?u = Some (x, v)"
      using assms q Inr by (auto simp: drive_def Let_def split: option.splits)
    note v = evolves_trans [OF u first_frame_evolves [OF x]]
    show ?thesis
    proof (cases "\<exists>h win. x = Inr (FoHub h win)")
      case False
      then show ?thesis using assms q Inr x v
        by (auto simp: drive_def Let_def split: sum.splits first_outcome.splits)
    next
      case True
      then obtain h win where h: "x = Inr (FoHub h win)" by blast
      then obtain b a b' where b: "sv_hub h (tick v) = Some b" "hub_acquire conn (sv_now (tick v)) b = Some (a, b')"
        using assms q Inr x by (auto simp: drive_def Let_def split: option.splits)
      have p: "evolves w (put_hub h b' (tick v))"
        by (rule evolves_trans [OF evolves_trans [OF v evolves_tick] evolves_put [OF b(1) hub_acquire_handle [OF b(2)]]])
      have busy: "evolves w y" "evolves w (y\<lparr>sv_io := i\<rparr>)"
        if "send_terminal_frame fs ae (TfDenied DrBusy) (put_hub h b' (tick v)) = Some (z, y)" for z y i
        by (rule evolves_trans [OF p send_evolves [OF that]])
           (rule evolves_trans [OF evolves_trans [OF p send_evolves [OF that]] io])
      show ?thesis
        using assms q Inr x h b busy evolves_trans [OF p serve_granted_evolves]
        by (auto simp: drive_def Let_def split: option.splits sum.splits)
    qed
  qed
qed

lemma serve_connection_evolves:
  assumes "serve_connection fs ae opts conn w = Some (s, w')"
  shows "evolves w w'"
proof -
  obtain r v where r: "drive fs ae opts conn w = Some (r, v)"
    using assms by (auto simp: serve_connection_def split: option.splits)
  have "evolves v w'" using assms r by (intro evolves_same_reg) (auto simp: serve_connection_def Let_def split: sum.splits)
  then show ?thesis using evolves_trans [OF drive_evolves [OF r]] by blast
qed

text \<open>C40. The registry stays well typed. Whatever a connection does from its first frame to its
  end, with the other connections opening nothing and taking, renewing, dropping leases and
  retiring hubs in between, every hub keeps knowing its own handle, every registered handle
  still names a hub, registered once, and no hub is lost. A handle that is opened afterwards is
  none of the handles that ever named a hub before.\<close>

theorem connection_keeps_registry_typed:
  assumes "serve_connection fs ae opts conn w = Some (s, w')" and "registry_ok (sv_reg w)"
  shows "registry_ok (sv_reg w') \<and>
    (\<forall>h b. sv_hub h w = Some b \<longrightarrow> (\<exists>b'. sv_hub h w' = Some b' \<and> hb_handle b' = h)) \<and>
    (\<forall>win now h g. registry_open win now (sv_reg w') = Some (Inr h, g) \<longrightarrow>
       sv_hub h w = None \<and> sv_hub h w' = None \<and> registry_ok g)"
proof -
  note e = serve_connection_evolves [OF assms(1), unfolded evolves_def, rule_format, OF assms(2)]
  have "\<exists>b'. sv_hub h w' = Some b' \<and> hb_handle b' = h" if h: "sv_hub h w = Some b" for h b
  proof -
    obtain b' where "sv_hub h w' = Some b'" using e h by blast
    moreover from this have "hb_handle b' = h" using e by (simp add: registry_ok_def sv_hub_def)
    ultimately show ?thesis by blast
  qed
  moreover have "sv_hub h w = None \<and> sv_hub h w' = None \<and> registry_ok g"
    if o: "registry_open win now (sv_reg w') = Some (Inr h, g)" for win now h g
  proof -
    have "sv_hub h w' = None" "registry_ok g"
      using registry_ok_open [OF conjunct1 [OF e] o] unfolding sv_hub_def by blast+
    moreover have "sv_hub h w = None" using e calculation(1) by fastforce
    ultimately show ?thesis by simp
  qed
  ultimately show ?thesis using e by simp
qed

text \<open>A connection that asks for a handle nobody has: it is told so and closed.\<close>

definition demo_v :: "bytes list \<Rightarrow> session \<Rightarrow> bytes list serve" where
  "demo_v io s = (demo_w io s demo_hub [])\<lparr>sv_reg := (registry_new [] 10 [])\<lparr>rg_live := [1],
     rg_store := [1 \<mapsto> demo_hub], rg_next_handle := 2\<rparr>\<rparr>"

definition demo_attach_body :: bytes where
  "demo_attach_body = T_ATTACH # to_be64 9 @ to_be16 24 @ to_be16 80"

definition demo_attach_frame :: bytes where
  "demo_attach_frame = frame_of (Data 0 1 (demo_attach_body @ replicate 16 0))"

lemma demo_attach_decodes:
  "decode Server demo_attach_frame = Inr (Data 0 1 (demo_attach_body @ replicate 16 0))"
  "term_decode demo_attach_body = Inr (TfAttach 9 24 80)"
  unfolding demo_attach_frame_def
  by (subst decode_frame_of) (simp_all add: encode_check_Data direction_rejects_def demo_attach_body_def
      term_decode_def term_tags slice_of_def)

lemma demo_attach:
  "recv_terminal_frame demo_stream demo_aead (demo_v [demo_attach_frame] (demo_session 1 (Some 0))) =
    Some (RoFrame (TfAttach 9 24 80), demo_v [] (demo_session 1 (Some 1)))"
  using demo_open [of demo_attach_body 1]
  by (simp add: recv_terminal_frame_def demo_v_def demo_w_def demo_stream_def demo_attach_decodes)

lemma demo_denied:
  "send_terminal_frame demo_stream demo_aead (TfDenied DrGone) (demo_v io (demo_session 1 m)) =
    Some (Inr (), demo_v io (demo_session 2 m))"
proof -
  have "encode (Data 0 1 ([T_DENIED, deny_wire DrGone] @ replicate 16 0)) =
     Inr (frame_of (Data 0 1 ([T_DENIED, deny_wire DrGone] @ replicate 16 0)))"
    unfolding encode_Inr_iff by (simp add: encode_check_Data)
  then show ?thesis
    by (simp add: send_terminal_frame_def demo_v_def demo_w_def demo_seal demo_stream_def)
qed

lemma demo_gone:
  "serve_connection demo_stream demo_aead default_serve_options 1 (demo_v [demo_attach_frame] (demo_session 1 (Some 0)))
    = Some (no_summary 9 SeDeniedGone, demo_v [] (demo_session 2 (Some 1)))"
proof -
  have tick: "tick (demo_v io s) = demo_v io s" for io s by (simp add: tick_def demo_v_def demo_w_def)
  have io: "sv_io (demo_v io s) = io" "(demo_v io s)\<lparr>sv_io := i\<rparr> = demo_v i s" for io i s
    by (simp_all add: demo_v_def demo_w_def)
  have stream: "fs_set_deadline demo_stream t x = (Inr (), x)"
    "fs_shutdown_write demo_stream x = (Inr (), x)" "fs_close demo_stream x = (Inr (), x)" for t x
    by (simp_all add: demo_stream_def)
  have find: "registry_find 9 (sv_reg (demo_v io s)) = None" for io s
    by (simp add: registry_find_def demo_v_def)
  have "first_frame demo_stream demo_aead d (demo_v [demo_attach_frame] (demo_session 1 (Some 0)))
      = Some (Inr (FoGone 9), demo_v [] (demo_session 2 (Some 1)))" for d
    by (simp add: first_frame.simps first_step_def demo_attach tick find demo_denied io stream)
  then show ?thesis by (simp add: serve_connection_def drive_def stream tick io)
qed

theorem connection_keeps_registry_typed_witness:
  "\<exists>s w'. serve_connection demo_stream demo_aead default_serve_options 1
      (demo_v [demo_attach_frame] (demo_session 1 (Some 0))) = Some (s, w') \<and>
    sm_end s = SeDeniedGone \<and> registry_ok (sv_reg w')"
proof -
  have "registry_ok (sv_reg (demo_v io s))" for io s
    by (auto simp: registry_ok_def demo_v_def registry_new_def demo_hub_def)
  then show ?thesis
    using demo_gone connection_keeps_registry_typed [OF demo_gone] by (auto simp: no_summary_def)
qed

end
