(* ===== verification/Text.thy ===== *)
theory Text
  imports Prelude
begin

text \<open>
  Text as the code formats it: decimal and two-digit hexadecimal numbers, joined lists, and the
  quotes of JSON. Strings are lists of characters, one for each byte
  of the encoded text.
\<close>

definition digit_char :: "nat \<Rightarrow> char" where
  "digit_char d = (if d < 10 then char_of (48 + d) else char_of (87 + d))"

fun dec :: "nat \<Rightarrow> string" where
  "dec n = (if n < 10 then [digit_char n] else dec (n div 10) @ [digit_char (n mod 10)])"

declare dec.simps [simp del]

definition hex2 :: "byte \<Rightarrow> string" where
  "hex2 b = [digit_char (unat b div 16), digit_char (unat b mod 16)]"

definition hex_bytes :: "bytes \<Rightarrow> string" where
  "hex_bytes bs = concat (map hex2 bs)"

fun join :: "string \<Rightarrow> string list \<Rightarrow> string" where
  "join sep [] = []"
| "join sep [x] = x"
| "join sep (x # y # xs) = x @ sep @ join sep (y # xs)"

definition newline :: char where "newline = char_of (10 :: nat)"
definition quote_char :: char where "quote_char = char_of (34 :: nat)"

definition quoted :: "string \<Rightarrow> string" where
  "quoted s = quote_char # s @ [quote_char]"

lemma digit_char_of: "d < 16 \<Longrightarrow> of_char (digit_char d) = (if d < 10 then 48 + d else 87 + d :: nat)"
  by (simp add: digit_char_def)

lemma digit_char_inject: "a < 16 \<Longrightarrow> b < 16 \<Longrightarrow> digit_char a = digit_char b \<longleftrightarrow> a = b"
proof
  assume d: "a < 16" "b < 16" "digit_char a = digit_char b"
  then have "(of_char (digit_char a) :: nat) = of_char (digit_char b)" by simp
  with d(1,2) show "a = b" by (simp add: digit_char_of split: if_splits)
qed simp

lemma unat_lt2p_byte: "unat (b :: byte) < 256"
proof -
  have "unat b < 2 ^ 8" using unsigned_less [of b] by simp
  then show ?thesis by simp
qed

lemma hex2_inject [simp]: "hex2 a = hex2 b \<longleftrightarrow> a = b"
proof
  assume h: "hex2 a = hex2 b"
  have "unat a < 256" "unat b < 256"
    using unat_lt2p_byte [of a] unat_lt2p_byte [of b] by blast+
  then have "unat a div 16 < 16" "unat b div 16 < 16" by (simp_all add: less_mult_imp_div_less)
  then have "unat a div 16 = unat b div 16" "unat a mod 16 = unat b mod 16"
    using h by (simp_all add: hex2_def digit_char_inject)
  then have "unat a = unat b" by (metis div_mod_decomp)
  then show "a = b" by (simp add: word_unat_eq_iff)
qed simp

lemma length_hex2 [simp]: "length (hex2 b) = 2"
  by (simp add: hex2_def)

lemma length_hex_bytes [simp]: "length (hex_bytes bs) = 2 * length bs"
  by (induction bs) (simp_all add: hex_bytes_def)

lemma hex_bytes_inject [simp]: "hex_bytes xs = hex_bytes ys \<longleftrightarrow> xs = ys"
proof (induction xs arbitrary: ys)
  case Nil
  then show ?case by (cases ys) (simp_all add: hex_bytes_def hex2_def)
next
  case (Cons x xs)
  then show ?case by (cases ys) (auto simp: hex_bytes_def hex2_def [symmetric], simp add: hex2_def)
qed

text \<open>Decimal images are read back by the value of their digits.\<close>

definition dec_value :: "string \<Rightarrow> nat" where
  "dec_value s = foldl (\<lambda>a c. a * 10 + (of_char c - 48)) 0 s"

lemma dec_value_dec [simp]: "dec_value (dec n) = n"
proof (induction n rule: dec.induct)
  case (1 n)
  then show ?case
    by (subst dec.simps) (simp add: dec_value_def digit_char_of)
qed

lemma dec_inject [simp]: "dec a = dec b \<longleftrightarrow> a = b"
  by (metis dec_value_dec)

lemma dec_digits: "c \<in> set (dec n) \<Longrightarrow> \<exists>d < 10. c = digit_char d"
proof (induction n rule: dec.induct)
  case (1 n)
  have "\<exists>d<10. digit_char (n mod 10) = digit_char d" by (rule exI [of _ "n mod 10"]) simp
  with 1 show ?case by (subst (asm) (2) dec.simps) (auto split: if_splits)
qed

text \<open>The bytes of an ASCII string.\<close>

definition ascii :: "string \<Rightarrow> bytes" where
  "ascii s = map (\<lambda>c. word_of_nat (of_char c)) s"

lemma ascii_inject [simp]: "ascii s = ascii s' \<longleftrightarrow> s = s'"
proof -
  have "inj (\<lambda>c :: char. word_of_nat (of_char c) :: byte)"
  proof (rule injI)
    fix a b :: char
    assume "(word_of_nat (of_char a) :: byte) = word_of_nat (of_char b)"
    then have "unat (word_of_nat (of_char a) :: byte) = unat (word_of_nat (of_char b) :: byte)" by simp
    moreover have "(of_char a :: nat) < 256" "(of_char b :: nat) < 256" by simp_all
    ultimately have "(of_char a :: nat) = of_char b"
      by (simp add: unat_of_nat)
    then show "a = b" by simp
  qed
  then show ?thesis by (simp add: ascii_def inj_map_eq_map)
qed

lemma length_ascii [simp]: "length (ascii s) = length s"
  by (simp add: ascii_def)

lemma ascii_Nil [simp]: "ascii s = [] \<longleftrightarrow> s = []" "ascii [] = []"
  by (simp_all add: ascii_def)

lemma ascii_append: "ascii (a @ b) = ascii a @ ascii b"
  by (simp add: ascii_def)

lemma delim_cancel:
  "x \<notin> set a \<Longrightarrow> x \<notin> set b \<Longrightarrow> a @ x # r = b @ x # r' \<longleftrightarrow> a = b \<and> r = r'"
proof (induction a arbitrary: b)
  case Nil
  then show ?case by (cases b) auto
next
  case (Cons y a)
  then show ?case by (cases b) auto
qed

lemma digit_char_not: "d < 16 \<Longrightarrow> of_char c < (48 :: nat) \<or> of_char c > (102 :: nat) \<Longrightarrow> digit_char d \<noteq> c"
  using digit_char_of [of d] by (auto split: if_splits)

lemma dec_not: "of_char c < (48 :: nat) \<or> of_char c > (102 :: nat) \<Longrightarrow> c \<notin> set (dec n)"
proof
  assume h: "of_char c < (48 :: nat) \<or> of_char c > (102 :: nat)" and "c \<in> set (dec n)"
  then obtain d where "d < 10" "c = digit_char d" using dec_digits by blast
  then show False using digit_char_not [OF _ h, of d] by simp
qed

lemma hex_not: "of_char c < (48 :: nat) \<or> of_char c > (102 :: nat) \<Longrightarrow> c \<notin> set (hex_bytes bs)"
proof (induction bs)
  case (Cons b bs)
  have "unat b div 16 < 16" using unat_lt2p_byte [of b] by (simp add: less_mult_imp_div_less)
  then show ?case using Cons digit_char_not [of "unat b div 16" c] digit_char_not [of "unat b mod 16" c]
    by (auto simp: hex_bytes_def hex2_def)
qed (simp add: hex_bytes_def)

lemma char_codes: "newline = CHR 0x0A" "quote_char = CHR 0x22"
  by code_simp+

end
