(* ===== verification/DoorText.thy ===== *)
theory DoorText
  imports OsFile Text
begin

text \<open>
  What the doorkeeper says and records (\<open>crates/otp-doorkeeper/src/warn.rs\<close>, \<open>log.rs\<close> and
  the configuration of \<open>lib.rs\<close>): the lines sent to a client before the SSH stream, checked at
  start-up, and the JSON lines of the connection log. A \<open>str\<close> is its encoded bytes; the escapes
  touch ASCII characters only, so they work byte by byte.
\<close>

section \<open>Lines for the client\<close>

definition CRLF :: bytes where "CRLF = [13, 10]"
definition SSH_PREFIX :: bytes where "SSH_PREFIX = ascii ''SSH-''"
definition MAX_LINE_LEN :: nat where "MAX_LINE_LEN = 200"

definition starts_with :: "'a list \<Rightarrow> 'a list \<Rightarrow> bool" where
  "starts_with p s \<longleftrightarrow> take (length p) s = p"

definition DEFAULT_WARN_LINE :: bytes where
  "DEFAULT_WARN_LINE = ascii ''NOTICE: SSH endpoint deprecated, migrating to jbuu (''
     @ [0xe9, 0x94, 0xa6, 0xe4, 0xb9, 0xa6] @ ascii ''). ''
     @ [0xe6, 0x9c, 0xac, 0xe9, 0x80, 0x9a, 0xe9, 0x81, 0x93, 0xe4, 0xbb, 0x85, 0xe8, 0xbf, 0x87,
        0xe6, 0xb8, 0xa1, 0xef, 0xbc, 0x8c, 0xe8, 0xaf, 0xb7, 0xe8, 0xbf, 0x81, 0xe7, 0xa7, 0xbb]
     @ ascii '' jbuu'' @ [0xe3, 0x80, 0x82]"

definition DEFAULT_WARN_LINE_LEN :: nat where "DEFAULT_WARN_LINE_LEN = 101"

definition FAILURE_LINE :: bytes where
  "FAILURE_LINE = ascii ''NOTICE: upstream sshd unreachable via doorkeeper, try later''"

datatype line_error = SshPrefix | ControlChar byte nat | TooLong nat

text \<open>The loop over the bytes with their positions: the first control byte is reported.\<close>

fun control_check :: "nat \<Rightarrow> bytes \<Rightarrow> line_error + unit" where
  "control_check pos [] = Inr ()"
| "control_check pos (b # bs) =
     (if b < 0x20 then Inl (ControlChar b pos) else control_check (pos + 1) bs)"

definition validate_line :: "bytes \<Rightarrow> line_error + bytes" where
  "validate_line content = rbind (control_check 0 content) (\<lambda>_.
     if starts_with SSH_PREFIX content then Inl SshPrefix
     else let line = content @ CRLF in
       if MAX_LINE_LEN < length line then Inl (TooLong (length line)) else Inr line)"

text \<open>\<open>expect\<close> panics on an error.\<close>

definition expect :: "'e + 'a \<Rightarrow> 'a option" where
  "expect r = (case r of Inl _ \<Rightarrow> None | Inr a \<Rightarrow> Some a)"

definition default_warn_line :: "bytes option" where
  "default_warn_line = expect (validate_line DEFAULT_WARN_LINE)"

definition failure_line :: "bytes option" where
  "failure_line = expect (validate_line FAILURE_LINE)"

section \<open>Configuration\<close>

datatype on_off = On | Off

fun on_off_str :: "on_off \<Rightarrow> string" where
  "on_off_str On = ''on''"
| "on_off_str Off = ''off''"

definition on_off_from_str :: "string \<Rightarrow> string + on_off" where
  "on_off_from_str s = (if s = ''on'' then Inr On else if s = ''off'' then Inr Off else Inl s)"

text \<open>Addresses: four bytes, or eight groups of sixteen bits, with a port.\<close>

datatype ip_addr = V4 byte byte byte byte | V6 "u16 list"

record socket_addr =
  sa_ip :: ip_addr
  sa_port :: u16

fun is_unspecified :: "ip_addr \<Rightarrow> bool" where
  "is_unspecified (V4 a b c d) \<longleftrightarrow> a = 0 \<and> b = 0 \<and> c = 0 \<and> d = 0"
| "is_unspecified (V6 s) \<longleftrightarrow> list_all (\<lambda>x. x = 0) s"

fun is_loopback :: "ip_addr \<Rightarrow> bool" where
  "is_loopback (V4 a b c d) \<longleftrightarrow> a = 127"
| "is_loopback (V6 s) \<longleftrightarrow> s = [0, 0, 0, 0, 0, 0, 0, 1]"

fun family_of :: "ip_addr \<Rightarrow> string" where
  "family_of (V4 _ _ _ _) = ''v4''"
| "family_of (V6 s) =
     (if list_all (\<lambda>x. x = 0) (take 5 s) \<and> s ! 5 = 0xffff then ''v4mapped'' else ''v6'')"

record cli =
  cl_listen :: socket_addr
  cl_upstream :: socket_addr
  cl_warn_mode :: on_off
  cl_warn_line :: bytes
  cl_failure_line :: on_off
  cl_max_conns :: nat
  cl_log_file :: string
  cl_verbose :: bool

record config =
  cf_listen :: socket_addr
  cf_upstream :: socket_addr
  cf_warn_mode :: on_off
  cf_warn_line :: bytes
  cf_failure_line :: on_off
  cf_max_conns :: nat
  cf_log_path :: string
  cf_verbose :: bool

datatype config_error = NoConns | UpstreamUnspecified | BadWarnLine line_error

definition from_cli :: "cli \<Rightarrow> config_error + config" where
  "from_cli c =
     (if cl_max_conns c = 0 then Inl NoConns
      else if is_unspecified (sa_ip (cl_upstream c)) then Inl UpstreamUnspecified
      else rbind (map_err BadWarnLine (validate_line (cl_warn_line c))) (\<lambda>line.
        Inr \<lparr>cf_listen = cl_listen c, cf_upstream = cl_upstream c, cf_warn_mode = cl_warn_mode c,
          cf_warn_line = line, cf_failure_line = cl_failure_line c,
          cf_max_conns = cl_max_conns c, cf_log_path = cl_log_file c,
          cf_verbose = cl_verbose c\<rparr>))"

section \<open>The connection log\<close>

definition backslash :: char where "backslash = CHR 0x5C"

text \<open>Four hexadecimal digits, as \<open>{:04x}\<close> prints a code below 256.\<close>

definition hex4 :: "nat \<Rightarrow> string" where
  "hex4 n = ''00'' @ [digit_char (n div 16), digit_char (n mod 16)]"

fun escape_char :: "char \<Rightarrow> string" where
  "escape_char c =
     (if c = quote_char then [backslash, quote_char]
      else if c = backslash then [backslash, backslash]
      else if c = newline then [backslash, CHR ''n'']
      else if c = CHR 0x0D then [backslash, CHR ''r'']
      else if c = CHR 0x09 then [backslash, CHR ''t'']
      else if c = CHR 0x08 then [backslash, CHR ''b'']
      else if c = CHR 0x0C then [backslash, CHR ''f'']
      else if (of_char c :: nat) < 0x20 then backslash # CHR ''u'' # hex4 (of_char c)
      else [c])"

declare escape_char.simps [simp del]

definition escape :: "string \<Rightarrow> string" where
  "escape s = concat (map escape_char s)"

datatype field = FStr string | FU64 u64 | FBool bool | FNull

fun field_json :: "field \<Rightarrow> string" where
  "field_json (FStr s) = quoted (escape s)"
| "field_json (FU64 n) = dec (unat n)"
| "field_json (FBool b) = (if b then ''true'' else ''false'')"
| "field_json FNull = ''null''"

definition field_text :: "string \<times> field \<Rightarrow> string" where
  "field_text kv = '','' @ quoted (escape (fst kv)) @ '':'' @ field_json (snd kv)"

text \<open>Decimal numbers with leading zeros, as \<open>{:0n}\<close> prints them.\<close>

definition pad_dec :: "nat \<Rightarrow> nat \<Rightarrow> string" where
  "pad_dec n v = replicate (n - length (dec v)) (CHR ''0'') @ dec v"

definition civil_from_days :: "int \<Rightarrow> int \<times> nat \<times> nat" where
  "civil_from_days z0 =
     (let z = z0 + 719468;
          era = z div 146097;
          doe = nat (z - era * 146097);
          yoe = (doe - doe div 1460 + doe div 36524 - doe div 146096) div 365;
          y = int yoe + era * 400;
          doy = doe - (365 * yoe + yoe div 4 - yoe div 100);
          mp = (5 * doy + 2) div 153;
          dd = doy - (153 * mp + 2) div 5 + 1;
          m = (if mp < 10 then mp + 3 else mp - 9)
      in (if m \<le> 2 then y + 1 else y, m, dd))"

text \<open>The clock as seconds and milliseconds since the epoch.\<close>

definition rfc3339_millis :: "nat \<Rightarrow> nat \<Rightarrow> string" where
  "rfc3339_millis secs millis =
     (case civil_from_days (int (secs div 86400)) of (y, m, dd) \<Rightarrow>
        let sod = secs mod 86400 in
        pad_dec 4 (nat y) @ ''-'' @ pad_dec 2 m @ ''-'' @ pad_dec 2 dd @ ''T''
        @ pad_dec 2 (sod div 3600) @ '':'' @ pad_dec 2 (sod mod 3600 div 60) @ '':''
        @ pad_dec 2 (sod mod 60) @ ''.'' @ pad_dec 3 millis @ ''Z'')"

definition event_line :: "string \<Rightarrow> string \<Rightarrow> string \<Rightarrow> (string \<times> field) list \<Rightarrow> string" where
  "event_line ts level kind fs =
     ''{'' @ quoted ''ts'' @ '':'' @ quoted ts
     @ '','' @ quoted ''level'' @ '':'' @ quoted (escape level)
     @ '','' @ quoted ''event'' @ '':'' @ quoted (escape kind)
     @ concat (map field_text fs) @ ''}'' @ [newline]"

text \<open>
  The write of a line to the file opened for append: one \<open>write\<close>; a short write is completed
  with \<open>write_all\<close>, whose error is dropped; an error of the first write drops the line.
\<close>

definition log_write :: "bytes \<Rightarrow> script \<Rightarrow> os_file \<Rightarrow> script \<times> os_file" where
  "log_write line sc f =
     (case file_write line sc (f\<lparr>f_pos := length (f_cache f)\<rparr>) of
        (Inr n, sc, f) \<Rightarrow>
          if n = length line then (sc, f)
          else (case write_full (drop n line) sc f of (_, sc, f) \<Rightarrow> (sc, f))
      | (Inl _, sc, f) \<Rightarrow> (sc, f))"

record door_log =
  dl_file :: os_file
  dl_script :: script
  dl_now :: "nat \<times> nat"

definition log_event :: "string \<Rightarrow> string \<Rightarrow> (string \<times> field) list \<Rightarrow> door_log \<Rightarrow> door_log" where
  "log_event level kind fs l =
     (case log_write (ascii (event_line (rfc3339_millis (fst (dl_now l)) (snd (dl_now l))) level kind fs))
        (dl_script l) (dl_file l) of (sc, f) \<Rightarrow> l\<lparr>dl_script := sc, dl_file := f\<rparr>)"

text \<open>
  The events. The process identifier and the version of the build are arguments; a \<open>usize\<close>
  is a 64-bit number.
\<close>

definition listen_start ::
  "u64 \<Rightarrow> string \<Rightarrow> string \<Rightarrow> string \<Rightarrow> string \<Rightarrow> nat \<Rightarrow> door_log \<Rightarrow> door_log" where
  "listen_start pid version listen upstream warn_mode max_conns =
     log_event ''info'' ''listen_start''
       [(''listen'', FStr listen), (''upstream'', FStr upstream), (''warn_mode'', FStr warn_mode),
        (''max_conns'', FU64 (word_of_nat max_conns)), (''pid'', FU64 pid), (''version'', FStr version)]"

definition conn_accept :: "u64 \<Rightarrow> string \<Rightarrow> u16 \<Rightarrow> string \<Rightarrow> door_log \<Rightarrow> door_log" where
  "conn_accept cid src_ip src_port fam =
     log_event ''info'' ''conn_accept''
       [(''conn_id'', FU64 cid), (''src_ip'', FStr src_ip),
        (''src_port'', FU64 (ucast src_port)), (''family'', FStr fam)]"

definition warn_sent :: "u64 \<Rightarrow> nat \<Rightarrow> door_log \<Rightarrow> door_log" where
  "warn_sent cid n =
     log_event ''info'' ''warn_sent'' [(''conn_id'', FU64 cid), (''bytes'', FU64 (word_of_nat n))]"

definition upstream_connect :: "u64 \<Rightarrow> bool \<Rightarrow> u64 \<Rightarrow> string option \<Rightarrow> door_log \<Rightarrow> door_log" where
  "upstream_connect cid ok elapsed err =
     log_event ''info'' ''upstream_connect''
       ([(''conn_id'', FU64 cid), (''ok'', FBool ok), (''elapsed_ms'', FU64 elapsed)]
        @ (case err of Some e \<Rightarrow> [(''err'', FStr e)] | None \<Rightarrow> []))"

definition client_version :: "u64 \<Rightarrow> string option \<Rightarrow> bool \<Rightarrow> door_log \<Rightarrow> door_log" where
  "client_version cid version truncated =
     log_event ''info'' ''client_version''
       [(''conn_id'', FU64 cid),
        (''version'', case version of Some v \<Rightarrow> FStr v | None \<Rightarrow> FNull),
        (''truncated'', FBool truncated)]"

definition conn_close :: "u64 \<Rightarrow> string \<Rightarrow> u64 \<Rightarrow> u64 \<Rightarrow> u64 \<Rightarrow> door_log \<Rightarrow> door_log" where
  "conn_close cid reason c2s s2c duration =
     log_event ''info'' ''conn_close''
       [(''conn_id'', FU64 cid), (''reason'', FStr reason), (''bytes_c2s'', FU64 c2s),
        (''bytes_s2c'', FU64 s2c), (''duration_ms'', FU64 duration)]"

definition conn_refused_over_limit :: "string \<Rightarrow> u16 \<Rightarrow> nat \<Rightarrow> door_log \<Rightarrow> door_log" where
  "conn_refused_over_limit src_ip src_port cur =
     log_event ''warn'' ''conn_refused_over_limit''
       [(''src_ip'', FStr src_ip), (''src_port'', FU64 (ucast src_port)),
        (''cur_conns'', FU64 (word_of_nat cur))]"

section \<open>The lines for the client\<close>

lemma control_check_ok: "control_check pos bs = Inr () \<longleftrightarrow> (\<forall>b \<in> set bs. 0x20 \<le> b)"
  by (induction pos bs rule: control_check.induct) auto

lemma default_lines:
  "length DEFAULT_WARN_LINE = 99" "list_all (\<lambda>b. 0x20 \<le> b) DEFAULT_WARN_LINE"
  "take 4 DEFAULT_WARN_LINE \<noteq> ascii ''SSH-''"
  "length FAILURE_LINE \<le> 198" "list_all (\<lambda>b. 0x20 \<le> b) FAILURE_LINE"
  "take 4 FAILURE_LINE \<noteq> ascii ''SSH-''"
  by code_simp+

lemma starts_ssh: "starts_with SSH_PREFIX c \<longleftrightarrow> take 4 c = ascii ''SSH-''"
  by (simp add: starts_with_def SSH_PREFIX_def eval_nat_numeral)

lemma validate_line_iff:
  "validate_line c = Inr l \<longleftrightarrow> list_all (\<lambda>b. 0x20 \<le> b) c \<and> take 4 c \<noteq> ascii ''SSH-''
    \<and> length c + 2 \<le> 200 \<and> l = c @ [13, 10]"
  by (auto simp: validate_line_def rbind_Inr_iff control_check_ok list_all_iff starts_ssh
      MAX_LINE_LEN_def CRLF_def Let_def)

text \<open>The doorkeeper starts only with lines a client can read. A warning line is accepted
  precisely when it has no control byte, does not begin with the prefix reserved for the version
  line and stays within 200 bytes with its line end; what is sent is the line with one CRLF, at
  its end. The two lines built into the program pass the check, so building them never panics,
  and the default one has the 101 bytes it is documented with.\<close>

theorem startup_lines_checked:
  "(validate_line c = Inr l \<longleftrightarrow> list_all (\<lambda>b. 0x20 \<le> b) c \<and> take 4 c \<noteq> ascii ''SSH-''
      \<and> length c + 2 \<le> 200 \<and> l = c @ [13, 10])
   \<and> default_warn_line = Some (DEFAULT_WARN_LINE @ [13, 10])
   \<and> length (DEFAULT_WARN_LINE @ [13, 10]) = DEFAULT_WARN_LINE_LEN
   \<and> failure_line = Some (FAILURE_LINE @ [13, 10])"
proof (intro conjI validate_line_iff)
  have "validate_line DEFAULT_WARN_LINE = Inr (DEFAULT_WARN_LINE @ [13, 10])"
    "validate_line FAILURE_LINE = Inr (FAILURE_LINE @ [13, 10])"
    using default_lines by (simp_all add: validate_line_iff)
  then show "default_warn_line = Some (DEFAULT_WARN_LINE @ [13, 10])"
    "failure_line = Some (FAILURE_LINE @ [13, 10])"
    by (simp_all add: default_warn_line_def failure_line_def expect_def)
  show "length (DEFAULT_WARN_LINE @ [13, 10]) = DEFAULT_WARN_LINE_LEN"
    using default_lines(1) by (simp add: DEFAULT_WARN_LINE_LEN_def)
qed

section \<open>Reading the log back\<close>

text \<open>A reader of JSON strings, from behind the opening quote, for codes below 256.\<close>

definition hex_val :: "char \<Rightarrow> nat" where
  "hex_val c = (let n = of_char c in if n < 58 then n - 48 else n - 87)"

fun unescape_short :: "char \<Rightarrow> char option" where
  "unescape_short c =
     (if c = quote_char \<or> c = backslash then Some c
      else if c = CHR ''n'' then Some newline
      else if c = CHR ''r'' then Some (CHR 0x0D)
      else if c = CHR ''t'' then Some (CHR 0x09)
      else if c = CHR ''b'' then Some (CHR 0x08)
      else if c = CHR ''f'' then Some (CHR 0x0C)
      else None)"

declare unescape_short.simps [simp del]

definition read_char :: "string \<Rightarrow> (char \<times> string) option" where
  "read_char s = (case s of
     [] \<Rightarrow> None
   | c # r \<Rightarrow>
       if c = backslash then
         (case r of
            CHR ''u'' # CHR ''0'' # CHR ''0'' # x # y # r' \<Rightarrow> Some (char_of (16 * hex_val x + hex_val y), r')
          | e # r' \<Rightarrow> map_option (\<lambda>c. (c, r')) (unescape_short e)
          | [] \<Rightarrow> None)
       else if (of_char c :: nat) < 0x20 then None
       else Some (c, r))"

fun read_string :: "nat \<Rightarrow> string \<Rightarrow> (string \<times> string) option" where
  "read_string 0 s = None"
| "read_string (Suc n) s = (case s of
     [] \<Rightarrow> None
   | c # r \<Rightarrow>
       if c = quote_char then Some ([], r)
       else (case read_char s of
           None \<Rightarrow> None
         | Some (x, r') \<Rightarrow> map_option (\<lambda>(xs, r''). (x # xs, r'')) (read_string n r')))"

lemma hex_val_digit [simp]: "d < 16 \<Longrightarrow> hex_val (digit_char d) = d"
  by (simp add: hex_val_def digit_char_of Let_def)

lemma read_char_escape: "read_char (escape_char c @ r) = Some (c, r)"
proof -
  have d: "(of_char c :: nat) < 32 \<Longrightarrow> of_char c div 16 < (16 :: nat) \<and> of_char c mod 16 < (16 :: nat)"
    by simp
  consider "c \<in> {quote_char, backslash, newline, CHR 0x0D, CHR 0x09, CHR 0x08, CHR 0x0C}"
    | "c \<notin> {quote_char, backslash, newline, CHR 0x0D, CHR 0x09, CHR 0x08, CHR 0x0C}" "(of_char c :: nat) < 32"
    | "c \<notin> {quote_char, backslash, newline, CHR 0x0D, CHR 0x09, CHR 0x08, CHR 0x0C}" "\<not> (of_char c :: nat) < 32"
    by blast
  then show ?thesis
  proof cases
    case 1
    then show ?thesis
      by (auto simp: escape_char.simps read_char_def unescape_short.simps char_codes backslash_def)
  next
    case 2
    then show ?thesis using d by (simp add: escape_char.simps read_char_def hex4_def)
  next
    case 3
    then show ?thesis by (simp add: escape_char.simps read_char_def)
  qed
qed

lemma escape_char_head: "\<exists>x xs. escape_char c = x # xs \<and> x \<noteq> quote_char"
  by (auto simp: escape_char.simps char_codes backslash_def)

lemma read_string_escape:
  "length s < n \<Longrightarrow> read_string n (escape s @ quote_char # r) = Some (s, r)"
proof (induction s arbitrary: n)
  case Nil
  then show ?case by (cases n) (simp_all add: escape_def)
next
  case (Cons c s)
  then obtain m where n: "n = Suc m" by (cases n) auto
  obtain x xs where x: "escape_char c = x # xs" "x \<noteq> quote_char" using escape_char_head by blast
  have "read_char (x # xs @ escape s @ quote_char # r) = Some (c, escape s @ quote_char # r)"
    using read_char_escape [of c "escape s @ quote_char # r"] x by simp
  then show ?case using Cons n x by (simp add: escape_def)
qed

text \<open>
  A reader of the members of a record: the key, then a string or a bare word. Every member is
  introduced by its comma; the closing brace ends the record.
\<close>

datatype json_value = JStr string | JWord string

fun json_of :: "field \<Rightarrow> json_value" where
  "json_of (FStr s) = JStr s"
| "json_of v = JWord (field_json v)"

definition word_end :: "char \<Rightarrow> bool" where
  "word_end c \<longleftrightarrow> c = CHR '','' \<or> c = CHR ''}''"

definition read_value :: "string \<Rightarrow> (json_value \<times> string) option" where
  "read_value s = (case s of
     [] \<Rightarrow> None
   | c # r \<Rightarrow>
       if c = quote_char then map_option (\<lambda>(x, r). (JStr x, r)) (read_string (length r) r)
       else Some (JWord (takeWhile (\<lambda>c. \<not> word_end c) s), dropWhile (\<lambda>c. \<not> word_end c) s))"

fun read_members :: "nat \<Rightarrow> string \<Rightarrow> ((string \<times> json_value) list \<times> string) option" where
  "read_members 0 s = None"
| "read_members (Suc n) s = (case s of
     CHR '','' # CHR 0x22 # r \<Rightarrow>
       (case read_string (length r) r of
          Some (k, CHR '':'' # r') \<Rightarrow>
            (case read_value r' of
               Some (v, r'') \<Rightarrow> map_option (\<lambda>(kvs, t). ((k, v) # kvs, t)) (read_members n r'')
             | None \<Rightarrow> None)
        | _ \<Rightarrow> None)
   | CHR ''}'' # t \<Rightarrow> Some ([], t)
   | _ \<Rightarrow> None)"

lemma escape_length: "length s \<le> length (escape s)"
proof (induction s)
  case (Cons c s)
  obtain x xs where "escape_char c = x # xs" using escape_char_head by blast
  then show ?case using Cons by (simp add: escape_def)
qed (simp add: escape_def)

lemma read_string_escaped:
  "read_string (length (escape s @ quote_char # r)) (escape s @ quote_char # r) = Some (s, r)"
  using escape_length [of s] by (intro read_string_escape) simp

lemma word_chars:
  "\<forall>c \<in> set (dec n). \<not> word_end c" "\<not> word_end (CHR ''t'')"
  using dec_not [of "CHR '',''" n] dec_not [of "CHR ''}''" n] by (auto simp: word_end_def)

lemma read_value_field:
  assumes "r = CHR '','' # r' \<or> r = CHR ''}'' # r'"
  shows "read_value (field_json v @ r) = Some (json_of v, r)"
proof -
  have r: "takeWhile (\<lambda>c. \<not> word_end c) r = []" "dropWhile (\<lambda>c. \<not> word_end c) r = r"
    using assms by (auto simp: word_end_def)
  have word: "read_value (w @ r) = Some (JWord w, r)"
    if "w \<noteq> []" "\<forall>c \<in> set w. \<not> word_end c \<and> c \<noteq> quote_char" for w
  proof -
    have "takeWhile (\<lambda>c. \<not> word_end c) (w @ r) = w" "dropWhile (\<lambda>c. \<not> word_end c) (w @ r) = r"
      using that(2) r by simp_all
    then show ?thesis using that by (cases w) (auto simp: read_value_def)
  qed
  have digits: "dec n \<noteq> [] \<and> quote_char \<notin> set (dec n)" for n
    using dec_not [of quote_char n] by (subst dec.simps) (auto simp: char_codes)
  show ?thesis
  proof (cases v)
    case (FStr s)
    then show ?thesis using read_string_escaped [of s r] by (simp add: read_value_def quoted_def)
  next
    case (FU64 n)
    then show ?thesis using digits [of "unat n"] word_chars(1) [of "unat n"]
      by (auto intro!: word)
  next
    case (FBool b)
    then show ?thesis using word [of "''true''"] word [of "''false''"]
      by (auto simp: word_end_def char_codes)
  next
    case FNull
    then show ?thesis using word [of "''null''"] by (auto simp: word_end_def char_codes)
  qed
qed

lemma read_members_fields:
  "length fs < n \<Longrightarrow> read_members n (concat (map field_text fs) @ ''}'' @ t)
    = Some (map (\<lambda>(k, v). (k, json_of v)) fs, t)"
proof (induction fs arbitrary: n)
  case Nil
  then show ?case by (cases n) simp_all
next
  case (Cons kv fs)
  obtain k v where kv: "kv = (k, v)" by (cases kv)
  obtain m where n: "n = Suc m" using Cons.prems by (cases n) auto
  let ?rest = "concat (map field_text fs) @ ''}'' @ t"
  have "\<exists>r'. ?rest = CHR '','' # r' \<or> ?rest = CHR ''}'' # r'"
    by (cases fs) (simp_all add: field_text_def)
  then have v: "read_value (field_json v @ ?rest) = Some (json_of v, ?rest)"
    using read_value_field by blast
  have k: "read_string (length (escape k @ quote_char # '':'' @ field_json v @ ?rest))
      (escape k @ quote_char # '':'' @ field_json v @ ?rest) = Some (k, '':'' @ field_json v @ ?rest)"
    by (rule read_string_escaped)
  have "concat (map field_text (kv # fs)) @ ''}'' @ t
    = CHR '','' # CHR 0x22 # (escape k @ quote_char # '':'' @ field_json v @ ?rest)"
    by (simp add: field_text_def kv quoted_def char_codes)
  then show ?case using Cons k v n kv by (simp only: read_members.simps) simp
qed

text \<open>The time stamp needs no escapes, and no escaped text has a line break.\<close>

definition plain :: "char \<Rightarrow> bool" where
  "plain c \<longleftrightarrow> escape_char c = [c]"

lemma escape_plain: "list_all plain s \<Longrightarrow> escape s = s"
  by (induction s) (simp_all add: escape_def plain_def)

lemma plain_digit: "d < 10 \<Longrightarrow> plain (digit_char d)"
proof -
  assume d: "d < 10"
  then have c: "(of_char (digit_char d) :: nat) = 48 + d" by (simp add: digit_char_of)
  then have "digit_char d \<notin> {quote_char, backslash, newline, CHR 0x0D, CHR 0x09, CHR 0x08, CHR 0x0C}"
    using d by (auto simp: char_codes backslash_def)
  then show ?thesis using c by (simp add: plain_def escape_char.simps)
qed

lemma plain_pad_dec: "list_all plain (pad_dec n v)"
proof -
  have "plain c" if "c \<in> set (dec v)" for c using dec_digits [OF that] plain_digit by blast
  moreover have "plain (CHR ''0'')" by code_simp
  ultimately show ?thesis by (auto simp: pad_dec_def list_all_iff)
qed

lemma plain_marks: "plain (CHR ''-'')" "plain (CHR ''T'')" "plain (CHR '':'')" "plain (CHR ''.'')"
  "plain (CHR ''Z'')"
  by code_simp+

lemma plain_timestamp: "list_all plain (rfc3339_millis secs millis)"
  by (simp add: rfc3339_millis_def Let_def plain_pad_dec plain_marks split: prod.split)

lemma hex4_no_newline: "n < 256 \<Longrightarrow> newline \<notin> set (hex4 n)"
proof -
  assume "n < 256"
  then have "n div 16 < 16" "n mod 16 < 16" by (simp_all add: less_mult_imp_div_less)
  then have "digit_char (n div 16) \<noteq> newline" "digit_char (n mod 16) \<noteq> newline"
    by (simp_all add: digit_char_not char_codes)
  then show ?thesis by (auto simp: hex4_def char_codes(1))
qed

lemma escape_no_newline: "newline \<notin> set (escape s)"
proof -
  have "newline \<notin> set (escape_char c)" for c
    using hex4_no_newline [of "of_char c"]
    by (cases "c = newline") (simp_all add: escape_char.simps char_codes backslash_def)
  then show ?thesis by (simp add: escape_def)
qed

lemma field_no_newline: "newline \<notin> set (field_text kv)"
proof -
  have "newline \<notin> set (dec n)" for n by (rule dec_not) (simp add: char_codes)
  then have "newline \<notin> set (field_json v)" for v
    using escape_no_newline by (cases v) (auto simp: quoted_def char_codes)
  then show ?thesis
    using escape_no_newline by (auto simp: field_text_def quoted_def char_codes)
qed

lemma all_no_newline: "newline \<notin> set (concat (map field_text fs))"
  using field_no_newline by auto

lemma fields_length: "length fs \<le> length (concat (map field_text fs))"
proof (induction fs)
  case (Cons kv fs)
  have "1 \<le> length (field_text kv)" by (simp add: field_text_def)
  then show ?case using Cons by simp
qed simp

text \<open>A reader of a whole record: the opening brace stands where later members have a comma.\<close>

definition read_log_record :: "string \<Rightarrow> ((string \<times> json_value) list \<times> string) option" where
  "read_log_record s = (case s of CHR ''{'' # r \<Rightarrow> read_members (length s) (CHR '','' # r) | _ \<Rightarrow> None)"

text \<open>A log event is one line and says what it was given. Whatever strings the fields hold,
  an address, an error text or the bytes a client sent as its version, the line has no line break
  before its end, and a reader of it finds the time stamp, the level, the event and exactly the
  fields given, in order, with every string back as it was: no string can end its field, add a
  field or add a line.\<close>

theorem log_line_reads_back:
  "read_log_record (event_line (rfc3339_millis secs millis) level kind fs)
     = Some ([(''ts'', JStr (rfc3339_millis secs millis)), (''level'', JStr level), (''event'', JStr kind)]
         @ map (\<lambda>(k, v). (k, json_of v)) fs, [newline])
   \<and> newline \<notin> set (butlast (event_line (rfc3339_millis secs millis) level kind fs))"
proof -
  let ?ts = "rfc3339_millis secs millis"
  let ?all = "(''ts'', FStr ?ts) # (''level'', FStr level) # (''event'', FStr kind) # fs"
  have plain: "escape ''ts'' = ''ts''" "escape ''level'' = ''level''" "escape ''event'' = ''event''"
    by code_simp+
  define X where "X = concat (map field_text ?all)"
  have X: "CHR '','' # tl X @ r = X @ r" for r by (simp add: X_def field_text_def)
  have line: "event_line ?ts level kind fs = CHR ''{'' # tl X @ ''}'' @ [newline]"
    by (simp add: X_def event_line_def field_text_def plain escape_plain [OF plain_timestamp])
  have "length ?all < length (event_line ?ts level kind fs)"
    using fields_length [of fs] by (simp add: event_line_def quoted_def)
  then have "read_log_record (event_line ?ts level kind fs)
      = Some (map (\<lambda>(k, v). (k, json_of v)) ?all, [newline])"
    using read_members_fields [of ?all "length (event_line ?ts level kind fs)" "[newline]"]
    by (simp add: read_log_record_def line X X_def [symmetric] del: read_members.simps concat.simps list.map)
  moreover have "newline \<notin> set (tl X)"
    using all_no_newline [of ?all] X [of "[]"] unfolding X_def [symmetric]
    by (metis append_Nil2 list.set_intros(2))
  ultimately show ?thesis by (simp add: line butlast_append char_codes)
qed

end
