(* ===== verification/DoorObs.thy ===== *)
theory DoorObs
  imports DoorText
begin

text \<open>
  The doorkeeper's observer of the client's version line
  (\<open>crates/otp-doorkeeper/src/obs.rs\<close>): fed the forwarded bytes chunk by chunk, it looks for the
  first line that begins with the version prefix and ends within the scan window. The text it
  records is the line decoded by \<open>String::from_utf8_lossy\<close>, whose algorithm is modelled on the
  bytes.
\<close>

section \<open>Lossy decoding\<close>

text \<open>
  One sequence of two to four bytes starting with \<open>b\<close>: whether it is well formed, and how many
  of the following bytes belong to it, or to the ill-formed part that is replaced.
\<close>

definition next_byte :: "bytes \<Rightarrow> nat \<Rightarrow> byte" where
  "next_byte bs i = (if i < length bs then bs ! i else 0)"

definition continuation :: "byte \<Rightarrow> bool" where
  "continuation b \<longleftrightarrow> 0x80 \<le> b \<and> b \<le> 0xBF"

definition second_ok :: "byte \<Rightarrow> byte \<Rightarrow> bool" where
  "second_ok b n \<longleftrightarrow>
     (if b = 0xE0 then 0xA0 \<le> n \<and> n \<le> 0xBF
      else if b = 0xED then 0x80 \<le> n \<and> n \<le> 0x9F
      else if b = 0xF0 then 0x90 \<le> n \<and> n \<le> 0xBF
      else if b = 0xF4 then 0x80 \<le> n \<and> n \<le> 0x8F
      else continuation n)"

definition utf8_sequence :: "byte \<Rightarrow> bytes \<Rightarrow> bool \<times> nat" where
  "utf8_sequence b bs =
     (if 0xC2 \<le> b \<and> b \<le> 0xDF then
        (if continuation (next_byte bs 0) then (True, 1) else (False, 0))
      else if 0xE0 \<le> b \<and> b \<le> 0xEF then
        (if \<not> second_ok b (next_byte bs 0) then (False, 0)
         else if continuation (next_byte bs 1) then (True, 2) else (False, 1))
      else if 0xF0 \<le> b \<and> b \<le> 0xF4 then
        (if \<not> second_ok b (next_byte bs 0) then (False, 0)
         else if \<not> continuation (next_byte bs 1) then (False, 1)
         else if continuation (next_byte bs 2) then (True, 3) else (False, 2))
      else (False, 0))"

definition REPLACEMENT :: bytes where "REPLACEMENT = [0xEF, 0xBF, 0xBD]"

function from_utf8_lossy :: "bytes \<Rightarrow> bytes" where
  "from_utf8_lossy [] = []"
| "from_utf8_lossy (b # bs) =
     (if b < 0x80 then b # from_utf8_lossy bs
      else let (ok, n) = utf8_sequence b bs in
        (if ok then b # take n bs else REPLACEMENT) @ from_utf8_lossy (drop n bs))"
  by pat_completeness auto
termination
  by (relation "measure length") auto

section \<open>The observer\<close>

definition SCAN_WINDOW :: nat where "SCAN_WINDOW = 8 * 1024"
definition VERSION_MAX_BYTES :: nat where "VERSION_MAX_BYTES = 128"

record observer =
  ob_buf :: bytes
  ob_scanned :: nat
  ob_base :: nat
  ob_done :: bool
  ob_version :: "bytes option"
  ob_truncated :: bool

definition observer_new :: observer where
  "observer_new = \<lparr>ob_buf = [], ob_scanned = 0, ob_base = 0, ob_done = False,
     ob_version = None, ob_truncated = False\<rparr>"

definition finish_none :: "observer \<Rightarrow> observer" where
  "finish_none v = v\<lparr>ob_done := True, ob_version := None, ob_buf := []\<rparr>"

text \<open>A line without its line feed loses a trailing carriage return.\<close>

definition pop_cr :: "bytes \<Rightarrow> bytes" where
  "pop_cr l = (if l \<noteq> [] \<and> last l = 13 then butlast l else l)"

text \<open>The position of the first line feed.\<close>

fun position_nl :: "bytes \<Rightarrow> nat option" where
  "position_nl [] = None"
| "position_nl (b # bs) = (if b = 10 then Some 0 else map_option Suc (position_nl bs))"

lemma position_nl_split:
  "position_nl bs = Some i \<Longrightarrow> i < length bs \<and> bs = take i bs @ 10 # drop (Suc i) bs \<and> 10 \<notin> set (take i bs)"
  by (induction bs arbitrary: i) (auto split: if_splits)

lemma position_nl_None: "position_nl bs = None \<longleftrightarrow> 10 \<notin> set bs"
  by (induction bs) auto

text \<open>
  The loop over the complete lines of the buffer; the flag says whether \<open>observe\<close> returns from
  inside the loop.
\<close>

function scan_lines :: "observer \<Rightarrow> observer \<times> bool" where
  "scan_lines v =
     (case position_nl (ob_buf v) of
        None \<Rightarrow> (v, False)
      | Some i \<Rightarrow>
          if SCAN_WINDOW \<le> ob_base v + i then (finish_none v, True)
          else let line = pop_cr (take i (ob_buf v));
                   v = v\<lparr>ob_buf := drop (Suc i) (ob_buf v), ob_base := ob_base v + (i + 1)\<rparr>
            in if starts_with SSH_PREFIX line then
                 (v\<lparr>ob_truncated := VERSION_MAX_BYTES < length line,
                    ob_version := Some (from_utf8_lossy (take VERSION_MAX_BYTES line)),
                    ob_done := True, ob_buf := []\<rparr>, True)
               else scan_lines v)"
  by pat_completeness auto
termination
  by (relation "measure (\<lambda>v. length (ob_buf v))") (auto dest: position_nl_split)

declare scan_lines.simps [simp del]

definition observe :: "observer \<Rightarrow> bytes \<Rightarrow> observer" where
  "observe v chunk =
     (if ob_done v then v
      else case scan_lines (v\<lparr>ob_scanned := ob_scanned v + length chunk, ob_buf := ob_buf v @ chunk\<rparr>) of
        (v, True) \<Rightarrow> v
      | (v, False) \<Rightarrow> if SCAN_WINDOW \<le> ob_scanned v then finish_none v else v)"

definition take_result :: "observer \<Rightarrow> (bytes option \<times> bool) \<times> observer" where
  "take_result v =
     (let v = (if ob_done v then v else finish_none v) in
       ((ob_version v, ob_truncated v), v\<lparr>ob_version := None\<rparr>))"

section \<open>The line it is looking for\<close>

text \<open>
  The reference, on the whole stream at once: among the lines that end within the window, the
  first that begins with the prefix.
\<close>

function find_version :: "bytes \<Rightarrow> bytes option" where
  "find_version s =
     (case position_nl s of
        None \<Rightarrow> None
      | Some i \<Rightarrow>
          if starts_with SSH_PREFIX (pop_cr (take i s)) then Some (pop_cr (take i s))
          else find_version (drop (Suc i) s))"
  by pat_completeness auto
termination
  by (relation "measure length") (auto dest: position_nl_split)

declare find_version.simps [simp del]

definition verdict :: "bytes option \<Rightarrow> bytes option \<times> bool" where
  "verdict l = (case l of
     None \<Rightarrow> (None, False)
   | Some l \<Rightarrow> (Some (from_utf8_lossy (take VERSION_MAX_BYTES l)), VERSION_MAX_BYTES < length l))"

definition observed :: "bytes \<Rightarrow> bytes option \<times> bool" where
  "observed s = verdict (find_version (take SCAN_WINDOW s))"

section \<open>Chunks do not matter\<close>

lemma position_nl_take:
  "position_nl bs = Some i \<Longrightarrow> position_nl (take k (bs @ t)) = (if i < k then Some i else None)"
proof (induction bs arbitrary: i k)
  case (Cons b bs)
  then show ?case by (cases k) (auto split: if_splits)
qed simp

lemma position_nl_take_None:
  "position_nl bs = None \<Longrightarrow> k \<le> length bs \<Longrightarrow> position_nl (take k (bs @ t)) = None"
  by (auto simp: position_nl_None dest: in_set_takeD)

lemma find_version_None: "position_nl s = None \<Longrightarrow> find_version s = None"
  by (simp add: find_version.simps)

lemma find_version_Some:
  "position_nl s = Some i \<Longrightarrow> find_version s =
    (if starts_with SSH_PREFIX (pop_cr (take i s)) then Some (pop_cr (take i s))
     else find_version (drop (Suc i) s))"
  by (simp add: find_version.simps [of s])

text \<open>What the observer knows after the bytes \<open>s\<close>, while it is still looking, and when it is done.\<close>

definition looking :: "bytes \<Rightarrow> observer \<Rightarrow> bool" where
  "looking s v \<longleftrightarrow> \<not> ob_done v \<and> ob_version v = None \<and> \<not> ob_truncated v \<and>
     ob_scanned v = length s \<and> ob_base v + length (ob_buf v) = length s \<and>
     (\<forall>t. find_version (take SCAN_WINDOW (s @ t))
        = find_version (take (SCAN_WINDOW - ob_base v) (ob_buf v @ t)))"

definition obs_settled :: "bytes \<Rightarrow> observer \<Rightarrow> bool" where
  "obs_settled s v \<longleftrightarrow> ob_done v \<and> (\<forall>t. observed (s @ t) = (ob_version v, ob_truncated v))"

lemma scan_lines_inv:
  "looking s v \<Longrightarrow> scan_lines v = (v', r) \<Longrightarrow>
    (if r then obs_settled s v' else looking s v' \<and> position_nl (ob_buf v') = None)"
proof (induction v arbitrary: v' r rule: scan_lines.induct)
  case (1 v)
  have find: "find_version (take SCAN_WINDOW (s @ t))
      = find_version (take (SCAN_WINDOW - ob_base v) (ob_buf v @ t))" for t
    using "1.prems"(1) by (simp add: looking_def)
  show ?case
  proof (cases "position_nl (ob_buf v)")
    case None
    then show ?thesis using "1.prems" by (auto simp: scan_lines.simps [of v])
  next
    case (Some i)
    note split = position_nl_split [OF Some]
    show ?thesis
    proof (cases "SCAN_WINDOW \<le> ob_base v + i")
      case True
      then have "find_version (take SCAN_WINDOW (s @ t)) = None" for t
        using find [of t] position_nl_take [OF Some] by (simp add: find_version_None del: take_append)
      then show ?thesis using "1.prems" True Some
        by (auto simp: scan_lines.simps [of v] obs_settled_def observed_def verdict_def finish_none_def
            looking_def)
    next
      case False
      define line where "line = pop_cr (take i (ob_buf v))"
      define w where "w = v\<lparr>ob_buf := drop (Suc i) (ob_buf v), ob_base := ob_base v + (i + 1)\<rparr>"
      have i: "i < SCAN_WINDOW - ob_base v" using False by simp
      have step: "find_version (take SCAN_WINDOW (s @ t)) =
          (if starts_with SSH_PREFIX line then Some line
           else find_version (take (SCAN_WINDOW - ob_base w) (ob_buf w @ t)))" for t
      proof -
        have p: "position_nl (take (SCAN_WINDOW - ob_base v) (ob_buf v @ t)) = Some i"
          using position_nl_take [OF Some] i by (simp del: take_append)
        have "take i (take (SCAN_WINDOW - ob_base v) (ob_buf v @ t)) = take i (ob_buf v)"
          using i split by simp
        moreover have "drop (Suc i) (take (SCAN_WINDOW - ob_base v) (ob_buf v @ t))
            = take (SCAN_WINDOW - ob_base w) (ob_buf w @ t)"
          using split [THEN conjunct1] by (simp add: w_def drop_take del: take_append)
        ultimately show ?thesis using find [of t] find_version_Some [OF p] by (simp add: line_def del: take_append)
      qed
      show ?thesis
      proof (cases "starts_with SSH_PREFIX line")
        case True
        then have "scan_lines v = (w\<lparr>ob_truncated := VERSION_MAX_BYTES < length line,
            ob_version := Some (from_utf8_lossy (take VERSION_MAX_BYTES line)),
            ob_done := True, ob_buf := []\<rparr>, True)"
          using Some False by (simp add: scan_lines.simps [of v] Let_def line_def w_def)
        then show ?thesis using "1.prems"(2) step True
          by (auto simp: obs_settled_def observed_def verdict_def)
      next
        case ssh: False
        then have "scan_lines w = (v', r)"
          using Some False "1.prems"(2) by (simp add: scan_lines.simps [of v] Let_def line_def w_def)
        moreover have "looking s w"
          using "1.prems"(1) step ssh split by (auto simp: looking_def w_def)
        ultimately show ?thesis
          using "1.IH" [OF Some False line_def w_def ssh] by blast
      qed
    qed
  qed
qed

lemma observe_inv:
  assumes "(looking s v \<and> position_nl (ob_buf v) = None) \<or> obs_settled s v"
  shows "(looking (s @ c) (observe v c) \<and> position_nl (ob_buf (observe v c)) = None)
    \<or> obs_settled (s @ c) (observe v c)"
proof (cases "ob_done v")
  case True
  then show ?thesis using assms by (auto simp: observe_def obs_settled_def looking_def)
next
  case False
  let ?v = "v\<lparr>ob_scanned := ob_scanned v + length c, ob_buf := ob_buf v @ c\<rparr>"
  have "looking (s @ c) ?v"
    using assms False by (auto simp: looking_def obs_settled_def simp del: take_append)
  moreover obtain w r where s: "scan_lines ?v = (w, r)" by (cases "scan_lines ?v") auto
  ultimately have w: "if r then obs_settled (s @ c) w
      else looking (s @ c) w \<and> position_nl (ob_buf w) = None"
    by (rule scan_lines_inv)
  show ?thesis
  proof (cases "r \<or> ob_scanned w < SCAN_WINDOW")
    case True
    then show ?thesis using w s False by (auto simp: observe_def split: bool.splits)
  next
    case over: False
    then have l: "looking (s @ c) w" "position_nl (ob_buf w) = None" using w by auto
    then have "SCAN_WINDOW - ob_base w \<le> length (ob_buf w)" using over by (auto simp: looking_def)
    then have "find_version (take SCAN_WINDOW ((s @ c) @ t)) = None" for t
      using l position_nl_take_None [OF l(2)] by (simp add: looking_def find_version_None del: take_append)
    then have "obs_settled (s @ c) (finish_none w)"
      using l by (auto simp: obs_settled_def observed_def verdict_def finish_none_def looking_def)
    then show ?thesis using over s False by (simp add: observe_def)
  qed
qed

lemma observe_chunks:
  "(looking s (foldl observe observer_new cs') \<and>
      position_nl (ob_buf (foldl observe observer_new cs')) = None) \<or>
     obs_settled s (foldl observe observer_new cs')"
  if "s = concat cs'"
  unfolding that
proof (induction cs' rule: rev_induct)
  case Nil
  then show ?case by (simp add: looking_def observer_new_def)
next
  case (snoc c cs)
  then show ?case using observe_inv [of "concat cs" "foldl observe observer_new cs" c] by simp
qed

lemma observer_result:
  "fst (take_result (foldl observe observer_new cs)) = observed (concat cs)"
  using observe_chunks [OF refl, of cs]
proof (elim disjE conjE)
  let ?v = "foldl observe observer_new cs"
  assume l: "looking (concat cs) ?v" and n: "position_nl (ob_buf ?v) = None"
  have "position_nl (take (SCAN_WINDOW - ob_base ?v) (ob_buf ?v)) = None"
    using n by (auto simp: position_nl_None dest: in_set_takeD)
  then have "find_version (take SCAN_WINDOW (concat cs)) = None"
    using l [unfolded looking_def] by (metis append_Nil2 find_version_None)
  then show ?thesis
    using l by (auto simp: take_result_def observed_def verdict_def finish_none_def looking_def Let_def)
next
  assume "obs_settled (concat cs) (foldl observe observer_new cs)"
  then show ?thesis
    by (auto simp: take_result_def obs_settled_def Let_def dest: spec [of _ "[]"])
qed

text \<open>C37. The observer finds the client's version whatever way the bytes arrive. However the
  stream is cut into chunks, the result is that of the reference on the whole stream: the first
  line ending within the first 8192 bytes that begins with the version prefix, without its line
  end, cut to 128 bytes, decoded with a replacement for what is not UTF-8 and marked when it was cut, or nothing.\<close>

theorem observer_is_reference:
  "fst (take_result (foldl observe observer_new cs)) = observed (concat cs)"
  by (rule observer_result)

end
