(* ===== verification/DoorProxy.thy ===== *)
theory DoorProxy
  imports DoorObs "HOL-Library.Multiset"
begin

text \<open>
  The doorkeeper's proxy (\<open>crates/otp-doorkeeper/src/proxy.rs\<close>): a connection from accept to
  close, with the two pipe threads interleaved by a schedule, and the accept loop with the
  connection counter, whose atomic accesses are single steps. Sockets answer from the outside:
  a schedule says which thread runs next, what its read returned and how its write ended. A
  connection whose schedule ends while a pipe thread still waits has no result.
\<close>

section \<open>One direction of the pipe\<close>

definition PIPE_BUF_SIZE :: nat where "PIPE_BUF_SIZE = 16 * 1024"

datatype side = ClientSide | UpstreamSide

fun write_side :: "side \<Rightarrow> side" where
  "write_side ClientSide = UpstreamSide"
| "write_side UpstreamSide = ClientSide"

text \<open>
  What one \<open>read\<close> returned, and, when there was something to write, how many bytes \<open>write_all\<close>
  handed over before it failed; \<open>None\<close> when it did not fail. An empty read is the end of the
  stream.
\<close>

datatype read_result = RdBytes bytes | RdInterrupted | RdError

type_synonym io = "read_result \<times> nat option"

text \<open>
  A direction: what its thread has read (a history), what it handed over, the counter, and how
  the thread ended, if it did: after the end of the stream, having shut the write side down, or
  with an error, having closed both sockets.
\<close>

datatype ending = EndEof | EndError

record direction_state =
  dr_read :: bytes
  dr_written :: bytes
  dr_count :: u64
  dr_end :: "ending option"

definition direction_new :: direction_state where
  "direction_new = \<lparr>dr_read = [], dr_written = [], dr_count = 0, dr_end = None\<rparr>"

text \<open>\<open>record_err\<close>: the first error wins.\<close>

definition record_err :: "side option \<Rightarrow> side \<Rightarrow> side option" where
  "record_err slot s = (case slot of None \<Rightarrow> Some s | Some _ \<Rightarrow> slot)"

record 'o pipe_thread =
  pt_dir :: direction_state
  pt_obs :: 'o
  pt_err :: "side option"

text \<open>
  One turn of the loop of \<open>pipe_one\<close>: the observer sees the chunk before it is written, the
  counter grows only when the whole chunk was written.
\<close>

definition pipe_turn ::
  "side \<Rightarrow> ('o \<Rightarrow> bytes \<Rightarrow> 'o) \<Rightarrow> io \<Rightarrow> 'o pipe_thread \<Rightarrow> 'o pipe_thread" where
  "pipe_turn read_side see io t =
     (let d = pt_dir t in
      case fst io of
        RdInterrupted \<Rightarrow> t
      | RdError \<Rightarrow>
          t\<lparr>pt_err := record_err (pt_err t) read_side, pt_dir := d\<lparr>dr_end := Some EndError\<rparr>\<rparr>
      | RdBytes bs \<Rightarrow>
          let chunk = take PIPE_BUF_SIZE bs in
          if chunk = [] then t\<lparr>pt_dir := d\<lparr>dr_end := Some EndEof\<rparr>\<rparr>
          else (case snd io of
              None \<Rightarrow>
                t\<lparr>pt_obs := see (pt_obs t) chunk,
                  pt_dir := d\<lparr>dr_read := dr_read d @ chunk, dr_written := dr_written d @ chunk,
                    dr_count := dr_count d + word_of_nat (length chunk)\<rparr>\<rparr>
            | Some k \<Rightarrow>
                t\<lparr>pt_obs := see (pt_obs t) chunk,
                  pt_err := record_err (pt_err t) (write_side read_side),
                  pt_dir := d\<lparr>dr_read := dr_read d @ chunk,
                    dr_written := dr_written d @ take k chunk, dr_end := Some EndError\<rparr>\<rparr>))"

section \<open>Both directions\<close>

record pipes =
  pp_c2s :: direction_state
  pp_s2c :: direction_state
  pp_obs :: observer
  pp_err :: "side option"

definition pipes_new :: pipes where
  "pipes_new = \<lparr>pp_c2s = direction_new, pp_s2c = direction_new, pp_obs = observer_new, pp_err = None\<rparr>"

text \<open>
  One step of the schedule: the thread that reads from the given side takes a turn, unless it
  has ended. Only the direction from the client feeds the observer.
\<close>

definition pipe_step :: "side \<times> io \<Rightarrow> pipes \<Rightarrow> pipes" where
  "pipe_step x p =
     (case x of
        (ClientSide, io) \<Rightarrow>
          if dr_end (pp_c2s p) = None then
            (let t = pipe_turn ClientSide observe io
                 \<lparr>pt_dir = pp_c2s p, pt_obs = pp_obs p, pt_err = pp_err p\<rparr>
             in p\<lparr>pp_c2s := pt_dir t, pp_obs := pt_obs t, pp_err := pt_err t\<rparr>)
          else p
      | (UpstreamSide, io) \<Rightarrow>
          if dr_end (pp_s2c p) = None then
            (let t = pipe_turn UpstreamSide (\<lambda>o' _. o') io
                 \<lparr>pt_dir = pp_s2c p, pt_obs = (), pt_err = pp_err p\<rparr>
             in p\<lparr>pp_s2c := pt_dir t, pp_err := pt_err t\<rparr>)
          else p)"

definition run_pipes :: "(side \<times> io) list \<Rightarrow> pipes \<Rightarrow> pipes" where
  "run_pipes sched p = foldl (\<lambda>p x. pipe_step x p) p sched"

definition both_ended :: "pipes \<Rightarrow> bool" where
  "both_ended p \<longleftrightarrow> dr_end (pp_c2s p) \<noteq> None \<and> dr_end (pp_s2c p) \<noteq> None"

section \<open>A connection\<close>

text \<open>The events of the log, and the functions that write them.\<close>

datatype door_event =
    EvAccept u64 string u16 string
  | EvWarn u64 nat
  | EvUpstream u64 bool u64 "string option"
  | EvVersion u64 "string option" bool
  | EvClose u64 string u64 u64 u64
  | EvRefused string u16 nat
  | EvSpawnFailed string

fun log_door_event :: "door_event \<Rightarrow> door_log \<Rightarrow> door_log" where
  "log_door_event (EvAccept c ip port fam) = conn_accept c ip port fam"
| "log_door_event (EvWarn c n) = warn_sent c n"
| "log_door_event (EvUpstream c ok ms err) = upstream_connect c ok ms err"
| "log_door_event (EvVersion c v t) = client_version c v t"
| "log_door_event (EvClose c reason a b ms) = conn_close c reason a b ms"
| "log_door_event (EvRefused ip port n) = conn_refused_over_limit ip port n"
| "log_door_event (EvSpawnFailed ip) = log_event ''error'' ''conn_spawn_failed'' [(''src_ip'', FStr ip)]"

text \<open>The bytes of a string as the log's characters.\<close>

definition text_of :: "bytes \<Rightarrow> string" where
  "text_of bs = map (\<lambda>b. char_of (unat b)) bs"

fun to_ipv4_mapped :: "ip_addr \<Rightarrow> ip_addr option" where
  "to_ipv4_mapped (V6 s) =
     (if list_all (\<lambda>x. x = 0) (take 5 s) \<and> s ! 5 = 0xffff then
        Some (V4 (ucast (drop_bit 8 (s ! 6))) (ucast (s ! 6)) (ucast (drop_bit 8 (s ! 7))) (ucast (s ! 7)))
      else None)"
| "to_ipv4_mapped (V4 _ _ _ _) = None"

definition LOCALHOST4 :: ip_addr where "LOCALHOST4 = V4 127 0 0 1"
definition LOCALHOST6 :: ip_addr where "LOCALHOST6 = V6 [0, 0, 0, 0, 0, 0, 0, 1]"

definition upstream_candidates :: "socket_addr \<Rightarrow> socket_addr list" where
  "upstream_candidates a =
     (case sa_ip a of
        V4 _ _ _ _ \<Rightarrow> if is_loopback (sa_ip a) then [a, \<lparr>sa_ip = LOCALHOST6, sa_port = sa_port a\<rparr>] else [a]
      | V6 _ \<Rightarrow> if is_loopback (sa_ip a) then
            [a, \<lparr>sa_ip = (case to_ipv4_mapped (sa_ip a) of
                  Some v4 \<Rightarrow> if is_loopback v4 then v4 else LOCALHOST4
                | None \<Rightarrow> LOCALHOST4), sa_port = sa_port a\<rparr>]
          else [a])"

text \<open>
  \<open>connect_upstream\<close>: the candidates in order; \<open>connect\<close> says for an address whether the
  connection came up, or with what error. The last error is reported.
\<close>

fun connect_candidates ::
  "(socket_addr \<Rightarrow> string option) \<Rightarrow> string \<Rightarrow> socket_addr list \<Rightarrow> string + socket_addr" where
  "connect_candidates connect last_err [] = Inl last_err"
| "connect_candidates connect last_err (a # as) =
     (case connect a of
        None \<Rightarrow> Inr a
      | Some e \<Rightarrow> connect_candidates connect e as)"

definition connect_upstream :: "(socket_addr \<Rightarrow> string option) \<Rightarrow> socket_addr \<Rightarrow> string + socket_addr" where
  "connect_upstream connect a = connect_candidates connect ''no candidate'' (upstream_candidates a)"

text \<open>How writing a whole line to the client ended: the error classes the code tells apart.\<close>

datatype write_error = WeReset | WeBrokenPipe | WeAborted | WeOther

text \<open>What the system answers to one connection: a pipe thread that cannot be started is a panic.\<close>

record conn_env =
  ce_peer_text :: string
  ce_peer :: socket_addr
  ce_policy_ok :: bool
  ce_warn :: "(write_error \<times> nat) option"
  ce_connect :: "socket_addr \<Rightarrow> string option"
  ce_failure :: "nat option"
  ce_clone_ok :: bool
  ce_spawn_ok :: bool
  ce_sched :: "(side \<times> io) list"
  ce_ms :: u64
  ce_up_ms :: u64

text \<open>What a connection did: its events, and the bytes each end received.\<close>

record conn_result =
  cr_events :: "door_event list"
  cr_to_client :: bytes
  cr_to_upstream :: bytes

definition close_reason :: "side option \<Rightarrow> string" where
  "close_reason e = (case e of
     Some ClientSide \<Rightarrow> ''client_reset''
   | Some UpstreamSide \<Rightarrow> ''upstream_reset''
   | None \<Rightarrow> ''normal'')"

definition pipe_connection :: "conn_env \<Rightarrow> u64 \<Rightarrow> conn_result option" where
  "pipe_connection env cid =
     (if \<not> ce_clone_ok env then
        Some \<lparr>cr_events = [EvClose cid ''client_reset'' 0 0 (ce_ms env)],
          cr_to_client = [], cr_to_upstream = []\<rparr>
      else if \<not> ce_spawn_ok env then None
      else
        let p = run_pipes (ce_sched env) pipes_new in
        if \<not> both_ended p then None
        else case fst (take_result (pp_obs p)) of (version, truncated) \<Rightarrow>
          Some \<lparr>cr_events =
              [EvVersion cid (map_option text_of version) truncated,
               EvClose cid (close_reason (pp_err p)) (dr_count (pp_c2s p)) (dr_count (pp_s2c p)) (ce_ms env)],
            cr_to_client = dr_written (pp_s2c p), cr_to_upstream = dr_written (pp_c2s p)\<rparr>)"

text \<open>Events and bytes that come before the rest of a connection.\<close>

definition before :: "door_event list \<Rightarrow> bytes \<Rightarrow> conn_result \<Rightarrow> conn_result" where
  "before es bs r = r\<lparr>cr_events := es @ cr_events r, cr_to_client := bs @ cr_to_client r\<rparr>"

definition closing :: "u64 \<Rightarrow> string \<Rightarrow> u64 \<Rightarrow> conn_result" where
  "closing cid reason ms =
     \<lparr>cr_events = [EvClose cid reason 0 0 ms], cr_to_client = [], cr_to_upstream = []\<rparr>"

definition after_warning :: "config \<Rightarrow> conn_env \<Rightarrow> u64 \<Rightarrow> conn_result option" where
  "after_warning cfg env cid =
     (case connect_upstream (ce_connect env) (cf_upstream cfg) of
        Inr _ \<Rightarrow> map_option (before [EvUpstream cid True (ce_up_ms env) None] []) (pipe_connection env cid)
      | Inl e \<Rightarrow>
          (case (if cf_failure_line cfg = On then failure_line else Some []) of
             None \<Rightarrow> None
           | Some line \<Rightarrow> Some (before [EvUpstream cid False (ce_up_ms env) (Some e)]
               (case ce_failure env of None \<Rightarrow> line | Some k \<Rightarrow> take k line)
               (closing cid ''upstream_unavailable'' (ce_ms env)))))"

definition handle_conn :: "config \<Rightarrow> conn_env \<Rightarrow> u64 \<Rightarrow> conn_result option" where
  "handle_conn cfg env cid =
     map_option (before [EvAccept cid (ce_peer_text env) (sa_port (ce_peer env)) (family_of (sa_ip (ce_peer env)))] [])
      (if \<not> ce_policy_ok env then Some (closing cid ''client_reset'' (ce_ms env))
       else if cf_warn_mode cfg = On then
         (case ce_warn env of
            None \<Rightarrow> map_option (before [EvWarn cid (length (cf_warn_line cfg))] (cf_warn_line cfg))
                (after_warning cfg env cid)
          | Some (e, k) \<Rightarrow> Some (before [] (take k (cf_warn_line cfg))
              (closing cid
                (if e = WeReset \<or> e = WeBrokenPipe \<or> e = WeAborted then ''client_reset''
                 else ''warn_write_timeout'') (ce_ms env))))
       else after_warning cfg env cid)"

section \<open>The pipe is transparent\<close>

definition direction_ok :: "direction_state \<Rightarrow> bool" where
  "direction_ok d \<longleftrightarrow>
     (\<exists>rest. dr_read d = dr_written d @ rest) \<and>
     (dr_end d \<noteq> Some EndError \<longrightarrow>
        dr_written d = dr_read d \<and> dr_count d = word_of_nat (length (dr_read d)))"

definition failed :: "direction_state \<Rightarrow> bool" where
  "failed d \<longleftrightarrow> dr_end d = Some EndError"

definition pipes_ok :: "pipes \<Rightarrow> bool" where
  "pipes_ok p \<longleftrightarrow> direction_ok (pp_c2s p) \<and> direction_ok (pp_s2c p) \<and>
     (\<exists>cs. pp_obs p = foldl observe observer_new cs \<and> concat cs = dr_read (pp_c2s p)) \<and>
     (pp_err p = None \<longleftrightarrow> \<not> failed (pp_c2s p) \<and> \<not> failed (pp_s2c p))"

lemma pipe_turn_ok:
  assumes "direction_ok (pt_dir t)" and "dr_end (pt_dir t) = None"
  shows "direction_ok (pt_dir (pipe_turn s see io t))"
  using assms
  by (auto simp: pipe_turn_def direction_ok_def Let_def simp del: take_take
      split: read_result.split option.split) (metis append_take_drop_id)

lemma pipe_turn_err:
  assumes "dr_end (pt_dir t) = None"
  shows "pt_err (pipe_turn s see io t) = None \<longleftrightarrow>
    pt_err t = None \<and> \<not> failed (pt_dir (pipe_turn s see io t))"
  using assms
  by (auto simp: pipe_turn_def failed_def record_err_def Let_def split: read_result.split option.split)

lemma pipe_turn_obs:
  assumes "pt_obs t = foldl observe observer_new cs" and "concat cs = dr_read (pt_dir t)"
  shows "\<exists>cs. pt_obs (pipe_turn s observe io t) = foldl observe observer_new cs \<and>
    concat cs = dr_read (pt_dir (pipe_turn s observe io t))"
proof (cases "\<exists>bs. fst io = RdBytes bs \<and> take PIPE_BUF_SIZE bs \<noteq> []")
  case True
  then obtain bs where bs: "fst io = RdBytes bs" "take PIPE_BUF_SIZE bs \<noteq> []" by blast
  then have "pt_obs (pipe_turn s observe io t) = observe (pt_obs t) (take PIPE_BUF_SIZE bs)"
    "dr_read (pt_dir (pipe_turn s observe io t)) = dr_read (pt_dir t) @ take PIPE_BUF_SIZE bs"
    by (auto simp: pipe_turn_def Let_def split: option.split)
  then show ?thesis using assms by (intro exI [of _ "cs @ [take PIPE_BUF_SIZE bs]"]) simp
next
  case False
  then have "pt_obs (pipe_turn s observe io t) = pt_obs t"
    "dr_read (pt_dir (pipe_turn s observe io t)) = dr_read (pt_dir t)"
    by (auto simp: pipe_turn_def Let_def split: read_result.split)
  then show ?thesis using assms by auto
qed

lemma pipe_step_ok: "pipes_ok p \<Longrightarrow> pipes_ok (pipe_step x p)"
proof -
  assume p: "pipes_ok p"
  obtain s io where x: "x = (s, io)" by (cases x)
  show ?thesis
  proof (cases s)
    case ClientSide
    let ?t = "\<lparr>pt_dir = pp_c2s p, pt_obs = pp_obs p, pt_err = pp_err p\<rparr>"
    show ?thesis
    proof (cases "dr_end (pp_c2s p) = None")
      case True
      moreover obtain cs where "pp_obs p = foldl observe observer_new cs" "concat cs = dr_read (pp_c2s p)"
        using p by (auto simp: pipes_ok_def)
      ultimately show ?thesis
        using p pipe_turn_ok [of ?t ClientSide observe io] pipe_turn_err [of ?t ClientSide observe io]
          pipe_turn_obs [of ?t cs ClientSide io]
        by (auto simp: pipes_ok_def pipe_step_def x ClientSide Let_def failed_def)
    qed (use p in \<open>auto simp: pipe_step_def x ClientSide\<close>)
  next
    case UpstreamSide
    let ?t = "\<lparr>pt_dir = pp_s2c p, pt_obs = (), pt_err = pp_err p\<rparr>"
    show ?thesis
    proof (cases "dr_end (pp_s2c p) = None")
      case True
      then show ?thesis
        using p pipe_turn_ok [of ?t UpstreamSide "\<lambda>o' _. o'" io]
          pipe_turn_err [of ?t UpstreamSide "\<lambda>o' _. o'" io]
        by (auto simp: pipes_ok_def pipe_step_def x UpstreamSide Let_def failed_def)
    qed (use p in \<open>auto simp: pipe_step_def x UpstreamSide\<close>)
  qed
qed

lemma run_pipes_ok: "pipes_ok p \<Longrightarrow> pipes_ok (run_pipes sched p)"
  by (induction sched arbitrary: p) (simp_all add: run_pipes_def pipe_step_ok)

lemma pipes_new_ok: "pipes_ok pipes_new"
  by (auto simp: pipes_ok_def pipes_new_def direction_ok_def direction_new_def failed_def
      intro: exI [of _ "[]"])

lemma pipes_settled: "pipes_ok (run_pipes sched pipes_new)"
  by (intro run_pipes_ok pipes_new_ok)

lemma pipe_version:
  assumes "pipes_ok p"
  shows "fst (take_result (pp_obs p)) = observed (dr_read (pp_c2s p))"
proof -
  obtain cs where "pp_obs p = foldl observe observer_new cs" "concat cs = dr_read (pp_c2s p)"
    using assms by (auto simp: pipes_ok_def)
  then show ?thesis by (simp add: observer_result)
qed

lemma pipe_result:
  assumes "pipe_connection env cid = Some r" and "ce_clone_ok env"
  defines "p \<equiv> run_pipes (ce_sched env) pipes_new"
  shows "both_ended p \<and> r = \<lparr>cr_events =
      [EvVersion cid (map_option text_of (fst (observed (dr_read (pp_c2s p))))) (snd (observed (dr_read (pp_c2s p)))),
       EvClose cid (close_reason (pp_err p)) (dr_count (pp_c2s p)) (dr_count (pp_s2c p)) (ce_ms env)],
    cr_to_client = dr_written (pp_s2c p), cr_to_upstream = dr_written (pp_c2s p)\<rparr>"
proof -
  have "fst (take_result (pp_obs p)) = observed (dr_read (pp_c2s p))"
    unfolding p_def by (rule pipe_version [OF pipes_settled])
  then show ?thesis
    using assms(1,2) by (auto simp: pipe_connection_def Let_def p_def [symmetric] split: if_splits prod.splits)
qed

lemma pipe_total:
  "ce_clone_ok env \<Longrightarrow> ce_spawn_ok env \<Longrightarrow> both_ended (run_pipes (ce_sched env) pipes_new) \<Longrightarrow> \<exists>r. pipe_connection env cid = Some r"
  by (simp add: pipe_connection_def Let_def split: prod.split)

lemma close_normal: "close_reason e = ''normal'' \<longleftrightarrow> e = None"
  by (auto simp: close_reason_def split: option.splits side.splits)

lemma normal_is_complete:
  assumes "pipes_ok p" and "close_reason (pp_err p) = ''normal''"
  shows "dr_written (pp_c2s p) = dr_read (pp_c2s p) \<and> dr_written (pp_s2c p) = dr_read (pp_s2c p) \<and>
    dr_count (pp_c2s p) = word_of_nat (length (dr_read (pp_c2s p))) \<and>
    dr_count (pp_s2c p) = word_of_nat (length (dr_read (pp_s2c p)))"
  using assms by (simp add: close_normal pipes_ok_def direction_ok_def failed_def)

text \<open>C38. The doorkeeper adds its warning and changes nothing else. When a connection was
  established, the client received the warning line, if it is on, followed by a prefix of what
  was read from the upstream, and the upstream a prefix of what was read from the client, for
  every interleaving of the two threads and every error. A connection logged as closed normally
  lost nothing in either direction and the logged counts are the lengths. The version logged is
  the one that stands in the client's bytes.\<close>

theorem connection_is_transparent:
  assumes "handle_conn cfg env cid = Some r" and "ce_policy_ok env" and "ce_clone_ok env"
    and "cf_warn_mode cfg = On \<longrightarrow> ce_warn env = None"
    and "connect_upstream (ce_connect env) (cf_upstream cfg) = Inr a"
    and "p = run_pipes (ce_sched env) pipes_new"
  shows "cr_to_client r = (if cf_warn_mode cfg = On then cf_warn_line cfg else []) @ dr_written (pp_s2c p)
    \<and> cr_to_upstream r = dr_written (pp_c2s p)
    \<and> take (length (dr_written (pp_s2c p))) (dr_read (pp_s2c p)) = dr_written (pp_s2c p)
    \<and> take (length (dr_written (pp_c2s p))) (dr_read (pp_c2s p)) = dr_written (pp_c2s p)
    \<and> (\<exists>reason c2s s2c. last (cr_events r) = EvClose cid reason c2s s2c (ce_ms env) \<and>
        (reason = ''normal'' \<longrightarrow>
           cr_to_upstream r = dr_read (pp_c2s p) \<and> dr_written (pp_s2c p) = dr_read (pp_s2c p) \<and>
           c2s = word_of_nat (length (dr_read (pp_c2s p))) \<and>
           s2c = word_of_nat (length (dr_read (pp_s2c p)))))
    \<and> EvVersion cid (map_option text_of (fst (observed (dr_read (pp_c2s p)))))
        (snd (observed (dr_read (pp_c2s p)))) \<in> set (cr_events r)"
proof -
  obtain r0 where r0: "pipe_connection env cid = Some r0"
    using assms(1-5) by (auto simp: handle_conn_def after_warning_def split: if_splits)
  let ?warn = "if cf_warn_mode cfg = On then cf_warn_line cfg else []"
  have "\<exists>es. cr_events r = es @ cr_events r0" "cr_to_client r = ?warn @ cr_to_client r0"
    "cr_to_upstream r = cr_to_upstream r0"
    using assms(1-5) r0 by (auto simp: handle_conn_def after_warning_def before_def split: if_splits)
  moreover note pipe_result [OF r0 assms(3), folded assms(6)]
  moreover have ok: "pipes_ok p" unfolding assms(6) by (rule pipes_settled)
  moreover have "take (length (dr_written d)) (dr_read d) = dr_written d" if "direction_ok d" for d
    using that by (auto simp: direction_ok_def)
  ultimately show ?thesis using normal_is_complete [OF ok] by (auto simp: pipes_ok_def)
qed

text \<open>Every connection is logged as accepted, then closed exactly once, at the end.\<close>

fun is_accept :: "door_event \<Rightarrow> bool" where
  "is_accept (EvAccept _ _ _ _) = True"
| "is_accept _ = False"

fun is_close :: "door_event \<Rightarrow> bool" where
  "is_close (EvClose _ _ _ _ _) = True"
| "is_close _ = False"

lemma connection_log:
  assumes "handle_conn cfg env cid = Some r"
  shows "\<exists>es reason c2s s2c. cr_events r =
      EvAccept cid (ce_peer_text env) (sa_port (ce_peer env)) (family_of (sa_ip (ce_peer env)))
        # es @ [EvClose cid reason c2s s2c (ce_ms env)]
    \<and> \<not> list_ex is_accept es \<and> \<not> list_ex is_close es"
  using assms
  by (auto simp: handle_conn_def after_warning_def before_def closing_def pipe_connection_def Let_def
      split: if_splits option.splits sum.splits prod.splits)

text \<open>The turns of the two threads, as rules.\<close>

lemma client_turns:
  assumes "dr_end (pp_c2s p) = None"
  shows "bs \<noteq> [] \<Longrightarrow> length bs \<le> PIPE_BUF_SIZE \<Longrightarrow> pipe_step (ClientSide, RdBytes bs, None) p
      = p\<lparr>pp_c2s := (pp_c2s p)\<lparr>dr_read := dr_read (pp_c2s p) @ bs, dr_written := dr_written (pp_c2s p) @ bs,
            dr_count := dr_count (pp_c2s p) + word_of_nat (length bs)\<rparr>,
          pp_obs := observe (pp_obs p) bs\<rparr>"
    and "pipe_step (ClientSide, RdBytes [], w) p = p\<lparr>pp_c2s := (pp_c2s p)\<lparr>dr_end := Some EndEof\<rparr>\<rparr>"
  using assms by (simp_all add: pipe_step_def pipe_turn_def Let_def)

lemma upstream_turns:
  assumes "dr_end (pp_s2c p) = None"
  shows "bs \<noteq> [] \<Longrightarrow> length bs \<le> PIPE_BUF_SIZE \<Longrightarrow> pipe_step (UpstreamSide, RdBytes bs, None) p
      = p\<lparr>pp_s2c := (pp_s2c p)\<lparr>dr_read := dr_read (pp_s2c p) @ bs, dr_written := dr_written (pp_s2c p) @ bs,
            dr_count := dr_count (pp_s2c p) + word_of_nat (length bs)\<rparr>\<rparr>"
    and "bs \<noteq> [] \<Longrightarrow> length bs \<le> PIPE_BUF_SIZE \<Longrightarrow> pipe_step (UpstreamSide, RdBytes bs, Some k) p
      = p\<lparr>pp_s2c := (pp_s2c p)\<lparr>dr_read := dr_read (pp_s2c p) @ bs,
            dr_written := dr_written (pp_s2c p) @ take k bs, dr_end := Some EndError\<rparr>,
          pp_err := record_err (pp_err p) ClientSide\<rparr>"
    and "pipe_step (UpstreamSide, RdInterrupted, w) p = p"
  using assms by (simp_all add: pipe_step_def pipe_turn_def Let_def)

definition demo_config :: config where
  "demo_config = \<lparr>cf_listen = \<lparr>sa_ip = LOCALHOST6, sa_port = 22\<rparr>,
     cf_upstream = \<lparr>sa_ip = LOCALHOST4, sa_port = 2222\<rparr>, cf_warn_mode = On,
     cf_warn_line = [72, 105, 13, 10], cf_failure_line = On, cf_max_conns = 2,
     cf_log_path = ''/var/log/jbuu/doorkeeper.log'', cf_verbose = False\<rparr>"

definition demo_env :: conn_env where
  "demo_env = \<lparr>ce_peer_text = ''::1'', ce_peer = \<lparr>sa_ip = LOCALHOST6, sa_port = 4000\<rparr>,
     ce_policy_ok = True, ce_warn = None,
     ce_connect = (\<lambda>a. if sa_ip a = LOCALHOST4 then Some ''refused'' else None),
     ce_failure = None, ce_clone_ok = True, ce_spawn_ok = True,
     ce_sched = [(ClientSide, RdBytes [1, 2], None), (UpstreamSide, RdInterrupted, None),
       (UpstreamSide, RdBytes [7, 8, 9], None), (ClientSide, RdBytes [3], None),
       (ClientSide, RdBytes [], None), (UpstreamSide, RdBytes [5], Some 0)],
     ce_ms = 12, ce_up_ms = 1\<rparr>"

theorem connection_is_transparent_witness:
  "\<exists>r. handle_conn demo_config demo_env 7 = Some r \<and>
     cr_to_client r = [72, 105, 13, 10, 7, 8, 9] \<and> cr_to_upstream r = [1, 2, 3]"
proof -
  let ?p = "run_pipes (ce_sched demo_env) pipes_new"
  have c: "connect_upstream (ce_connect demo_env) (cf_upstream demo_config)
      = Inr \<lparr>sa_ip = LOCALHOST6, sa_port = 2222\<rparr>"
    by (simp add: demo_config_def demo_env_def connect_upstream_def upstream_candidates_def
        LOCALHOST4_def LOCALHOST6_def)
  have p: "both_ended ?p" "dr_written (pp_s2c ?p) = [7, 8, 9]" "dr_written (pp_c2s ?p) = [1, 2, 3]"
    by (simp_all add: demo_env_def run_pipes_def pipes_new_def direction_new_def client_turns
        upstream_turns PIPE_BUF_SIZE_def both_ended_def)
  then obtain r0 where "pipe_connection demo_env 7 = Some r0"
    using pipe_total [of demo_env 7] by (auto simp: demo_env_def)
  then have "\<exists>r. after_warning demo_config demo_env 7 = Some r" using c by (simp add: after_warning_def)
  moreover have "cf_warn_mode demo_config = On" "ce_policy_ok demo_env" "ce_warn demo_env = None"
    by (simp_all add: demo_config_def demo_env_def)
  ultimately obtain r where r: "handle_conn demo_config demo_env 7 = Some r"
    by (auto simp: handle_conn_def)
  have e: "ce_policy_ok demo_env" "ce_clone_ok demo_env"
    "cf_warn_mode demo_config = On \<longrightarrow> ce_warn demo_env = None"
    by (simp_all add: demo_env_def)
  show ?thesis
    using connection_is_transparent [OF r e c refl] p r by (simp add: demo_config_def)
qed

section \<open>The accept loop\<close>

text \<open>
  Where the accept loop stands: waiting in \<open>accept\<close>; inside \<open>try_inc\<close> with the counter value it
  loaded; holding a slot and about to start the thread; or finished.
\<close>

datatype accept_pc = AcWait | AcTry nat conn_env | AcSpawn conn_env | AcDone

text \<open>
  The shared state: the counter, the next connection number, the threads that were started and
  have not taken their number, and the connections being handled. \<open>do_issued\<close> is a history of
  the numbers given out.
\<close>

record door =
  do_pc :: accept_pc
  do_conns :: nat
  do_next :: u64
  do_started :: nat
  do_live :: "u64 list"
  do_issued :: "u64 list"

definition door_new :: door where
  "door_new = \<lparr>do_pc = AcWait, do_conns = 0, do_next = 1, do_started = 0, do_live = [], do_issued = []\<rparr>"

text \<open>\<open>fetch_add\<close> on the connection number wraps.\<close>

definition take_id :: "door \<Rightarrow> u64 \<times> door" where
  "take_id d = (do_next d, d\<lparr>do_next := do_next d + 1, do_issued := do_issued d @ [do_next d]\<rparr>)"

text \<open>
  The second half of a turn of \<open>try_inc\<close>: with the loaded value \<open>cur\<close> below the limit, the weak
  exchange succeeds when the counter still has that value, unless it fails for no reason.
\<close>

definition exchange_weak :: "bool \<Rightarrow> nat \<Rightarrow> nat \<Rightarrow> nat + nat" where
  "exchange_weak spurious cur actual =
     (if actual = cur \<and> \<not> spurious then Inr (cur + 1) else Inl actual)"

text \<open>
  One atomic step of the accept loop or of a connection thread. \<open>drop_guard\<close> is the end of a
  connection, in whatever way its thread ended.
\<close>

inductive door_step :: "config \<Rightarrow> door \<Rightarrow> door \<Rightarrow> bool" for cfg where
  interrupted: "do_pc d = AcWait \<Longrightarrow> door_step cfg d d"
| stop: "do_pc d = AcWait \<Longrightarrow> door_step cfg d (d\<lparr>do_pc := AcDone\<rparr>)"
| accept: "do_pc d = AcWait \<Longrightarrow> door_step cfg d (d\<lparr>do_pc := AcTry (do_conns d) env\<rparr>)"
| refuse: "do_pc d = AcTry cur env \<Longrightarrow> cf_max_conns cfg \<le> cur \<Longrightarrow>
    door_step cfg d ((snd (take_id d))\<lparr>do_pc := AcWait\<rparr>)"
| exchanged: "do_pc d = AcTry cur env \<Longrightarrow> cur < cf_max_conns cfg \<Longrightarrow>
    exchange_weak spurious cur (do_conns d) = Inr n \<Longrightarrow>
    door_step cfg d (d\<lparr>do_conns := n, do_pc := AcSpawn env\<rparr>)"
| retry: "do_pc d = AcTry cur env \<Longrightarrow> cur < cf_max_conns cfg \<Longrightarrow>
    exchange_weak spurious cur (do_conns d) = Inl actual \<Longrightarrow>
    door_step cfg d (d\<lparr>do_pc := AcTry actual env\<rparr>)"
| spawned: "do_pc d = AcSpawn env \<Longrightarrow>
    door_step cfg d (d\<lparr>do_started := do_started d + 1, do_pc := AcWait\<rparr>)"
| spawn_failed: "do_pc d = AcSpawn env \<Longrightarrow>
    door_step cfg d (d\<lparr>do_conns := do_conns d - 1, do_pc := AcWait\<rparr>)"
| number: "0 < do_started d \<Longrightarrow>
    door_step cfg d ((snd (take_id d))\<lparr>do_started := do_started d - 1,
      do_live := do_live d @ [fst (take_id d)]\<rparr>)"
| drop_guard: "c \<in> set (do_live d) \<Longrightarrow>
    door_step cfg d (d\<lparr>do_live := remove1 c (do_live d), do_conns := do_conns d - 1\<rparr>)"

inductive door_reach :: "config \<Rightarrow> door \<Rightarrow> bool" for cfg where
  init: "door_reach cfg door_new"
| step: "door_reach cfg d \<Longrightarrow> door_step cfg d d' \<Longrightarrow> door_reach cfg d'"

definition holders :: "door \<Rightarrow> nat" where
  "holders d = (case do_pc d of AcSpawn _ \<Rightarrow> 1 | _ \<Rightarrow> 0) + do_started d + length (do_live d)"

definition door_ok :: "config \<Rightarrow> door \<Rightarrow> bool" where
  "door_ok cfg d \<longleftrightarrow> do_conns d = holders d \<and> do_conns d \<le> cf_max_conns cfg \<and>
     do_issued d = map (\<lambda>i. word_of_nat (i + 1)) [0..<length (do_issued d)] \<and>
     do_next d = word_of_nat (length (do_issued d) + 1) \<and> mset (do_live d) \<subseteq># mset (do_issued d)"

lemma sub_add_mset: "M \<subseteq># N \<Longrightarrow> M \<subseteq># add_mset x N"
  by (metis add_mset_add_single mset_subset_eq_add_left subset_mset.order_trans)

lemma distinct_sub_mset:
  assumes "mset xs \<subseteq># mset ys" and "distinct ys"
  shows "distinct xs"
proof -
  obtain zs where "mset ys = mset (xs @ zs)"
    using assms(1) by (metis ex_mset mset_append subset_mset.less_eqE)
  then have "distinct (xs @ zs)" using assms(2) mset_eq_imp_distinct_iff by blast
  then show ?thesis by simp
qed

lemma door_step_ok: "door_step cfg d d' \<Longrightarrow> door_ok cfg d \<Longrightarrow> door_ok cfg d'"
proof (induction rule: door_step.induct)
  case (number d)
  then show ?case
    by (auto simp: door_ok_def holders_def take_id_def split: accept_pc.splits)
next
  case (drop_guard c d)
  then obtain n where "length (do_live d) = Suc n"
    using length_pos_if_in_set gr0_conv_Suc by metis
  then show ?case using drop_guard
    by (auto simp: door_ok_def holders_def length_remove1 split: accept_pc.splits
        intro: subset_mset.order_trans [OF diff_subset_eq_self])
qed (auto simp: door_ok_def holders_def take_id_def exchange_weak_def sub_add_mset split: if_splits)

lemma door_reach_ok: "door_reach cfg d \<Longrightarrow> door_ok cfg d"
proof (induction rule: door_reach.induct)
  case init
  show ?case by (simp add: door_ok_def holders_def door_new_def)
qed (rule door_step_ok)

lemma issued_distinct:
  assumes "length (do_issued d) < 2 ^ 64 - 1" and "door_ok cfg d"
  shows "distinct (do_issued d)"
proof -
  have "inj_on (\<lambda>i. word_of_nat (i + 1) :: u64) {0..<length (do_issued d)}"
  proof (rule inj_onI)
    fix i j
    assume "i \<in> {0..<length (do_issued d)}" "j \<in> {0..<length (do_issued d)}"
      and e: "(word_of_nat (i + 1) :: u64) = word_of_nat (j + 1)"
    then have "i + 1 < 2 ^ LENGTH(64)" "j + 1 < 2 ^ LENGTH(64)" using assms(1) by simp_all
    then have "i + 1 = j + 1" using arg_cong [OF e, of unat] 
      by (simp only: unat_of_nat mod_less)
    then show "i = j" by simp
  qed
  then have "distinct (map (\<lambda>i. word_of_nat (i + 1) :: u64) [0..<length (do_issued d)])"
    by (simp add: distinct_map)
  then show ?thesis using assms(2) by (simp add: door_ok_def)
qed

text \<open>C39. The connection limit holds under every interleaving. In every state the doorkeeper can
  reach, with the accept loop, the starting threads and the ending connections taking their
  atomic steps in any order, the counter is exactly the number of slots held and never above the
  limit, whatever spurious failures the exchange has; and, below 2 to the 64 numbers, no two
  connections carry the same one.\<close>

theorem connection_limit_holds:
  assumes "door_reach cfg d"
  shows "do_conns d = holders d \<and> length (do_live d) + do_started d \<le> do_conns d \<and>
    do_conns d \<le> cf_max_conns cfg \<and>
    (length (do_issued d) < 2 ^ 64 - 1 \<longrightarrow> distinct (do_live d))"
proof -
  note ok = door_reach_ok [OF assms]
  then have sub: "mset (do_live d) \<subseteq># mset (do_issued d)" by (simp add: door_ok_def)
  have "distinct (do_live d)" if "length (do_issued d) < 2 ^ 64 - 1"
    using distinct_sub_mset [OF sub issued_distinct [OF that ok]] .
  then show ?thesis using ok by (auto simp: door_ok_def holders_def)
qed

theorem connection_limit_holds_witness:
  "\<exists>d. door_reach demo_config d \<and> do_live d = [1] \<and> do_conns d = 1 \<and>
     length (do_live d) + do_started d \<le> do_conns d \<and> do_conns d \<le> 2"
proof -
  let ?d1 = "door_new\<lparr>do_pc := AcTry 0 demo_env\<rparr>"
  let ?d2 = "?d1\<lparr>do_conns := 1, do_pc := AcSpawn demo_env\<rparr>"
  let ?d3 = "?d2\<lparr>do_started := 1, do_pc := AcWait\<rparr>"
  let ?d4 = "(snd (take_id ?d3))\<lparr>do_started := 0, do_live := [1]\<rparr>"
  have "door_reach demo_config ?d1"
    using door_reach.step [OF door_reach.init door_step.accept [of door_new demo_config demo_env]]
    by (simp add: door_new_def)
  then have "door_reach demo_config ?d2"
    using door_step.exchanged [of ?d1 0 demo_env demo_config False 1]
    by - (rule door_reach.step, assumption, auto simp: exchange_weak_def demo_config_def door_new_def)
  then have "door_reach demo_config ?d3"
    using door_step.spawned [of ?d2 demo_env demo_config]
    by - (rule door_reach.step, assumption, auto simp: door_new_def)
  then have r: "door_reach demo_config ?d4"
    using door_step.number [of ?d3 demo_config]
    by - (rule door_reach.step, assumption, auto simp: door_new_def take_id_def)
  show ?thesis
    using r connection_limit_holds [OF r]
    by (intro exI [of _ ?d4]) (simp add: door_new_def take_id_def demo_config_def)
qed

end
