(* ===== verification/Floor.thy ===== *)
theory Floor
  imports Proto
begin

text \<open>
  The floor under an issuer: the segment below which nothing that survives on its medium continues. Every issue
  raises it to the pointer, a refusal keeps it, and so do the drivers of the handshake, whatever
  arrives on the stream. The contract is stated for any issuer and holds for the production allocator over
  its anchor files.
\<close>

locale floored_issuer = segment_issuer issue book ptr
  for issue :: "'i \<Rightarrow> ((issue_error + bytes) \<times> 'i) option" and book :: "'i \<Rightarrow> nat \<Rightarrow> bytes" and ptr :: "'i \<Rightarrow> nat" +
  fixes floored_at :: "nat \<Rightarrow> 'i \<Rightarrow> bool"
  assumes issued_floor: "issue s = Some (Inr b, s') \<Longrightarrow> floored_at k s \<Longrightarrow> floored_at (ptr s') s'"
    and refused_floor: "issue s = Some (Inl e, s') \<Longrightarrow> floored_at k s \<Longrightarrow> floored_at k s'"
    and floor_below: "floored_at k s \<Longrightarrow> j \<le> k \<Longrightarrow> floored_at j s"
    and floor_ptr: "floored_at k s \<Longrightarrow> k \<le> ptr s"

context floored_issuer
begin

lemma issue_floor:
  assumes "issue s = Some (x, s')" "floored_at k s"
  shows "floored_at k s' \<and> (is_err x \<or> floored_at (ptr s') s')"
proof (cases x)
  case (Inl e)
  then show ?thesis using assms refused_floor by (auto simp: is_err_def)
next
  case (Inr b)
  have "k \<le> ptr s'" using floor_ptr [OF assms(2)] issue_mono [OF assms(1)] by simp
  then show ?thesis using issued_floor [OF assms(1) [unfolded Inr] assms(2)] floor_below by blast
qed

lemma skip_floor: "skip_segments issue n s = Some (x, s') \<Longrightarrow> floored_at k s \<Longrightarrow> floored_at k s'"
proof (induction n arbitrary: s)
  case (Suc n)
  obtain y s1 where y: "issue s = Some (y, s1)" using issue_total [of s] by force
  then have "floored_at k s1" using issue_floor [OF y Suc.prems(2)] by blast
  then show ?case using Suc y by (cases y) auto
qed simp

lemma issue_and_confirm_floor:
  assumes run: "issue_and_confirm ae issue c is = Some ((st, c'), is')" and fl: "floored_at k is"
  shows "floored_at k is' \<and> (\<forall>ms. st = StSend ms \<longrightarrow> floored_at (ptr is') is') \<and> \<not> (\<exists>os se i. st = StEstablished os se i)"
proof (cases "ch_agreed c")
  case None
  then show ?thesis using run fl by (auto simp: issue_and_confirm_def client_fails)
next
  case (Some i)
  let ?n = "unat i - unat (cc_local_pointer (ch_cfg c))"
  obtain x is1 where x: "skip_segments issue ?n is = Some (x, is1)" using skip_total [of ?n "is"] by force
  note f1 = skip_floor [OF x fl]
  obtain y is2 where y: "issue is1 = Some (y, is2)" using issue_total [of is1] by force
  note f2 = issue_floor [OF y f1]
  show ?thesis
    using run Some x y f1 f2
    by (cases x; cases y)
       (auto simp: issue_and_confirm_def client_fails Let_def is_err_def split: option.splits sum.splits prod.splits)
qed

lemma on_confirm_s2c_sends: "on_confirm_s2c ae m c = Some (StSend ms, c') \<Longrightarrow> False"
  by (cases m) (auto simp: on_confirm_s2c_def client_fails Let_def split: option.splits sum.splits)

lemma client_handle_shape:
  assumes run: "client_handle ae issue m c is = Some ((st, c'), is')"
  shows "(\<exists>c1. issue_and_confirm ae issue c1 is = Some ((st, c'), is')) \<or> is' = is \<and> (\<forall>ms. st \<noteq> StSend ms)"
proof (cases "ch_phase c")
  case CHelloSent
  show ?thesis
  proof (cases m)
    case (Arbitrate sn sp r)
    then show ?thesis
      using run CHelloSent
      by (cases r) (auto simp: client_handle_def on_arbitrate_def client_fails Let_def split: if_splits)
  qed (use run CHelloSent in \<open>auto simp: client_handle_def client_fails\<close>)
next
  case CConfirmSent
  then show ?thesis
    using run by (cases m) (auto simp: client_handle_def client_fails dest: on_confirm_s2c_sends)
qed (use run in \<open>auto simp: client_handle_def client_fails\<close>)

lemma client_handle_floor:
  assumes run: "client_handle ae issue m c is = Some ((st, c'), is')" and fl: "floored_at k is"
  shows "floored_at k is' \<and> (\<forall>ms. st = StSend ms \<longrightarrow> floored_at (ptr is') is') \<and>
    (\<forall>os se i. st = StEstablished os se i \<longrightarrow> is' = is)"
  using client_handle_shape [OF run] issue_and_confirm_floor [of ae _ "is" st c' is', OF _ fl] fl by blast

lemma server_issue_floor:
  assumes run: "server_issue fs ae issue state h s is = Some (q, s', is')" and fl: "floored_at k is"
  shows "floored_at k is' \<and> (is_err q \<or> floored_at (ptr is') is')"
  using server_issue_law' [OF run] issue_floor [OF _ fl] fl by (auto simp: is_err_def)

lemma server_handshake_floor:
  assumes run: "server_handshake fs ae issue state rnd ep t s is = Some (q, s', is')" and fl: "floored_at k is"
  shows "floored_at k is' \<and> (is_err q \<or> floored_at (ptr is') is')"
proof -
  have "(is_err q \<and> is' = is) \<or> (\<exists>h t. server_issue fs ae issue state h t is = Some (q, s', is'))"
    using run unfolding server_handshake_def
    by (auto simp: is_err_def elim!: io_try_cases split: prod.splits sum.splits option.splits) blast
  then show ?thesis using server_issue_floor [OF _ fl] fl by metis
qed

lemma client_confirm_floor:
  assumes run: "client_confirm fs ae issue state c s is = Some (q, s', is')" and fl: "floored_at k is"
  shows "floored_at k is' \<and> (is_err q \<or> is' = is)"
  using run unfolding client_confirm_def
proof (cases rule: io_try_cases)
  case (went_on m s1)
  then show ?thesis using client_handle_floor [OF _ fl, of ae m c]
    by (fastforce simp: is_err_def split: option.splits prod.splits step.splits)
qed (use fl in \<open>simp add: is_err_def\<close>)

lemma client_handshake_floor:
  assumes run: "client_handshake fs ae issue state rnd ep t s is = Some (q, s', is')" and fl: "floored_at k is"
  shows "floored_at k is' \<and> (is_err q \<or> floored_at (ptr is') is')"
proof -
  have "(is_err q \<and> is' = is) \<or> (\<exists>m c st c2 is1. client_handle ae issue m c is = Some ((st, c2), is1) \<and>
      (is_err q \<and> is' = is1 \<or> (\<exists>ms u. st = StSend ms \<and> client_confirm fs ae issue state c2 u is1 = Some (q, s', is'))))"
    using run unfolding client_handshake_def
    by (auto simp: is_err_def elim!: io_try_cases split: prod.splits sum.splits option.splits step.splits) blast+
  then consider (early) "is_err q" "is' = is"
    | (handled) m c st c2 is1 where "client_handle ae issue m c is = Some ((st, c2), is1)"
        "is_err q \<and> is' = is1 \<or> (\<exists>ms u. st = StSend ms \<and> client_confirm fs ae issue state c2 u is1 = Some (q, s', is'))"
    by blast
  then show ?thesis
  proof cases
    case early
    then show ?thesis using fl by simp
  next
    case handled
    note h = client_handle_floor [OF handled(1) fl]
    from handled(2) show ?thesis
      using h client_confirm_floor [of fs ae state c2 _ is1 q s' is'] by blast
  qed
qed

end

interpretation floored: floored_issuer "core_issue sha file_media_ops book_reader" alloc_book alloc_ptr "fm.core_safe sha"
  for sha
proof
  fix s s' :: "(file_media, book) core" and b e j k
  show "core_issue sha file_media_ops book_reader s = Some (Inr b, s') \<Longrightarrow> fm.core_safe sha k s \<Longrightarrow>
      fm.core_safe sha (alloc_ptr s') s'"
    using fm.issue_safe [of sha book_reader s "Inr b" s' k] issue_pointer [of sha file_media_ops book_reader s "Inr b" s']
    by (simp add: is_err_def alloc_ptr_def)
  show "core_issue sha file_media_ops book_reader s = Some (Inl e, s') \<Longrightarrow> fm.core_safe sha k s \<Longrightarrow> fm.core_safe sha k s'"
    using fm.issue_safe [of sha book_reader s "Inl e" s' k] by (simp add: is_err_def)
  show "fm.core_safe sha k s \<Longrightarrow> j \<le> k \<Longrightarrow> fm.core_safe sha j s"
    by (auto simp: fm.core_safe_def intro: fm.floored_mono)
  show "fm.core_safe sha k s \<Longrightarrow> k \<le> alloc_ptr s" by (simp add: fm.core_safe_def alloc_ptr_def)
qed

end
