(* ===== verification/Recovery.thy ===== *)
theory Recovery
  imports AnchorSpec OsFile
begin

text \<open>
  Start-up recovery (\<open>crates/otp-recovery/src/lib.rs\<close>) over the trait \<open>AnchorStore\<close>, and
  the production store \<open>FileAnchorStore\<close> of \<open>crates/otp-cli/src/recoveryio.rs\<close>, which
  puts the anchor coding on the platform's \<open>FileAnchorBackend\<close>. The trait is the record
  \<open>anchor_store_ops\<close> of its three operations with explicit state; its contract is the
  locale \<open>anchor_store\<close>, interpreted on the file store.
\<close>

section \<open>The store trait\<close>

record ('s, 'e) anchor_store_ops =
  st_read :: "'s \<Rightarrow> ('e + anchor_record) \<times> 's"
  st_write :: "anchor_record \<Rightarrow> 's \<Rightarrow> ('e + unit) \<times> 's"
  st_sync_parent :: "'s \<Rightarrow> ('e + unit) \<times> 's"

section \<open>Recovery\<close>

datatype recovery_warning =
    StaleCopyRepaired anchor_copy
  | CorruptCopyQuarantined anchor_copy
  | DualRollbackUndetectable

record recovery_report =
  rep_adopted :: anchor_record
  rep_repaired :: "anchor_copy option"
  rep_quarantined :: "anchor_copy list"
  rep_warnings :: "recovery_warning list"

datatype recovery_error =
    RecBothUnreadable
  | RecCannotProveSafe string
  | RecStore
  | Quarantined "anchor_copy option" string
  | RollbackBlocked

text \<open>
  The repair of one copy: write and fsync the whole record, sync the parent directory, read
  the copy back and compare.
\<close>

definition repair_copy ::
  "('s, 'e) anchor_store_ops \<Rightarrow> anchor_record \<Rightarrow> 's \<Rightarrow> (recovery_error + unit) \<times> 's" where
  "repair_copy ops adopted s = (case st_write ops adopted s of
     (Inl _, s) \<Rightarrow> (Inl RecStore, s)
   | (Inr _, s) \<Rightarrow> (case st_sync_parent ops s of
       (Inl _, s) \<Rightarrow> (Inl RecStore, s)
     | (Inr _, s) \<Rightarrow> (case st_read ops s of
         (Inl _, s) \<Rightarrow> (Inl RecStore, s)
       | (Inr r, s) \<Rightarrow> (if r \<noteq> adopted then Inl RecStore else Inr (), s))))"

definition recovery_choice ::
  "recovery_decision \<Rightarrow> recovery_error + anchor_record \<times> anchor_copy option" where
  "recovery_choice d = (case d of
     Consistent r \<Rightarrow> Inr (r, None)
   | AdoptHigher r c \<Rightarrow> Inr (r, Some c)
   | QuarantineCorrupt c reason \<Rightarrow> Inl (Quarantined (Some c) reason)
   | BothUnreadable \<Rightarrow> Inl (Quarantined None ''both-anchors-unreadable'')
   | CannotProveSafe reason \<Rightarrow> Inl (Quarantined None reason))"

definition is_commit :: "anchor_payload \<Rightarrow> bool" where
  "is_commit p = (case p of Commit _ \<Rightarrow> True | _ \<Rightarrow> False)"

definition recovery_report_of ::
  "anchor_record \<Rightarrow> anchor_copy option \<Rightarrow> recovery_report" where
  "recovery_report_of adopted stale =
    \<lparr>rep_adopted = adopted, rep_repaired = stale, rep_quarantined = [],
     rep_warnings = DualRollbackUndetectable
       # (case stale of None \<Rightarrow> [] | Some c \<Rightarrow> [StaleCopyRepaired c])\<rparr>"

text \<open>Past the checks: nothing to do, or the repair of the stale copy.\<close>

definition finish_recovery ::
  "('a, 'e) anchor_store_ops \<Rightarrow> ('b, 'f) anchor_store_ops \<Rightarrow> anchor_record \<Rightarrow>
    anchor_copy option \<Rightarrow> 'a \<Rightarrow> 'b \<Rightarrow> (recovery_error + recovery_report) \<times> 'a \<times> 'b" where
  "finish_recovery oa ob adopted stale a b = (case stale of
     None \<Rightarrow> (Inr (recovery_report_of adopted None), a, b)
   | Some CopyA \<Rightarrow> (case repair_copy oa adopted a of
       (r, a) \<Rightarrow> (map_ok (\<lambda>_. recovery_report_of adopted stale) r, a, b))
   | Some CopyB \<Rightarrow> (case repair_copy ob adopted b of
       (r, b) \<Rightarrow> (map_ok (\<lambda>_. recovery_report_of adopted stale) r, a, b)))"

definition recover_with_options ::
  "('a, 'e) anchor_store_ops \<Rightarrow> ('b, 'f) anchor_store_ops \<Rightarrow> generation option \<Rightarrow>
    (anchor_record \<Rightarrow> bool) \<Rightarrow> 'a \<Rightarrow> 'b \<Rightarrow> (recovery_error + recovery_report) \<times> 'a \<times> 'b" where
  "recover_with_options oa ob watermark verify_commit a b =
    (case st_read oa a of (ra, a) \<Rightarrow> case st_read ob b of (rb, b) \<Rightarrow>
     case recovery_choice (decide (map_err (\<lambda>_. Corrupt) ra) (map_err (\<lambda>_. Corrupt) rb)) of
       Inl e \<Rightarrow> (Inl e, a, b)
     | Inr (adopted, stale) \<Rightarrow>
         if (case watermark of None \<Rightarrow> False | Some floor \<Rightarrow> ar_generation adopted < floor)
         then (Inl RollbackBlocked, a, b)
         else if is_commit (ar_payload adopted) \<and> \<not> verify_commit adopted
         then (Inl (Quarantined None ''book-anchor-mismatch''), a, b)
         else finish_recovery oa ob adopted stale a b)"

definition recover ::
  "('a, 'e) anchor_store_ops \<Rightarrow> ('b, 'f) anchor_store_ops \<Rightarrow> 'a \<Rightarrow> 'b \<Rightarrow>
    (recovery_error + recovery_report) \<times> 'a \<times> 'b" where
  "recover oa ob a b = recover_with_options oa ob None (\<lambda>_. True) a b"

section \<open>The file store\<close>

definition file_store_read ::
  "(bytes \<Rightarrow> bytes) \<Rightarrow> anchor_backend \<Rightarrow> (platform_error + anchor_record) \<times> anchor_backend" where
  "file_store_read sha b =
    backend_read_verified (\<lambda>bs. map_err (\<lambda>_. InvalidData) (decode_and_verify sha bs)) b"

definition file_store_write ::
  "(bytes \<Rightarrow> bytes) \<Rightarrow> anchor_record \<Rightarrow> anchor_backend \<Rightarrow> (platform_error + unit) \<times> anchor_backend" where
  "file_store_write sha r b = backend_write_full_and_sync (encode_record sha r) b"

definition file_store_ops ::
  "(bytes \<Rightarrow> bytes) \<Rightarrow> (anchor_backend, platform_error) anchor_store_ops" where
  "file_store_ops sha = \<lparr>st_read = file_store_read sha, st_write = file_store_write sha,
    st_sync_parent = backend_sync_parent\<rparr>"

text \<open>
  \<open>startup_recover\<close>: both files must exist (\<open>None\<close> is a missing file), and the default
  recovery runs on them.
\<close>

definition startup_recover ::
  "(bytes \<Rightarrow> bytes) \<Rightarrow> anchor_backend option \<Rightarrow> anchor_backend option \<Rightarrow>
    (recovery_error + recovery_report) \<times> (anchor_backend option) \<times> (anchor_backend option)" where
  "startup_recover sha a b = (case a of
     None \<Rightarrow> (Inl RecStore, a, b)
   | Some fa \<Rightarrow> (case b of
       None \<Rightarrow> (Inl RecStore, a, b)
     | Some fb \<Rightarrow> (case recover (file_store_ops sha) (file_store_ops sha) fa fb of
         (r, fa, fb) \<Rightarrow> (r, Some fa, Some fb))))"

section \<open>The contract of a store\<close>

locale anchor_store =
  fixes ops :: "('s, 'e) anchor_store_ops"
    and held :: "'s \<Rightarrow> anchor_record option"
    and storable :: "anchor_record \<Rightarrow> bool"
  assumes read_ok: "st_read ops s = (Inr r, s') \<Longrightarrow> held s = Some r \<and> held s' = Some r \<and> storable r"
    and read_err: "st_read ops s = (Inl e, s') \<Longrightarrow> held s' = held s"
    and write_ok: "storable r \<Longrightarrow> st_write ops r s = (Inr u, s') \<Longrightarrow> held s' = Some r"
    and sync_parent: "st_sync_parent ops s = (x, s') \<Longrightarrow> held s' = held s"
begin

lemma read_held: "st_read ops s = (x, s') \<Longrightarrow> held s' = held s"
  by (cases x) (auto dest: read_ok read_err)

lemma repair_ok:
  "repair_copy ops r s = (Inr u, s') \<Longrightarrow> storable r \<Longrightarrow> held s' = Some r"
  by (auto simp: repair_copy_def split: prod.splits sum.splits if_splits dest: read_ok)

lemma repair_err: "repair_copy ops r s = (Inl e, s') \<Longrightarrow> e = RecStore"
  by (auto simp: repair_copy_def split: prod.splits sum.splits if_splits)

end

text \<open>Two stores of the same record format, as recovery uses them.\<close>

locale anchor_store_pair =
  A: anchor_store opsA heldA storable + B: anchor_store opsB heldB storable
  for opsA :: "('a, 'e) anchor_store_ops" and heldA :: "'a \<Rightarrow> anchor_record option"
    and opsB :: "('b, 'f) anchor_store_ops" and heldB :: "'b \<Rightarrow> anchor_record option"
    and storable :: "anchor_record \<Rightarrow> bool"
begin

lemma recover_decides:
  assumes "recover_with_options opsA opsB wm vc a b = (Inr rep, a', b')"
  obtains ra rb a1 b1 where "st_read opsA a = (Inr ra, a1)" "st_read opsB b = (Inr rb, b1)"
    "adopted_of (decide (Inr ra) (Inr rb)) = Some (rep_adopted rep)"
    "stale_of (decide (Inr ra) (Inr rb)) = rep_repaired rep"
    "(rep_repaired rep = None \<and> a' = a1 \<and> b' = b1) \<or>
     (rep_repaired rep = Some CopyA \<and> repair_copy opsA (rep_adopted rep) a1 = (Inr (), a') \<and> b' = b1) \<or>
     (rep_repaired rep = Some CopyB \<and> repair_copy opsB (rep_adopted rep) b1 = (Inr (), b') \<and> a' = a1)"
proof -
  obtain x a1 where xa: "st_read opsA a = (x, a1)" by fastforce
  obtain y b1 where yb: "st_read opsB b = (y, b1)" by fastforce
  obtain r st where ch: "recovery_choice (decide (map_err (\<lambda>_. Corrupt) x) (map_err (\<lambda>_. Corrupt) y))
      = Inr (r, st)"
    using assms xa yb by (auto simp: recover_with_options_def split: sum.splits)
  then have d: "adopted_of (decide (map_err (\<lambda>_. Corrupt) x) (map_err (\<lambda>_. Corrupt) y)) = Some r"
    "stale_of (decide (map_err (\<lambda>_. Corrupt) x) (map_err (\<lambda>_. Corrupt) y)) = st"
    by (auto simp: recovery_choice_def adopted_of_def stale_of_def split: recovery_decision.splits)
  from adopted_valid [OF d(1)] obtain ra rb where ab: "x = Inr ra" "y = Inr rb" by auto
  have "recover_with_options opsA opsB wm vc a b =
      (if (case wm of None \<Rightarrow> False | Some floor \<Rightarrow> ar_generation r < floor)
       then (Inl RollbackBlocked, a1, b1)
       else if is_commit (ar_payload r) \<and> \<not> vc r
       then (Inl (Quarantined None ''book-anchor-mismatch''), a1, b1)
       else finish_recovery opsA opsB r st a1 b1)"
    unfolding recover_with_options_def xa yb by (simp add: ch)
  with assms have fin: "finish_recovery opsA opsB r st a1 b1 = (Inr rep, a', b')"
    by (simp split: if_splits)
  then have rep: "rep_adopted rep = r" "rep_repaired rep = st"
    by (auto simp: finish_recovery_def recovery_report_of_def map_ok_Inr_iff
        split: option.splits anchor_copy.splits prod.splits)
  from fin have fin': "(st = None \<and> a' = a1 \<and> b' = b1) \<or>
     (st = Some CopyA \<and> repair_copy opsA r a1 = (Inr (), a') \<and> b' = b1) \<or>
     (st = Some CopyB \<and> repair_copy opsB r b1 = (Inr (), b') \<and> a' = a1)"
    by (auto simp: finish_recovery_def map_ok_Inr_iff
        split: option.splits anchor_copy.splits prod.splits)
  show thesis
    by (rule that [OF xa [unfolded ab] yb [unfolded ab]]) (use d ab rep fin' in simp_all)
qed

lemma recover_ok_held:
  assumes "recover_with_options opsA opsB wm vc a b = (Inr rep, a', b')"
  shows "heldA a' = Some (rep_adopted rep) \<and> heldB b' = Some (rep_adopted rep)"
proof -
  from assms obtain ra rb a1 b1 where r: "st_read opsA a = (Inr ra, a1)"
    "st_read opsB b = (Inr rb, b1)"
    and d: "adopted_of (decide (Inr ra) (Inr rb)) = Some (rep_adopted rep)"
    "stale_of (decide (Inr ra) (Inr rb)) = rep_repaired rep"
    and fin: "(rep_repaired rep = None \<and> a' = a1 \<and> b' = b1) \<or>
     (rep_repaired rep = Some CopyA \<and> repair_copy opsA (rep_adopted rep) a1 = (Inr (), a') \<and> b' = b1) \<or>
     (rep_repaired rep = Some CopyB \<and> repair_copy opsB (rep_adopted rep) b1 = (Inr (), b') \<and> a' = a1)"
    by (rule recover_decides)
  have h: "heldA a1 = Some ra" "heldB b1 = Some rb" "storable ra" "storable rb"
    using A.read_ok [OF r(1)] B.read_ok [OF r(2)] by auto
  from d have "(rep_repaired rep = None \<and> ra = rep_adopted rep \<and> rb = rep_adopted rep) \<or>
     (rep_repaired rep = Some CopyA \<and> rb = rep_adopted rep) \<or>
     (rep_repaired rep = Some CopyB \<and> ra = rep_adopted rep)"
    by (rule adopted_source)
  with fin h show ?thesis
    by (auto dest: A.repair_ok B.repair_ok)
qed

lemma recover_err_untouched:
  assumes "recover_with_options opsA opsB wm vc a b = (Inl e, a', b')" and "e \<noteq> RecStore"
  shows "heldA a' = heldA a \<and> heldB b' = heldB b"
proof -
  obtain x a1 where xa: "st_read opsA a = (x, a1)" by fastforce
  obtain y b1 where yb: "st_read opsB b = (y, b1)" by fastforce
  have "\<And>r st. finish_recovery opsA opsB r st a1 b1 \<noteq> (Inl e, a', b')"
    using assms(2) by (auto simp: finish_recovery_def split: option.splits anchor_copy.splits
        prod.splits dest: A.repair_err B.repair_err)
  then have "a' = a1 \<and> b' = b1"
    using assms(1) unfolding recover_with_options_def xa yb
    by (auto split: sum.splits if_splits)
  then show ?thesis using A.read_held [OF xa] B.read_held [OF yb] by simp
qed

end

section \<open>The file store keeps the contract\<close>

text \<open>
  What the file holds for a reader, and which records survive their own coding. The latter
  follows from a 32-byte digest; the contract itself needs no assumption on \<open>sha\<close>.
\<close>

definition file_held :: "(bytes \<Rightarrow> bytes) \<Rightarrow> anchor_backend \<Rightarrow> anchor_record option" where
  "file_held sha b = (case decode_and_verify sha (f_cache (ab_file b)) of
     Inl _ \<Rightarrow> None | Inr r \<Rightarrow> Some r)"

definition storable_record :: "(bytes \<Rightarrow> bytes) \<Rightarrow> anchor_record \<Rightarrow> bool" where
  "storable_record sha r \<longleftrightarrow> decode_and_verify sha (encode_record sha r) = Inr r"

interpretation fs: anchor_store "file_store_ops sha" "file_held sha" "storable_record sha" for sha
proof
  fix s r s'
  assume "st_read (file_store_ops sha) s = (Inr r, s')"
  then have c: "f_cache (ab_file s') = f_cache (ab_file s)"
    and d: "decode_and_verify sha (f_cache (ab_file s)) = Inr r"
    by (auto simp: file_store_ops_def file_store_read_def dest!: backend_read_cache)
  then show "file_held sha s = Some r \<and> file_held sha s' = Some r \<and> storable_record sha r"
    using decode_and_verify_Inr [OF d] by (simp add: file_held_def storable_record_def)
next
  fix s e s'
  assume "st_read (file_store_ops sha) s = (Inl e, s')"
  then show "file_held sha s' = file_held sha s"
    by (auto simp: file_store_ops_def file_store_read_def file_held_def dest!: backend_read_cache)
next
  fix r s u s'
  assume "storable_record sha r" "st_write (file_store_ops sha) r s = (Inr u, s')"
  then show "file_held sha s' = Some r"
    using backend_write_cache
    by (auto simp: file_store_ops_def file_store_write_def file_held_def storable_record_def)
next
  fix s x s'
  assume "st_sync_parent (file_store_ops sha) s = (x, s')"
  then show "file_held sha s' = file_held sha s"
    by (auto simp: file_store_ops_def backend_sync_parent_def file_held_def
        split: if_splits prod.splits option.splits)
qed

interpretation fs2: anchor_store_pair "file_store_ops sha" "file_held sha" "file_store_ops sha"
  "file_held sha" "storable_record sha" for sha
  by unfold_locales

lemma recover_checks:
  assumes "recover_with_options oa ob wm vc a b = (Inr rep, a', b')"
  shows "(\<forall>floor. wm = Some floor \<longrightarrow> floor \<le> ar_generation (rep_adopted rep)) \<and>
    (is_commit (ar_payload (rep_adopted rep)) \<longrightarrow> vc (rep_adopted rep))"
proof -
  have "\<And>r st a1 b1. finish_recovery oa ob r st a1 b1 = (Inr rep, a', b') \<Longrightarrow> rep_adopted rep = r"
    by (auto simp: finish_recovery_def recovery_report_of_def map_ok_Inr_iff
        split: option.splits anchor_copy.splits prod.splits)
  with assms show ?thesis
    unfolding recover_with_options_def
    by (auto split: prod.splits sum.splits if_splits option.splits simp: not_less)
qed

section \<open>Properties of recovery\<close>

text \<open>
  C14. Successful recovery over the file stores: both files held verified records of the same
  book, the adopted record is one of them and at least as high as both in \<open>next\<close> and in the
  order, both files now hold it, it is not below the external watermark, and a COMMIT was
  confirmed by the book verifier.
\<close>

theorem recover_sound:
  assumes rec: "recover_with_options (file_store_ops sha) (file_store_ops sha) wm vc a b
    = (Inr rep, a', b')"
  shows "\<exists>ra rb. file_held sha a = Some ra \<and> file_held sha b = Some rb \<and>
    ar_book_id ra = ar_book_id rb \<and> rep_adopted rep \<in> {ra, rb} \<and>
    ar_next (rep_adopted rep) = max (ar_next ra) (ar_next rb) \<and>
    state_key (rep_adopted rep) = max (state_key ra) (state_key rb) \<and>
    file_held sha a' = Some (rep_adopted rep) \<and> file_held sha b' = Some (rep_adopted rep) \<and>
    (\<forall>floor. wm = Some floor \<longrightarrow> floor \<le> ar_generation (rep_adopted rep)) \<and>
    (is_commit (ar_payload (rep_adopted rep)) \<longrightarrow> vc (rep_adopted rep))"
proof -
  from rec obtain ra rb a1 b1 where r: "st_read (file_store_ops sha) a = (Inr ra, a1)"
    "st_read (file_store_ops sha) b = (Inr rb, b1)"
    "adopted_of (decide (Inr ra) (Inr rb)) = Some (rep_adopted rep)"
    by (rule fs2.recover_decides)
  then show ?thesis
    using fs.read_ok [OF r(1)] fs.read_ok [OF r(2)] decide_adopts_max [OF r(3)]
      fs2.recover_ok_held [OF rec] recover_checks [OF rec] by blast
qed

definition witness_anchor :: anchor_record where
  "witness_anchor = anchor_commit (replicate 16 7) (Generation 2) 3 (replicate 32 1)"

definition backend_of :: "bytes \<Rightarrow> anchor_backend" where
  "backend_of x = \<lparr>ab_file = file_of x, ab_created = False, ab_script = []\<rparr>"

lemma witness_anchor_decodes:
  "decode_and_verify sum_digest (encode_record sum_digest witness_anchor) = Inr witness_anchor"
  by (rule decode_encode_record [OF digest32_sum_digest])
     (simp_all add: witness_anchor_def anchor_commit_def wf_anchor_def canonical_anchor_def)

lemma read_backend_of:
  "st_read (file_store_ops sha) (backend_of x) =
    (map_err (\<lambda>_. InvalidData) (decode_and_verify sha x),
     (backend_of x)\<lparr>ab_file := (file_of x)\<lparr>f_pos := length x\<rparr>\<rparr>)"
  by (simp add: file_store_ops_def file_store_read_def backend_read_verified_def backend_of_def
      file_seek0_def file_read_to_end_def os_call_def ab_put_def file_of_def)

theorem recover_sound_witness:
  "let b = backend_of (encode_record sum_digest witness_anchor) in
   fst (recover_with_options (file_store_ops sum_digest) (file_store_ops sum_digest)
     (Some (Generation 1)) (\<lambda>r. ar_next r = 3) b b) = Inr (recovery_report_of witness_anchor None) \<and>
   file_held sum_digest b = Some witness_anchor"
proof -
  define b where "b = backend_of (encode_record sum_digest witness_anchor)"
  obtain b' where "st_read (file_store_ops sum_digest) b = (Inr witness_anchor, b')"
    by (simp add: b_def read_backend_of witness_anchor_decodes)
  then have r: "recover_with_options (file_store_ops sum_digest) (file_store_ops sum_digest)
     (Some (Generation 1)) (\<lambda>r. ar_next r = 3) b b = (Inr (recovery_report_of witness_anchor None), b', b')"
    by (simp add: recover_with_options_def recovery_choice_def finish_recovery_def)
       (simp add: witness_anchor_def anchor_commit_def less_generation_def)
  from recover_sound [OF r] have "file_held sum_digest b = Some witness_anchor"
    by (auto simp: recovery_report_of_def)
  with r show ?thesis by (simp add: Let_def b_def)
qed

text \<open>
  Recovery is fail-closed: whenever it refuses for any reason but a failed store operation
  (a corrupt copy, contradictory copies, a watermark above both, a rejected COMMIT), both files
  hold exactly what they held before.
\<close>

theorem recover_refusal_writes_nothing:
  assumes "recover_with_options (file_store_ops sha) (file_store_ops sha) wm vc a b
    = (Inl e, a', b')" and "e \<noteq> RecStore"
  shows "file_held sha a' = file_held sha a \<and> file_held sha b' = file_held sha b"
  using assms by (rule fs2.recover_err_untouched)

theorem recover_refusal_writes_nothing_witness:
  "let b = backend_of (encode_record sum_digest witness_anchor);
       (x, a', b') = recover_with_options (file_store_ops sum_digest) (file_store_ops sum_digest)
         (Some (Generation 5)) (\<lambda>_. True) b b in
   x = Inl RollbackBlocked \<and> file_held sum_digest b' = Some witness_anchor"
proof -
  define b where "b = backend_of (encode_record sum_digest witness_anchor)"
  obtain b' where "st_read (file_store_ops sum_digest) b = (Inr witness_anchor, b')"
    by (simp add: b_def read_backend_of witness_anchor_decodes)
  then have r: "recover_with_options (file_store_ops sum_digest) (file_store_ops sum_digest)
     (Some (Generation 5)) (\<lambda>_. True) b b = (Inl RollbackBlocked, b', b')"
    by (simp add: recover_with_options_def recovery_choice_def)
       (simp add: witness_anchor_def anchor_commit_def less_generation_def)
  have "file_held sum_digest b = Some witness_anchor"
    by (simp add: file_held_def b_def backend_of_def file_of_def witness_anchor_decodes)
  with recover_refusal_writes_nothing [OF r] show ?thesis
    using r by (simp add: Let_def b_def)
qed

end
