(* ===== verification/AuditLog.thy ===== *)
theory AuditLog
  imports OsFile Text
begin

text \<open>
  The audit log: the closed JSON line of \<open>crates/otp-platform/src/audit.rs\<close>, the sink that
  appends one line per entry and syncs it, and the event functions of
  \<open>crates/otp-cli/src/auditlog.rs\<close> over an optional sink. The file is opened for append, so
  every write goes to its end.
\<close>

section \<open>Entries\<close>

datatype audit_outcome = Issued | Wasted | Rejected | Recovered | Quarantined

record audit_entry =
  ae_book_id :: book_id
  ae_segment :: segment_index
  ae_generation :: generation
  ae_outcome :: audit_outcome
  ae_error_category :: "error_category option"

fun outcome_str :: "audit_outcome \<Rightarrow> string" where
  "outcome_str Issued = ''issued''"
| "outcome_str Wasted = ''wasted''"
| "outcome_str Rejected = ''rejected''"
| "outcome_str Recovered = ''recovered''"
| "outcome_str Quarantined = ''quarantined''"

fun category_str :: "error_category \<Rightarrow> string" where
  "category_str CatBook = ''book''"
| "category_str CatCodec = ''codec''"
| "category_str CatAnchor = ''anchor''"
| "category_str CatAllocation = ''allocation''"
| "category_str CatRecovery = ''recovery''"
| "category_str CatHandshake = ''handshake''"
| "category_str CatSession = ''session''"
| "category_str CatTransport = ''transport''"
| "category_str CatTerminal = ''terminal''"
| "category_str CatPlatform = ''platform''"
| "category_str CatInternal = ''internal''"

definition json_key :: "string \<Rightarrow> string" where
  "json_key k = quoted k @ '':''"

definition audit_entry_to_json :: "audit_entry \<Rightarrow> string" where
  "audit_entry_to_json e =
     ''{'' @ json_key ''book_id'' @ quoted (hex_bytes (ae_book_id e))
     @ '','' @ json_key ''segment'' @ dec (unat (ae_segment e))
     @ '','' @ json_key ''generation'' @ dec (unat (gen_get (ae_generation e)))
     @ '','' @ json_key ''outcome'' @ quoted (outcome_str (ae_outcome e))
     @ '','' @ json_key ''error_category''
     @ (case ae_error_category e of Some c \<Rightarrow> quoted (category_str c) | None \<Rightarrow> ''null'')
     @ ''}''"

section \<open>The sink\<close>

text \<open>A write loop on a file opened for append.\<close>

definition append_full :: "bytes \<Rightarrow> script \<Rightarrow> os_file \<Rightarrow> (platform_error + unit) \<times> script \<times> os_file" where
  "append_full d sc f = write_full d sc (f\<lparr>f_pos := length (f_cache f)\<rparr>)"

text \<open>
  \<open>JsonlAuditSink::open\<close>: \<open>opened\<close> is the error of \<open>open\<close>, if any; \<open>parent\<close> is what
  syncing the parent directory returned, \<open>None\<close> when the path has no parent.
\<close>

definition sink_open ::
  "bool \<Rightarrow> os_outcome option \<Rightarrow> (platform_error + unit) option \<Rightarrow> os_file \<Rightarrow> platform_error + os_file" where
  "sink_open existed opened parent f =
     (case opened of
        Some e \<Rightarrow> Inl (from_io e)
      | None \<Rightarrow>
          if \<not> existed then
            (case parent of
               Some r \<Rightarrow> map_ok (\<lambda>_. f) r
             | None \<Rightarrow> Inr f)
          else Inr f)"

definition entry_line :: "audit_entry \<Rightarrow> string" where
  "entry_line e = audit_entry_to_json e @ [newline]"

definition write_entry :: "audit_entry \<Rightarrow> script \<Rightarrow> os_file \<Rightarrow> (platform_error + unit) \<times> script \<times> os_file" where
  "write_entry e sc f =
     (case append_full (ascii (entry_line e)) sc f of
        (Inl err, sc, f) \<Rightarrow> (Inl err, sc, f)
      | (Inr _, sc, f) \<Rightarrow> (case fsync_file sc f of
          (Inl err, sc, f) \<Rightarrow> (Inl err, sc, f)
        | (Inr _, sc, f) \<Rightarrow> (Inr (), sc, f)))"

section \<open>The events of the programs\<close>

text \<open>\<open>Audit\<close>: the sink, if a path was given, and what the system will answer.\<close>

record audit =
  au_sink :: "os_file option"
  au_script :: script

datatype audit_error = AuditWriteFailed | AuditOpenFailed

definition audit_disabled :: "script \<Rightarrow> audit" where
  "audit_disabled sc = \<lparr>au_sink = None, au_script = sc\<rparr>"

definition audit_open ::
  "bool \<Rightarrow> os_outcome option \<Rightarrow> (platform_error + unit) option \<Rightarrow> os_file \<Rightarrow> script \<Rightarrow> audit_error + audit" where
  "audit_open existed opened parent f sc =
     map_err (\<lambda>_. AuditOpenFailed)
       (map_ok (\<lambda>g. \<lparr>au_sink = Some g, au_script = sc\<rparr>) (sink_open existed opened parent f))"

definition audit_emit :: "audit_entry \<Rightarrow> audit \<Rightarrow> (audit_error + unit) \<times> audit" where
  "audit_emit e a =
     (case au_sink a of
        Some f \<Rightarrow>
          (case write_entry e (au_script a) f of
             (r, sc, f) \<Rightarrow> (map_err (\<lambda>_. AuditWriteFailed) r, a\<lparr>au_sink := Some f, au_script := sc\<rparr>))
      | None \<Rightarrow> (Inr (), a))"

definition emit_ok ::
  "book_id \<Rightarrow> segment_index \<Rightarrow> generation \<Rightarrow> audit_outcome \<Rightarrow> audit \<Rightarrow> (audit_error + unit) \<times> audit" where
  "emit_ok b s g out a =
     audit_emit \<lparr>ae_book_id = b, ae_segment = s, ae_generation = g, ae_outcome = out,
       ae_error_category = None\<rparr> a"

definition emit_err ::
  "book_id \<Rightarrow> segment_index \<Rightarrow> generation \<Rightarrow> audit_outcome \<Rightarrow> error_category \<Rightarrow> audit
    \<Rightarrow> (audit_error + unit) \<times> audit" where
  "emit_err b s g out c a =
     audit_emit \<lparr>ae_book_id = b, ae_segment = s, ae_generation = g, ae_outcome = out,
       ae_error_category = Some c\<rparr> a"

section \<open>One line per entry\<close>

lemma outcome_str_inject [simp]: "outcome_str a = outcome_str b \<longleftrightarrow> a = b"
  by (cases a; cases b) simp_all

lemma category_str_inject [simp]: "category_str a = category_str b \<longleftrightarrow> a = b"
  by (cases a; cases b) simp_all

lemma closed_strings:
  "quote_char \<notin> set (outcome_str a)" "quote_char \<notin> set (category_str b)"
  "newline \<notin> set (outcome_str a)" "newline \<notin> set (category_str b)"
  "CHR ''{'' \<notin> set (outcome_str a)" "CHR ''{'' \<notin> set (category_str b)"
  by (cases a; cases b; simp add: char_codes)+

text \<open>The JSON line of an entry names the entry: every field can be read back.\<close>

definition audit_entry_ok :: "audit_entry \<Rightarrow> bool" where
  "audit_entry_ok e \<longleftrightarrow> length (ae_book_id e) = 16"

definition category_json :: "error_category option \<Rightarrow> string" where
  "category_json c = (case c of Some c \<Rightarrow> quoted (category_str c) | None \<Rightarrow> ''null'')"

lemma category_json_inject [simp]: "category_json a = category_json b \<longleftrightarrow> a = b"
  by (cases a; cases b) (auto simp: category_json_def quoted_def char_codes)

lemma audit_json_inject:
  assumes "audit_entry_ok e" and "audit_entry_ok e'"
  shows "audit_entry_to_json e = audit_entry_to_json e' \<longleftrightarrow> e = e'"
proof
  assume j: "audit_entry_to_json e = audit_entry_to_json e'"
  let ?rest = "\<lambda>x. json_key ''outcome'' @ quoted (outcome_str (ae_outcome x)) @ '','' @
    json_key ''error_category'' @ category_json (ae_error_category x) @ ''}''"
  let ?gen = "\<lambda>x. json_key ''generation'' @ dec (unat (gen_get (ae_generation x))) @ '','' @ ?rest x"
  let ?seg = "\<lambda>x. json_key ''segment'' @ dec (unat (ae_segment x)) @ '','' @ ?gen x"
  have q: "quote_char \<notin> set (hex_bytes bs)" for bs
    by (rule hex_not) (simp add: quote_char_def)
  have c: "CHR '','' \<notin> set (dec n)" for n by (rule dec_not) simp
  have "hex_bytes (ae_book_id e) @ quote_char # '','' @ ?seg e
      = hex_bytes (ae_book_id e') @ quote_char # '','' @ ?seg e'"
    using j by (simp add: audit_entry_to_json_def category_json_def [symmetric] quoted_def)
  then have 1: "ae_book_id e = ae_book_id e'" and s: "?seg e = ?seg e'"
    using delim_cancel [OF q q] by auto
  from s have "dec (unat (ae_segment e)) @ CHR '','' # ?gen e = dec (unat (ae_segment e')) @ CHR '','' # ?gen e'"
    by simp
  then have 2: "ae_segment e = ae_segment e'" and g: "?gen e = ?gen e'"
    by (simp_all only: delim_cancel [OF c c] dec_inject u64_eqI)
  from g have "dec (unat (gen_get (ae_generation e))) @ CHR '','' # ?rest e
      = dec (unat (gen_get (ae_generation e'))) @ CHR '','' # ?rest e'"
    by simp
  then have 3: "ae_generation e = ae_generation e'" and r: "?rest e = ?rest e'"
    by (simp_all only: delim_cancel [OF c c] dec_inject u64_eqI generation.expand)
  from r have "outcome_str (ae_outcome e) @ quote_char # '','' @ json_key ''error_category'' @ category_json (ae_error_category e) @ ''}''
    = outcome_str (ae_outcome e') @ quote_char # '','' @ json_key ''error_category'' @ category_json (ae_error_category e') @ ''}''"
    by (simp add: quoted_def)
  then have "ae_outcome e = ae_outcome e'" "ae_error_category e = ae_error_category e'"
    using delim_cancel [OF closed_strings(1) closed_strings(1)] by auto
  then show "e = e'" using 1 2 3 by (simp add: audit_entry.equality)
qed simp

text \<open>No line break inside an entry, and one opening brace, at its beginning.\<close>

lemma json_chars:
  assumes "x = newline \<or> x = CHR ''{''"
  shows "x \<notin> set (tl (audit_entry_to_json e))"
proof -
  have n: "x \<notin> set (hex_bytes bs)" "x \<notin> set (dec n)" for bs n
    using assms by (auto simp: char_codes intro!: hex_not dec_not)
  then show ?thesis
    using assms closed_strings
    by (auto simp: audit_entry_to_json_def json_key_def quoted_def char_codes split: option.splits)
qed

lemma newline_not_in_json: "newline \<notin> set (audit_entry_to_json e)"
proof -
  have "audit_entry_to_json e \<noteq> []" "hd (audit_entry_to_json e) \<noteq> newline"
    by (simp_all add: audit_entry_to_json_def char_codes)
  then show ?thesis using json_chars [of newline e] by (cases "audit_entry_to_json e") auto
qed

text \<open>The text of a log of entries, and that it determines them.\<close>

definition audit_text :: "audit_entry list \<Rightarrow> string" where
  "audit_text es = concat (map entry_line es)"

lemma audit_text_inject:
  "list_all audit_entry_ok es \<Longrightarrow> list_all audit_entry_ok es' \<Longrightarrow> audit_text es = audit_text es' \<Longrightarrow> es = es'"
proof (induction es arbitrary: es')
  case Nil
  then show ?case by (cases es') (simp_all add: audit_text_def entry_line_def)
next
  case (Cons e es)
  then obtain e' fs where es': "es' = e' # fs"
    by (cases es') (simp_all add: audit_text_def entry_line_def)
  have "audit_entry_to_json e @ newline # audit_text es = audit_entry_to_json e' @ newline # audit_text fs"
    using Cons.prems(3) es' by (simp add: audit_text_def entry_line_def)
  then have "e = e'" "audit_text es = audit_text fs"
    using Cons.prems(1,2) es' by (simp_all add: delim_cancel newline_not_in_json audit_json_inject)
  then show ?case using Cons es' by simp
qed

section \<open>A run of the sink\<close>

fun emit_all :: "audit_entry list \<Rightarrow> audit \<Rightarrow> (audit_error + unit) list \<times> audit" where
  "emit_all [] a = ([], a)"
| "emit_all (e # es) a = (case audit_emit e a of (r, a) \<Rightarrow> (case emit_all es a of (rs, a) \<Rightarrow> (r # rs, a)))"

lemma append_full_Inr:
  "append_full d sc f = (Inr (), sc', f') \<Longrightarrow> d \<noteq> [] \<Longrightarrow> f_cache f' = f_cache f @ d"
  unfolding append_full_def by (drule (1) write_full_Inr) (simp add: file_put_def)

lemma write_entry_Inr:
  assumes "write_entry e sc f = (Inr (), sc', f')"
  shows "f_cache f' = f_cache f @ ascii (entry_line e) \<and> f_durable f' = f_cache f'"
proof -
  obtain sc1 f1 where w: "append_full (ascii (entry_line e)) sc f = (Inr (), sc1, f1)"
    using assms by (auto simp: write_entry_def split: prod.splits sum.splits)
  have "ascii (entry_line e) \<noteq> []" by (simp add: ascii_def entry_line_def)
  from append_full_Inr [OF w this] show ?thesis
    using assms w by (auto simp: write_entry_def fsync_file_def file_sync_def
        split: prod.splits sum.splits option.splits)
qed

lemma emit_all_text:
  "emit_all es a = (replicate (length es) (Inr ()), a') \<Longrightarrow> au_sink a = Some f \<Longrightarrow>
    \<exists>f'. au_sink a' = Some f' \<and> f_cache f' = f_cache f @ ascii (audit_text es) \<and>
      (es = [] \<and> f' = f \<or> f_durable f' = f_cache f')"
proof (induction es arbitrary: a f)
  case Nil
  then show ?case by (simp add: audit_text_def ascii_def)
next
  case (Cons e es)
  obtain r sc1 f1 where w: "write_entry e (au_script a) f = (r, sc1, f1)"
    by (cases "write_entry e (au_script a) f") auto
  let ?a = "a\<lparr>au_sink := Some f1, au_script := sc1\<rparr>"
  have e: "audit_emit e a = (map_err (\<lambda>_. AuditWriteFailed) r, ?a)"
    using w Cons.prems(2) by (simp add: audit_emit_def)
  then have "r = Inr ()" and rest: "emit_all es ?a = (replicate (length es) (Inr ()), a')"
    using Cons.prems(1) by (auto split: prod.splits)
  then have "f_cache f1 = f_cache f @ ascii (entry_line e)" "f_durable f1 = f_cache f1"
    using write_entry_Inr w by blast+
  then show ?case
    using Cons.IH [OF rest, of f1] by (auto simp: audit_text_def ascii_append)
qed

text \<open>C36. The audit log reads back. When every entry of a run was reported written, the file on
  the disk is what it was with one line per entry added, in order, whatever short writes and
  interrupts happened; and the text determines the entries, every field of them.\<close>

theorem audit_log_reads_back:
  assumes "emit_all es a = (replicate (length es) (Inr ()), a')" and "au_sink a = Some f"
    and "f_durable f = f_cache f" and "list_all audit_entry_ok es" and "list_all audit_entry_ok es'"
  shows "\<exists>f'. au_sink a' = Some f' \<and> f_durable f' = f_durable f @ ascii (audit_text es) \<and>
    (f_durable f' = f_durable f @ ascii (audit_text es') \<longrightarrow> es' = es)"
  using emit_all_text [OF assms(1,2)] assms(3) audit_text_inject [OF assms(5,4)] by auto

lemma one_brace: "entry_line e = a @ b \<Longrightarrow> a \<noteq> [] \<Longrightarrow> CHR ''{'' \<notin> set b"
proof -
  assume l: "entry_line e = a @ b" and "a \<noteq> []"
  then obtain x xs where "a = x # xs" by (cases a) auto
  then have "tl (entry_line e) = xs @ b" using l by simp
  moreover have "CHR ''{'' \<notin> set (tl (entry_line e))"
    using json_chars [of "CHR ''{''" e]
    by (cases "audit_entry_to_json e") (simp_all add: entry_line_def char_codes)
  ultimately show ?thesis by simp
qed

text \<open>A half-written line stays. When the disk fills up inside a line, the error is reported,
  but the bytes written so far are not removed, and the next entry, reported as written, is glued
  to them: what is then on the line is not the line of any entry.\<close>

theorem audit_half_line:
  assumes "au_sink a = Some f" and "au_script a = [OsOk n, OsNoSpace]"
    and "0 < n" and "n < length (entry_line e)"
  shows "\<exists>f'. emit_all [e, e'] a
      = ([Inl AuditWriteFailed, Inr ()], \<lparr>au_sink = Some f', au_script = []\<rparr>) \<and>
    f_durable f' = f_cache f @ ascii (take n (entry_line e) @ entry_line e') \<and>
    (\<forall>e''. entry_line e'' \<noteq> take n (entry_line e) @ entry_line e')"
proof -
  have ne: "ascii (entry_line x) \<noteq> []" for x by (simp add: ascii_def entry_line_def)
  let ?f1 = "file_put (take n (ascii (entry_line e))) (f\<lparr>f_pos := length (f_cache f)\<rparr>)"
  have 1: "write_entry e (au_script a) f = (Inl PlNoSpace, [], ?f1)"
    using assms ne by (simp add: write_entry_def append_full_def write_full.simps [of "ascii _"]
        write_full.simps [of "drop _ _"] file_write_def from_io_def)
  have c: "f_cache ?f1 = f_cache f @ ascii (take n (entry_line e))"
    by (simp add: file_put_def ascii_def take_map)
  obtain r sc2 f2 where 2: "write_entry e' [] ?f1 = (r, sc2, f2)"
    by (cases "write_entry e' [] ?f1") auto
  then have r: "r = Inr ()" "sc2 = []"
    using ne by (auto simp: write_entry_def append_full_def write_full.simps [of "ascii _"]
        write_full.simps [of "[]"] file_write_def fsync_file_def file_sync_def os_call_def)
  have "emit_all [e, e'] a = ([Inl AuditWriteFailed, Inr ()], \<lparr>au_sink = Some f2, au_script = []\<rparr>)"
    using assms(1,2) 1 2 r by (simp add: audit_emit_def)
  moreover have "f_durable f2 = f_cache f @ ascii (take n (entry_line e) @ entry_line e')"
    using write_entry_Inr [OF 2 [unfolded r]] c by (simp add: ascii_append)
  moreover have "entry_line e'' \<noteq> take n (entry_line e) @ entry_line e'" for e''
    using one_brace [of e'' "take n (entry_line e)" "entry_line e'"] assms(3)
    by (auto simp: entry_line_def audit_entry_to_json_def)
  ultimately show ?thesis by blast
qed

lemma write_entry_undisturbed: "\<exists>f'. write_entry e [] f = (Inr (), [], f')"
proof -
  have "ascii (entry_line e) \<noteq> []" by (simp add: ascii_def entry_line_def)
  then show ?thesis
    by (simp add: write_entry_def append_full_def write_full.simps [of "ascii _"]
        write_full.simps [of "[]"] file_write_def fsync_file_def file_sync_def os_call_def)
qed

definition demo_entries :: "audit_entry list" where
  "demo_entries =
    [\<lparr>ae_book_id = replicate 16 7, ae_segment = 3, ae_generation = Generation 2,
       ae_outcome = Issued, ae_error_category = None\<rparr>,
     \<lparr>ae_book_id = replicate 16 7, ae_segment = 4, ae_generation = Generation 3,
       ae_outcome = Rejected, ae_error_category = Some CatHandshake\<rparr>]"

theorem audit_log_reads_back_witness:
  "\<exists>a' f'. emit_all demo_entries \<lparr>au_sink = Some (file_of []), au_script = []\<rparr> = ([Inr (), Inr ()], a') \<and>
     au_sink a' = Some f' \<and> f_durable f' = ascii (audit_text demo_entries)"
proof -
  let ?a = "\<lparr>au_sink = Some (file_of []), au_script = []\<rparr>"
  obtain e e' where es: "demo_entries = [e, e']" "audit_entry_ok e" "audit_entry_ok e'"
    by (simp add: demo_entries_def audit_entry_ok_def)
  obtain f1 where 1: "write_entry e [] (file_of []) = (Inr (), [], f1)" using write_entry_undisturbed by blast
  obtain f2 where 2: "write_entry e' [] f1 = (Inr (), [], f2)" using write_entry_undisturbed by blast
  have run: "emit_all demo_entries ?a
      = (replicate (length demo_entries) (Inr ()), \<lparr>au_sink = Some f2, au_script = []\<rparr>)"
    unfolding es(1) by (simp add: audit_emit_def 1 2)
  have ok: "list_all audit_entry_ok demo_entries" unfolding es(1) by (simp add: es(2,3))
  show ?thesis
    using audit_log_reads_back [OF run _ _ ok ok, of "file_of []"] run
    unfolding es(1) by (auto simp: file_of_def)
qed

end
