(* ===== verification/Platform.thy ===== *)
theory Platform
  imports OsFile
begin

text \<open>
  The rest of the platform layer (\<open>crates/otp-platform/src/lib.rs\<close>): the file systems that are
  accepted, the open-file-description lock, the lease with its fencing token, the fault-injecting
  anchor backend and the environment report. What \<open>statfs\<close>, \<open>open\<close>, \<open>fcntl\<close> and
  \<open>getrlimit\<close> answer is an argument; the file operations of the lease run on a script of
  outcomes. \<open>anchor_provider\<close> is the contract of the trait \<open>AnchorBackend\<close>, interpreted on
  both of its implementations.
\<close>

section \<open>File systems and the lock\<close>

text \<open>\<open>require_supported_filesystem\<close>, given what \<open>statfs_magic\<close> returned for the probed path.\<close>

definition require_supported_filesystem :: "platform_error + int \<Rightarrow> platform_error + unit" where
  "require_supported_filesystem statfs = rbind statfs (\<lambda>magic.
     if magic = 0xEF53 \<or> magic = 0x58465342 \<or> magic = 0x9123683E then Inr ()
     else if magic = 0x6969 then Inl (UnsupportedFilesystem ''nfs'')
     else if magic = 0x65735546 then Inl (UnsupportedFilesystem ''fuse'')
     else if magic = 0x794C7630 then Inl (UnsupportedFilesystem ''overlay'')
     else if magic = 0x01021994 then Inl (UnsupportedFilesystem ''tmpfs'')
     else Inl (UnsupportedFilesystem ''unknown''))"

text \<open>The errors of Linux that \<open>fcntl\<close> is asked about.\<close>

definition EACCES :: int where "EACCES = 13"
definition EAGAIN :: int where "EAGAIN = 11"
definition EINVAL :: int where "EINVAL = 22"
definition ENOSYS :: int where "ENOSYS = 38"
definition ENOTSUP :: int where "ENOTSUP = 95"

lemmas errno_defs = EACCES_def EAGAIN_def EINVAL_def ENOSYS_def ENOTSUP_def

text \<open>
  \<open>acquire_ofd_lock_unchecked\<close>: \<open>opened\<close> is the error of \<open>open\<close>, if any; \<open>locked\<close> is
  \<open>None\<close> when \<open>fcntl\<close> succeeded and the raw error otherwise.
\<close>

definition acquire_ofd_lock_unchecked ::
  "os_outcome option \<Rightarrow> int option option \<Rightarrow> platform_error + unit" where
  "acquire_ofd_lock_unchecked opened locked =
     (case opened of
        Some e \<Rightarrow> Inl (from_io e)
      | None \<Rightarrow>
          (case locked of
             None \<Rightarrow> Inr ()
           | Some (Some c) \<Rightarrow>
               if c = EAGAIN \<or> c = EACCES then Inl LockHeld
               else if c = EINVAL \<or> c = ENOSYS \<or> c = ENOTSUP then Inl LockUnsupported
               else Inl PlIo
           | Some None \<Rightarrow> Inl PlIo))"

definition acquire_ofd_lock ::
  "platform_error + int \<Rightarrow> os_outcome option \<Rightarrow> int option option \<Rightarrow> platform_error + unit" where
  "acquire_ofd_lock statfs opened locked =
     rbind (require_supported_filesystem statfs) (\<lambda>_. acquire_ofd_lock_unchecked opened locked)"

section \<open>The lease\<close>

definition to_le64 :: "u64 \<Rightarrow> bytes" where "to_le64 w = rev (to_be64 w)"
definition from_le64 :: "bytes \<Rightarrow> u64" where "from_le64 bs = from_be64 (rev bs)"

text \<open>One \<open>read\<close> into a buffer of eight bytes: a regular file gives what it has from the position.\<close>

definition file_read8 :: "script \<Rightarrow> os_file \<Rightarrow> (os_outcome + bytes) \<times> script \<times> os_file" where
  "file_read8 sc f = (case os_call sc of
     (None, sc') \<Rightarrow>
       (let bs = take 8 (drop (f_pos f) (f_cache f)) in
         (Inr bs, sc', f\<lparr>f_pos := f_pos f + length bs\<rparr>))
   | (Some e, sc') \<Rightarrow> (Inl e, sc', f))"

text \<open>The token a lease file stands for: none yet, eight bytes, or not a lease file.\<close>

definition old_token :: "bytes \<Rightarrow> platform_error + u64" where
  "old_token bs = (if length bs = 0 then Inr 0
     else if length bs = 8 then Inr (from_le64 bs)
     else Inl InvalidData)"

text \<open>
  \<open>acquire_lease\<close> once the lock was asked for: duplicate the handle, read the old token, add one,
  truncate, write, sync.
\<close>

definition write_token :: "u64 \<Rightarrow> script \<Rightarrow> os_file \<Rightarrow> (platform_error + u64) \<times> script \<times> os_file" where
  "write_token token sc f =
     (case file_seek0 sc f of
        (Inl e, sc, f) \<Rightarrow> (Inl (from_io e), sc, f)
      | (Inr _, sc, f) \<Rightarrow> (case file_set_len 0 sc f of
          (Inl e, sc, f) \<Rightarrow> (Inl (from_io e), sc, f)
        | (Inr _, sc, f) \<Rightarrow> (case write_full (to_le64 token) sc f of
            (Inl e, sc, f) \<Rightarrow> (Inl e, sc, f)
          | (Inr _, sc, f) \<Rightarrow> (case fsync_file sc f of
              (Inl e, sc, f) \<Rightarrow> (Inl e, sc, f)
            | (Inr _, sc, f) \<Rightarrow> (Inr token, sc, f)))))"

definition acquire_lease ::
  "platform_error + unit \<Rightarrow> script \<Rightarrow> os_file \<Rightarrow> (platform_error + u64) \<times> script \<times> os_file" where
  "acquire_lease lock sc f =
     (case lock of
        Inl e \<Rightarrow> (Inl e, sc, f)
      | Inr _ \<Rightarrow> (case os_call sc of
          (Some e, sc) \<Rightarrow> (Inl (from_io e), sc, f)
        | (None, sc) \<Rightarrow> (case file_seek0 sc f of
            (Inl e, sc, f) \<Rightarrow> (Inl (from_io e), sc, f)
          | (Inr _, sc, f) \<Rightarrow> (case file_read8 sc f of
              (Inl e, sc, f) \<Rightarrow> (Inl (from_io e), sc, f)
            | (Inr bs, sc, f) \<Rightarrow>
                (case rbind (old_token bs) (\<lambda>old. ok_or InvalidData (u64_checked_add old 1)) of
                   Inl e \<Rightarrow> (Inl e, sc, f)
                 | Inr token \<Rightarrow> write_token token sc f)))))"

section \<open>The fault-injecting backend\<close>

datatype fault_point = AtRead | AtWrite nat | AtFsync | AtParentFsync | AtCrash

record faulty =
  fb_data :: bytes
  fb_short_write :: "nat option"
  fb_fail_at :: "fault_point option"
  fb_writes :: nat
  fb_created :: bool

definition faulty_new :: faulty where
  "faulty_new = \<lparr>fb_data = [], fb_short_write = None, fb_fail_at = None, fb_writes = 0,
     fb_created = True\<rparr>"

definition faulty_fail :: "fault_point \<Rightarrow> faulty \<Rightarrow> platform_error + unit" where
  "faulty_fail p b = (if fb_fail_at b = Some p
     then Inl (if p = AtCrash then CrashInjected else InjectedIo) else Inr ())"

definition faulty_read_verified ::
  "(bytes \<Rightarrow> platform_error + 'a) \<Rightarrow> faulty \<Rightarrow> (platform_error + 'a) \<times> faulty" where
  "faulty_read_verified verify b =
     (rbind (faulty_fail AtRead b) (\<lambda>_. verify (fb_data b)), b)"

text \<open>The write loop; the cap is at least one, so every turn makes progress.\<close>

definition write_cap :: "bytes \<Rightarrow> faulty \<Rightarrow> nat" where
  "write_cap d b = max (case fb_short_write b of Some n \<Rightarrow> n | None \<Rightarrow> length d) 1"

function faulty_write_loop :: "bytes \<Rightarrow> faulty \<Rightarrow> (platform_error + unit) \<times> faulty" where
  "faulty_write_loop d b =
     (if length (fb_data b) < length d then
        (case faulty_fail (AtWrite (fb_writes b)) b of
           Inl e \<Rightarrow> (Inl e, b)
         | Inr _ \<Rightarrow>
             (let stop = min (length (fb_data b) + write_cap d b) (length d) in
               faulty_write_loop d
                 (b\<lparr>fb_data := fb_data b @ slice_of (length (fb_data b)) stop d,
                    fb_writes := fb_writes b + 1\<rparr>)))
      else (Inr (), b))"
  by pat_completeness auto
termination
  by (relation "measure (\<lambda>(d, b). length d - length (fb_data b))") (auto simp: write_cap_def)

declare faulty_write_loop.simps [simp del]

definition faulty_write_full_and_sync :: "bytes \<Rightarrow> faulty \<Rightarrow> (platform_error + unit) \<times> faulty" where
  "faulty_write_full_and_sync d b =
     (case faulty_write_loop d (b\<lparr>fb_data := [], fb_writes := 0\<rparr>) of
        (Inl e, b) \<Rightarrow> (Inl e, b)
      | (Inr _, b) \<Rightarrow> (rbind (faulty_fail AtFsync b) (\<lambda>_. faulty_fail AtCrash b), b))"

definition faulty_sync_parent :: "faulty \<Rightarrow> (platform_error + unit) \<times> faulty" where
  "faulty_sync_parent b =
     (if fb_created b then
        (case faulty_fail AtParentFsync b of
           Inl e \<Rightarrow> (Inl e, b)
         | Inr _ \<Rightarrow> (Inr (), b\<lparr>fb_created := False\<rparr>))
      else (Inr (), b))"

section \<open>The environment report\<close>

datatype check_status = ChkOk | ChkWarn string | ChkBlock string

record environment_report =
  er_core_dump :: check_status
  er_swap :: check_status
  er_filesystem :: check_status
  er_permissions :: check_status

text \<open>
  \<open>probe_environment_for\<close>: the soft limit on core files, the number of lines of
  \<open>/proc/swaps\<close> and the answer of \<open>statfs\<close> are arguments.
\<close>

definition probe_environment_for ::
  "u64 option \<Rightarrow> nat option \<Rightarrow> platform_error + int \<Rightarrow> environment_report" where
  "probe_environment_for core_limit swap_lines statfs =
     \<lparr>er_core_dump = (if core_limit = Some 0 then ChkOk else ChkBlock ''RLIMIT_CORE is not zero''),
      er_swap = (case swap_lines of
          Some n \<Rightarrow> if n \<le> 1 then ChkOk
            else ChkWarn ''swap enabled; require encrypted swap or mlock policy''
        | None \<Rightarrow> ChkWarn ''cannot inspect /proc/swaps''),
      er_filesystem = (case require_supported_filesystem statfs of
          Inr _ \<Rightarrow> ChkOk
        | Inl _ \<Rightarrow> ChkBlock ''anchor filesystem is unsupported or unknown''),
      er_permissions = ChkWarn ''permission policy pending WP-15 path configuration''\<rparr>"

section \<open>The contract of the anchor backend\<close>

text \<open>
  What \<open>AnchorBackend\<close> promises its callers: a read shows the verifier the bytes that are
  held and does not change them, a write that reports success leaves exactly the bytes given,
  syncing the parent directory leaves the bytes alone.
\<close>

locale anchor_provider =
  fixes rd :: "(bytes \<Rightarrow> platform_error + 'a) \<Rightarrow> 'b \<Rightarrow> (platform_error + 'a) \<times> 'b"
    and wr :: "bytes \<Rightarrow> 'b \<Rightarrow> (platform_error + unit) \<times> 'b"
    and psync :: "'b \<Rightarrow> (platform_error + unit) \<times> 'b"
    and image :: "'b \<Rightarrow> bytes"
  assumes rd_image: "rd v b = (x, b') \<Longrightarrow> image b' = image b"
    and rd_verified: "rd v b = (Inr a, b') \<Longrightarrow> v (image b) = Inr a"
    and wr_image: "wr d b = (Inr u, b') \<Longrightarrow> image b' = d"
    and psync_image: "psync b = (y, b') \<Longrightarrow> image b' = image b"
begin

lemma written_is_read:
  assumes "wr d b = (Inr u, b1)" and "psync b1 = (y, b2)" and "rd v b2 = (Inr a, b3)"
  shows "v d = Inr a \<and> image b3 = d"
  using wr_image [OF assms(1)] psync_image [OF assms(2)] rd_verified [OF assms(3)] rd_image [OF assms(3)]
  by simp

lemma reads_agree:
  assumes "rd v b = (Inr a, b1)" and "rd v b1 = (Inr a', b2)"
  shows "a = a'"
  using rd_verified [OF assms(1)] rd_verified [OF assms(2)] rd_image [OF assms(1)] by simp

end

interpretation fileb: anchor_provider backend_read_verified backend_write_full_and_sync
  backend_sync_parent "\<lambda>b. f_cache (ab_file b)"
proof
  fix v :: "bytes \<Rightarrow> platform_error + 'a" and b x b'
  assume "backend_read_verified v b = (x, b')"
  then show "f_cache (ab_file b') = f_cache (ab_file b)" by (simp add: backend_read_cache)
next
  fix v :: "bytes \<Rightarrow> platform_error + 'a" and b a b'
  assume "backend_read_verified v b = (Inr a, b')"
  then show "v (f_cache (ab_file b)) = Inr a" using backend_read_cache by fastforce
next
  fix d b u b'
  assume "backend_write_full_and_sync d b = (Inr u, b')"
  then show "f_cache (ab_file b') = d" by (simp add: backend_write_cache)
next
  fix b x b'
  assume "backend_sync_parent b = (x, b')"
  then show "f_cache (ab_file b') = f_cache (ab_file b)"
    by (auto simp: backend_sync_parent_def split: if_splits prod.splits option.splits)
qed

text \<open>The write loop of the other implementation holds a prefix of the data and ends with all of it.\<close>

lemma faulty_write_loop_data:
  "faulty_write_loop d b = (Inr (), b') \<Longrightarrow> fb_data b = take k d \<Longrightarrow> fb_data b' = d"
proof (induction d b arbitrary: b' k rule: faulty_write_loop.induct)
  case (1 d b)
  show ?case
  proof (cases "length (fb_data b) < length d")
    case False
    then have "fb_data b = d" using "1.prems"(2) by simp
    then show ?thesis using "1.prems" False by (auto simp: faulty_write_loop.simps [of d b])
  next
    case True
    show ?thesis
    proof (cases "faulty_fail (AtWrite (fb_writes b)) b")
      case (Inl e)
      then show ?thesis using "1.prems"(1) True by (simp add: faulty_write_loop.simps [of d b])
    next
      case (Inr u)
      let ?stop = "min (length (fb_data b) + write_cap d b) (length d)"
      let ?b = "b\<lparr>fb_data := fb_data b @ slice_of (length (fb_data b)) ?stop d,
        fb_writes := fb_writes b + 1\<rparr>"
      have "faulty_write_loop d ?b = (Inr (), b')"
        using "1.prems"(1) True Inr by (simp add: faulty_write_loop.simps [of d b] Let_def)
      moreover have "fb_data ?b = take ?stop d"
        using slice_slice [of 0 "length (fb_data b)" ?stop d] True "1.prems"(2)
        by (simp add: slice_of_def)
      ultimately show ?thesis by (rule "1.IH" [OF True Inr refl])
    qed
  qed
qed

lemma faulty_write_data:
  "faulty_write_full_and_sync d b = (Inr u, b') \<Longrightarrow> fb_data b' = d"
  using faulty_write_loop_data [of d "b\<lparr>fb_data := [], fb_writes := 0\<rparr>" _ 0]
  by (auto simp: faulty_write_full_and_sync_def split: prod.splits sum.splits)

interpretation faultb: anchor_provider faulty_read_verified faulty_write_full_and_sync
  faulty_sync_parent fb_data
  by unfold_locales
     (auto simp: faulty_read_verified_def rbind_Inr_iff faulty_sync_parent_def faulty_write_data
       split: if_splits sum.splits)

section \<open>The lease\<close>

lemma le64 [simp]: "from_le64 (to_le64 w) = w" "length (to_le64 w) = 8"
  by (simp_all add: from_le64_def to_le64_def)

lemma to_le64_nonempty [simp]: "to_le64 w \<noteq> []"
  by (simp add: list_eq_iff_nth_eq)

lemma old_token_le64 [simp]: "old_token (to_le64 w) = Inr w"
  by (simp add: old_token_def)

text \<open>What the file stands for, with nothing and rubbish both counted as zero.\<close>

definition held_token :: "os_file \<Rightarrow> nat" where
  "held_token f = (case old_token (take 8 (f_cache f)) of Inl _ \<Rightarrow> 0 | Inr t \<Rightarrow> unat t)"

lemma write_token_cases:
  assumes "write_token t sc f = (r, sc', f')"
  shows "(f_cache f' = f_cache f \<and> is_err r) \<or>
    (\<exists>k. f_cache f' = take k (to_le64 t) \<and> (r = Inr t \<and> k = 8 \<and> f_durable f' = to_le64 t \<or> is_err r))"
proof -
  obtain a sc1 f1 where s: "file_seek0 sc f = (a, sc1, f1)" by (cases "file_seek0 sc f") auto
  obtain c sc2 f2 where l: "file_set_len 0 sc1 f1 = (c, sc2, f2)" by (cases "file_set_len 0 sc1 f1") auto
  obtain w sc3 f3 where w: "write_full (to_le64 t) sc2 f2 = (w, sc3, f3)"
    by (cases "write_full (to_le64 t) sc2 f2") auto
  have f1: "f_cache f1 = f_cache f" "a = Inr () \<Longrightarrow> f_pos f1 = 0"
    using s by (auto simp: file_seek0_def split: prod.splits option.splits)
  have f2: "c = Inr () \<Longrightarrow> f_cache f2 = []" "f_pos f2 = f_pos f1" "is_err c \<Longrightarrow> f2 = f1"
    using l by (auto simp: file_set_len_def split: prod.splits option.splits)
  show ?thesis
  proof (cases "a = Inr () \<and> c = Inr ()")
    case False
    then show ?thesis using assms s l f1 f2 by (auto simp: write_token_def split: sum.splits)
  next
    case True
    then obtain k where k: "f_cache f3 = take k (to_le64 t)"
      using write_full_prefix [OF w] f1 f2 by (auto simp: file_put_def)
    show ?thesis
    proof (cases w)
      case (Inl e)
      then show ?thesis using assms s l w True k by (auto simp: write_token_def)
    next
      case (Inr u)
      then have "f_cache f3 = to_le64 t" using write_full_fresh w True f1 f2 by simp
      then have "f_cache f' = take 8 (to_le64 t) \<and> (r = Inr t \<and> f_durable f' = to_le64 t \<or> is_err r)"
        using assms s l w True Inr
        by (auto simp: write_token_def fsync_file_def file_sync_def split: prod.splits option.splits)
      then show ?thesis by blast
    qed
  qed
qed

text \<open>
  An attempt either leaves the file as it was, or rewrites it with a prefix of a token that is
  one more than the token found; it succeeds only with all eight bytes on the disk.
\<close>

lemma acquire_lease_cases:
  assumes "acquire_lease lock sc f = (r, sc', f')"
  shows "(f_cache f' = f_cache f \<and> is_err r) \<or>
    (\<exists>t k. lock = Inr () \<and> unat t = held_token f + 1 \<and> \<not> is_err (old_token (take 8 (f_cache f))) \<and>
      f_cache f' = take k (to_le64 t) \<and>
      (r = Inr t \<and> k = 8 \<and> f_durable f' = to_le64 t \<or> is_err r))"
proof -
  obtain c sc0 where o: "os_call sc = (c, sc0)" by (cases "os_call sc") auto
  obtain a sc1 f1 where s: "file_seek0 sc0 f = (a, sc1, f1)" by (cases "file_seek0 sc0 f") auto
  obtain b sc2 f2 where g: "file_read8 sc1 f1 = (b, sc2, f2)" by (cases "file_read8 sc1 f1") auto
  have f1: "f_cache f1 = f_cache f" "a = Inr () \<Longrightarrow> f_pos f1 = 0"
    using s by (auto simp: file_seek0_def split: prod.splits option.splits)
  have f2: "f_cache f2 = f_cache f1" "b = Inr bs \<Longrightarrow> bs = take 8 (drop (f_pos f1) (f_cache f1))" for bs
    using g by (auto simp: file_read8_def Let_def split: prod.splits option.splits)
  show ?thesis
  proof (cases "\<exists>bs. lock = Inr () \<and> c = None \<and> a = Inr () \<and> b = Inr bs")
    case False
    then show ?thesis
      using assms o s g f1 f2 by (auto simp: acquire_lease_def split: sum.splits option.splits)
  next
    case True
    then obtain bs where b: "lock = Inr ()" "c = None" "a = Inr ()" "b = Inr bs" by blast
    then have bs: "bs = take 8 (f_cache f)" using f1 f2 by simp
    show ?thesis
    proof (cases "rbind (old_token bs) (\<lambda>old. ok_or InvalidData (u64_checked_add old 1))")
      case (Inl e)
      then have "r = Inl e" "f' = f2" using assms o s g b by (simp_all add: acquire_lease_def)
      then show ?thesis using f1 f2 by simp
    next
      case (Inr t)
      then have w: "write_token t sc2 f2 = (r, sc', f')"
        using assms o s g b by (simp add: acquire_lease_def)
      obtain old where old: "old_token bs = Inr old" "u64_checked_add old 1 = Some t"
        using Inr by (auto simp: rbind_Inr_iff)
      then have t: "unat t = held_token f + 1 \<and> \<not> is_err (old_token (take 8 (f_cache f)))"
        using u64_checked_add_unat [OF old(2)] bs by (simp add: held_token_def)
      from write_token_cases [OF w] show ?thesis
      proof (elim disjE exE conjE)
        fix k
        assume "f_cache f' = take k (to_le64 t)" and "is_err r"
        then show ?thesis using t b by blast
      next
        fix k
        assume "f_cache f' = take k (to_le64 t)" and "r = Inr t" "k = 8" "f_durable f' = to_le64 t"
        then show ?thesis using t b by blast
      qed (simp add: f1 f2)
    qed
  qed
qed

text \<open>
  A history of attempts on one lease file: for each, the answer of the lock and the script of
  the system; the result lists what each returned, with the file before and after.
\<close>

fun lease_attempts :: "((platform_error + unit) \<times> script) list \<Rightarrow> os_file \<Rightarrow>
    ((platform_error + u64) \<times> os_file \<times> os_file) list" where
  "lease_attempts [] f = []"
| "lease_attempts ((lock, sc) # as) f =
     (case acquire_lease lock sc f of (r, _, f') \<Rightarrow> (r, f, f') # lease_attempts as f')"

definition tokens_of :: "((platform_error + u64) \<times> 'c) list \<Rightarrow> u64 list" where
  "tokens_of rs = concat (map (\<lambda>(r, _). case r of Inr t \<Rightarrow> [t] | Inl _ \<Rightarrow> []) rs)"

lemma tokens_of_simps [simp]:
  "tokens_of [] = []"
  "tokens_of ((Inr t, x) # rs) = t # tokens_of rs"
  "tokens_of ((Inl e, x) # rs) = tokens_of rs"
  by (simp_all add: tokens_of_def)

definition not_shortened :: "(platform_error + u64) \<times> os_file \<times> os_file \<Rightarrow> bool" where
  "not_shortened x = (case x of (_, f, f') \<Rightarrow> length (f_cache f) \<le> length (f_cache f'))"

lemma acquire_lease_held:
  assumes "acquire_lease lock sc f = (r, sc', f')" and "length (f_cache f) \<le> length (f_cache f')"
  shows "held_token f \<le> held_token f' \<and>
    (\<forall>t. r = Inr t \<longrightarrow> held_token f < unat t \<and> held_token f' = unat t)"
  using acquire_lease_cases [OF assms(1)]
proof (elim disjE exE conjE)
  fix t k
  assume t: "unat t = held_token f + 1" and c: "f_cache f' = take k (to_le64 t)" and "is_err r"
    and ok: "\<not> is_err (old_token (take 8 (f_cache f)))"
  have "held_token f \<le> held_token f'"
  proof (cases "8 \<le> k")
    case True
    then show ?thesis using t c by (simp add: held_token_def)
  next
    case False
    then have "length (f_cache f) < 8" using assms(2) c by simp
    then have "f_cache f = []" using ok by (auto simp: old_token_def split: if_splits)
    then show ?thesis by (simp add: held_token_def old_token_def)
  qed
  then show ?thesis using \<open>is_err r\<close> by auto
qed (auto simp: held_token_def)

lemma lease_attempts_above:
  "list_all not_shortened (lease_attempts as f) \<Longrightarrow>
    sorted_wrt (<) (tokens_of (lease_attempts as f)) \<and>
    (\<forall>t \<in> set (tokens_of (lease_attempts as f)). held_token f < unat t)"
proof (induction as arbitrary: f)
  case (Cons a as)
  obtain lock sc where a: "a = (lock, sc)" by (cases a)
  obtain r sc' f' where c: "acquire_lease lock sc f = (r, sc', f')"
    by (cases "acquire_lease lock sc f") auto
  have ih: "sorted_wrt (<) (tokens_of (lease_attempts as f'))"
    "\<And>t. t \<in> set (tokens_of (lease_attempts as f')) \<Longrightarrow> held_token f' < unat t"
    using Cons.IH [of f'] Cons.prems a c by simp_all
  have h: "held_token f \<le> held_token f'"
    "\<And>t. r = Inr t \<Longrightarrow> held_token f < unat t \<and> held_token f' = unat t"
    using acquire_lease_held [OF c] Cons.prems a c by (simp_all add: not_shortened_def)
  then show ?case
    using ih a c by (cases r) (auto simp: word_less_nat_alt [symmetric] dest!: ih(2) intro: order_less_trans word_less_nat_alt [THEN iffD1])
qed simp

lemma lease_attempts_durable:
  "(Inr t, g, g') \<in> set (lease_attempts as f) \<Longrightarrow>
    f_durable g' = to_le64 t \<and> unat t = held_token g + 1"
proof (induction as arbitrary: f)
  case (Cons a as)
  obtain lock sc where a: "a = (lock, sc)" by (cases a)
  obtain r sc' f' where c: "acquire_lease lock sc f = (r, sc', f')"
    by (cases "acquire_lease lock sc f") auto
  then show ?case using Cons a acquire_lease_cases [OF c] by auto
qed simp

text \<open>Fencing tokens grow. Over any history of attempts on one lease file, with the lock and
  every system call free to fail, the tokens handed out are strictly increasing, each is one
  more than the file held and is on the disk before the lease is granted, provided no attempt
  stopped between truncating the file and writing the token.\<close>

theorem lease_tokens_increase:
  assumes "list_all not_shortened (lease_attempts as f)"
  shows "sorted_wrt (<) (tokens_of (lease_attempts as f)) \<and>
    (\<forall>t g g'. (Inr t, g, g') \<in> set (lease_attempts as f) \<longrightarrow>
      f_durable g' = to_le64 t \<and> unat t = held_token g + 1)"
  using lease_attempts_above [OF assms] lease_attempts_durable by blast

lemmas lease_run_simps = acquire_lease_def write_token_def os_call_def file_seek0_def
  file_read8_def file_set_len_def file_write_def fsync_file_def file_sync_def
  u64_checked_add_def write_full.simps [of "to_le64 _"] write_full.simps [of "[]"]
  from_io_def old_token_def file_put_def

theorem lease_tokens_increase_witness:
  "map fst (lease_attempts [(Inr (), []), (Inl LockHeld, []), (Inr (), [OsOk 0, OsOther]), (Inr (), [])]
      (file_of [])) = [Inr 1, Inl LockHeld, Inl PlIo, Inr 2] \<and> sorted_wrt (<) [1 :: u64, 2]"
proof -
  let ?as = "[(Inr (), []), (Inl LockHeld, []), (Inr (), [OsOk 0, OsOther]), (Inr (), [])]"
  have run: "map fst (lease_attempts ?as (file_of [])) = [Inr 1, Inl LockHeld, Inl PlIo, Inr 2]"
    "list_all not_shortened (lease_attempts ?as (file_of []))"
    "tokens_of (lease_attempts ?as (file_of [])) = [1, 2]"
    by (simp_all add: lease_run_simps file_of_def not_shortened_def)
  show ?thesis using lease_tokens_increase [of ?as "file_of []"] run by simp
qed

text \<open>The proviso is needed. \<open>acquire_lease\<close> truncates the file before it writes the new
  token, so an attempt that finds the disk full returns the error and leaves an empty file, and
  the next attempt, reading no token, grants the lease with token 1 whatever the file held.\<close>

theorem lease_token_restarts:
  assumes "f_cache f = to_le64 old" and "unat old + 1 < 2 ^ 64"
  shows "map fst (lease_attempts
      [(Inr (), [OsOk 0, OsOk 0, OsOk 0, OsOk 0, OsOk 0, OsNoSpace]), (Inr (), [])] f)
    = [Inl PlNoSpace, Inr 1]"
  using assms by (simp add: lease_run_simps)

theorem lease_token_restarts_witness:
  "map fst (lease_attempts
      [(Inr (), [OsOk 0, OsOk 0, OsOk 0, OsOk 0, OsOk 0, OsNoSpace]), (Inr (), [])]
      (file_of (to_le64 41))) = [Inl PlNoSpace, Inr 1]"
  by (rule lease_token_restarts [of _ 41]) (simp_all add: file_of_def)

end
