(* ===== verification/Doctor.thy ===== *)
theory Doctor
  imports Platform Text
begin

text \<open>
  The check of the environment (\<open>crates/otp-platform/src/doctor.rs\<close>, \<open>crates/otp-cli/src/doctor.rs\<close>)
  that both programs run before they touch a segment. Every check is split, as in the code, into facts and
  a policy over them. The facts that only the kernel can give (limits, \<open>stat\<close>, \<open>statfs\<close>, the
  existence of a file) are arguments, gathered in \<open>doctor_probes\<close>; the texts of \<open>/proc\<close> are parsed
  here. Texts that are parsed are lists of code points, texts that are printed lists of bytes.
\<close>

section \<open>Findings and reports\<close>

datatype doctor_category = DcCoreDump | DcSwap | DcPermissions | DcFilesystem | DcBackupRisk

fun doctor_category_name :: "doctor_category \<Rightarrow> string" where
  "doctor_category_name DcCoreDump = ''core-dump''"
| "doctor_category_name DcSwap = ''swap''"
| "doctor_category_name DcPermissions = ''permissions''"
| "doctor_category_name DcFilesystem = ''filesystem''"
| "doctor_category_name DcBackupRisk = ''backup-risk''"

record doctor_finding =
  df_category :: doctor_category
  df_target :: string
  df_status :: check_status

fun blocks :: "check_status \<Rightarrow> bool" where
  "blocks (ChkBlock _) = True"
| "blocks _ = False"

definition refuse_startup :: "doctor_finding list \<Rightarrow> bool" where
  "refuse_startup fs \<longleftrightarrow> list_ex (\<lambda>f. blocks (df_status f)) fs"

definition utf8_text :: "nat list \<Rightarrow> string" where
  "utf8_text bs = map char_of bs"

definition finding_line :: "doctor_finding \<Rightarrow> string" where
  "finding_line f =
     (let (tag, detail) = (case df_status f of
          ChkOk \<Rightarrow> (''ok'', '''')
        | ChkWarn d \<Rightarrow> (''warn'', d)
        | ChkBlock d \<Rightarrow> (''BLOCK'', d));
        start = ''['' @ tag @ ''] '' @ doctor_category_name (df_category f) @ '': '' @ df_target f in
      if detail = '''' then start else start @ utf8_text [32, 226, 128, 148, 32] @ detail)"

definition doctor_summary :: "doctor_finding list \<Rightarrow> string" where
  "doctor_summary fs = concat (map (\<lambda>f. finding_line f @ [newline]) fs)
     @ (if refuse_startup fs then utf8_text
    [231, 187, 147, 232, 174, 186, 239, 188, 154, 229, 173, 152, 229, 156, 168, 233, 171, 152,
     233, 163, 142, 233, 153, 169, 239, 188, 136, 66, 76, 79, 67, 75, 239, 188, 137, 233, 161,
     185, 239, 188, 140, 230, 140, 137, 231, 173, 150, 231, 149, 165, 230, 139, 146, 231, 187,
     157, 229, 144, 175, 229, 138, 168, 10]
        else utf8_text
    [231, 187, 147, 232, 174, 186, 239, 188, 154, 230, 151, 160, 32, 66, 76, 79, 67, 75, 32, 233,
     161, 185, 239, 188, 136, 119, 97, 114, 110, 32, 233, 161, 185, 232, 167, 129, 228, 184, 138,
     239, 188, 137, 10])"

definition finding_json :: "doctor_finding \<Rightarrow> string" where
  "finding_json f =
     (let (status, detail) = (case df_status f of
          ChkOk \<Rightarrow> (''ok'', '''')
        | ChkWarn d \<Rightarrow> (''warn'', d)
        | ChkBlock d \<Rightarrow> (''block'', d)) in
      ''{'' @ quoted ''category'' @ '':'' @ quoted (doctor_category_name (df_category f))
      @ '','' @ quoted ''target'' @ '':'' @ quoted (df_target f)
      @ '','' @ quoted ''status'' @ '':'' @ quoted status
      @ '','' @ quoted ''detail'' @ '':'' @ quoted detail @ ''}'')"

definition doctor_to_json :: "doctor_finding list \<Rightarrow> string" where
  "doctor_to_json fs = ''{'' @ quoted ''findings'' @ '':['' @ join '','' (map finding_json fs)
     @ ''],'' @ quoted ''refuse_startup'' @ '':'' @ (if refuse_startup fs then ''true'' else ''false'') @ ''}''"

section \<open>Core dumps\<close>

record core_facts =
  cf_core_limit :: "u64 option"
  cf_dumpable :: "u32 option"

definition eval_core :: "core_facts \<Rightarrow> check_status" where
  "eval_core f = (case (cf_core_limit f, cf_dumpable f) of
     (Some l, Some d) \<Rightarrow> if l = 0 \<and> d = 0 then ChkOk
       else ChkBlock (utf8_text
    [82, 76, 73, 77, 73, 84, 95, 67, 79, 82, 69, 47, 100, 117, 109, 112, 97, 98, 108, 101, 32,
     230, 156, 170, 229, 144, 140, 230, 151, 182, 229, 189, 146, 233, 155, 182, 239, 188, 136,
     99, 111, 114, 101, 32, 230, 179, 132, 233, 156, 178, 233, 157, 162, 239, 188, 137])
   | _ \<Rightarrow> ChkBlock (utf8_text
    [230, 151, 160, 230, 179, 149, 232, 175, 187, 229, 143, 150, 32, 82, 76, 73, 77, 73, 84, 95,
     67, 79, 82, 69, 32, 230, 136, 150, 32, 100, 117, 109, 112, 97, 98, 108, 101, 32, 231, 138,
     182, 230, 128, 129]))"

text \<open>
  The attributes of the process that hardening sets. Each of the five calls may fail; a failed \<open>get\<close>
  is a fact that is missing.
\<close>

record process =
  pr_core_soft :: u64
  pr_dumpable :: u32

definition collect_core_facts :: "script \<Rightarrow> process \<Rightarrow> core_facts \<times> script" where
  "collect_core_facts sc p =
     (case os_call sc of (e1, sc) \<Rightarrow> (case os_call sc of (e2, sc) \<Rightarrow>
       (\<lparr>cf_core_limit = (if e1 = None then Some (pr_core_soft p) else None),
         cf_dumpable = (if e2 = None then Some (pr_dumpable p) else None)\<rparr>, sc)))"

datatype harden_error = HdGetrlimit | HdSetrlimit | HdPrctl | HdStillOpen

definition harden_process :: "script \<Rightarrow> process \<Rightarrow> (harden_error + unit) \<times> script \<times> process" where
  "harden_process sc p = (case os_call sc of
     (Some _, sc) \<Rightarrow> (Inl HdGetrlimit, sc, p)
   | (None, sc) \<Rightarrow> (case os_call sc of
       (Some _, sc) \<Rightarrow> (Inl HdSetrlimit, sc, p)
     | (None, sc) \<Rightarrow> (let p = p\<lparr>pr_core_soft := 0\<rparr> in case os_call sc of
         (Some _, sc) \<Rightarrow> (Inl HdPrctl, sc, p)
       | (None, sc) \<Rightarrow> (let p = p\<lparr>pr_dumpable := 0\<rparr> in case collect_core_facts sc p of
           (f, sc) \<Rightarrow> (if eval_core f = ChkOk then Inr () else Inl HdStillOpen, sc, p)))))"

section \<open>Texts of \<open>/proc\<close>\<close>

type_synonym code_points = "nat list"

definition text_of :: "string \<Rightarrow> code_points" where
  "text_of s = map of_char s"

text \<open>\<open>str::lines\<close>: a carriage return before a line break belongs to the break.\<close>

definition strip_cr :: "code_points \<Rightarrow> code_points" where
  "strip_cr l = (if l \<noteq> [] \<and> last l = 13 then butlast l else l)"

function text_lines :: "code_points \<Rightarrow> code_points list" where
  "text_lines cs = (if cs = [] then [] else
     (case dropWhile (\<lambda>c. c \<noteq> 10) cs of
        [] \<Rightarrow> [cs]
      | _ # rest \<Rightarrow> strip_cr (takeWhile (\<lambda>c. c \<noteq> 10) cs) # text_lines rest))"
  by pat_completeness auto

lemma dropWhile_Cons_shorter: "dropWhile P cs = c # rest \<Longrightarrow> length rest < length cs"
  using length_dropWhile_le [of P cs] by simp

termination text_lines
  by (relation "measure length") (auto dest: dropWhile_Cons_shorter)

declare text_lines.simps [simp del]

text \<open>\<open>char::is_whitespace\<close> and \<open>str::split_whitespace\<close>.\<close>

definition is_whitespace :: "nat \<Rightarrow> bool" where
  "is_whitespace c \<longleftrightarrow> 9 \<le> c \<and> c \<le> 13 \<or> c = 32 \<or> c = 0x85 \<or> c = 0xA0 \<or> c = 0x1680 \<or>
     0x2000 \<le> c \<and> c \<le> 0x200A \<or> c = 0x2028 \<or> c = 0x2029 \<or> c = 0x202F \<or> c = 0x205F \<or> c = 0x3000"

function split_whitespace :: "code_points \<Rightarrow> code_points list" where
  "split_whitespace cs = (case dropWhile is_whitespace cs of
     [] \<Rightarrow> []
   | c # rest \<Rightarrow> (c # takeWhile (\<lambda>c. \<not> is_whitespace c) rest)
       # split_whitespace (dropWhile (\<lambda>c. \<not> is_whitespace c) rest))"
  by pat_completeness auto

termination split_whitespace
  by (relation "measure length")
    (auto dest!: dropWhile_Cons_shorter intro: le_less_trans [OF length_dropWhile_le])

declare split_whitespace.simps [simp del]

section \<open>Swap\<close>

record swap_line =
  sl_name :: code_points
  sl_kind :: code_points

record swap_facts =
  sf_readable :: bool
  sf_lines :: "swap_line list"

definition swap_row :: "code_points \<Rightarrow> swap_line option" where
  "swap_row row = (case split_whitespace row of
     name # kind # _ \<Rightarrow> Some \<lparr>sl_name = name, sl_kind = kind\<rparr>
   | _ \<Rightarrow> None)"

definition parse_proc_swaps :: "code_points \<Rightarrow> swap_facts" where
  "parse_proc_swaps t = \<lparr>sf_readable = True, sf_lines = List.map_filter swap_row (drop 1 (text_lines t))\<rparr>"

definition collect_swap_facts :: "code_points option \<Rightarrow> swap_facts" where
  "collect_swap_facts t = (case t of
     Some t \<Rightarrow> parse_proc_swaps t
   | None \<Rightarrow> \<lparr>sf_readable = False, sf_lines = []\<rparr>)"

definition mapped_device :: "swap_line \<Rightarrow> bool" where
  "mapped_device l \<longleftrightarrow> take 12 (sl_name l) = text_of ''/dev/mapper/'' \<or> take 8 (sl_name l) = text_of ''/dev/dm-''"

definition eval_swap :: "swap_facts \<Rightarrow> check_status" where
  "eval_swap f =
     (if \<not> sf_readable f then ChkWarn ''cannot inspect /proc/swaps''
      else if sf_lines f = [] then ChkOk
      else if list_ex (\<lambda>l. \<not> mapped_device l) (sf_lines f)
      then ChkBlock ''swap enabled without verified encryption (plain partition/file swap)''
      else ChkWarn ''swap active under /dev/mapper (assumed encrypted; verify device config)'')"

section \<open>Permissions\<close>

record perm_facts =
  pf_exists :: bool
  pf_regular :: bool
  pf_mode :: u32
  pf_uid :: u32

text \<open>\<open>collect_perm_facts\<close>, given what \<open>stat\<close> returned.\<close>

definition collect_perm_facts :: "(bool \<times> u32 \<times> u32) option \<Rightarrow> perm_facts" where
  "collect_perm_facts st = (case st of
     Some (regular, mode, uid) \<Rightarrow> \<lparr>pf_exists = True, pf_regular = regular, pf_mode = mode, pf_uid = uid\<rparr>
   | None \<Rightarrow> \<lparr>pf_exists = False, pf_regular = False, pf_mode = 0, pf_uid = 0\<rparr>)"

text \<open>The masks are 077, 0400 and 0200 in octal.\<close>

definition eval_perm :: "perm_facts \<Rightarrow> u32 \<Rightarrow> bool \<Rightarrow> check_status" where
  "eval_perm f euid need_write =
     (if \<not> pf_exists f then ChkBlock ''file is missing''
      else if \<not> pf_regular f then ChkBlock ''not a regular file''
      else if pf_mode f AND 63 \<noteq> 0 then ChkBlock ''group/world permission bits set on secret material''
      else if pf_mode f AND 256 = 0 then ChkBlock ''owner read bit missing''
      else if need_write \<and> pf_mode f AND 128 = 0 then ChkBlock ''owner write bit missing (mutually required)''
      else if pf_uid f \<noteq> euid then ChkBlock ''file owner is not the current effective user''
      else ChkOk)"

section \<open>Backups\<close>

definition sync_dir_components :: "code_points list" where
  "sync_dir_components = map text_of
     [''dropbox'', ''nextcloud'', ''seafile'', ''syncthing'', ''mega'', ''onedrive'', ''googledrive'',
      ''backup'', ''backups'', ''.git'']"

definition to_ascii_lowercase :: "code_points \<Rightarrow> code_points" where
  "to_ascii_lowercase t = map (\<lambda>c. if 65 \<le> c \<and> c \<le> 90 then c + 32 else c) t"

record backup_facts =
  bu_sync_dir_hit :: "code_points option"
  bu_marker_present :: bool

text \<open>
  \<open>collect_backup_facts\<close>: the components of the book's path (\<open>None\<close> where one is not UTF-8), and
  whether either marker exists in its parent directory.
\<close>

definition collect_backup_facts :: "code_points option list \<Rightarrow> bool \<Rightarrow> backup_facts" where
  "collect_backup_facts comps marker =
     \<lparr>bu_sync_dir_hit = List.find (\<lambda>c. to_ascii_lowercase c \<in> set sync_dir_components)
        (List.map_filter id comps),
      bu_marker_present = marker\<rparr>"

definition eval_backup :: "backup_facts \<Rightarrow> check_status" where
  "eval_backup f =
     (if bu_sync_dir_hit f \<noteq> None then ChkBlock ''book/anchor path is inside a sync/backup directory''
      else if \<not> bu_marker_present f
      then ChkWarn ''no backup-exclusion marker next to the book (ops: create it)''
      else ChkOk)"

section \<open>The doctor\<close>

datatype doctor_file = FileBook | FileAnchorA | FileAnchorB

record doctor_probes =
  dp_core :: core_facts
  dp_swaps :: "code_points option"
  dp_stat :: "doctor_file \<Rightarrow> (bool \<times> u32 \<times> u32) option"
  dp_statfs :: "doctor_file \<Rightarrow> platform_error + int"
  dp_components :: "code_points option list"
  dp_marker :: bool

definition finding :: "doctor_category \<Rightarrow> string \<Rightarrow> check_status \<Rightarrow> doctor_finding" where
  "finding c t s = \<lparr>df_category = c, df_target = t, df_status = s\<rparr>"

definition filesystem_status :: "platform_error + int \<Rightarrow> check_status" where
  "filesystem_status st = (case require_supported_filesystem st of
     Inr _ \<Rightarrow> ChkOk
   | Inl (UnsupportedFilesystem _) \<Rightarrow> ChkBlock ''book/anchor filesystem is unsupported or unknown''
   | Inl _ \<Rightarrow> ChkBlock ''filesystem probe failed'')"

definition process_findings :: "doctor_probes \<Rightarrow> doctor_finding list" where
  "process_findings p =
     [finding DcCoreDump ''process'' (eval_core (dp_core p)),
      finding DcSwap ''system'' (eval_swap (collect_swap_facts (dp_swaps p)))]"

definition run_doctor :: "doctor_probes \<Rightarrow> u32 \<Rightarrow> doctor_finding list" where
  "run_doctor p euid = process_findings p
     @ map (\<lambda>(t, f, w). finding DcPermissions t (eval_perm (collect_perm_facts (dp_stat p f)) euid w))
         [(''book'', FileBook, False), (''anchor-a'', FileAnchorA, True), (''anchor-b'', FileAnchorB, True)]
     @ map (\<lambda>(t, f). finding DcFilesystem t (filesystem_status (dp_statfs p f)))
         [(''book'', FileBook), (''anchor-a'', FileAnchorA), (''anchor-b'', FileAnchorB)]
     @ [finding DcBackupRisk ''book-dir'' (eval_backup (collect_backup_facts (dp_components p) (dp_marker p)))]"

section \<open>The doctor of the programs\<close>

text \<open>\<open>u32::from_str\<close>: an optional plus, digits, no overflow.\<close>

definition digits_value :: "code_points \<Rightarrow> nat" where
  "digits_value ds = foldl (\<lambda>a c. a * 10 + (c - 48)) 0 ds"

definition parse_u32 :: "code_points \<Rightarrow> u32 option" where
  "parse_u32 cs =
     (let ds = (if cs \<noteq> [] \<and> hd cs = 43 then tl cs else cs) in
      if ds \<noteq> [] \<and> list_all (\<lambda>c. 48 \<le> c \<and> c \<le> 57) ds \<and> digits_value ds < 2 ^ 32
      then Some (word_of_nat (digits_value ds)) else None)"

text \<open>\<open>current_euid\<close>: the second number of the first line of \<open>/proc/self/status\<close> that starts with \<open>Uid:\<close>.\<close>

definition current_euid :: "code_points option \<Rightarrow> u32" where
  "current_euid status = (case status of
     None \<Rightarrow> - 1
   | Some t \<Rightarrow> (case List.find (\<lambda>l. take 4 l = text_of ''Uid:'') (text_lines t) of
       None \<Rightarrow> - 1
     | Some l \<Rightarrow> (case split_whitespace (drop 4 l) of
         _ # u # _ \<Rightarrow> (case parse_u32 u of None \<Rightarrow> - 1 | Some e \<Rightarrow> e)
       | _ \<Rightarrow> - 1)))"

definition downgrade_swap :: "doctor_finding \<Rightarrow> doctor_finding" where
  "downgrade_swap f = (if df_category f = DcSwap \<and> blocks (df_status f)
     then f\<lparr>df_status := ChkWarn ''swap BLOCK downgraded by --allow-unencrypted-swap (operator opt-in)''\<rparr>
     else f)"

definition doctor_run :: "bool \<Rightarrow> bool \<Rightarrow> code_points option \<Rightarrow> doctor_probes \<Rightarrow> doctor_finding list" where
  "doctor_run with_paths allow_swap status p =
     (let fs = (if with_paths then run_doctor p (current_euid status) else process_findings p) in
      if allow_swap then map downgrade_swap fs else fs)"

definition outcome_summary :: "bool \<Rightarrow> doctor_finding list \<Rightarrow> string" where
  "outcome_summary overridden fs = doctor_summary fs @ (if overridden then utf8_text
    [232, 166, 134, 231, 155, 150, 239, 188, 154, 45, 45, 97, 108, 108, 111, 119, 45, 117, 110,
     101, 110, 99, 114, 121, 112, 116, 101, 100, 45, 115, 119, 97, 112, 32, 229, 183, 178, 230,
     138, 138, 32, 115, 119, 97, 112, 32, 231, 154, 132, 32, 66, 76, 79, 67, 75, 32, 233, 153,
     141, 231, 186, 167, 228, 184, 186, 32, 119, 97, 114, 110, 239, 188, 136, 230, 147, 141, 228,
     189, 156, 229, 145, 152, 230, 152, 190, 229, 188, 143, 229, 163, 176, 230, 152, 142, 239,
     188, 140, 228, 187, 133, 233, 153, 144, 229, 143, 151, 230, 142, 167, 231, 142, 175, 229,
     162, 131, 239, 188, 137, 10] else '''')"

section \<open>What is admitted\<close>

lemma owner_bits:
  fixes m :: u32
  shows "m AND 511 = (m AND 63) OR (m AND 64) OR (m AND 128) OR (m AND 256)"
  by (simp flip: bit.conj_disj_distrib)

lemma one_bit:
  fixes m :: u32
  shows "m AND 64 \<in> {0, 64}" "m AND 128 \<in> {0, 128}" "m AND 256 \<in> {0, 256}"
proof -
  have b: "m AND 2 ^ n \<in> {0, 2 ^ n}" for n
  proof (cases "bit m n")
    case True
    then have "m AND 2 ^ n = 2 ^ n" by (intro bit_word_eqI) (auto simp: bit_simps)
    then show ?thesis by simp
  next
    case False
    then have "m AND 2 ^ n = 0" by (intro bit_word_eqI) (auto simp: bit_simps)
    then show ?thesis by simp
  qed
  show "m AND 64 \<in> {0, 64}" "m AND 128 \<in> {0, 128}" "m AND 256 \<in> {0, 256}"
    using b [of 6] b [of 7] b [of 8] by simp_all
qed

text \<open>The permission bits a file may have: for its owner only, readable, and an anchor writable.\<close>

definition owner_modes :: "doctor_file \<Rightarrow> u32 set" where
  "owner_modes f = (if f = FileBook then {256, 320, 384, 448} else {384, 448})"

lemma owner_modes_iff:
  "m AND 63 = 0 \<and> m AND 256 \<noteq> 0 \<and> (f = FileBook \<or> m AND 128 \<noteq> 0) \<longleftrightarrow> m AND 511 \<in> owner_modes f"
proof
  assume "m AND 63 = 0 \<and> m AND 256 \<noteq> 0 \<and> (f = FileBook \<or> m AND 128 \<noteq> 0)"
  then show "m AND 511 \<in> owner_modes f"
    using one_bit [of m] owner_bits [of m] by (auto simp: owner_modes_def)
next
  assume o: "m AND 511 \<in> owner_modes f"
  have "(m AND 511) AND 63 = m AND 63" "(m AND 511) AND 128 = m AND 128" "(m AND 511) AND 256 = m AND 256"
    by (simp_all only: and.assoc and_numerals) simp_all
  then show "m AND 63 = 0 \<and> m AND 256 \<noteq> 0 \<and> (f = FileBook \<or> m AND 128 \<noteq> 0)"
    using o by (auto simp: owner_modes_def split: if_splits)
qed

lemma eval_perm_blocks:
  "\<not> blocks (eval_perm (collect_perm_facts st) euid (f \<noteq> FileBook)) \<longleftrightarrow>
    (\<exists>m. st = Some (True, m, euid) \<and> m AND 511 \<in> owner_modes f)"
proof (cases st)
  case None
  then show ?thesis by (simp add: eval_perm_def collect_perm_facts_def)
next
  case (Some x)
  obtain r m u where x: "x = (r, m, u)" by (cases x) auto
  show ?thesis
    unfolding Some x owner_modes_iff [symmetric]
    by (auto simp: eval_perm_def collect_perm_facts_def)
qed

lemma filesystem_status_blocks:
  "\<not> blocks (filesystem_status st) \<longleftrightarrow> (\<exists>m \<in> {0xEF53, 0x58465342, 0x9123683E}. st = Inr m)"
  by (cases st) (auto simp: filesystem_status_def require_supported_filesystem_def rbind_def
      split: platform_error.splits if_splits)

lemma eval_core_blocks:
  "\<not> blocks (eval_core f) \<longleftrightarrow> f = \<lparr>cf_core_limit = Some 0, cf_dumpable = Some 0\<rparr>"
  by (cases f) (auto simp: eval_core_def split: option.splits)

definition swap_tolerable :: "code_points option \<Rightarrow> bool" where
  "swap_tolerable t = (case t of None \<Rightarrow> True | Some t \<Rightarrow> list_all mapped_device (sf_lines (parse_proc_swaps t)))"

lemma eval_swap_blocks: "\<not> blocks (eval_swap (collect_swap_facts t)) \<longleftrightarrow> swap_tolerable t"
  by (cases t) (auto simp: eval_swap_def collect_swap_facts_def swap_tolerable_def parse_proc_swaps_def
      list_ex_iff list_all_iff)

lemma eval_backup_blocks:
  "\<not> blocks (eval_backup (collect_backup_facts comps marker)) \<longleftrightarrow>
    (\<forall>c \<in> {c. Some c \<in> set comps}. to_ascii_lowercase c \<notin> set sync_dir_components)"
proof -
  have "set (List.map_filter id comps) = {c. Some c \<in> set comps}"
    by (force simp: List.map_filter_def)
  then show ?thesis
    by (auto simp: eval_backup_def collect_backup_facts_def find_None_iff)
qed

lemma refuse_doctor_run:
  "refuse_startup (doctor_run True allow status p) \<longleftrightarrow>
    list_ex (\<lambda>f. blocks (df_status f) \<and> \<not> (allow \<and> df_category f = DcSwap)) (run_doctor p (current_euid status))"
  by (cases allow) (auto simp: refuse_startup_def doctor_run_def list_ex_iff downgrade_swap_def)

lemma doctor_admits:
  "\<not> refuse_startup (doctor_run True allow status p) \<longleftrightarrow>
    dp_core p = \<lparr>cf_core_limit = Some 0, cf_dumpable = Some 0\<rparr> \<and>
    (allow \<or> swap_tolerable (dp_swaps p)) \<and>
    (\<forall>f. \<exists>m. dp_stat p f = Some (True, m, current_euid status) \<and> m AND 511 \<in> owner_modes f) \<and>
    (\<forall>f. dp_statfs p f \<in> Inr ` {0xEF53, 0x58465342, 0x9123683E}) \<and>
    to_ascii_lowercase ` {c. Some c \<in> set (dp_components p)} \<inter> set sync_dir_components = {}"
proof -
  have files: "(\<forall>f. P f) \<longleftrightarrow> P FileBook \<and> P FileAnchorA \<and> P FileAnchorB" for P
    by (metis doctor_file.exhaust)
  have dis: "to_ascii_lowercase ` {c. Some c \<in> set (dp_components p)} \<inter> set sync_dir_components = {} \<longleftrightarrow>
      (\<forall>c \<in> {c. Some c \<in> set (dp_components p)}. to_ascii_lowercase c \<notin> set sync_dir_components)"
    by auto
  have perm: "\<not> blocks (eval_perm (collect_perm_facts (dp_stat p FileBook)) e False) \<longleftrightarrow>
      (\<exists>m. dp_stat p FileBook = Some (True, m, e) \<and> m AND 511 \<in> owner_modes FileBook)"
    "\<not> blocks (eval_perm (collect_perm_facts (dp_stat p FileAnchorA)) e True) \<longleftrightarrow>
      (\<exists>m. dp_stat p FileAnchorA = Some (True, m, e) \<and> m AND 511 \<in> owner_modes FileAnchorA)"
    "\<not> blocks (eval_perm (collect_perm_facts (dp_stat p FileAnchorB)) e True) \<longleftrightarrow>
      (\<exists>m. dp_stat p FileAnchorB = Some (True, m, e) \<and> m AND 511 \<in> owner_modes FileAnchorB)" for e
    using eval_perm_blocks [of _ e FileBook] eval_perm_blocks [of _ e FileAnchorA]
      eval_perm_blocks [of _ e FileAnchorB] by simp_all
  have fs: "\<not> blocks (filesystem_status st) \<longleftrightarrow> st \<in> Inr ` {0xEF53, 0x58465342, 0x9123683E}" for st
    unfolding filesystem_status_blocks by auto
  show ?thesis
    unfolding files dis perm(1) [symmetric] perm(2) [symmetric] perm(3) [symmetric] fs [symmetric]
      eval_core_blocks [symmetric] eval_swap_blocks [symmetric] eval_backup_blocks [of _ "dp_marker p", symmetric]
    unfolding refuse_doctor_run run_doctor_def process_findings_def finding_def by simp blast
qed

text \<open>
  C5. The programs start on exactly these environments: core dumps are off in both ways, swap is off,
  unreadable, on mapped devices only, or accepted by the operator; the book and both anchors are
  regular files of the effective user which nobody else has any right to, readable, and the anchors
  writable; all three are on one of the three accepted file systems; and no component of the book's path
  names a synchronised or backup directory.
\<close>

theorem doctor_admits_exactly:
  "\<not> refuse_startup (doctor_run True allow status p) \<longleftrightarrow>
    dp_core p = \<lparr>cf_core_limit = Some 0, cf_dumpable = Some 0\<rparr> \<and>
    (allow \<or> swap_tolerable (dp_swaps p)) \<and>
    (\<forall>f. \<exists>m. dp_stat p f = Some (True, m, current_euid status) \<and> m AND 511 \<in> owner_modes f) \<and>
    (\<forall>f. dp_statfs p f \<in> Inr ` {0xEF53, 0x58465342, 0x9123683E}) \<and>
    to_ascii_lowercase ` {c. Some c \<in> set (dp_components p)} \<inter> set sync_dir_components = {}"
  by (rule doctor_admits)

section \<open>Reading the table of swap areas\<close>

lemma split_whitespace_Nil: "split_whitespace [] = []"
  by (subst split_whitespace.simps) simp

lemma split_whitespace_blank: "is_whitespace c \<Longrightarrow> split_whitespace (c # cs) = split_whitespace cs"
  by (subst (1 2) split_whitespace.simps) simp

lemma split_whitespace_blanks: "list_all is_whitespace bl \<Longrightarrow> split_whitespace (bl @ cs) = split_whitespace cs"
  by (induction bl) (simp_all add: split_whitespace_blank)

definition word_text :: "code_points \<Rightarrow> bool" where
  "word_text w \<longleftrightarrow> w \<noteq> [] \<and> list_all (\<lambda>c. \<not> is_whitespace c) w"

lemma split_whitespace_word:
  assumes "word_text w" and "rest = [] \<or> is_whitespace (hd rest)"
  shows "split_whitespace (w @ rest) = w # split_whitespace rest"
proof -
  obtain c v where w: "w = c # v" "\<not> is_whitespace c" "list_all (\<lambda>c. \<not> is_whitespace c) v"
    using assms(1) by (cases w) (auto simp: word_text_def)
  have v: "takeWhile (\<lambda>c. \<not> is_whitespace c) (v @ rest) = v" "dropWhile (\<lambda>c. \<not> is_whitespace c) (v @ rest) = rest"
    using w(3) assms(2) by (induction v) (auto simp: takeWhile_eq_Nil_iff dropWhile_eq_self_iff)
  show ?thesis by (subst split_whitespace.simps) (simp add: w v)
qed

lemma text_lines_line: "10 \<notin> set l \<Longrightarrow> text_lines (l @ 10 # rest) = strip_cr l # text_lines rest"
proof -
  assume n: "10 \<notin> set l"
  then have "takeWhile (\<lambda>c. c \<noteq> 10) (l @ 10 # rest) = l" "dropWhile (\<lambda>c. c \<noteq> 10) (l @ 10 # rest) = 10 # rest"
    by (induction l) auto
  then show ?thesis by (subst text_lines.simps) simp
qed

text \<open>A row as the kernel prints it: the name, blanks, the kind, and what follows it on the line.\<close>

definition swap_text :: "swap_line \<Rightarrow> code_points \<Rightarrow> code_points \<Rightarrow> code_points" where
  "swap_text l pad tail = sl_name l @ pad @ sl_kind l @ tail @ [10]"

definition swap_text_ok :: "swap_line \<times> code_points \<times> code_points \<Rightarrow> bool" where
  "swap_text_ok x = (case x of (l, pad, tail) \<Rightarrow> word_text (sl_name l) \<and> word_text (sl_kind l) \<and>
     pad \<noteq> [] \<and> list_all is_whitespace pad \<and> 10 \<notin> set pad \<and> 10 \<notin> set tail \<and>
     tail \<noteq> [] \<and> is_whitespace (hd tail) \<and> last tail \<noteq> 13)"

lemma word_text_no_break: "word_text w \<Longrightarrow> 10 \<notin> set w"
proof -
  have "is_whitespace 10" by (simp add: is_whitespace_def)
  then show "word_text w \<Longrightarrow> 10 \<notin> set w" by (metis word_text_def list_all_iff)
qed

lemma text_lines_Nil: "text_lines [] = []"
  using text_lines.simps [of "[]"] by simp

lemma swap_rows_read:
  "list_all swap_text_ok xs \<Longrightarrow>
    List.map_filter swap_row (text_lines (concat (map (\<lambda>(l, p, t). swap_text l p t) xs))) = map fst xs"
proof (induction xs)
  case Nil
  then show ?case by (simp add: text_lines_Nil List.map_filter_def)
next
  case (Cons x xs)
  obtain l p t where x: "x = (l, p, t)" by (cases x) auto
  note ok = Cons.prems [unfolded x, simplified, unfolded swap_text_ok_def, simplified]
  let ?row = "sl_name l @ p @ sl_kind l @ t"
  have "10 \<notin> set ?row" using ok word_text_no_break by auto
  then have lines: "text_lines (concat (map (\<lambda>(l, p, t). swap_text l p t) (x # xs)))
      = strip_cr ?row # text_lines (concat (map (\<lambda>(l, p, t). swap_text l p t) xs))"
    using text_lines_line [of ?row] by (simp add: x swap_text_def)
  have strip: "strip_cr ?row = ?row" using ok by (simp add: strip_cr_def)
  have "split_whitespace ?row = sl_name l # sl_kind l # split_whitespace t"
    using ok split_whitespace_word [of "sl_name l" "p @ sl_kind l @ t"] split_whitespace_blanks [of p "sl_kind l @ t"]
      split_whitespace_word [of "sl_kind l" t]
    by (cases p) auto
  then have "swap_row ?row = Some l" by (simp add: swap_row_def)
  then show ?case using Cons lines strip by (simp add: x List.map_filter_def)
qed

text \<open>
  The table of \<open>/proc/swaps\<close> is read back row by row, so that the environment is refused for its swap
  exactly when some area of the table is not on a mapped device.
\<close>

theorem swap_table_decides:
  assumes "10 \<notin> set header" and "list_all swap_text_ok xs"
  shows "swap_tolerable (Some (header @ 10 # concat (map (\<lambda>(l, p, t). swap_text l p t) xs))) \<longleftrightarrow>
    list_all mapped_device (map fst xs)"
  by (simp add: swap_tolerable_def parse_proc_swaps_def text_lines_line [OF assms(1)]
      swap_rows_read [OF assms(2)])

text \<open>Hardening leaves a process that the doctor's first check accepts, or reports which step failed.\<close>

lemma harden_process_hardens:
  "harden_process sc p = (Inr (), sc', p') \<Longrightarrow> pr_core_soft p' = 0 \<and> pr_dumpable p' = 0"
  by (auto simp: harden_process_def Let_def split: prod.splits option.splits if_splits)

lemma hardened_facts:
  assumes "harden_process sc p = (Inr (), sc', p')"
  shows "fst (collect_core_facts [] p') = \<lparr>cf_core_limit = Some 0, cf_dumpable = Some 0\<rparr>"
  using harden_process_hardens [OF assms] by (simp add: collect_core_facts_def os_call_def)

end
