(* ===== verification/Startup.thy ===== *)
theory Startup
  imports AllocatorHistory Recovery AuditLog Doctor Book
begin

text \<open>
  What \<open>jbuu serve\<close> and \<open>jbuu connect\<close> do before they open a socket (the first six steps of \<open>run_serve\<close>
  and the first four of \<open>run_connect\<close> in \<open>crates/otp-cli/src/main.rs\<close>) and \<open>Allocator::open\<close>
  (\<open>crates/otp-book/src/allocator.rs\<close>), over the two anchor files. Everything the system answers is gathered
  in \<open>start_env\<close>; lines printed for the operator are left out. Recovery runs before the lock of the
  anchors is taken, so the model, like the code, relies on one process at a time per pair of anchors.
\<close>

section \<open>Opening the allocator\<close>

definition map_book_open :: "book_error \<Rightarrow> issue_error" where
  "map_book_open e = (case e of InvalidHeader _ \<Rightarrow> IssBookMismatch | _ \<Rightarrow> IssIo)"

definition map_platform :: "platform_error \<Rightarrow> issue_error" where
  "map_platform e = (case e of LockHeld \<Rightarrow> LockUnavailable | LockUnsupported \<Rightarrow> LockUnavailable
     | _ \<Rightarrow> PersistenceUncertain)"

text \<open>\<open>FileMedia::open\<close>, given whether each file opens.\<close>

definition media_open :: "bool \<Rightarrow> bool \<Rightarrow> issue_error + unit" where
  "media_open a_opens b_opens = (if a_opens \<and> b_opens then Inr () else Inl AnchorCorrupt)"

record alloc_env =
  al_book :: "open_outcome \<times> script"
  al_a_opens :: bool
  al_b_opens :: bool
  al_lock :: "platform_error + unit"
  al_script :: script

definition allocator_open ::
  "(bytes \<Rightarrow> bytes) \<Rightarrow> book_id \<Rightarrow> alloc_env \<Rightarrow> file_media \<Rightarrow>
    (issue_error + (file_media, book) core) \<times> file_media" where
  "allocator_open sha expected e m =
    (case fst (open_validated sha (fst (al_book e)) (snd (al_book e))) of
       Inl err \<Rightarrow> (Inl (map_book_open err), m)
     | Inr bk \<Rightarrow>
       if bh_book_id (bk_header bk) \<noteq> expected then (Inl IssBookMismatch, m)
       else (case media_open (al_a_opens e) (al_b_opens e) of
         Inl err \<Rightarrow> (Inl err, m)
       | Inr _ \<Rightarrow> (case al_lock e of
           Inl err \<Rightarrow> (Inl (map_platform err), m)
         | Inr _ \<Rightarrow> core_open sha file_media_ops book_reader expected (m\<lparr>fm_script := al_script e\<rparr>) bk)))"

section \<open>Starting up\<close>

datatype start_error =
    StHarden harden_error | StBook book_error | StDoctor | StAudit | StRecovery recovery_error
  | StAllocator issue_error

text \<open>\<open>EXIT_POLICY_REFUSED\<close>, or 1.\<close>

definition EXIT_POLICY_REFUSED :: nat where "EXIT_POLICY_REFUSED = 2"

definition start_exit_code :: "start_error \<Rightarrow> nat" where
  "start_exit_code e = (case e of StBook _ \<Rightarrow> 1 | _ \<Rightarrow> EXIT_POLICY_REFUSED)"

record audit_env =
  av_existed :: bool
  av_opened :: "os_outcome option"
  av_parent :: "(platform_error + unit) option"
  av_file :: os_file
  av_script :: script

record start_env =
  sn_process :: "script \<times> process"
  sn_book :: "open_outcome \<times> script"
  sn_allow_swap :: bool
  sn_status :: "code_points option"
  sn_probes :: doctor_probes
  sn_audit_log :: "audit_env option"
  sn_a_opens :: bool
  sn_b_opens :: bool
  sn_a_script :: script
  sn_b_script :: script
  sn_alloc :: alloc_env

definition open_audit :: "audit_env option \<Rightarrow> audit_error + audit" where
  "open_audit log = (case log of
     None \<Rightarrow> Inr (audit_disabled [])
   | Some v \<Rightarrow> audit_open (av_existed v) (av_opened v) (av_parent v) (av_file v) (av_script v))"

text \<open>The store that \<open>FileAnchorStore::open_existing\<close> makes of an anchor file, and what a run leaves of it.\<close>

definition store_over :: "bool \<Rightarrow> script \<Rightarrow> os_file \<Rightarrow> anchor_backend option" where
  "store_over opens sc f = (if opens then Some \<lparr>ab_file = f, ab_created = False, ab_script = sc\<rparr> else None)"

definition left_of :: "anchor_backend option \<Rightarrow> os_file \<Rightarrow> os_file" where
  "left_of b f = (case b of None \<Rightarrow> f | Some b \<Rightarrow> ab_file b)"

definition recover_media ::
  "(bytes \<Rightarrow> bytes) \<Rightarrow> start_env \<Rightarrow> file_media \<Rightarrow> (recovery_error + recovery_report) \<times> file_media" where
  "recover_media sha n m =
    (case startup_recover sha (store_over (sn_a_opens n) (sn_a_script n) (fm_a m))
        (store_over (sn_b_opens n) (sn_b_script n) (fm_b m)) of
      (r, a, b) \<Rightarrow> (r, m\<lparr>fm_a := left_of a (fm_a m), fm_b := left_of b (fm_b m)\<rparr>))"

text \<open>
  Both programs, the server with the entry for a failed recovery. The result carries the anchors and
  the audit log as the run leaves them; what writing to the log returns is ignored.
\<close>

definition start_up ::
  "(bytes \<Rightarrow> bytes) \<Rightarrow> bool \<Rightarrow> start_env \<Rightarrow> file_media \<Rightarrow>
    (start_error + book_header \<times> recovery_report \<times> (file_media, book) core) \<times> file_media \<times> audit option" where
  "start_up sha server n m = (case harden_process (fst (sn_process n)) (snd (sn_process n)) of
     (Inl e, _) \<Rightarrow> (Inl (StHarden e), m, None)
   | (Inr _, _) \<Rightarrow> (case fst (open_validated sha (fst (sn_book n)) (snd (sn_book n))) of
       Inl e \<Rightarrow> (Inl (StBook e), m, None)
     | Inr bk \<Rightarrow>
       if refuse_startup (doctor_run True (sn_allow_swap n) (sn_status n) (sn_probes n))
       then (Inl StDoctor, m, None)
       else (case open_audit (sn_audit_log n) of
         Inl _ \<Rightarrow> (Inl StAudit, m, None)
       | Inr au \<Rightarrow> (case recover_media sha n m of
           (Inl e, m) \<Rightarrow> (Inl (StRecovery e), m,
             Some (if server then snd (emit_err (bh_book_id (bk_header bk)) 0 (Generation 0) Quarantined CatRecovery au)
               else au))
         | (Inr rep, m) \<Rightarrow>
           (let au = snd (emit_ok (bh_book_id (bk_header bk)) (ar_next (rep_adopted rep))
                (ar_generation (rep_adopted rep)) Recovered au) in
            case allocator_open sha (bh_book_id (bk_header bk)) (sn_alloc n) m of
              (Inl e, m) \<Rightarrow> (Inl (StAllocator e), m, Some au)
            | (Inr s, m) \<Rightarrow> (Inr (bk_header bk, rep, s), m, Some au))))))"

section \<open>Recovery keeps the floor\<close>

definition os_survivors :: "os_file \<Rightarrow> bytes set" where
  "os_survivors f = insert (f_durable f) (set (f_since f))"

text \<open>Every surviving image of a file that verifies continues at \<open>k\<close> or beyond; so does its content.\<close>

definition file_floored :: "(bytes \<Rightarrow> bytes) \<Rightarrow> nat \<Rightarrow> os_file \<Rightarrow> bool" where
  "file_floored sha k f \<longleftrightarrow> (\<forall>x \<in> os_survivors f. \<forall>r. decode_and_verify sha x = Inr r \<longrightarrow> k \<le> unat (ar_next r))"

definition file_settled :: "(bytes \<Rightarrow> bytes) \<Rightarrow> os_file \<Rightarrow> bool" where
  "file_settled sha f \<longleftrightarrow> is_err (decode_and_verify sha (f_cache f)) \<or> f_cache f \<in> os_survivors f"

lemma media_files:
  "fm.floored sha k m \<longleftrightarrow> file_floored sha k (fm_a m) \<and> file_floored sha k (fm_b m)"
  "fm.settled sha m \<longleftrightarrow> file_settled sha (fm_a m) \<and> file_settled sha (fm_b m)"
proof -
  have copies: "(\<forall>c. P c) \<longleftrightarrow> P CopyA \<and> P CopyB" for P by (metis anchor_copy.exhaust)
  show "fm.floored sha k m \<longleftrightarrow> file_floored sha k (fm_a m) \<and> file_floored sha k (fm_b m)"
    unfolding fm.floored_def copies by (simp add: fm_survivors_def fm_file_def file_floored_def os_survivors_def)
  show "fm.settled sha m \<longleftrightarrow> file_settled sha (fm_a m) \<and> file_settled sha (fm_b m)"
    unfolding fm.settled_def copies
    by (auto simp: fm_survivors_def fm_content_def fm_file_def file_settled_def os_survivors_def is_err_def
        split: sum.splits)
qed

lemma read_keeps_file:
  assumes "st_read (file_store_ops sha) b = (x, b')"
  shows "os_survivors (ab_file b') = os_survivors (ab_file b) \<and> f_cache (ab_file b') = f_cache (ab_file b)"
  using assms
  by (auto simp: file_store_ops_def file_store_read_def backend_read_verified_def ab_put_def file_seek0_def
      file_read_to_end_def os_survivors_def split: prod.splits sum.splits option.splits)

lemma sync_parent_keeps_file:
  "st_sync_parent (file_store_ops sha) b = (x, b') \<Longrightarrow> ab_file b' = ab_file b"
  by (auto simp: file_store_ops_def backend_sync_parent_def split: if_splits prod.splits option.splits)

lemma same_disk_survivors: "same_disk f g \<Longrightarrow> os_survivors f = os_survivors g"
  by (simp add: same_disk_def os_survivors_def)

lemma write_full_same_disk: "write_full d sc f = (x, sc', f') \<Longrightarrow> same_disk f' f"
proof (induction d sc f arbitrary: x sc' f' rule: write_full.induct)
  case (1 d sc f)
  obtain w sc1 f1 where w: "file_write d sc f = (w, sc1, f1)" by (metis prod_cases3)
  note f1 = same_disk_file_ops(4) [OF w]
  show ?case
  proof (cases "d = []")
    case True
    then show ?thesis using "1.prems" by (simp add: write_full.simps same_disk_def)
  next
    case False
    have again': "\<And>e. w = Inl e \<Longrightarrow> e = OsInterrupted \<Longrightarrow> write_full d sc1 f1 = (x, sc', f')"
      and n: "\<And>n. w = Inr n \<Longrightarrow> n \<noteq> 0 \<Longrightarrow> n \<le> length d \<Longrightarrow> write_full (drop n d) sc1 f1 = (x, sc', f')"
      and o: "\<not> (\<exists>e. w = Inl e \<and> e = OsInterrupted) \<Longrightarrow> \<not> (\<exists>n. w = Inr n \<and> n \<noteq> 0 \<and> n \<le> length d) \<Longrightarrow> f' = f1"
      using "1.prems" False w by (auto simp: write_full.simps [of d sc f] split: sum.splits if_splits)
    consider (again) e where "w = Inl e" "e = OsInterrupted" | (rest) n where "w = Inr n" "n \<noteq> 0" "n \<le> length d"
      | (stop) "f' = f1" using o by blast
    then show ?thesis
    proof cases
      case (again e)
      then have "same_disk f' f1" using "1.IH"(1) [OF False w [symmetric]] again' by blast
      then show ?thesis using f1 by (rule same_disk_trans)
    next
      case (rest n)
      then have "same_disk f' f1" using "1.IH"(2) [OF False w [symmetric]] n by blast
      then show ?thesis using f1 by (rule same_disk_trans)
    qed (simp add: f1)
  qed
qed

lemma write_survivors:
  assumes "st_write (file_store_ops sha) r b = (x, b')"
  shows "os_survivors (ab_file b') \<subseteq> insert (encode_record sha r) (os_survivors (ab_file b))"
proof -
  let ?d = "encode_record sha r"
  have 0: "os_survivors (note_image ?d (ab_file b)) = insert ?d (os_survivors (ab_file b))"
    by (auto simp: os_survivors_def note_image_def)
  show ?thesis
  proof (cases x)
    case (Inr u)
    then show ?thesis using assms backend_write_cache [of ?d b u b']
      by (simp add: file_store_ops_def file_store_write_def os_survivors_def)
  next
    case (Inl e)
    then have "same_disk (ab_file b') (note_image ?d (ab_file b))"
      using assms
      by (auto simp: file_store_ops_def file_store_write_def backend_write_full_and_sync_def ab_put_def
          fsync_file_def file_sync_def dest!: same_disk_file_ops(1,3) write_full_same_disk
          intro: same_disk_trans split: prod.splits sum.splits option.splits)
    then show ?thesis using same_disk_survivors 0 by blast
  qed
qed

lemma repair_keeps:
  assumes "repair_copy (file_store_ops sha) r b = (x, b')"
  shows "os_survivors (ab_file b') \<subseteq> insert (encode_record sha r) (os_survivors (ab_file b)) \<and>
    (\<forall>u. x = Inr u \<longrightarrow> file_settled sha (ab_file b'))"
proof -
  obtain y b1 where w: "st_write (file_store_ops sha) r b = (y, b1)" by fastforce
  obtain z b2 where p: "st_sync_parent (file_store_ops sha) b1 = (z, b2)" by fastforce
  obtain q b3 where d: "st_read (file_store_ops sha) b2 = (q, b3)" by fastforce
  have b': "(b' = b1 \<or> b' = b2 \<or> b' = b3) \<and> (\<forall>u. x = Inr u \<longrightarrow> y = Inr ())"
  proof (cases y)
    case Inl
    then show ?thesis using assms w by (auto simp: repair_copy_def)
  next
    case (Inr u)
    then show ?thesis using assms w p d by (cases z; cases q) (simp_all add: repair_copy_def split: if_splits)
  qed
  have s: "os_survivors (ab_file b') = os_survivors (ab_file b1) \<and> f_cache (ab_file b') = f_cache (ab_file b1)"
    using b' sync_parent_keeps_file [OF p] read_keeps_file [OF d] by metis
  have "file_settled sha (ab_file b')" if y: "y = Inr ()"
  proof -
    have "backend_write_full_and_sync (encode_record sha r) b = (Inr (), b1)"
      using w y by (simp add: file_store_ops_def file_store_write_def)
    from backend_write_cache [OF this] show ?thesis using s by (simp add: file_settled_def os_survivors_def)
  qed
  then show ?thesis using s write_survivors [OF w] b' by simp
qed

lemma file_floored_subset:
  "file_floored sha k f \<Longrightarrow> os_survivors f' \<subseteq> insert d (os_survivors f) \<Longrightarrow>
    (\<And>r. decode_and_verify sha d = Inr r \<Longrightarrow> k \<le> unat (ar_next r)) \<Longrightarrow> file_floored sha k f'"
  unfolding file_floored_def by blast

lemma settled_content:
  "file_floored sha k f \<Longrightarrow> file_settled sha f \<Longrightarrow> decode_and_verify sha (f_cache f) = Inr r \<Longrightarrow> k \<le> unat (ar_next r)"
  by (auto simp: file_floored_def file_settled_def is_err_def split: sum.splits)

lemma keeps_file:
  assumes "os_survivors f' = os_survivors f" "f_cache f' = f_cache f"
  shows "file_floored sha k f' = file_floored sha k f" "file_settled sha f' = file_settled sha f"
  using assms by (simp_all add: file_floored_def file_settled_def)

lemma repair_floored:
  assumes "repair_copy (file_store_ops sha) r b = (x, b')" and "file_floored sha k (ab_file b)"
    and "storable_record sha r" "k \<le> unat (ar_next r)"
  shows "file_floored sha k (ab_file b') \<and> (\<forall>u. x = Inr u \<longrightarrow> file_settled sha (ab_file b'))"
  using repair_keeps [OF assms(1)] file_floored_subset [OF assms(2), of "ab_file b'" "encode_record sha r"] assms(3,4)
  by (auto simp: storable_record_def)

lemma recover_floored:
  assumes run: "recover (file_store_ops sha) (file_store_ops sha) a b = (x, a', b')"
    and fl: "file_floored sha k (ab_file a)" "file_floored sha k (ab_file b)"
    and st: "file_settled sha (ab_file a)" "file_settled sha (ab_file b)"
  shows "file_floored sha k (ab_file a') \<and> file_floored sha k (ab_file b') \<and>
    (\<forall>rep. x = Inr rep \<longrightarrow> file_settled sha (ab_file a') \<and> file_settled sha (ab_file b'))"
proof -
  let ?o = "file_store_ops sha"
  obtain ra a1 where A: "st_read ?o a = (ra, a1)" by fastforce
  obtain rb b1 where B: "st_read ?o b = (rb, b1)" by fastforce
  note keepA = keeps_file [OF read_keeps_file [OF A, THEN conjunct1] read_keeps_file [OF A, THEN conjunct2]]
    and keepB = keeps_file [OF read_keeps_file [OF B, THEN conjunct1] read_keeps_file [OF B, THEN conjunct2]]
  define d where "d = decide (map_err (\<lambda>_. Corrupt) ra) (map_err (\<lambda>_. Corrupt) rb)"
  show ?thesis
  proof (cases "\<exists>r c. recovery_choice d = Inr (r, Some c)")
    case False
    then have "a' = a1 \<and> b' = b1"
      using run unfolding recover_def recover_with_options_def A B
      by (auto simp: d_def [symmetric] finish_recovery_def split: sum.splits if_splits option.splits)
    then show ?thesis using fl st keepA keepB by simp
  next
    case True
    then obtain r c where ch: "recovery_choice d = Inr (r, Some c)" by blast
    then have ad: "adopted_of d = Some r"
      by (auto simp: recovery_choice_def adopted_of_def split: recovery_decision.splits)
    then obtain qa qb where q: "ra = Inr qa" "rb = Inr qb"
      using adopted_valid [OF ad [unfolded d_def]] by auto
    note ha = fs.read_ok [OF A [unfolded q]] and hb = fs.read_ok [OF B [unfolded q]]
    have r: "r \<in> {qa, qb}" using decide_adopts_max ad q by (auto simp: d_def)
    have "k \<le> unat (ar_next qa)" "k \<le> unat (ar_next qb)"
      using settled_content [OF fl(1) st(1)] settled_content [OF fl(2) st(2)] ha hb
      by (auto simp: file_held_def split: sum.splits)
    then have k: "storable_record sha r" "k \<le> unat (ar_next r)" using r ha hb by auto
    have fin: "(case c of CopyA \<Rightarrow> repair_copy ?o r a1 = (map_ok (\<lambda>_. ()) x, a') \<and> b' = b1
        | CopyB \<Rightarrow> repair_copy ?o r b1 = (map_ok (\<lambda>_. ()) x, b') \<and> a' = a1)"
      using run ch unfolding recover_def recover_with_options_def A B
      by (auto simp: d_def [symmetric] finish_recovery_def map_ok_def split: anchor_copy.splits prod.splits sum.splits)
    have rep: "file_floored sha k (ab_file f') \<and> (\<forall>u. y = Inr u \<longrightarrow> file_settled sha (ab_file f'))"
      if "repair_copy ?o r f = (y, f')" "file_floored sha k (ab_file f)" for f f' y
      using repair_floored [OF that k] .
    show ?thesis
    proof (cases c)
      case CopyA
      then show ?thesis using fin fl st keepA keepB rep [of a1 "map_ok (\<lambda>_. ()) x" a'] by (auto simp: map_ok_def)
    next
      case CopyB
      then show ?thesis using fin fl st keepA keepB rep [of b1 "map_ok (\<lambda>_. ()) x" b'] by (auto simp: map_ok_def)
    qed
  qed
qed

lemma recover_media_floored:
  assumes run: "recover_media sha n m = (x, m')" and safe: "host_safe sha k (Down m)"
  shows "fm.floored sha k m' \<and> (\<forall>rep. x = Inr rep \<longrightarrow> fm.settled sha m')"
proof -
  have fl: "file_floored sha k (fm_a m)" "file_floored sha k (fm_b m)"
    and st: "file_settled sha (fm_a m)" "file_settled sha (fm_b m)"
    using safe by (simp_all add: host_safe_def media_files)
  show ?thesis
  proof (cases "sn_a_opens n \<and> sn_b_opens n")
    case False
    then show ?thesis using run fl
      by (auto simp: recover_media_def store_over_def startup_recover_def left_of_def media_files split: if_splits)
  next
    case True
    obtain y a' b' where r: "recover (file_store_ops sha) (file_store_ops sha)
        \<lparr>ab_file = fm_a m, ab_created = False, ab_script = sn_a_script n\<rparr>
        \<lparr>ab_file = fm_b m, ab_created = False, ab_script = sn_b_script n\<rparr> = (y, a', b')" by (metis prod_cases3)
    then have "x = y" "m' = m\<lparr>fm_a := ab_file a', fm_b := ab_file b'\<rparr>"
      using run True by (auto simp: recover_media_def store_over_def startup_recover_def left_of_def)
    then show ?thesis using recover_floored [OF r, of k] fl st by (simp add: media_files)
  qed
qed

lemma allocator_open_cases:
  assumes "allocator_open sha bid e m = (x, m')"
  obtains (refused) err where "x = Inl err" "m' = m"
    | (opened) bk where "fst (open_validated sha (fst (al_book e)) (snd (al_book e))) = Inr bk"
        "bh_book_id (bk_header bk) = bid"
        "core_open sha file_media_ops book_reader bid (m\<lparr>fm_script := al_script e\<rparr>) bk = (x, m')"
proof (cases "fst (open_validated sha (fst (al_book e)) (snd (al_book e)))")
  case Inl
  then show thesis using assms refused by (auto simp: allocator_open_def)
next
  case bk: (Inr bk)
  show thesis
  proof (cases "bh_book_id (bk_header bk) = bid \<and> media_open (al_a_opens e) (al_b_opens e) = Inr () \<and> al_lock e = Inr ()")
    case True
    then show thesis using assms bk opened [OF bk] by (simp add: allocator_open_def)
  next
    case False
    then show thesis using assms bk refused by (auto simp: allocator_open_def split: sum.splits if_splits)
  qed
qed

lemma allocator_open_safe:
  assumes run: "allocator_open sha bid e m = (x, m')" and safe: "fm.floored sha k m" "fm.settled sha m"
  shows "fm.floored sha k m' \<and> (\<forall>s. x = Inr s \<longrightarrow> fm.core_safe sha k s \<and> co_media s = m')"
  using run
proof (cases rule: allocator_open_cases)
  case (opened bk)
  show ?thesis by (rule fm.open_safe [OF opened(3)]) (use safe in simp_all)
qed (use safe in simp)

lemma start_up_cases:
  assumes "start_up sha server n m = (x, m', au)"
  obtains (early) e where "x = Inl e" "m' = m"
    | (unrecovered) e where "x = Inl (StRecovery e)" "recover_media sha n m = (Inl e, m')"
    | (unopened) bid rep m1 e where "x = Inl (StAllocator e)" "recover_media sha n m = (Inr rep, m1)"
        "allocator_open sha bid (sn_alloc n) m1 = (Inl e, m')"
    | (started) bk rep m1 s where "x = Inr (bk_header bk, rep, s)"
        "fst (harden_process (fst (sn_process n)) (snd (sn_process n))) = Inr ()"
        "fst (open_validated sha (fst (sn_book n)) (snd (sn_book n))) = Inr bk"
        "\<not> refuse_startup (doctor_run True (sn_allow_swap n) (sn_status n) (sn_probes n))"
        "recover_media sha n m = (Inr rep, m1)"
        "allocator_open sha (bh_book_id (bk_header bk)) (sn_alloc n) m1 = (Inr s, m')"
proof (cases "fst (harden_process (fst (sn_process n)) (snd (sn_process n)))")
  case Inl
  then show thesis using assms early by (auto simp: start_up_def split: prod.splits)
next
  case h: (Inr u)
  show thesis
  proof (cases "fst (open_validated sha (fst (sn_book n)) (snd (sn_book n)))")
    case Inl
    then show thesis using assms h early by (auto simp: start_up_def split: prod.splits)
  next
    case bk: (Inr bk)
    show thesis
    proof (cases "refuse_startup (doctor_run True (sn_allow_swap n) (sn_status n) (sn_probes n)) \<or> is_err (open_audit (sn_audit_log n))")
      case True
      then show thesis using assms h bk early by (auto simp: start_up_def is_err_def split: prod.splits sum.splits if_splits)
    next
      case False
      obtain y m1 where r: "recover_media sha n m = (y, m1)" by fastforce
      show thesis
      proof (cases y)
        case (Inl e)
        then show thesis using assms h bk False r unrecovered
          by (auto simp: start_up_def is_err_def split: prod.splits sum.splits)
      next
        case (Inr rep)
        obtain z m2 where o: "allocator_open sha (bh_book_id (bk_header bk)) (sn_alloc n) m1 = (z, m2)" by fastforce
        have "x = (case z of Inl e \<Rightarrow> Inl (StAllocator e) | Inr s \<Rightarrow> Inr (bk_header bk, rep, s)) \<and> m' = m2"
          using assms h bk False r Inr o
          by (cases z) (auto simp: start_up_def is_err_def Let_def split: prod.splits sum.splits)
        then show thesis using unopened [of _ rep m1 "bh_book_id (bk_header bk)"] r Inr o started [OF _ _ bk] h False
          by (cases z) auto
      qed
    qed
  qed
qed

text \<open>A start that is given up leaves nothing on the anchors below the floor; one that succeeds, nothing to issue.\<close>

lemma start_up_floored:
  assumes run: "start_up sha server n m = (x, m', au)" and safe: "host_safe sha k (Down m)"
  shows "fm.floored sha k m' \<and> (\<forall>h rep s. x = Inr (h, rep, s) \<longrightarrow> fm.core_safe sha k s \<and> co_media s = m')"
  using run
proof (cases rule: start_up_cases)
  case early
  then show ?thesis using safe by (simp add: host_safe_def)
next
  case unrecovered
  then show ?thesis using recover_media_floored [OF _ safe] by auto
next
  case (unopened bid rep m1 e)
  then show ?thesis using recover_media_floored [OF unopened(2) safe] allocator_open_safe [OF unopened(3), of k] by simp
next
  case (started bk rep m1 s)
  then show ?thesis using recover_media_floored [OF started(5) safe] allocator_open_safe [OF started(6), of k] by simp
qed

section \<open>What a started program rests on\<close>

lemma core_open_ok:
  assumes run: "core_open sha file_media_ops book_reader bid m bk = (Inr s, m')"
    and held: "decode_and_verify sha (fm_content m CopyA) = Inr r" "decode_and_verify sha (fm_content m CopyB) = Inr r"
  shows "co_current s = r \<and> ar_book_id r = bid \<and> ar_next r \<le> bh_segment_count (bk_header (co_reader s)) \<and>
    \<not> co_halted s \<and> fm_content m' = fm_content m \<and>
    (case ar_payload r of Commit d \<Rightarrow> d = sha (alloc_book s (alloc_ptr s - 1)) | _ \<Rightarrow> True)"
proof -
  obtain ya m1 where A: "read_record sha file_media_ops CopyA m = (ya, m1)" by fastforce
  obtain yb m2 where B: "read_record sha file_media_ops CopyB m1 = (yb, m2)" by fastforce
  obtain a b where ab: "ya = Inr a" "yb = Inr b"
    using run A B by (cases ya; cases yb) (auto simp: core_open_def)
  have "a = r" "b = r"
    using fm.read_record_law [OF A] fm.read_record_law [OF B] held ab by auto
  then have d: "decide (Inr a) (Inr b) = Consistent r" by (simp add: decide_def state_cmp_def cmp_lin_def)
  obtain x rd where v: "verify_prior sha book_reader r bk = (x, rd)" by fastforce
  have s: "s = \<lparr>co_media = m', co_reader = rd, co_book_id = bid, co_current = r, co_halted = False\<rparr>"
    "x = Inr ()" "ar_book_id r = bid" "\<not> bh_segment_count (bk_header bk) < ar_next r" "m' = m2"
    using run A B ab d v \<open>a = r\<close> \<open>b = r\<close>
    by (cases x; auto simp: core_open_def repair_stale_def book_reader_def split: if_splits)+
  have c: "fm_content m' = fm_content m"
    using s(5) fm.read_record_law [OF A] fm.read_record_law [OF B] by simp
  show ?thesis
  proof (cases "ar_payload r")
    case (Commit h)
    then obtain p body where p: "u64_checked_sub (ar_next r) 1 = Some p" "rd_read book_reader p bk = (Inr body, rd)"
      "sha body = h"
      using v s(2) by (auto simp: verify_prior_def split: option.splits prod.splits sum.splits if_splits)
    have "unat p = unat (ar_next r) - 1"
      using p(1) by (auto simp: u64_checked_sub_def unat_sub_if_size word_le_nat_alt split: if_splits)
    moreover have "body = segment_at (bk_data bk) (unat p)" "segment_at (bk_data rd) = segment_at (bk_data bk)"
      using bk.rd_ok [OF p(2)] bk.rd_law [OF p(2)] by simp_all
    moreover have "bh_segment_count (bk_header rd) = bh_segment_count (bk_header bk)"
      using bk.rd_law [OF p(2)] by (simp add: book_reader_def)
    ultimately show ?thesis using s c Commit p(3) by (simp add: alloc_book_def alloc_ptr_def not_less)
  qed (use s c v in \<open>auto simp: verify_prior_def alloc_book_def not_less\<close>)
qed

text \<open>
  C3. A program that has started is hardened and in an environment that the doctor admits, and its anchors
  are in order: before, both held a valid record of the book's identity; now both hold the higher one of the two,
  which is where the allocator continues, inside the book; and if the last transaction was
  committed, the digest it recorded is the digest of the segment of this very book below the pointer.
\<close>

theorem started_in_order:
  assumes "start_up sha server n m = (Inr (h, rep, s), m', au)"
  shows "fst (harden_process (fst (sn_process n)) (snd (sn_process n))) = Inr () \<and>
    \<not> refuse_startup (doctor_run True (sn_allow_swap n) (sn_status n) (sn_probes n)) \<and>
    (\<exists>ra rb. decode_and_verify sha (f_cache (fm_a m)) = Inr ra \<and> decode_and_verify sha (f_cache (fm_b m)) = Inr rb \<and>
      ar_book_id ra = bh_book_id h \<and> ar_book_id rb = bh_book_id h \<and>
      ar_next (co_current s) = max (ar_next ra) (ar_next rb) \<and>
      state_key (co_current s) = max (state_key ra) (state_key rb)) \<and>
    decode_and_verify sha (f_cache (fm_a m')) = Inr (co_current s) \<and>
    decode_and_verify sha (f_cache (fm_b m')) = Inr (co_current s) \<and> co_current s = rep_adopted rep \<and>
    ar_next (co_current s) \<le> bh_segment_count (bk_header (co_reader s)) \<and> \<not> co_halted s \<and>
    (case ar_payload (co_current s) of Commit d \<Rightarrow> d = sha (alloc_book s (alloc_ptr s - 1)) | _ \<Rightarrow> True)"
  using assms
proof (cases rule: start_up_cases)
  case (started bk rep' m1 s')
  then have eq: "h = bk_header bk" "rep' = rep" "s' = s" by simp_all
  let ?A = "\<lparr>ab_file = fm_a m, ab_created = False, ab_script = sn_a_script n\<rparr>"
    and ?B = "\<lparr>ab_file = fm_b m, ab_created = False, ab_script = sn_b_script n\<rparr>"
  obtain a' b' where r: "recover_with_options (file_store_ops sha) (file_store_ops sha) None (\<lambda>_. True) ?A ?B = (Inr rep, a', b')"
    and m1: "m1 = m\<lparr>fm_a := ab_file a', fm_b := ab_file b'\<rparr>"
    using started(5) unfolding eq recover_media_def startup_recover_def store_over_def
    by (auto simp: recover_def left_of_def split: if_splits prod.splits)
  have both: "decode_and_verify sha (f_cache (ab_file a')) = Inr (rep_adopted rep)"
    "decode_and_verify sha (f_cache (ab_file b')) = Inr (rep_adopted rep)"
    using fs2.recover_ok_held [OF r] by (auto simp: file_held_def split: sum.splits)
  from r obtain ra rb a1 b1 where q: "st_read (file_store_ops sha) ?A = (Inr ra, a1)"
    "st_read (file_store_ops sha) ?B = (Inr rb, b1)" "adopted_of (decide (Inr ra) (Inr rb)) = Some (rep_adopted rep)"
    by (rule fs2.recover_decides)
  have held: "decode_and_verify sha (f_cache (fm_a m)) = Inr ra" "decode_and_verify sha (f_cache (fm_b m)) = Inr rb"
    using fs.read_ok [OF q(1)] fs.read_ok [OF q(2)] by (auto simp: file_held_def split: sum.splits)
  from started(6) [unfolded eq] obtain bk2 where
    o: "core_open sha file_media_ops book_reader (bh_book_id h) (m1\<lparr>fm_script := al_script (sn_alloc n)\<rparr>) bk2 = (Inr s, m')"
    by (cases rule: allocator_open_cases) (use eq in auto)
  have start: "fm_content (m1\<lparr>fm_script := al_script (sn_alloc n)\<rparr>) CopyA = f_cache (ab_file a')"
    "fm_content (m1\<lparr>fm_script := al_script (sn_alloc n)\<rparr>) CopyB = f_cache (ab_file b')"
    by (simp_all add: m1 fm_content_def fm_file_def)
  note ok = core_open_ok [OF o both [folded start]]
  from ok have c: "fm_content m' = fm_content (m1\<lparr>fm_script := al_script (sn_alloc n)\<rparr>)" by blast
  have after: "f_cache (fm_a m') = f_cache (ab_file a')" "f_cache (fm_b m') = f_cache (ab_file b')"
    using fun_cong [OF c, of CopyA] fun_cong [OF c, of CopyB] start by (simp_all add: fm_content_def fm_file_def)
  have cur: "co_current s = rep_adopted rep" "ar_book_id (rep_adopted rep) = bh_book_id h" using ok by auto
  have ids: "ar_book_id ra = ar_book_id (rep_adopted rep)" "ar_book_id rb = ar_book_id (rep_adopted rep)"
    "ar_next (rep_adopted rep) = max (ar_next ra) (ar_next rb)"
    "state_key (rep_adopted rep) = max (state_key ra) (state_key rb)"
    using decide_adopts_max [OF q(3)] by auto
  have rest: "ar_next (co_current s) \<le> bh_segment_count (bk_header (co_reader s))" "\<not> co_halted s"
    "case ar_payload (co_current s) of Commit d \<Rightarrow> d = sha (alloc_book s (alloc_ptr s - 1)) | _ \<Rightarrow> True"
    using ok by (simp_all add: cur(1))
  show ?thesis
    using started(2,4) both held cur ids rest after by metis
qed simp_all

section \<open>A start that nothing disturbs\<close>

lemma read_undisturbed:
  assumes "decode_and_verify sha (f_cache f) = Inr r"
  shows "st_read (file_store_ops sha) \<lparr>ab_file = f, ab_created = c, ab_script = []\<rparr> =
      (Inr r, \<lparr>ab_file = f\<lparr>f_pos := length (f_cache f)\<rparr>, ab_created = c, ab_script = []\<rparr>)"
    "fm_file k m = f \<Longrightarrow> fm_script m = [] \<Longrightarrow>
      read_record sha file_media_ops k m = (Inr r, fm_put k ([], f\<lparr>f_pos := length (f_cache f)\<rparr>) m)"
  using assms
  by (simp_all add: file_store_ops_def file_store_read_def backend_read_verified_def file_seek0_def
      file_read_to_end_def os_call_def ab_put_def read_record_def file_media_ops_def fm_read_def)

lemma start_undisturbed:
  assumes bk: "fst (open_validated sha (fst (sn_book n)) (snd (sn_book n))) = Inr bk" "al_book (sn_alloc n) = sn_book n"
    and env: "fst (harden_process (fst (sn_process n)) (snd (sn_process n))) = Inr ()"
      "\<not> refuse_startup (doctor_run True (sn_allow_swap n) (sn_status n) (sn_probes n))"
      "open_audit (sn_audit_log n) = Inr au"
    and quiet: "sn_a_opens n" "sn_b_opens n" "sn_a_script n = []" "sn_b_script n = []" "al_a_opens (sn_alloc n)"
      "al_b_opens (sn_alloc n)" "al_lock (sn_alloc n) = Inr ()" "al_script (sn_alloc n) = []"
    and d: "decode_and_verify sha (f_cache fa) = Inr r" "decode_and_verify sha (f_cache fb) = Inr r"
    and r: "ar_book_id r = bh_book_id (bk_header bk)" "ar_payload r = Init" "ar_next r \<le> bh_segment_count (bk_header bk)"
  shows "\<exists>m' e. start_up sha server n \<lparr>fm_a = fa, fm_b = fb, fm_script = sc\<rparr> = (Inr (bk_header bk, recovery_report_of r None,
      \<lparr>co_media = m', co_reader = bk, co_book_id = bh_book_id (bk_header bk), co_current = r, co_halted = False\<rparr>), m',
      Some (snd (audit_emit e au)))"
proof -
  let ?b = "bh_book_id (bk_header bk)"
  let ?ga = "fa\<lparr>f_pos := length (f_cache fa)\<rparr>" and ?gb = "fb\<lparr>f_pos := length (f_cache fb)\<rparr>"
  let ?m = "\<lparr>fm_a = ?ga, fm_b = ?gb, fm_script = sc\<rparr>"
  have rec: "recover_media sha n \<lparr>fm_a = fa, fm_b = fb, fm_script = sc\<rparr> = (Inr (recovery_report_of r None), ?m)"
    by (simp add: recover_media_def store_over_def startup_recover_def quiet recover_def recover_with_options_def
        read_undisturbed(1) d decide_same recovery_choice_def finish_recovery_def left_of_def)
  have dg: "decode_and_verify sha (f_cache ?ga) = Inr r" "decode_and_verify sha (f_cache ?gb) = Inr r" using d by simp_all
  let ?m1 = "?m\<lparr>fm_script := []\<rparr>"
  let ?m2 = "fm_put CopyA ([], ?ga\<lparr>f_pos := length (f_cache ?ga)\<rparr>) ?m1"
  have "read_record sha file_media_ops CopyA ?m1 = (Inr r, ?m2)"
    by (rule read_undisturbed(2) [OF dg(1)]) (simp_all add: fm_file_def)
  moreover have "read_record sha file_media_ops CopyB ?m2 =
      (Inr r, fm_put CopyB ([], ?gb\<lparr>f_pos := length (f_cache ?gb)\<rparr>) ?m2)"
    by (rule read_undisturbed(2) [OF dg(2)]) (simp_all add: fm_file_def fm_put_def)
  ultimately have "\<exists>m'. core_open sha file_media_ops book_reader ?b ?m1 bk =
      (Inr \<lparr>co_media = m', co_reader = bk, co_book_id = ?b, co_current = r, co_halted = False\<rparr>, m')"
    using r by (simp add: core_open_def decide_same verify_prior_def repair_stale_def book_reader_def)
  then obtain m' where op: "allocator_open sha ?b (sn_alloc n) ?m = (Inr \<lparr>co_media = m', co_reader = bk,
      co_book_id = ?b, co_current = r, co_halted = False\<rparr>, m')"
    using bk quiet by (auto simp: allocator_open_def media_open_def)
  have a: "recovery_report_of r None = rep \<Longrightarrow> rep_adopted rep = r" for rep by (auto simp: recovery_report_of_def)
  show ?thesis
    using env bk(1) rec op
    by (auto simp: start_up_def emit_ok_def split: prod.splits)
qed

section \<open>A small host\<close>

text \<open>The texts are \<open>Uid: 1 1\<close> and a table of swap areas of one heading without a line below.\<close>

definition small_status :: code_points where
  "small_status = [85, 105, 100, 58, 32, 49, 32, 49]"

definition small_probes :: doctor_probes where
  "small_probes = \<lparr>dp_core = \<lparr>cf_core_limit = Some 0, cf_dumpable = Some 0\<rparr>,
    dp_swaps = Some [70, 105, 108, 101], dp_stat = (\<lambda>_. Some (True, 384, 1)),
    dp_statfs = (\<lambda>_. Inr 0xEF53), dp_components = [Some [115, 114, 118]], dp_marker = True\<rparr>"

definition small_env :: start_env where
  "small_env =
    (let bk = (OpenOk \<lparr>bf_regular = True, bf_data = small_data\<rparr>, []) in
     \<lparr>sn_process = ([], \<lparr>pr_core_soft = 7, pr_dumpable = 1\<rparr>), sn_book = bk, sn_allow_swap = False,
      sn_status = Some small_status, sn_probes = small_probes, sn_audit_log = None,
      sn_a_opens = True, sn_b_opens = True, sn_a_script = [], sn_b_script = [],
      sn_alloc = \<lparr>al_book = bk, al_a_opens = True, al_b_opens = True, al_lock = Inr (), al_script = []\<rparr>\<rparr>)"

definition small_anchors :: file_media where
  "small_anchors = (let x = encode_record sum_digest (anchor_init (replicate 16 7)) in pristine x x)"

lemma small_euid: "current_euid (Some small_status) = 1"
  by (simp add: current_euid_def small_status_def text_of_def text_lines.simps split_whitespace.simps
      is_whitespace_def parse_u32_def digits_value_def)

lemma small_admitted: "\<not> refuse_startup (doctor_run True False (Some small_status) small_probes)"
proof -
  have "swap_tolerable (dp_swaps small_probes)"
    by (simp add: swap_tolerable_def small_probes_def parse_proc_swaps_def text_lines.simps List.map_filter_simps)
  moreover have "to_ascii_lowercase [115, 114, 118] \<notin> set sync_dir_components"
    by (simp add: to_ascii_lowercase_def sync_dir_components_def text_of_def)
  ultimately show ?thesis
    unfolding doctor_admits small_euid by (auto simp: small_probes_def owner_modes_def split: if_splits)
qed

lemma small_start:
  assumes "open_audit log = Inr au"
  shows "\<exists>rep s m' e. start_up sum_digest server (small_env\<lparr>sn_audit_log := log\<rparr>) small_anchors =
      (Inr (small_header, rep, s), m', Some (snd (audit_emit e au))) \<and> co_reader s = small_book \<and>
    co_current s = anchor_init (replicate 16 7) \<and> \<not> co_halted s"
proof -
  let ?x = "encode_record sum_digest (anchor_init (replicate 16 7))"
  have d: "decode_and_verify sum_digest (f_cache (file_of ?x)) = Inr (anchor_init (replicate 16 7))"
    unfolding file_of_def
    by (simp, rule decode_encode_record) (simp_all add: wf_anchor_def canonical_anchor_def anchor_init_def digest32_sum_digest)
  have h: "fst (harden_process (fst (sn_process small_env)) (snd (sn_process small_env))) = Inr ()"
    by (simp add: harden_process_def small_env_def os_call_def collect_core_facts_def eval_core_def Let_def)
  show ?thesis
    using start_undisturbed [of sum_digest "small_env\<lparr>sn_audit_log := log\<rparr>" small_book au, OF _ _ _ _ _ _ _ _ _ _ _ _ _ d d]
      assms small_open small_admitted h
    by (fastforce simp: small_env_def small_anchors_def pristine_def Let_def anchor_init_def small_header_def)
qed

theorem started_in_order_witness:
  "\<exists>rep s m' au. start_up sum_digest True small_env small_anchors = (Inr (small_header, rep, s), m', au) \<and>
    decode_and_verify sum_digest (f_cache (fm_a m')) = Inr (co_current s) \<and> ar_next (co_current s) \<le> 3"
proof -
  have e: "small_env\<lparr>sn_audit_log := None\<rparr> = small_env" by (simp add: small_env_def Let_def)
  obtain rep s m' au where r: "start_up sum_digest True small_env small_anchors =
      (Inr (small_header, rep, s), m', au)" and s: "co_reader s = small_book"
    using small_start [of None "audit_disabled []" True] unfolding e by (auto simp: open_audit_def)
  from started_in_order [OF r] have "decode_and_verify sum_digest (f_cache (fm_a m')) = Inr (co_current s)"
    and "ar_next (co_current s) \<le> bh_segment_count (bk_header (co_reader s))" by blast+
  with r s show ?thesis by (auto simp: small_header_def)
qed

end
