(* ===== verification/Programs.thy ===== *)
theory Programs
  imports Floor Startup TermClient "HOL-Library.Sublist"
begin

text \<open>
  The two programs behind their start (\<open>run_serve\<close>, \<open>serve_one\<close> and \<open>run_connect\<close> in
  \<open>crates/otp-cli/src/main.rs\<close>) and the life of a host: crashes, starts, the accept loop, the
  connection threads in any order, client runs. A thread takes the lock of the allocator or of the log for one
  section of code at a time, so a step of \<open>worker_step\<close> is one such section, or the terminal service, which takes neither.
  Lines printed for the operator, the raw mode of the terminal and binding the socket are left out.
\<close>

section \<open>The server\<close>

datatype worker_end = EndRefused session_failure | EndUnlogged | EndServed session_info serve_summary

text \<open>
  Where a connection thread is: before the handshake; behind a failed one, without and with the state of the allocator
  read for the log; with a session that is not in the log yet; with the data plane open; behind it, when
  the terminal was busy, on the way to the log; at its end.
\<close>

datatype 's worker =
    WkHandshake 's
  | WkFailed session_failure
  | WkRejected session_failure segment_index generation
  | WkIssued session session_info 's
  | WkAttached session session_info 's
  | WkBusy session_info serve_summary
  | WkDenied session_info serve_summary segment_index generation
  | WkDone worker_end

record 's server =
  sr_ep :: endpoint
  sr_deadline :: nat
  sr_sessions :: u64
  sr_served :: u64
  sr_listening :: bool
  sr_alloc :: "(file_media, book) core"
  sr_audit :: audit
  sr_workers :: "'s worker list"

text \<open>What the surroundings bring to a step: the nonce, the answers of the two disks, the registry and what the other
  threads do to it.\<close>

record turn =
  tn_nonce :: "nonce16 option"
  tn_disk :: script
  tn_log :: script
  tn_registry :: registry
  tn_now :: nat
  tn_env :: "(nat \<times> env_act list) list"

definition with_answers :: "script \<Rightarrow> audit \<Rightarrow> audit" where
  "with_answers sc au = au\<lparr>au_script := sc\<rparr>"

definition worker_step ::
  "(bytes \<Rightarrow> bytes) \<Rightarrow> 's framed \<Rightarrow> aead \<Rightarrow> endpoint \<Rightarrow> nat \<Rightarrow> turn \<Rightarrow> 's worker \<Rightarrow>
    (file_media, book) core \<Rightarrow> audit \<Rightarrow> ('s worker \<times> (file_media, book) core \<times> audit) option" where
  "worker_step sha fs ae ep deadline t w s au = (case w of
     WkHandshake io \<Rightarrow>
       (case server_handshake fs ae (core_issue sha file_media_ops book_reader) alloc_state (tn_nonce t) ep deadline io
           (with_script (tn_disk t) s) of
          None \<Rightarrow> None
        | Some (Inl f, _, s) \<Rightarrow> Some (WkFailed f, s, au)
        | Some (Inr (se, info), io, s) \<Rightarrow> Some (WkIssued se info io, s, au))
   | WkFailed f \<Rightarrow> Some (WkRejected f (fst (alloc_state s)) (snd (alloc_state s)), s, au)
   | WkRejected f nx g \<Rightarrow> Some (WkDone (EndRefused f), s,
       snd (emit_err (ep_book_id ep) nx g Rejected (sf_category f) (with_answers (tn_log t) au)))
   | WkIssued se info io \<Rightarrow>
       (case emit_ok (ep_book_id ep) (si_segment info) (si_generation info) Issued (with_answers (tn_log t) au) of
          (Inl _, au) \<Rightarrow> Some (WkDone EndUnlogged, s, au)
        | (Inr _, au) \<Rightarrow> Some (WkAttached se info io, s, au))
   | WkAttached se info io \<Rightarrow>
       (case registry_next_conn (tn_registry t) of (conn, reg) \<Rightarrow>
        (case serve_connection fs ae default_serve_options conn
           \<lparr>sv_io = io, sv_session = se, sv_reg = reg, sv_now = tn_now t, sv_env = tn_env t, sv_inputs = []\<rparr> of
          None \<Rightarrow> None
        | Some (sm, _) \<Rightarrow>
            Some (if sm_end sm = SeDeniedBusy then WkBusy info sm else WkDone (EndServed info sm), s, au)))
   | WkBusy info sm \<Rightarrow> Some (WkDenied info sm (fst (alloc_state s)) (snd (alloc_state s)), s, au)
   | WkDenied info sm nx g \<Rightarrow> Some (WkDone (EndServed info sm), s,
       snd (emit_err (ep_book_id ep) nx g Rejected CatTerminal (with_answers (tn_log t) au)))
   | WkDone _ \<Rightarrow> None)"

definition endpoint_of :: "book_header \<Rightarrow> endpoint" where
  "endpoint_of h = \<lparr>ep_book_id = bh_book_id h, ep_segment_count = bh_segment_count h\<rparr>"

definition server_started ::
  "nat \<Rightarrow> u64 \<Rightarrow> book_header \<Rightarrow> (file_media, book) core \<Rightarrow> audit \<Rightarrow> 's server" where
  "server_started deadline sessions h s au = \<lparr>sr_ep = endpoint_of h, sr_deadline = deadline,
    sr_sessions = sessions, sr_served = 0, sr_listening = True, sr_alloc = s, sr_audit = au, sr_workers = []\<rparr>"

text \<open>One round of the accept loop; a failed \<open>accept\<close> ends it.\<close>

definition server_accept :: "transport_error + 's \<Rightarrow> 's server \<Rightarrow> 's server option" where
  "server_accept r v = (if sr_listening v \<and> sr_served v < sr_sessions v
     then Some (case r of
         Inl _ \<Rightarrow> v\<lparr>sr_listening := False\<rparr>
       | Inr io \<Rightarrow> v\<lparr>sr_served := sr_served v + 1, sr_workers := sr_workers v @ [WkHandshake io]\<rparr>)
     else None)"

definition server_turn ::
  "(bytes \<Rightarrow> bytes) \<Rightarrow> 's framed \<Rightarrow> aead \<Rightarrow> nat \<Rightarrow> turn \<Rightarrow> 's server \<Rightarrow> 's server option" where
  "server_turn sha fs ae i t v = (if i < length (sr_workers v)
     then map_option (\<lambda>(w, s, au). v\<lparr>sr_alloc := s, sr_audit := au, sr_workers := (sr_workers v)[i := w]\<rparr>)
       (worker_step sha fs ae (sr_ep v) (sr_deadline v) t (sr_workers v ! i) (sr_alloc v) (sr_audit v))
     else None)"

section \<open>The client\<close>

definition CONNECT_PING_INTERVAL :: nat where "CONNECT_PING_INTERVAL = 1000"

definition map_terminal_err :: "terminal_error \<Rightarrow> session_failure" where
  "map_terminal_err e = session_failure_new
    (case e of
       TeLeaseHeldByOther _ \<Rightarrow> BAD_ORDER
     | TeStaleWriter \<Rightarrow> SEQ_REPLAY
     | TeTerminalGone \<Rightarrow> BAD_ORDER
     | TeHandshake h \<Rightarrow> handshake_error_code h
     | TeSession s \<Rightarrow> (case session_wire_code s of None \<Rightarrow> INTERNAL | Some c \<Rightarrow> c)
     | TeTransport t \<Rightarrow> transport_code t
     | _ \<Rightarrow> IO_ERROR)
    (case e of
       TeHandshake _ \<Rightarrow> CatHandshake
     | TeSession _ \<Rightarrow> CatSession
     | TeTransport _ \<Rightarrow> CatTransport
     | _ \<Rightarrow> CatTerminal)"

text \<open>The arguments of the command and what the surroundings of the client bring.\<close>

record client_env =
  cv_deadline :: nat
  cv_recover :: "u64 option"
  cv_nonce :: "nonce16 option"
  cv_disk :: script
  cv_log :: script
  cv_window :: "window_size option"
  cv_clock :: clock
  cv_rx :: "rx_event list"
  cv_windows :: "window_size option list"
  cv_out :: stdio

definition window_fallback :: window_size where
  "window_fallback = \<lparr>wi_rows = 24, wi_cols = 80\<rparr>"

definition connect_mode :: "client_env \<Rightarrow> attach_mode" where
  "connect_mode c = (let w = (case cv_window c of Some w \<Rightarrow> w | None \<Rightarrow> window_fallback) in
     case cv_recover c of Some h \<Rightarrow> AmRecover h w | None \<Rightarrow> AmNew w)"

text \<open>The terminal of the client, behind the log entry.\<close>

definition connect_terminal ::
  "'s framed \<Rightarrow> aead \<Rightarrow> client_env \<Rightarrow> session \<Rightarrow> session_info \<Rightarrow> 's \<Rightarrow> (session_failure + session_info \<times> u32) option" where
  "connect_terminal fs ae c se info io =
    (case attach fs ae (connect_mode c) \<lparr>cl_attach_timeout = cv_deadline c\<rparr> se io (cv_clock c) of
       None \<Rightarrow> None
     | Some (Inl e, _) \<Rightarrow> Some (Inl (map_terminal_err e))
     | Some (Inr term, _, _, ck) \<Rightarrow>
         (case run_interactive fs ae CONNECT_PING_INTERVAL (cv_rx c) (cv_windows c) (cv_out c) ck term of
            None \<Rightarrow> None
          | Some (Inl e, _) \<Rightarrow> Some (Inl (map_terminal_err e))
          | Some (Inr code, _) \<Rightarrow> Some (Inr (info, code))))"

text \<open>
  A run over an open connection: the result, the session that was established, if any, and what is left of
  allocator and log; then the exit code and the entry for a failure.
\<close>

definition connect_session ::
  "(bytes \<Rightarrow> bytes) \<Rightarrow> 's framed \<Rightarrow> aead \<Rightarrow> endpoint \<Rightarrow> client_env \<Rightarrow> 's \<Rightarrow> (file_media, book) core \<Rightarrow> audit \<Rightarrow>
    ((session_failure + session_info \<times> u32) \<times> session_info option \<times> (file_media, book) core \<times> audit) option" where
  "connect_session sha fs ae ep c io s au =
    (case client_handshake fs ae (core_issue sha file_media_ops book_reader) alloc_state (cv_nonce c) ep (cv_deadline c) io
        (with_script (cv_disk c) s) of
       None \<Rightarrow> None
     | Some (Inl f, _, s) \<Rightarrow> Some (Inl f, None, s, with_answers (cv_log c) au)
     | Some (Inr (se, info), io, s) \<Rightarrow>
         (case emit_ok (ep_book_id ep) (si_segment info) (si_generation info) Issued (with_answers (cv_log c) au) of
            (Inl _, au) \<Rightarrow> Some (Inl (session_failure_new IO_ERROR CatPlatform), Some info, s, au)
          | (Inr _, au) \<Rightarrow> map_option (\<lambda>r. (r, Some info, s, au)) (connect_terminal fs ae c se info io)))"

definition connect_run ::
  "(bytes \<Rightarrow> bytes) \<Rightarrow> 's framed \<Rightarrow> aead \<Rightarrow> endpoint \<Rightarrow> client_env \<Rightarrow> transport_error + 's \<Rightarrow> (file_media, book) core \<Rightarrow>
    audit \<Rightarrow> (u32 \<times> session_info option \<times> (file_media, book) core \<times> audit) option" where
  "connect_run sha fs ae ep c conn s au = (case conn of
     Inl _ \<Rightarrow> Some (1, None, s, au)
   | Inr io \<Rightarrow> (case connect_session sha fs ae ep c io s au of
       None \<Rightarrow> None
     | Some (Inr (_, code), got, s, au) \<Rightarrow> Some (code, got, s, au)
     | Some (Inl f, got, s, au) \<Rightarrow> Some (1, got, s,
         snd (emit_err (ep_book_id ep) (fst (alloc_state s)) (snd (alloc_state s)) Rejected (sf_category f) au))))"

section \<open>The life of a host\<close>

text \<open>
  \<open>life sha fs ae p out\<close>: a host with one pair of anchors reaches \<open>p\<close>, and \<open>out\<close> lists the segments of the sessions that
  its servers and clients have established, in order. A program that ends, by itself or in a crash,
  leaves of each anchor file what a crash can leave; a crash inside a call that returns is one behind the same call with
  failures for the remaining answers. A thread that panics or waits for ever has no further step; what it may have issued
  before, inside a handshake, is lost (\<open>lost\<close>, \<open>cut\<close>). A client that is killed behind its handshake (\<open>killed\<close>) has
  established its session.
\<close>

datatype 's place = Off file_media | Serving "'s server"

definition place_media :: "'s place \<Rightarrow> file_media" where
  "place_media p = (case p of Off m \<Rightarrow> m | Serving v \<Rightarrow> co_media (sr_alloc v))"

definition halted_media :: "os_file \<Rightarrow> os_file \<Rightarrow> file_media" where
  "halted_media fa fb = \<lparr>fm_a = fa, fm_b = fb, fm_script = []\<rparr>"

definition can_halt :: "(bytes \<Rightarrow> bytes) \<Rightarrow> file_media \<Rightarrow> file_media \<Rightarrow> bool" where
  "can_halt sha m m' \<longleftrightarrow> crash_of sha (fm_a m) (fm_a m') \<and> crash_of sha (fm_b m) (fm_b m') \<and>
    m' = halted_media (fm_a m') (fm_b m')"

definition got_segments :: "session_info option \<Rightarrow> nat list" where
  "got_segments info = (case info of None \<Rightarrow> [] | Some x \<Rightarrow> [unat (si_segment x)])"

text \<open>The session that a step of a thread has established.\<close>

definition established_by :: "'s worker \<Rightarrow> 's worker \<Rightarrow> session_info option" where
  "established_by w w' = (case (w, w') of (WkHandshake _, WkIssued _ info _) \<Rightarrow> Some info | _ \<Rightarrow> None)"

inductive life ::
  "(bytes \<Rightarrow> bytes) \<Rightarrow> 's framed \<Rightarrow> aead \<Rightarrow> 's place \<Rightarrow> nat list \<Rightarrow> bool"
  for sha fs ae where
  new: "life sha fs ae (Off (pristine xa xb)) []"
| halt: "life sha fs ae p out \<Longrightarrow> can_halt sha (place_media p) m \<Longrightarrow> life sha fs ae (Off m) out"
| refused: "life sha fs ae (Off m) out \<Longrightarrow> start_up sha server n m = (Inl e, m1, au) \<Longrightarrow> can_halt sha m1 m2 \<Longrightarrow>
    life sha fs ae (Off m2) out"
| serve: "life sha fs ae (Off m) out \<Longrightarrow> start_up sha True n m = (Inr (h, rep, s), m1, Some au) \<Longrightarrow>
    life sha fs ae (Serving (server_started deadline sessions h s au)) out"
| accept: "life sha fs ae (Serving v) out \<Longrightarrow> server_accept r v = Some v' \<Longrightarrow> life sha fs ae (Serving v') out"
| work: "life sha fs ae (Serving v) out \<Longrightarrow> server_turn sha fs ae i t v = Some v' \<Longrightarrow>
    life sha fs ae (Serving v') (out @ got_segments (established_by (sr_workers v ! i) (sr_workers v' ! i)))"
| connect: "life sha fs ae (Off m) out \<Longrightarrow> start_up sha False n m = (Inr (h, rep, s), m1, Some au) \<Longrightarrow>
    connect_run sha fs ae (endpoint_of h) c conn s au = Some (code, got, s', au') \<Longrightarrow>
    can_halt sha (co_media s') m2 \<Longrightarrow> life sha fs ae (Off m2) (out @ got_segments got)"
| lost: "life sha fs ae (Serving v) out \<Longrightarrow>
    core_issue sha file_media_ops book_reader (with_script sc (sr_alloc v)) = Some (x, s') \<Longrightarrow>
    life sha fs ae (Serving (v\<lparr>sr_alloc := s'\<rparr>)) out"
| cut: "life sha fs ae (Off m) out \<Longrightarrow> start_up sha False n m = (Inr (h, rep, s), m1, Some au) \<Longrightarrow>
    skip_segments (core_issue sha file_media_ops book_reader) k (with_script sc s) = Some (y, s') \<Longrightarrow>
    can_halt sha (co_media s') m2 \<Longrightarrow> life sha fs ae (Off m2) out"
| killed: "life sha fs ae (Off m) out \<Longrightarrow> start_up sha False n m = (Inr (h, rep, s), m1, Some au) \<Longrightarrow>
    client_handshake fs ae (core_issue sha file_media_ops book_reader) alloc_state (cv_nonce (c :: client_env)) (endpoint_of h)
      (cv_deadline c) io (with_script (cv_disk c) s) = Some (Inr (se, info), io', s') \<Longrightarrow>
    can_halt sha (co_media s') m2 \<Longrightarrow> life sha fs ae (Off m2) (out @ [unat (si_segment info)])"

inductive_cases life_ServingE: "life sha fs ae (Serving v) out"

definition place_safe :: "(bytes \<Rightarrow> bytes) \<Rightarrow> nat \<Rightarrow> 's place \<Rightarrow> bool" where
  "place_safe sha k p = (case p of
     Off m \<Rightarrow> fm.floored sha k m \<and> fm.settled sha m | Serving v \<Rightarrow> fm.core_safe sha k (sr_alloc v))"

lemma place_safe_simps [simp]:
  "place_safe sha k (Off m) \<longleftrightarrow> fm.floored sha k m \<and> fm.settled sha m"
  "place_safe sha k (Serving v) = fm.core_safe sha k (sr_alloc v)"
  by (simp_all add: place_safe_def)

lemma place_floored: "place_safe sha k p \<Longrightarrow> fm.floored sha k (place_media p)"
  by (cases p) (simp_all add: place_media_def fm.core_safe_def)

lemma halt_safe:
  assumes "can_halt sha m m'" "fm.floored sha k m"
  shows "place_safe sha k (Off m')"
  using crash_safe [OF assms(2), of "fm_a m'" "fm_b m'"] assms(1) by (simp add: can_halt_def halted_media_def host_safe_def)

lemma with_script_alloc [simp]:
  "alloc_ptr (with_script sc s) = alloc_ptr s" "alloc_book (with_script sc s) = alloc_book s"
  "alloc_state (with_script sc s) = alloc_state s"
  by (simp_all add: with_script_def alloc_ptr_def alloc_book_def alloc_state_def)

lemma high_mark_append [simp]: "high_mark (out @ [k]) = Suc k"
  by (simp add: high_mark_def)

text \<open>What a handshake of either side does to the floor.\<close>

lemma server_session_floor:
  assumes run: "server_handshake fs ae (core_issue sha file_media_ops book_reader) alloc_state rnd ep t io (with_script sc s) =
      Some (q, io', s')" and safe: "fm.core_safe sha k s"
  shows "alloc_book s' = alloc_book s \<and> fm.core_safe sha k s' \<and>
    (\<forall>se info. q = Inr (se, info) \<longrightarrow> k \<le> unat (si_segment info) \<and> fm.core_safe sha (Suc (unat (si_segment info))) s' \<and>
      server_earned ae (alloc_book s (unat (si_segment info))) (ep_book_id ep) (si_segment info) rnd se)"
proof -
  have safe': "fm.core_safe sha k (with_script sc s)" using safe by simp
  note fl = floored.server_handshake_floor [OF run safe']
  have k: "k \<le> alloc_ptr s" using floored.floor_ptr [OF safe] .
  have p: "unat (fst (alloc_state s)) = alloc_ptr s" by (simp add: alloc_state_def alloc_ptr_def)
  show ?thesis
  proof (cases q)
    case (Inl f)
    then show ?thesis using fl server_handshake_law [OF run] by simp
  next
    case (Inr r)
    obtain se info where r: "r = (se, info)" by fastforce
    show ?thesis
      using fl server_handshake_law [OF run] k p by (simp add: Inr r is_err_def)
  qed
qed

lemma client_session_floor:
  assumes run: "client_handshake fs ae (core_issue sha file_media_ops book_reader) alloc_state rnd ep t io (with_script sc s) =
      Some (q, io', s')" and safe: "fm.core_safe sha k s"
  shows "fm.core_safe sha k s' \<and>
    (\<forall>se info. q = Inr (se, info) \<longrightarrow> k \<le> unat (si_segment info) \<and> fm.core_safe sha (Suc (unat (si_segment info))) s')"
proof -
  have safe': "fm.core_safe sha k (with_script sc s)" using safe by simp
  note fl = floored.client_handshake_floor [OF run safe']
  have k: "k \<le> unat (fst (alloc_state s))" using floored.floor_ptr [OF safe] by (simp add: alloc_state_def alloc_ptr_def)
  show ?thesis
  proof (cases q)
    case (Inr r)
    obtain se info where r: "r = (se, info)" by fastforce
    show ?thesis
      using fl client_handshake_law [OF run] k by (simp add: Inr r is_err_def word_le_nat_alt)
  qed (use fl in simp)
qed

lemma worker_step_cases:
  assumes "worker_step sha fs ae ep d t w s au = Some (w', s', au')"
  obtains (handshake) io q io' where "w = WkHandshake io"
      "server_handshake fs ae (core_issue sha file_media_ops book_reader) alloc_state (tn_nonce t) ep d io
         (with_script (tn_disk t) s) = Some (q, io', s')"
      "w' = (case q of Inl f \<Rightarrow> WkFailed f | Inr (se, info) \<Rightarrow> WkIssued se info io')" "au' = au"
    | (logged) se info io where "w = WkIssued se info io" "s' = s"
        "emit_ok (ep_book_id ep) (si_segment info) (si_generation info) Issued (with_answers (tn_log t) au) = (Inr (), au')"
        "w' = WkAttached se info io"
    | (other) "\<And>se info io. w' \<noteq> WkIssued se info io" "\<And>se info io. w' \<noteq> WkAttached se info io" "s' = s"
        "\<And>io. w \<noteq> WkHandshake io"
        "au' = au \<or> (\<exists>e r. audit_emit e (with_answers (tn_log t) au) = (r, au'))"
proof (cases w)
  case (WkHandshake io)
  then show thesis using assms handshake [OF WkHandshake]
    by (auto simp: worker_step_def split: option.splits prod.splits sum.splits)
next
  case (WkIssued se info io)
  obtain r a where e: "emit_ok (ep_book_id ep) (si_segment info) (si_generation info) Issued
      (with_answers (tn_log t) au) = (r, a)" by fastforce
  show thesis
  proof (cases r)
    case Inl
    then show thesis using assms WkIssued e by (intro other) (auto simp: worker_step_def emit_ok_def)
  next
    case (Inr u)
    then show thesis using assms WkIssued e by (intro logged [OF WkIssued]) (auto simp: worker_step_def)
  qed
next
  case (WkRejected f nx g)
  obtain r a where e: "emit_err (ep_book_id ep) nx g Rejected (sf_category f) (with_answers (tn_log t) au) = (r, a)" by fastforce
  then show thesis using assms WkRejected by (intro other) (auto simp: worker_step_def emit_err_def)
next
  case (WkDenied info sm nx g)
  obtain r a where e: "emit_err (ep_book_id ep) nx g Rejected CatTerminal (with_answers (tn_log t) au) = (r, a)" by fastforce
  then show thesis using assms WkDenied by (intro other) (auto simp: worker_step_def emit_err_def)
next
  case (WkAttached se info io)
  then show thesis using assms by (intro other) (auto simp: worker_step_def split: prod.splits option.splits if_splits)
qed (use assms in \<open>auto simp: worker_step_def intro!: other\<close>)

lemma connect_run_floor:
  assumes run: "connect_run sha fs ae ep c conn s au = Some (code, got, s', au')" and safe: "fm.core_safe sha k s"
  shows "case got of None \<Rightarrow> fm.core_safe sha k s'
    | Some info \<Rightarrow> k \<le> unat (si_segment info) \<and> fm.core_safe sha (Suc (unat (si_segment info))) s'"
proof (cases conn)
  case Inl
  then show ?thesis using run safe by (auto simp: connect_run_def)
next
  case (Inr io)
  obtain x au1 where x: "connect_session sha fs ae ep c io s au = Some (x, got, s', au1)"
    using run Inr by (auto simp: connect_run_def split: option.splits prod.splits sum.splits)
  obtain q io' s1 where h: "client_handshake fs ae (core_issue sha file_media_ops book_reader) alloc_state (cv_nonce c) ep
      (cv_deadline c) io (with_script (cv_disk c) s) = Some (q, io', s1)"
    using x by (auto simp: connect_session_def split: option.splits)
  have "s1 = s' \<and> got = (case q of Inl _ \<Rightarrow> None | Inr (se, info) \<Rightarrow> Some info)"
    using x h by (auto simp: connect_session_def split: sum.splits prod.splits option.splits)
  then show ?thesis using client_session_floor [OF h safe] by (auto split: sum.splits)
qed

section \<open>No segment twice\<close>

lemma life_safe: "life sha fs ae p out \<Longrightarrow> place_safe sha (high_mark out) p \<and> sorted_wrt (<) out"
proof (induction rule: life.induct)
  case (new xa xb)
  have "history sha book_reader [] (Down (pristine xa xb)) []" by (rule history.start)
  from history_safe [OF this] show ?case by (simp add: host_safe_def)
next
  case (halt p out m)
  then show ?case using halt_safe place_floored by blast
next
  case (refused m out server n e m1 au m2)
  have "fm.floored sha (high_mark out) m1"
    using start_up_floored [OF refused.hyps(2), of "high_mark out"] refused.IH by (simp add: host_safe_def)
  then show ?case using halt_safe [OF refused.hyps(3)] refused.IH by blast
next
  case (serve m out n h rep s m1 au deadline sessions)
  then show ?case
    using start_up_floored [OF serve.hyps(2), of "high_mark out"] by (simp add: host_safe_def server_started_def)
next
  case (accept v out r v')
  then show ?case by (auto simp: server_accept_def split: if_splits sum.splits)
next
  case (work v out i t v')
  then obtain w' s' au' where i: "i < length (sr_workers v)"
    and w: "worker_step sha fs ae (sr_ep v) (sr_deadline v) t (sr_workers v ! i) (sr_alloc v) (sr_audit v) = Some (w', s', au')"
    and v': "sr_alloc v' = s'" "sr_workers v' ! i = w'"
    by (auto simp: server_turn_def split: if_splits)
  from work.IH have safe: "fm.core_safe sha (high_mark out) (sr_alloc v)" and srt: "sorted_wrt (<) out" by simp_all
  from w show ?case
  proof (cases rule: worker_step_cases)
    case (handshake io q io')
    note fl = server_session_floor [OF handshake(2) safe]
    show ?thesis
    proof (cases q)
      case (Inl f)
      then show ?thesis using fl handshake v' srt by (simp add: established_by_def got_segments_def)
    next
      case (Inr r)
      then show ?thesis
        using fl handshake v' srt
        by (cases r) (auto simp: established_by_def got_segments_def intro: sorted_append_above)
    qed
  next
    case logged
    then show ?thesis using safe srt v' by (simp add: established_by_def got_segments_def)
  next
    case other
    then show ?thesis using safe srt v'
      by (simp add: established_by_def got_segments_def split: worker.splits)
  qed
next
  case (connect m out n h rep s m1 au c conn code got s' au' m2)
  have "fm.core_safe sha (high_mark out) s"
    using start_up_floored [OF connect.hyps(2), of "high_mark out"] connect.IH by (simp add: host_safe_def)
  from connect_run_floor [OF connect.hyps(3) this]
  have "fm.core_safe sha (high_mark (out @ got_segments got)) s' \<and> sorted_wrt (<) (out @ got_segments got)"
    using connect.IH by (auto simp: got_segments_def split: option.splits intro: sorted_append_above)
  then show ?case using halt_safe [OF connect.hyps(4), of "high_mark (out @ got_segments got)"]
    by (simp add: fm.core_safe_def)
next
  case (lost v out sc x s')
  then show ?case using floored.issue_floor [OF lost.hyps(2), of "high_mark out"] by simp
next
  case (cut m out n h rep s m1 au k sc y s' m2)
  have "fm.core_safe sha (high_mark out) s"
    using start_up_floored [OF cut.hyps(2), of "high_mark out"] cut.IH by (simp add: host_safe_def)
  then have "fm.core_safe sha (high_mark out) s'" using floored.skip_floor [OF cut.hyps(3), of "high_mark out"] by simp
  then show ?case using halt_safe [OF cut.hyps(4), of "high_mark out"] cut.IH by (simp add: fm.core_safe_def)
next
  case (killed m out n h rep s m1 au c io se info io' s' m2)
  have "fm.core_safe sha (high_mark out) s"
    using start_up_floored [OF killed.hyps(2), of "high_mark out"] killed.IH by (simp add: host_safe_def)
  from client_session_floor [OF killed.hyps(3) this]
  have "fm.core_safe sha (Suc (unat (si_segment info))) s'" "sorted_wrt (<) (out @ [unat (si_segment info)])"
    using killed.IH by (auto intro: sorted_append_above)
  then show ?case using halt_safe [OF killed.hyps(4), of "Suc (unat (si_segment info))"] by (simp add: fm.core_safe_def)
qed

text \<open>
  C1. Over the whole life of a host, through crashes at any point, refused starts, servers with any number of connection
  threads in any order, and client runs, whatever peers and systems answer, the segments of the
  sessions that its programs establish are strictly increasing: no two sessions of a host ever have a segment in common.
\<close>

theorem sessions_never_share:
  assumes "life sha fs ae p out"
  shows "sorted_wrt (<) out \<and> distinct out"
  using life_safe [OF assms] strict_sorted_iff by blast

section \<open>No data plane without a log entry\<close>

definition issued_entry :: "book_id \<Rightarrow> session_info \<Rightarrow> audit_entry" where
  "issued_entry bid info = \<lparr>ae_book_id = bid, ae_segment = si_segment info, ae_generation = si_generation info,
    ae_outcome = Issued, ae_error_category = None\<rparr>"

text \<open>The line is on the disk, and in the file, so that it stays.\<close>

definition logged_line :: "audit_entry \<Rightarrow> audit \<Rightarrow> bool" where
  "logged_line e au = (case au_sink au of
     None \<Rightarrow> True
   | Some f \<Rightarrow> sublist (ascii (entry_line e)) (f_durable f) \<and> sublist (ascii (entry_line e)) (f_cache f))"

definition grows :: "os_file \<Rightarrow> os_file \<Rightarrow> bool" where
  "grows f f' \<longleftrightarrow> prefix (f_cache f) (f_cache f') \<and> (f_durable f' = f_durable f \<or> f_durable f' = f_cache f')"

lemma write_full_grows:
  "write_full d sc f = (x, sc', f') \<Longrightarrow> f_pos f = length (f_cache f) \<Longrightarrow>
    prefix (f_cache f) (f_cache f') \<and> f_durable f' = f_durable f"
proof (induction d sc f arbitrary: x sc' f' rule: write_full.induct)
  case (1 d sc f)
  obtain w sc1 f1 where w: "file_write d sc f = (w, sc1, f1)" by (metis prod_cases3)
  have f1: "prefix (f_cache f) (f_cache f1) \<and> f_durable f1 = f_durable f \<and> f_pos f1 = length (f_cache f1)"
    using file_write_Inl [of d sc f] file_write_Inr [of d sc f] w "1.prems"(2)
    by (cases w) (auto simp: file_put_def)
  show ?case
  proof (cases "d = []")
    case True
    then show ?thesis using "1.prems" by (simp add: write_full.simps)
  next
    case False
    consider (again) e where "w = Inl e" "e = OsInterrupted" "write_full d sc1 f1 = (x, sc', f')"
      | (rest) n where "w = Inr n" "n \<noteq> 0" "n \<le> length d" "write_full (drop n d) sc1 f1 = (x, sc', f')"
      | (stop) "f' = f1"
      using "1.prems" False w by (auto simp: write_full.simps [of d sc f] split: sum.splits if_splits)
    then show ?thesis
    proof cases
      case (again e)
      then show ?thesis using "1.IH"(1) [OF False w [symmetric]] f1 prefix_order.trans by metis
    next
      case (rest n)
      then show ?thesis using "1.IH"(2) [OF False w [symmetric]] f1 prefix_order.trans by metis
    qed (use f1 in simp)
  qed
qed

lemma audit_emit_grows:
  assumes "audit_emit e au = (r, au')"
  shows "case au_sink au of None \<Rightarrow> au_sink au' = None | Some f \<Rightarrow> \<exists>f'. au_sink au' = Some f' \<and> grows f f'"
proof (cases "au_sink au")
  case None
  then show ?thesis using assms by (simp add: audit_emit_def)
next
  case (Some f)
  obtain y sc f' where w: "write_entry e (au_script au) f = (y, sc, f')" by (metis prod_cases3)
  obtain z sc1 f1 where a: "append_full (ascii (entry_line e)) (au_script au) f = (z, sc1, f1)" by (metis prod_cases3)
  have "prefix (f_cache f) (f_cache f1) \<and> f_durable f1 = f_durable f"
    using write_full_grows [OF a [unfolded append_full_def]] by simp
  then have "grows f f'"
    using w a by (auto simp: write_entry_def grows_def fsync_file_def file_sync_def split: prod.splits sum.splits option.splits)
  then show ?thesis using assms Some w by (auto simp: audit_emit_def)
qed

lemma with_answers_sink [simp]: "au_sink (with_answers sc au) = au_sink au"
  by (simp add: with_answers_def)

lemma logged_line_stays:
  assumes "logged_line e au" "audit_emit e' (with_answers sc au) = (r, au')"
  shows "logged_line e au'"
proof (cases "au_sink au")
  case None
  then show ?thesis using audit_emit_grows [OF assms(2)] by (simp add: logged_line_def)
next
  case (Some f)
  then obtain f' where f': "au_sink au' = Some f'" "grows f f'" using audit_emit_grows [OF assms(2)] by auto
  have "sublist x (f_cache f')" if "sublist x (f_cache f)" for x
    using f'(2) that by (auto simp: grows_def prefix_def sublist_def) blast+
  then show ?thesis using assms(1) Some f' by (auto simp: logged_line_def grows_def)
qed

lemma emitted_is_logged:
  assumes "audit_emit e au = (Inr u, au')"
  shows "logged_line e au'"
  using assms write_entry_Inr
  by (fastforce simp: audit_emit_def logged_line_def map_err_def sublist_def split: option.splits prod.splits sum.splits)

text \<open>What a thread with a session rests on.\<close>

definition session_sound :: "aead \<Rightarrow> 's server \<Rightarrow> nat list \<Rightarrow> session \<Rightarrow> session_info \<Rightarrow> bool" where
  "session_sound ae v out se info \<longleftrightarrow> unat (si_segment info) \<in> set out \<and>
    (\<exists>rnd. server_earned ae (alloc_book (sr_alloc v) (unat (si_segment info))) (ep_book_id (sr_ep v)) (si_segment info) rnd se)"

fun worker_session :: "'s worker \<Rightarrow> (session \<times> session_info) option" where
  "worker_session (WkIssued se info io) = Some (se, info)"
| "worker_session (WkAttached se info io) = Some (se, info)"
| "worker_session _ = None"

definition server_sound :: "aead \<Rightarrow> 's server \<Rightarrow> nat list \<Rightarrow> bool" where
  "server_sound ae v out \<longleftrightarrow>
    (\<forall>i < length (sr_workers v). \<forall>se info. worker_session (sr_workers v ! i) = Some (se, info) \<longrightarrow>
      session_sound ae v out se info \<and>
      ((\<exists>io. sr_workers v ! i = WkAttached se info io) \<longrightarrow> logged_line (issued_entry (ep_book_id (sr_ep v)) info) (sr_audit v))) \<and>
    (\<forall>i < length (sr_workers v). \<forall>j < length (sr_workers v). \<forall>se info se' info'. i \<noteq> j \<longrightarrow>
      worker_session (sr_workers v ! i) = Some (se, info) \<longrightarrow> worker_session (sr_workers v ! j) = Some (se', info') \<longrightarrow>
      si_segment info \<noteq> si_segment info')"

lemma server_turn_sound:
  assumes turn: "server_turn sha fs ae i t v = Some v'" and sound: "server_sound ae v out"
    and safe: "fm.core_safe sha (high_mark out) (sr_alloc v)" and srt: "sorted_wrt (<) out"
  shows "server_sound ae v' (out @ got_segments (established_by (sr_workers v ! i) (sr_workers v' ! i)))"
proof -
  let ?w = "sr_workers v ! i" and ?n = "length (sr_workers v)"
  from turn obtain w' s' au' where i: "i < ?n"
    and step: "worker_step sha fs ae (sr_ep v) (sr_deadline v) t ?w (sr_alloc v) (sr_audit v) = Some (w', s', au')"
    and v': "v' = v\<lparr>sr_alloc := s', sr_audit := au', sr_workers := (sr_workers v)[i := w']\<rparr>"
    by (auto simp: server_turn_def split: if_splits)
  have old: "session_sound ae v out se info"
    "(\<exists>io. sr_workers v ! j = WkAttached se info io) \<longrightarrow> logged_line (issued_entry (ep_book_id (sr_ep v)) info) (sr_audit v)"
    if "j < ?n" "worker_session (sr_workers v ! j) = Some (se, info)" for j se info
    using sound that unfolding server_sound_def by blast+
  have old_ne: "si_segment info \<noteq> si_segment info'"
    if "j < ?n" "k < ?n" "j \<noteq> k" "worker_session (sr_workers v ! j) = Some (se, info)"
      "worker_session (sr_workers v ! k) = Some (se', info')" for j k se info se' info'
    using sound that unfolding server_sound_def by blast
  show ?thesis
    using step
  proof (cases rule: worker_step_cases)
    case (handshake io q io')
    note fl = server_session_floor [OF handshake(2) safe]
    show ?thesis
    proof (cases q)
      case (Inl f)
      then have w': "w' = WkFailed f" using handshake by simp
      show ?thesis
        using old old_ne fl i handshake(1,4) unfolding server_sound_def
        by (simp add: v' w' nth_list_update session_sound_def established_by_def got_segments_def)
    next
      case (Inr r)
      obtain se info where r: "r = (se, info)" by fastforce
      then have w': "w' = WkIssued se info io'" using handshake Inr by simp
      have new: "server_earned ae (alloc_book (sr_alloc v) (unat (si_segment info))) (ep_book_id (sr_ep v))
          (si_segment info) (tn_nonce t) se" "high_mark out \<le> unat (si_segment info)"
        using fl Inr r by auto
      have above: "x < unat (si_segment info)" if "x \<in> set out" for x
        using that srt new(2) sorted_append_above [of out "[unat (si_segment info)]"] by (simp add: sorted_wrt_append)
      have ne: "si_segment info' \<noteq> si_segment info" if "j < ?n" "worker_session (sr_workers v ! j) = Some (se', info')" for j se' info'
        using above old(1) [OF that] by (fastforce simp: session_sound_def)
      show ?thesis
        using old old_ne fl i handshake(1,4) new(1) ne ne [symmetric] unfolding server_sound_def
        by (simp add: v' w' nth_list_update session_sound_def established_by_def got_segments_def) blast
    qed
  next
    case (logged se info io)
    have log: "logged_line (issued_entry (ep_book_id (sr_ep v)) info) au'"
      using emitted_is_logged logged(3) by (simp add: emit_ok_def issued_entry_def)
    have stays: "logged_line e au'" if "logged_line e (sr_audit v)" for e
      using logged_line_stays [OF that] logged(3) unfolding emit_ok_def by blast
    have me: "worker_session ?w = Some (se, info)" using logged(1) by simp
    show ?thesis
      using old old_ne i logged(1,2) log stays me unfolding server_sound_def
      by (simp add: v' logged(4) nth_list_update session_sound_def established_by_def got_segments_def)
  next
    case other
    then have none: "worker_session w' = None" by (cases w') auto
    have stays: "logged_line e au'" if "logged_line e (sr_audit v)" for e
      using logged_line_stays [OF that] other(5) that by blast
    have est: "established_by ?w w' = None" using other(1) by (auto simp: established_by_def split: worker.splits)
    show ?thesis
      using old old_ne i none stays est other(3) unfolding server_sound_def
      by (simp add: v' nth_list_update session_sound_def got_segments_def)
  qed
qed

lemma life_sound: "life sha fs ae (Serving v) out \<Longrightarrow> server_sound ae v out"
proof (induction "Serving v" out arbitrary: v rule: life.induct)
  case (serve m out n h rep s m1 au deadline sessions)
  then show ?case by (simp add: server_sound_def server_started_def)
next
  case (accept v out r v')
  show ?case
  proof (cases r)
    case Inl
    then show ?thesis using accept by (auto simp: server_accept_def server_sound_def session_sound_def split: if_splits)
  next
    case (Inr io)
    then show ?thesis
      using accept.hyps(2,3)
      by (auto simp: server_accept_def server_sound_def session_sound_def nth_append less_Suc_eq split: if_splits)
  qed
next
  case (work v out i t v')
  then show ?case using server_turn_sound [OF work.hyps(3,2)] life_safe [OF work.hyps(1)] by simp
next
  case (lost v out sc x s')
  have "alloc_book s' = alloc_book (sr_alloc v)" using alloc.issue_mono [OF lost.hyps(3)] by simp
  then show ?case using lost.hyps(2) by (simp add: server_sound_def session_sound_def)
qed

text \<open>
  C2. When the data plane of a connection is open, its issue is on the record: with a log, the line that names the book,
  the segment and the generation is on the disk. Its session was made from the segment of the book that it
  names, under a peer that proved to have the same, the segment is one of those consumed, and no other open
  connection of the server has it.
\<close>

theorem open_sessions_are_logged:
  assumes "life sha fs ae (Serving v) out" and "i < length (sr_workers v)" and "sr_workers v ! i = WkAttached se info io"
  shows "(case au_sink (sr_audit v) of None \<Rightarrow> True
      | Some f \<Rightarrow> sublist (ascii (entry_line (issued_entry (ep_book_id (sr_ep v)) info))) (f_durable f)) \<and>
    unat (si_segment info) \<in> set out \<and>
    (\<exists>rnd. server_earned ae (alloc_book (sr_alloc v) (unat (si_segment info))) (ep_book_id (sr_ep v)) (si_segment info) rnd se) \<and>
    (\<forall>j < length (sr_workers v). \<forall>se' info' io'. j \<noteq> i \<longrightarrow> sr_workers v ! j = WkAttached se' info' io' \<longrightarrow>
      si_segment info' \<noteq> si_segment info)"
proof -
  have ws: "worker_session (WkAttached x y z) = Some (x, y)" for x :: session and y and z :: 'a by simp
  have s: "server_sound ae v out" by (rule life_sound [OF assms(1)])
  have "session_sound ae v out se info" "logged_line (issued_entry (ep_book_id (sr_ep v)) info) (sr_audit v)"
    using s assms(2,3) ws [of se info io] unfolding server_sound_def by metis+
  moreover have "si_segment info' \<noteq> si_segment info"
    if "j < length (sr_workers v)" "j \<noteq> i" "sr_workers v ! j = WkAttached se' info' io'" for j se' info' io'
    using s assms(2,3) that ws [of se info io] ws [of se' info' io'] unfolding server_sound_def by metis
  ultimately show ?thesis by (auto simp: session_sound_def logged_line_def split: option.splits)
qed

section \<open>A small life\<close>

definition small_ready :: "nat \<Rightarrow> (file_media, book) core \<Rightarrow> bool" where
  "small_ready n s \<longleftrightarrow> co_reader s = small_book \<and> unat (ar_next (co_current s)) = n \<and>
    unat (gen_get (ar_generation (co_current s))) \<le> n \<and> \<not> co_halted s"

lemma small_issue_next:
  assumes "small_ready n s" "n < 3"
  shows "\<exists>b s'. core_issue sum_digest file_media_ops book_reader (with_script [] s) = Some (Inr b, s') \<and> small_ready (Suc n) s'"
proof -
  let ?s = "with_script [] s"
  have f: "co_reader ?s = small_book" "co_current ?s = co_current s" "co_halted ?s = co_halted s" "fm_script (co_media ?s) = []"
    by (use assms(1) in \<open>simp_all add: with_script_def small_ready_def\<close>)
  have lt: "ar_next (co_current s) < 3" using assms by (simp add: small_ready_def word_less_nat_alt)
  have g: "unat (gen_get (ar_generation (co_current s)) + 1) \<le> Suc n"
    using assms by (simp add: small_ready_def unat_plus_if_size word_size)
  have a: "unat (ar_next (co_current s) + 1) = Suc n"
    using assms by (simp add: small_ready_def unat_plus_if_size word_size)
  have "\<exists>m. core_issue sum_digest file_media_ops book_reader ?s = Some (Inr (segment_at small_data n),
      ?s\<lparr>co_media := m, co_reader := small_book, co_current := issued_commit sum_digest ?s (segment_at small_data n)\<rparr>) \<and>
      fm_script m = [] \<and> (\<forall>c. fm_survivors m c \<subseteq> {encode_record sum_digest (issued_commit sum_digest ?s (segment_at small_data n))} \<and>
      fm_content m c = encode_record sum_digest (issued_commit sum_digest ?s (segment_at small_data n)))"
  proof (rule fm.issue_ready)
    show "\<not> co_halted ?s" "fm_script (co_media ?s) = []" using f assms(1) by (simp_all add: small_ready_def)
    show "ar_next (co_current ?s) < rd_count book_reader (co_reader ?s)"
      using f lt by (simp add: book_reader_def small_header_def)
    show "unat (gen_get (ar_generation (co_current ?s))) + 1 < 2 ^ 64" using f assms by (simp add: small_ready_def)
    show "rd_read book_reader (ar_next (co_current ?s)) (co_reader ?s) = (Inr (segment_at small_data n), small_book)"
      using f small_read [OF lt] assms(1) by (simp add: book_reader_def small_ready_def)
  qed
  moreover have "small_ready (Suc n) (?s\<lparr>co_media := m, co_reader := small_book,
      co_current := issued_commit sum_digest ?s (segment_at small_data n)\<rparr>)" for m
    using assms(1) g a by (simp add: small_ready_def issued_commit_def anchor_commit_def with_script_def)
  ultimately show ?thesis by blast
qed

lemma small_handshake:
  assumes "small_ready n s" "n < 3"
  shows "\<exists>wires se info io s'. server_handshake tcp_stream plain_aead (core_issue sum_digest file_media_ops book_reader)
      alloc_state (Some (replicate 16 3)) (endpoint_of small_header) 5000 (socket_of wires) (with_script [] s) =
      Some (Inr (se, info), io, s') \<and> unat (si_segment info) = n \<and> small_ready (Suc n) s'"
proof -
  let ?ep = "endpoint_of small_header" and ?s = "with_script [] s"
  let ?issue = "core_issue sum_digest file_media_ops book_reader"
  obtain b s' where i: "?issue ?s = Some (Inr b, s')" "small_ready (Suc n) s'" using small_issue_next [OF assms] by blast
  have t: "aead_total plain_aead" by (simp add: aead_total_def plain_aead_def)
  have p: "unat (fst (alloc_state s)) = n" "ep_segment_count ?ep = 3" "length (ep_book_id ?ep) = 16"
    using assms(1) by (simp_all add: small_ready_def alloc_state_def endpoint_of_def small_header_def)
  have lt: "fst (alloc_state ?s) < ep_segment_count ?ep" using p assms(2) by (simp add: word_less_nat_alt)
  have sk: "skip_segments ?issue (alloc_ptr ?s - alloc_ptr ?s) ?s = Some (Inr (), ?s)" by simp
  obtain ss wh wa wr wc wp where
    ok: "list_all (\<lambda>w. send_check w = Inr () \<and> FRAME_HEADER_LEN < length w) [wh, wa, wr, wc, wp]"
    and h: "exchanges tcp_inbox sk_sent tcp_room
      (\<lambda>s. server_handshake tcp_stream plain_aead ?issue alloc_state (Some (replicate 16 3)) ?ep 5000 s ?s)
      [wh, wr, wc] [wa, wp]
      (\<lambda>s. (Inr (ss, \<lparr>si_segment = fst (alloc_state ?s), si_generation = snd (alloc_state s')\<rparr>), s, s'))"
    using drivers_run [OF plain_aead_correct t p(3) _ _ _ order_refl lt refl sk i(1) i(1),
        of "replicate 16 2" "replicate 16 3" 5000] by auto
  have r: "tcp_room (socket_of [wh, wr, wc]) (length (concat [wa, wp]) + 0)" "tcp_inbox (socket_of [wh, wr, wc]) = [wh, wr, wc] @ []"
    using ok socket_of_ready [of "[wh, wr, wc]"] by simp_all
  from h [unfolded exchanges_def, rule_format, OF r] obtain io where
    "server_handshake tcp_stream plain_aead ?issue alloc_state (Some (replicate 16 3)) ?ep 5000 (socket_of [wh, wr, wc]) ?s =
      Some (Inr (ss, \<lparr>si_segment = fst (alloc_state ?s), si_generation = snd (alloc_state s')\<rparr>), io, s')" by blast
  then show ?thesis using i(2) p(1) by (intro exI conjI) (assumption | simp)+
qed

definition small_server :: "nat \<Rightarrow> socket server \<Rightarrow> bool" where
  "small_server n v \<longleftrightarrow> sr_ep v = endpoint_of small_header \<and> sr_deadline v = 5000 \<and> sr_listening v \<and>
    sr_sessions v = 2 \<and> unat (sr_served v) = n \<and> small_ready n (sr_alloc v) \<and> (\<exists>f. au_sink (sr_audit v) = Some f)"

lemma small_connection:
  assumes life: "life sum_digest tcp_stream plain_aead (Serving v) out" and small: "small_server n v" "n < 2"
  shows "\<exists>v' se info io. life sum_digest tcp_stream plain_aead (Serving v') (out @ [n]) \<and> small_server (Suc n) v' \<and>
    sr_workers v' = sr_workers v @ [WkAttached se info io] \<and> unat (si_segment info) = n"
proof -
  let ?turn = "\<lparr>tn_nonce = Some (replicate 16 3), tn_disk = [], tn_log = [], tn_registry = registry_new [] 0 [],
    tn_now = 0, tn_env = []\<rparr>" and ?i = "length (sr_workers v)"
  obtain wires se info io s' where h: "server_handshake tcp_stream plain_aead (core_issue sum_digest file_media_ops book_reader)
      alloc_state (Some (replicate 16 3)) (sr_ep v) (sr_deadline v) (socket_of wires) (with_script [] (sr_alloc v)) =
      Some (Inr (se, info), io, s')" and n: "unat (si_segment info) = n" "small_ready (Suc n) s'"
    using small_handshake [of n "sr_alloc v"] small by (auto simp: small_server_def)
  have served: "sr_served v < sr_sessions v" "unat (sr_served v + 1) = Suc n"
    using small by (auto simp: small_server_def word_less_nat_alt unat_plus_if_size word_size)
  define v1 where "v1 = v\<lparr>sr_served := sr_served v + 1, sr_workers := sr_workers v @ [WkHandshake (socket_of wires)]\<rparr>"
  have "server_accept (Inr (socket_of wires)) v = Some v1"
    using served small(1) by (simp add: server_accept_def v1_def small_server_def)
  then have l1: "life sum_digest tcp_stream plain_aead (Serving v1) out" using life.accept [OF life] by blast
  define v2 where "v2 = v1\<lparr>sr_alloc := s', sr_workers := sr_workers v @ [WkIssued se info io]\<rparr>"
  have t2: "server_turn sum_digest tcp_stream plain_aead ?i ?turn v1 = Some v2"
    using h by (simp add: server_turn_def v1_def v2_def worker_step_def)
  have l2: "life sum_digest tcp_stream plain_aead (Serving v2) (out @ [n])"
    using life.work [OF l1 t2] n(1) by (simp add: v1_def v2_def established_by_def got_segments_def)
  obtain f where f: "au_sink (sr_audit v) = Some f" using small(1) by (auto simp: small_server_def)
  let ?e = "issued_entry (ep_book_id (sr_ep v)) info"
  obtain f' where w: "write_entry ?e [] f = (Inr (), [], f')" using write_entry_undisturbed by blast
  then have em: "emit_ok (ep_book_id (sr_ep v)) (si_segment info) (si_generation info) Issued (with_answers [] (sr_audit v)) =
      (Inr (), \<lparr>au_sink = Some f', au_script = []\<rparr>)"
    using f by (simp add: emit_ok_def audit_emit_def issued_entry_def [symmetric] with_answers_def)
  define v3 where "v3 = v2\<lparr>sr_audit := \<lparr>au_sink = Some f', au_script = []\<rparr>, sr_workers := sr_workers v @ [WkAttached se info io]\<rparr>"
  have t3: "server_turn sum_digest tcp_stream plain_aead ?i ?turn v2 = Some v3"
    using em by (simp add: server_turn_def v1_def v2_def v3_def worker_step_def)
  have "life sum_digest tcp_stream plain_aead (Serving v3) (out @ [n])"
    using life.work [OF l2 t3] by (simp add: v2_def v3_def established_by_def got_segments_def)
  moreover have "small_server (Suc n) v3"
    using small(1) n(2) served(2) by (simp add: small_server_def v1_def v2_def v3_def)
  ultimately show ?thesis using n(1) by (intro exI [of _ v3]) (auto simp: v3_def)
qed

lemma small_life:
  "\<exists>v se1 info1 io1 se2 info2 io2. life sum_digest tcp_stream plain_aead (Serving v) [0, 1] \<and>
    sr_workers v = [WkAttached se1 info1 io1, WkAttached se2 info2 io2] \<and> unat (si_segment info2) = 1"
proof -
  let ?log = "\<lparr>av_existed = True, av_opened = None, av_parent = None, av_file = file_of [], av_script = []\<rparr>"
  have o: "open_audit (Some ?log) = Inr \<lparr>au_sink = Some (file_of []), au_script = []\<rparr>"
    by (simp add: open_audit_def audit_open_def sink_open_def)
  obtain rep s m' e where r: "start_up sum_digest True (small_env\<lparr>sn_audit_log := Some ?log\<rparr>) small_anchors =
      (Inr (small_header, rep, s), m', Some (snd (audit_emit e \<lparr>au_sink = Some (file_of []), au_script = []\<rparr>)))"
    and s: "co_reader s = small_book" "co_current s = anchor_init (replicate 16 7)" "\<not> co_halted s"
    using small_start [OF o, of True] by blast
  let ?au = "snd (audit_emit e \<lparr>au_sink = Some (file_of []), au_script = []\<rparr>)"
  let ?v = "server_started 5000 2 small_header s ?au :: socket server"
  have "life sum_digest tcp_stream plain_aead (Off small_anchors) []"
    unfolding small_anchors_def Let_def by (rule life.new)
  then have l0: "life sum_digest tcp_stream plain_aead (Serving ?v) []" using r by (rule life.serve)
  obtain y au where em: "audit_emit e \<lparr>au_sink = Some (file_of []), au_script = []\<rparr> = (y, au)" by fastforce
  have "\<exists>f. au_sink ?au = Some f" using audit_emit_grows [OF em] em by auto
  then have s0: "small_server 0 ?v"
    using s by (simp add: small_server_def server_started_def small_ready_def anchor_init_def)
  have none: "sr_workers ?v = []" by (simp add: server_started_def)
  from small_connection [OF l0 s0] none obtain v1 se1 info1 io1 where
    1: "life sum_digest tcp_stream plain_aead (Serving v1) [0]" "small_server 1 v1" "sr_workers v1 = [WkAttached se1 info1 io1]"
    by auto
  from small_connection [OF 1(1,2)] 1(3) show ?thesis by auto
qed

theorem sessions_never_share_witness:
  "\<exists>v. life sum_digest tcp_stream plain_aead (Serving v) [0, 1] \<and> distinct [0 :: nat, 1]"
  using small_life sessions_never_share by blast

theorem open_sessions_are_logged_witness:
  "\<exists>v se info io. life sum_digest tcp_stream plain_aead (Serving v) [0, 1] \<and> sr_workers v ! 1 = WkAttached se info io \<and>
    (case au_sink (sr_audit v) of None \<Rightarrow> True
     | Some f \<Rightarrow> sublist (ascii (entry_line (issued_entry (ep_book_id (sr_ep v)) info))) (f_durable f))"
proof -
  obtain v se1 info1 io1 se2 info2 io2 where l: "life sum_digest tcp_stream plain_aead (Serving v) [0, 1]"
    "sr_workers v = [WkAttached se1 info1 io1, WkAttached se2 info2 io2]" using small_life by blast
  then have "1 < length (sr_workers v)" "sr_workers v ! 1 = WkAttached se2 info2 io2" by simp_all
  from open_sessions_are_logged [OF l(1) this] this l(1) show ?thesis by blast
qed

end
