(* ===== verification/BookTools.thy ===== *)
theory BookTools
  imports Book Text
begin

text \<open>
  The offline tools of \<open>otp-book\<close>: the generator (\<open>generate.rs\<close>), which creates a book from
  the random source of the system, and the inspection (\<open>inspect.rs\<close>), which reads a whole book
  once and reports repeated and all-zero segments. The random source is the parameter \<open>fill\<close>
  over a state of its own; \<open>None\<close> is its failure. Floating-point results appear as parameters:
  the ratio of one bits is only printed and compared with a band.
\<close>

section \<open>Generation\<close>

definition SEGMENTS_PER_CHUNK :: nat where "SEGMENTS_PER_CHUNK = 1024"

datatype generate_error = PathExists | BadSegmentCount u64 | GenCsprng | GenIo

definition random_book_id :: "(nat \<Rightarrow> 'g \<Rightarrow> bytes option \<times> 'g) \<Rightarrow> 'g \<Rightarrow> (generate_error + book_id) \<times> 'g" where
  "random_book_id fill g = (case fill 16 g of (x, g') \<Rightarrow> (ok_or GenCsprng x, g'))"

text \<open>\<open>File::write_all\<close>: the loop of \<open>write_full\<close>, with its own error.\<close>

definition write_all :: "bytes \<Rightarrow> script \<Rightarrow> os_file \<Rightarrow> (generate_error + unit) \<times> script \<times> os_file" where
  "write_all d sc f = (case write_full d sc f of (r, x) \<Rightarrow> (map_err (\<lambda>_. GenIo) r, x))"

function write_segments ::
  "(nat \<Rightarrow> 'g \<Rightarrow> bytes option \<times> 'g) \<Rightarrow> nat \<Rightarrow> 'g \<Rightarrow> script \<Rightarrow> os_file \<Rightarrow>
    (generate_error + unit) \<times> script \<times> os_file" where
  "write_segments fill remaining g sc f =
    (if remaining = 0 then (Inr (), sc, f)
     else let segs = min remaining SEGMENTS_PER_CHUNK in
       (case fill (segs * 64) g of
          (None, _) \<Rightarrow> (Inl GenCsprng, sc, f)
        | (Some chunk, g') \<Rightarrow> (case write_all chunk sc f of
            (Inl e, sc', f') \<Rightarrow> (Inl e, sc', f')
          | (Inr _, sc', f') \<Rightarrow> write_segments fill (remaining - segs) g' sc' f')))"
  by pat_completeness auto
termination
  by (relation "measure (\<lambda>(fill, remaining, g, sc, f). remaining)") (auto simp: SEGMENTS_PER_CHUNK_def)

declare write_segments.simps [simp del]

definition write_book_body ::
  "(bytes \<Rightarrow> bytes) \<Rightarrow> (nat \<Rightarrow> 'g \<Rightarrow> bytes option \<times> 'g) \<Rightarrow> book_header \<Rightarrow> 'g \<Rightarrow> script \<Rightarrow> os_file \<Rightarrow>
    (generate_error + unit) \<times> script \<times> os_file" where
  "write_book_body sha fill h g sc f = (case os_call sc of
     (Some _, sc) \<Rightarrow> (Inl GenIo, sc, f)
   | (None, sc) \<Rightarrow> (case write_all (header_encode sha h) sc f of
       (Inl e, sc, f) \<Rightarrow> (Inl e, sc, f)
     | (Inr _, sc, f) \<Rightarrow> write_segments fill (unat (bh_segment_count h)) g sc f))"

datatype create_outcome = Created | AlreadyExists | CreateFails

text \<open>
  \<open>cleanup_partial\<close> ignores the result of \<open>unlink\<close>: the file stays when it fails. The result
  of the whole pairs the outcome with the file left under the path.
\<close>

definition cleanup_partial :: "script \<Rightarrow> os_file \<Rightarrow> os_file option" where
  "cleanup_partial sc f = (case os_call sc of (None, _) \<Rightarrow> None | (Some _, _) \<Rightarrow> Some f)"

definition generate_book ::
  "(bytes \<Rightarrow> bytes) \<Rightarrow> (nat \<Rightarrow> 'g \<Rightarrow> bytes option \<times> 'g) \<Rightarrow> u64 \<Rightarrow> book_id \<Rightarrow> create_outcome \<Rightarrow>
    os_file option \<Rightarrow> 'g \<Rightarrow> script \<Rightarrow> (generate_error + book_header) \<times> os_file option" where
  "generate_book sha fill n bid co old g sc =
    (if n = 0 \<or> MAX_SEGMENT_COUNT < n then (Inl (BadSegmentCount n), old)
     else case header_new bid n of
       Inl _ \<Rightarrow> (Inl (BadSegmentCount n), old)
     | Inr h \<Rightarrow> (case co of
         AlreadyExists \<Rightarrow> (Inl PathExists, old)
       | CreateFails \<Rightarrow> (Inl GenIo, old)
       | Created \<Rightarrow> (case write_book_body sha fill h g sc (file_of []) of
           (Inl e, sc, f) \<Rightarrow> (Inl e, cleanup_partial sc f)
         | (Inr _, sc, f) \<Rightarrow> (case file_sync sc f of
             (Inl _, sc, f) \<Rightarrow> (Inl GenIo, cleanup_partial sc f)
           | (Inr _, sc, f) \<Rightarrow> (case os_call sc of
               (Some _, sc) \<Rightarrow> (Inl GenIo, cleanup_partial sc f)
             | (None, sc) \<Rightarrow> (Inr h, Some f))))))"

text \<open>What is documented of the random source: a filled buffer is full.\<close>

definition fills :: "(nat \<Rightarrow> 'g \<Rightarrow> bytes option \<times> 'g) \<Rightarrow> bool" where
  "fills fill \<longleftrightarrow> (\<forall>n g d g'. fill n g = (Some d, g') \<longrightarrow> length d = n)"

text \<open>A file that is only ever appended to.\<close>

definition at_end :: "os_file \<Rightarrow> bool" where
  "at_end f \<longleftrightarrow> f_pos f = length (f_cache f)"

lemma write_all_appends:
  assumes "write_all d sc f = (Inr u, sc', f')" "at_end f" "d \<noteq> []"
  shows "f_cache f' = f_cache f @ d \<and> at_end f'"
proof -
  have "write_full d sc f = (Inr (), sc', f')"
    using assms(1) by (auto simp: write_all_def split: prod.splits)
  from write_full_Inr [OF this assms(3)] show ?thesis
    using assms(2) by (simp add: at_end_def file_put_at_end)
qed

lemma write_segments_length:
  "write_segments fill n g sc f = (Inr u, sc', f') \<Longrightarrow> fills fill \<Longrightarrow> at_end f \<Longrightarrow>
    at_end f' \<and> length (f_cache f') = length (f_cache f) + 64 * n \<and>
    take (length (f_cache f)) (f_cache f') = f_cache f"
proof (induction fill n g sc f arbitrary: rule: write_segments.induct)
  case (1 fill n g sc f)
  show ?case
  proof (cases "n = 0")
    case True
    then show ?thesis using "1.prems" by (simp add: write_segments.simps)
  next
    case n: False
    let ?k = "min n SEGMENTS_PER_CHUNK"
    obtain x g1 where c: "fill (?k * 64) g = (x, g1)" by fastforce
    then obtain chunk where x: "x = Some chunk"
      using "1.prems"(1) n by (cases x) (auto simp: write_segments.simps [of fill n] Let_def)
    obtain y sc1 f1 where w: "write_all chunk sc f = (y, sc1, f1)" by (cases "write_all chunk sc f") auto
    then have y: "y = Inr ()" using "1.prems"(1) n c x
      by (cases y) (auto simp: write_segments.simps [of fill n] Let_def)
    have rest: "write_segments fill (n - ?k) g1 sc1 f1 = (Inr u, sc', f')"
      using "1.prems"(1) n c x w y by (simp add: write_segments.simps [of fill n] Let_def)
    have lk: "length chunk = ?k * 64" using "1.prems"(2) c x by (auto simp: fills_def)
    then have "chunk \<noteq> []" using n by (auto simp: SEGMENTS_PER_CHUNK_def)
    from write_all_appends [OF w [unfolded y] "1.prems"(3) this]
    have a: "f_cache f1 = f_cache f @ chunk" "at_end f1" by simp_all
    have ih: "at_end f'" "length (f_cache f') = length (f_cache f1) + 64 * (n - ?k)"
      "take (length (f_cache f1)) (f_cache f') = f_cache f1"
      using "1.IH" [OF n refl c [symmetric] x w [symmetric] y refl rest "1.prems"(2) a(2)] by blast+
    have "take (length (f_cache f)) (f_cache f') =
        take (length (f_cache f)) (take (length (f_cache f1)) (f_cache f'))"
      by (simp add: a(1))
    then have t: "take (length (f_cache f)) (f_cache f') = f_cache f" unfolding ih(3) by (simp add: a(1))
    have "64 * ?k + 64 * (n - ?k) = 64 * n"
      by (metis add_mult_distrib2 le_add_diff_inverse min.cobounded1)
    with ih(1,2) t show ?thesis by (simp add: a(1) lk)
  qed
qed

lemma generated_opens:
  assumes "digest32 sha" and "fills fill" and "length bid = 16"
    and "generate_book sha fill n bid co old g sc = (Inr h, Some f)"
  shows "open_validated sha (OpenOk \<lparr>bf_regular = True, bf_data = f_cache f\<rparr>) [] =
      (Inr \<lparr>bk_header = h, bk_data = f_cache f, bk_script = []\<rparr>, []) \<and>
    bh_book_id h = bid \<and> bh_segment_count h = n \<and> f_durable f = f_cache f"
proof -
  from assms(4) have n: "n \<noteq> 0" "n \<le> MAX_SEGMENT_COUNT"
    by (auto simp: generate_book_def split: if_splits)
  from header_new_valid [OF this assms(3)] obtain h' where h': "header_new bid n = Inr h'"
    "header_validate h' = Inr ()" "bh_segment_count h' = n" "bh_book_id h' = bid" by blast
  from assms(4) h' n obtain sc1 f1 sc2 where hh: "h = h'"
    and b: "write_book_body sha fill h' g sc (file_of []) = (Inr (), sc1, f1)"
    and s: "file_sync sc1 f1 = (Inr (), sc2, f)"
    by (auto simp: generate_book_def split: create_outcome.splits prod.splits sum.splits
        option.splits if_splits)
  from b obtain sc0 sc3 f3 where w: "write_all (header_encode sha h') sc0 (file_of []) = (Inr (), sc3, f3)"
    and body: "write_segments fill (unat (bh_segment_count h')) g sc3 f3 = (Inr (), sc1, f1)"
    by (auto simp: write_book_body_def split: prod.splits option.splits sum.splits)
  have l: "length (header_encode sha h') = 128"
    using assms(1,3) h'(4)
    by (simp add: header_encode_def header_prefix_def digest32_def BOOK_MAGIC_def RESERVED_LEN_def)
  then have "header_encode sha h' \<noteq> []" by auto
  from write_all_appends [OF w _ this] have f3: "f_cache f3 = header_encode sha h'" "at_end f3"
    by (simp_all add: at_end_def file_of_def)
  from write_segments_length [OF body assms(2) f3(2)]
  have "length (f_cache f1) = 128 + 64 * unat n" "take 128 (f_cache f1) = header_encode sha h'"
    using f3(1) l h'(3) by simp_all
  moreover have f: "f_cache f = f_cache f1" "f_durable f = f_cache f1"
    using s by (auto simp: file_sync_def split: prod.splits option.splits)
  ultimately show ?thesis
    using open_validated_whole [OF assms(1) h'(2), of "f_cache f"] assms(3) h' hh by simp
qed

text \<open>A random source for the examples: it repeats one byte and counts its calls.\<close>

text \<open>
  What the generator calls generated is a book: the file opens, with the header that was
  returned and a body of the full length, and its bytes are on the disk.
\<close>

theorem generate_then_open:
  assumes "digest32 sha" and "fills fill" and "length bid = 16"
    and "generate_book sha fill n bid co old g sc = (Inr h, Some f)"
  shows "open_validated sha (OpenOk \<lparr>bf_regular = True, bf_data = f_cache f\<rparr>) [] =
      (Inr \<lparr>bk_header = h, bk_data = f_cache f, bk_script = []\<rparr>, []) \<and>
    bh_book_id h = bid \<and> bh_segment_count h = n \<and> f_durable f = f_cache f"
  by (rule generated_opens [OF assms])

definition ones_fill :: "nat \<Rightarrow> nat \<Rightarrow> bytes option \<times> nat" where
  "ones_fill n g = (Some (replicate n 1), Suc g)"

lemma write_full_Nil: "write_full d [] f = (Inr (), [], if d = [] then f else file_put d f)"
  by (simp add: write_full.simps [of d] write_full.simps [of "[]"] file_write_def)

lemma write_segments_ones: "\<exists>f'. write_segments ones_fill n g [] f = (Inr (), [], f')"
proof (induction n arbitrary: g f rule: less_induct)
  case (less n)
  show ?case
  proof (cases "n = 0")
    case False
    let ?k = "min n SEGMENTS_PER_CHUNK"
    have "write_segments ones_fill n g [] f =
        write_segments ones_fill (n - ?k) (Suc g) []
          (if replicate (?k * 64) (1 :: byte) = [] then f else file_put (replicate (?k * 64) 1) f)"
      using False
      by (simp add: write_segments.simps [of ones_fill n] Let_def ones_fill_def write_all_def
          write_full_Nil)
    moreover have "n - ?k < n" using False by (simp add: SEGMENTS_PER_CHUNK_def)
    ultimately show ?thesis using less.IH by metis
  qed (simp add: write_segments.simps)
qed

lemma small_generate:
  "fills ones_fill \<and> (\<exists>h f. generate_book sum_digest ones_fill 3 (replicate 16 7) Created None 0 [] = (Inr h, Some f))"
proof -
  have "fills ones_fill" by (simp add: fills_def ones_fill_def)
  moreover obtain h where h: "header_new (replicate 16 7) 3 = Inr h" "bh_segment_count h = 3"
    using header_new_valid [of 3 "replicate 16 7"] by (auto simp: MAX_SEGMENT_COUNT_def)
  moreover obtain f where "write_segments ones_fill 3 0 [] (file_put (header_encode sum_digest h) (file_of []))
      = (Inr (), [], f)"
    using write_segments_ones by blast
  moreover have "header_encode sum_digest h \<noteq> []"
    by (simp add: header_encode_def header_prefix_def BOOK_MAGIC_def)
  ultimately have g: "generate_book sum_digest ones_fill 3 (replicate 16 7) Created None 0 [] =
      (Inr h, Some (f\<lparr>f_durable := f_cache f, f_since := []\<rparr>))"
    by (simp add: generate_book_def write_book_body_def write_all_def write_full_Nil file_sync_def
        MAX_SEGMENT_COUNT_def)
  then show ?thesis by (auto simp: fills_def ones_fill_def)
qed

theorem generate_then_open_witness:
  "\<exists>h f. generate_book sum_digest ones_fill 3 (replicate 16 7) Created None 0 [] = (Inr h, Some f) \<and>
    open_validated sum_digest (OpenOk \<lparr>bf_regular = True, bf_data = f_cache f\<rparr>) [] =
      (Inr \<lparr>bk_header = h, bk_data = f_cache f, bk_script = []\<rparr>, [])"
proof -
  obtain h f where g: "generate_book sum_digest ones_fill 3 (replicate 16 7) Created None 0 [] = (Inr h, Some f)"
    using small_generate by blast
  show ?thesis using generate_then_open [OF digest32_sum_digest _ _ g] small_generate g by auto
qed

section \<open>Inspection\<close>

definition MAX_LISTED :: nat where "MAX_LISTED = 16"

record duplicate_pair =
  dp_first :: nat
  dp_other :: nat

record inspect_acc =
  ia_seen :: "bytes \<rightharpoonup> nat"
  ia_dups :: "duplicate_pair list"
  ia_dup_count :: nat
  ia_zeros :: "nat list"
  ia_zero_count :: nat
  ia_freq :: "byte \<Rightarrow> nat"
  ia_ones :: nat

definition popcount :: "byte \<Rightarrow> nat" where
  "popcount b = length (filter (bit b) [0..<8])"

definition count_byte :: "inspect_acc \<Rightarrow> byte \<Rightarrow> inspect_acc" where
  "count_byte a b = a\<lparr>ia_freq := (ia_freq a)(b := ia_freq a b + 1), ia_ones := ia_ones a + popcount b\<rparr>"

definition inspect_segment :: "(bytes \<Rightarrow> bytes) \<Rightarrow> nat \<Rightarrow> bytes \<Rightarrow> inspect_acc \<Rightarrow> inspect_acc" where
  "inspect_segment sha i seg a0 =
    (let a1 = foldl count_byte a0 seg;
         a2 = (if list_all (\<lambda>b. b = 0) seg
               then a1\<lparr>ia_zero_count := ia_zero_count a1 + 1,
                 ia_zeros := (if length (ia_zeros a1) < MAX_LISTED then ia_zeros a1 @ [i] else ia_zeros a1)\<rparr>
               else a1);
         hash = sha seg
     in case ia_seen a2 hash of
          Some first \<Rightarrow> a2\<lparr>ia_dup_count := ia_dup_count a2 + 1,
            ia_dups := (if length (ia_dups a2) < MAX_LISTED
              then ia_dups a2 @ [\<lparr>dp_first = first, dp_other = i\<rparr>] else ia_dups a2)\<rparr>
        | None \<Rightarrow> a2\<lparr>ia_seen := (ia_seen a2)(hash \<mapsto> i)\<rparr>)"

text \<open>
  The sequential reads: \<open>n\<close> segments from index \<open>i\<close> on, each a \<open>read_exact\<close> that fails when the
  data is exhausted or the system refuses.
\<close>

fun inspect_loop ::
  "(bytes \<Rightarrow> bytes) \<Rightarrow> nat \<Rightarrow> nat \<Rightarrow> bytes \<Rightarrow> script \<Rightarrow> inspect_acc \<Rightarrow> book_error + inspect_acc" where
  "inspect_loop sha 0 i data sc a = Inr a"
| "inspect_loop sha (Suc n) i data sc a = (case os_call sc of
     (Some _, _) \<Rightarrow> Inl BookIo
   | (None, sc) \<Rightarrow> if length data < SEGMENT_LEN then Inl BookIo
       else inspect_loop sha n (Suc i) (drop SEGMENT_LEN data) sc
              (inspect_segment sha i (take SEGMENT_LEN data) a))"

datatype inspect_warning = DuplicateSegments | AllZeroSegments | OnesRatioOutOfBand

record inspect_report =
  ir_header :: book_header
  ir_file_size :: nat
  ir_acc :: inspect_acc
  ir_total_bits :: nat
  ir_warnings :: "inspect_warning list"
  ir_ok :: bool

definition empty_acc :: inspect_acc where
  "empty_acc = \<lparr>ia_seen = Map.empty, ia_dups = [], ia_dup_count = 0, ia_zeros = [],
    ia_zero_count = 0, ia_freq = (\<lambda>_. 0), ia_ones = 0\<rparr>"

text \<open>
  Two calls precede the segments: cloning the descriptor and skipping the header. The total and
  the file size cannot overflow for a header that validates.
\<close>

definition inspect_book ::
  "(bytes \<Rightarrow> bytes) \<Rightarrow> (nat \<Rightarrow> nat \<Rightarrow> bool) \<Rightarrow> open_outcome \<Rightarrow> script \<Rightarrow> book_error + inspect_report" where
  "inspect_book sha in_band oc sc = (case open_validated sha oc sc of
     (Inl e, _) \<Rightarrow> Inl e
   | (Inr b, sc) \<Rightarrow>
     let h = bk_header b; n = unat (bh_segment_count h) in
     (case os_call sc of
        (Some _, _) \<Rightarrow> Inl BookIo
      | (None, sc) \<Rightarrow> (case os_call sc of
        (Some _, _) \<Rightarrow> Inl BookIo
      | (None, sc) \<Rightarrow>
        rbind (inspect_loop sha n 0 (drop HEADER_LEN (bk_data b)) sc empty_acc) (\<lambda>a.
          Inr \<lparr>ir_header = h, ir_file_size = HEADER_LEN + n * SEGMENT_LEN, ir_acc = a,
            ir_total_bits = n * 64 * 8,
            ir_warnings =
              (if 0 < ia_dup_count a then [DuplicateSegments] else [])
              @ (if 0 < ia_zero_count a then [AllZeroSegments] else [])
              @ (if \<not> in_band (ia_ones a) (n * 64 * 8) then [OnesRatioOutOfBand] else []),
            ir_ok = (ia_dup_count a = 0 \<and> ia_zero_count a = 0)\<rparr>))))"

text \<open>What the accumulator knows after the segments \<open>segs\<close>.\<close>

definition pair_of_equals :: "(bytes \<Rightarrow> bytes) \<Rightarrow> bytes list \<Rightarrow> duplicate_pair \<Rightarrow> bool" where
  "pair_of_equals sha segs p \<longleftrightarrow> dp_first p < dp_other p \<and> dp_other p < length segs \<and>
    sha (segs ! dp_first p) = sha (segs ! dp_other p)"

definition inspected :: "(bytes \<Rightarrow> bytes) \<Rightarrow> bytes list \<Rightarrow> inspect_acc \<Rightarrow> bool" where
  "inspected sha segs a \<longleftrightarrow>
    dom (ia_seen a) = set (map sha segs) \<and>
    (\<forall>h i. ia_seen a h = Some i \<longrightarrow> i < length segs \<and> sha (segs ! i) = h) \<and>
    ia_dup_count a + card (set (map sha segs)) = length segs \<and>
    ia_zero_count a = length (filter (list_all (\<lambda>b. b = 0)) segs) \<and>
    list_all (pair_of_equals sha segs) (ia_dups a) \<and>
    length (ia_dups a) = min MAX_LISTED (ia_dup_count a)"

definition counted :: "bytes \<Rightarrow> inspect_acc \<Rightarrow> bool" where
  "counted bs a \<longleftrightarrow> ia_freq a = count_list bs \<and> ia_ones a = sum_list (map popcount bs)"

lemma count_byte_frame [simp]:
  "ia_seen (foldl count_byte a s) = ia_seen a" "ia_dups (foldl count_byte a s) = ia_dups a"
  "ia_dup_count (foldl count_byte a s) = ia_dup_count a"
  "ia_zeros (foldl count_byte a s) = ia_zeros a"
  "ia_zero_count (foldl count_byte a s) = ia_zero_count a"
  by (induction s arbitrary: a) (simp_all add: count_byte_def)

lemma counted_bytes: "counted bs a \<Longrightarrow> counted (bs @ s) (foldl count_byte a s)"
proof (induction s arbitrary: bs a)
  case (Cons x s)
  from Cons.prems have "counted (bs @ [x]) (count_byte a x)"
    by (auto simp: counted_def count_byte_def)
  from Cons.IH [OF this] show ?case by simp
qed simp

lemma counted_segment: "counted bs a \<Longrightarrow> counted (bs @ s) (inspect_segment sha i s a)"
  using counted_bytes [of bs a s]
  by (auto simp: counted_def inspect_segment_def Let_def split: option.splits)

lemma pair_of_equals_mono:
  "list_all (pair_of_equals sha segs) ps \<Longrightarrow> list_all (pair_of_equals sha (segs @ [s])) ps"
  by (auto simp: pair_of_equals_def nth_append list_all_iff)

lemma inspected_segment:
  assumes inv: "inspected sha segs a"
  shows "inspected sha (segs @ [s]) (inspect_segment sha (length segs) s a)"
proof (cases "ia_seen a (sha s)")
  case None
  then have "sha s \<notin> set (map sha segs)" using inv by (auto simp: inspected_def)
  then show ?thesis
    using inv None pair_of_equals_mono [of sha segs "ia_dups a" s]
    by (auto simp: inspected_def inspect_segment_def Let_def nth_append less_SucI)
next
  case (Some j)
  then have j: "j < length segs" "sha (segs ! j) = sha s" and "sha s \<in> dom (ia_seen a)"
    using inv by (auto simp: inspected_def)
  then have "sha s \<in> set (map sha segs)" using inv by (simp add: inspected_def)
  then have "set (map sha (segs @ [s])) = set (map sha segs)" by auto
  then show ?thesis
    using inv Some j pair_of_equals_mono [of sha segs "ia_dups a" s]
    by (auto simp: inspected_def inspect_segment_def Let_def nth_append less_SucI min_def
        pair_of_equals_def)
qed

lemma inspect_loop_inspected:
  "inspect_loop sha n (length segs) data sc a = Inr a' \<Longrightarrow> inspected sha segs a \<Longrightarrow>
    counted (concat segs) a \<Longrightarrow>
    inspected sha (segs @ map (\<lambda>k. take SEGMENT_LEN (drop (SEGMENT_LEN * k) data)) [0..<n]) a' \<and>
    counted (concat (segs @ map (\<lambda>k. take SEGMENT_LEN (drop (SEGMENT_LEN * k) data)) [0..<n])) a'"
proof (induction n arbitrary: segs data sc a)
  case (Suc n)
  let ?s = "take SEGMENT_LEN data"
  from Suc.prems(1) obtain sc' where
    "inspect_loop sha n (length (segs @ [?s])) (drop SEGMENT_LEN data) sc'
      (inspect_segment sha (length segs) ?s a) = Inr a'"
    by (auto split: prod.splits option.splits if_splits)
  from Suc.IH [OF this inspected_segment [OF Suc.prems(2)]] counted_segment [OF Suc.prems(3)]
  have "inspected sha ((segs @ [?s]) @ map (\<lambda>k. take SEGMENT_LEN (drop (SEGMENT_LEN * k)
      (drop SEGMENT_LEN data))) [0..<n]) a' \<and>
    counted (concat ((segs @ [?s]) @ map (\<lambda>k. take SEGMENT_LEN (drop (SEGMENT_LEN * k)
      (drop SEGMENT_LEN data))) [0..<n])) a'"
    by simp
  moreover have "map (\<lambda>k. take SEGMENT_LEN (drop (SEGMENT_LEN * k) data)) [0..<Suc n] =
    ?s # map (\<lambda>k. take SEGMENT_LEN (drop (SEGMENT_LEN * k) (drop SEGMENT_LEN data))) [0..<n]"
    by (simp add: upt_conv_Cons map_Suc_upt [symmetric] add.commute del: upt_Suc)
  ultimately show ?case by simp
qed simp

lemma open_validated_data:
  "open_validated sha oc sc = (Inr b, sc') \<Longrightarrow> \<exists>f. oc = OpenOk f \<and> bk_data b = bf_data f"
  by (auto simp: open_validated_def split: open_outcome.splits prod.splits option.splits
      if_splits sum.splits)

lemma inspect_book_acc:
  assumes "inspect_book sha in_band (OpenOk f) sc = Inr rep"
  defines "segs \<equiv> map (segment_at (bf_data f)) [0..<unat (bh_segment_count (ir_header rep))]"
  shows "inspected sha segs (ir_acc rep)" "counted (concat segs) (ir_acc rep)"
    "ir_ok rep \<longleftrightarrow> ia_dup_count (ir_acc rep) = 0 \<and> ia_zero_count (ir_acc rep) = 0"
proof -
  from assms(1) obtain b sc1 sc2 a where
    b: "open_validated sha (OpenOk f) sc = (Inr b, sc1)" and h: "ir_header rep = bk_header b"
    and l: "inspect_loop sha (unat (bh_segment_count (bk_header b))) 0
      (drop HEADER_LEN (bk_data b)) sc2 empty_acc = Inr a"
    and a: "ir_acc rep = a" "ir_ok rep = (ia_dup_count a = 0 \<and> ia_zero_count a = 0)"
    by (auto simp: inspect_book_def Let_def rbind_Inr_iff split: prod.splits sum.splits option.splits)
  have "bk_data b = bf_data f" using open_validated_data [OF b] by simp
  then have segs: "segs = [] @ map (\<lambda>k. take SEGMENT_LEN (drop (SEGMENT_LEN * k)
      (drop HEADER_LEN (bk_data b)))) [0..<unat (bh_segment_count (bk_header b))]"
    by (simp add: segs_def h segment_at_def HEADER_LEN_def SEGMENT_LEN_def add.commute)
  have "inspected sha [] empty_acc" "counted (concat []) empty_acc"
    by (simp_all add: inspected_def counted_def empty_acc_def fun_eq_iff)
  then have i: "inspected sha segs a \<and> counted (concat segs) a"
    unfolding segs by (intro inspect_loop_inspected) (use l in simp_all)
  then show "inspected sha segs (ir_acc rep)" "counted (concat segs) (ir_acc rep)"
    "ir_ok rep \<longleftrightarrow> ia_dup_count (ir_acc rep) = 0 \<and> ia_zero_count (ir_acc rep) = 0"
    using a by simp_all
qed

text \<open>
  The inspection passes a book exactly when the digests of its segments are pairwise
  different and no segment is all zero; a book that passes has pairwise different segments. The
  count of repetitions is the number of segments beyond the number of distinct digests, every
  listed pair is a repetition, and the byte frequencies are those of the whole body.
\<close>

theorem inspect_finds_repetitions:
  assumes "inspect_book sha in_band (OpenOk f) sc = Inr rep"
  defines "segs \<equiv> map (segment_at (bf_data f)) [0..<unat (bh_segment_count (ir_header rep))]"
  shows "(ir_ok rep \<longleftrightarrow> distinct (map sha segs) \<and> (\<forall>s \<in> set segs. \<not> list_all (\<lambda>b. b = 0) s)) \<and>
    (ir_ok rep \<longrightarrow> distinct segs) \<and>
    ia_dup_count (ir_acc rep) = length segs - card (set (map sha segs)) \<and>
    list_all (pair_of_equals sha segs) (ia_dups (ir_acc rep)) \<and>
    ia_freq (ir_acc rep) = count_list (concat segs)"
proof -
  note i = inspect_book_acc [OF assms(1), folded segs_def]
  let ?a = "ir_acc rep"
  have n: "ia_dup_count ?a + card (set (map sha segs)) = length (map sha segs)"
    and z: "ia_zero_count ?a = length (filter (list_all (\<lambda>b. b = 0)) segs)"
    and l: "list_all (pair_of_equals sha segs) (ia_dups ?a)"
    using i(1) by (auto simp: inspected_def)
  have d: "ia_dup_count ?a = 0 \<longleftrightarrow> distinct (map sha segs)"
    using n card_distinct [of "map sha segs"] distinct_card [of "map sha segs"] by auto
  have "ia_zero_count ?a = 0 \<longleftrightarrow> (\<forall>s \<in> set segs. \<not> list_all (\<lambda>b. b = 0) s)"
    unfolding z by (simp add: filter_empty_conv)
  with d i(3) have ok: "ir_ok rep \<longleftrightarrow>
      distinct (map sha segs) \<and> (\<forall>s \<in> set segs. \<not> list_all (\<lambda>b. b = 0) s)" by simp
  moreover have "distinct (map sha segs) \<Longrightarrow> distinct segs" by (simp add: distinct_map)
  moreover have "ia_dup_count ?a = length segs - card (set (map sha segs))" using n by simp
  ultimately show ?thesis using l i(2) by (simp add: counted_def)
qed

lemma inspect_loop_total:
  "SEGMENT_LEN * n \<le> length data \<Longrightarrow> \<exists>a'. inspect_loop sha n i data [] a = Inr a'"
  by (induction n arbitrary: i data a) (simp_all add: os_call_Nil)

theorem inspect_finds_repetitions_witness:
  "\<exists>rep. inspect_book sum_digest (\<lambda>_ _. True) (OpenOk \<lparr>bf_regular = True, bf_data = small_data\<rparr>) [] = Inr rep \<and>
    ir_ok rep"
proof -
  obtain a where l: "inspect_loop sum_digest 3 0 (drop 128 small_data) [] empty_acc = Inr a"
  proof -
    have "SEGMENT_LEN * 3 \<le> length (drop 128 small_data)"
      by (simp add: small_data_def length_small_header SEGMENT_LEN_def)
    from inspect_loop_total [OF this] that show thesis by blast
  qed
  then obtain rep where r: "inspect_book sum_digest (\<lambda>_ _. True)
      (OpenOk \<lparr>bf_regular = True, bf_data = small_data\<rparr>) [] = Inr rep" and h: "ir_header rep = small_header"
    unfolding inspect_book_def small_open by (simp add: Let_def HEADER_LEN_def) (simp add: small_header_def)
  have seg: "segment_at small_data 0 = replicate 64 1" "segment_at small_data 1 = replicate 64 2"
    "segment_at small_data 2 = replicate 64 3"
    by (simp_all add: segment_at_def small_data_def SEGMENT_LEN_def length_small_header)
  have "distinct (map sum_digest (map (segment_at small_data) [0..<3])) \<and>
    (\<forall>s \<in> set (map (segment_at small_data) [0..<3]). \<not> list_all (\<lambda>b. b = 0) s)"
    unfolding sum_digest_def
    by (simp add: upt_rec seg seg(2,3) [unfolded One_nat_def numeral_2_eq_2] sum_list_replicate
        list_all_iff)
  then have "ir_ok rep"
    using inspect_finds_repetitions [OF r] by (simp add: h) (simp add: small_header_def)
  with r show ?thesis by blast
qed

text \<open>The summary record as JSON: \<open>to_json\<close>, with the formatted ratio and warnings given.\<close>

definition json_line :: "string \<Rightarrow> string \<Rightarrow> string \<Rightarrow> string" where
  "json_line key val sep = ''  '' @ quoted key @ '': '' @ val @ sep @ [newline]"

definition json_list :: "string \<Rightarrow> string list \<Rightarrow> string" where
  "json_list sep xs = ''['' @ join sep xs @ '']''"

definition byte_list :: "byte list" where
  "byte_list = map word_of_nat [0..<256]"

definition inspect_to_json ::
  "(nat \<Rightarrow> nat \<Rightarrow> string) \<Rightarrow> (inspect_warning \<Rightarrow> string) \<Rightarrow> inspect_report \<Rightarrow> string" where
  "inspect_to_json fmt_ratio warn_text rep =
    (let h = ir_header rep; a = ir_acc rep in
     ''{'' @ [newline]
     @ json_line ''book_id'' (quoted (hex_bytes (bh_book_id h))) []
     @ json_line ''version'' (dec (unat (bh_version h))) '',''
     @ json_line ''segment_len'' (dec (unat (bh_segment_len h))) '',''
     @ json_line ''segment_count'' (dec (unat (bh_segment_count h))) '',''
     @ json_line ''file_size'' (dec (ir_file_size rep)) '',''
     @ json_line ''ones_ratio'' (fmt_ratio (ia_ones a) (ir_total_bits rep)) '',''
     @ json_line ''duplicate_count'' (dec (ia_dup_count a)) '',''
     @ json_line ''duplicates'' (json_list '', '' (map (\<lambda>d. ''{'' @ quoted ''first'' @ '': ''
         @ dec (dp_first d) @ '', '' @ quoted ''other'' @ '': '' @ dec (dp_other d) @ ''}'') (ia_dups a))) '',''
     @ json_line ''zero_segment_count'' (dec (ia_zero_count a)) '',''
     @ json_line ''zero_segments'' (json_list '', '' (map dec (ia_zeros a))) '',''
     @ json_line ''byte_freq'' (json_list '','' (map (dec \<circ> ia_freq a) byte_list)) '',''
     @ json_line ''warnings'' (json_list '', '' (map (quoted \<circ> warn_text) (ir_warnings rep))) '',''
     @ json_line ''ok'' (if ir_ok rep then ''true'' else ''false'') []
     @ ''}'')"

text \<open>
  The JSON report is not JSON: after the first member, the book id, comes the end of the
  line and then the quote of the next key, without the comma between them.
\<close>

theorem inspect_json_lacks_comma:
  "\<exists>rest. inspect_to_json fmt_ratio warn_text rep =
    ''{'' @ [newline] @ ''  '' @ quoted ''book_id'' @ '': '' @ quoted (hex_bytes (bh_book_id (ir_header rep)))
    @ [newline] @ ''  '' @ quoted ''version'' @ rest"
  by (simp add: inspect_to_json_def Let_def json_line_def)



end
