(* ===== verification/AnchorCli.thy ===== *)
theory AnchorCli
  imports Startup
begin

text \<open>
  The anchor commands: \<open>anchor init\<close> (\<open>crates/otp-cli/src/anchorinit.rs\<close>), \<open>anchor inspect\<close>
  (\<open>crates/otp-cli/src/anchorio.rs\<close>) and \<open>run_anchor_init\<close> of \<open>crates/otp-cli/src/main.rs\<close>. The file
  system is a map from directory entries to files; \<open>at\<close> says which entry a path names, so that two different
  paths may name the same one. Every system call consumes one outcome of the script, as in \<open>OsFile\<close>.
\<close>

section \<open>Directory entries\<close>

text \<open>An entry is a file or a symbolic link that leads nowhere.\<close>

datatype dir_entry = RegularFile os_file | DanglingLink

record 'n fs_world =
  fw_disk :: "'n \<Rightarrow> dir_entry option"
  fw_synced :: "'n \<Rightarrow> bool"
  fw_script :: script

definition fs_call :: "'n fs_world \<Rightarrow> os_outcome option \<times> 'n fs_world" where
  "fs_call w = (case os_call (fw_script w) of (e, sc) \<Rightarrow> (e, w\<lparr>fw_script := sc\<rparr>))"

text \<open>\<open>fs::read\<close>, \<open>Path::exists\<close> and \<open>Path::is_symlink\<close>; a failing call answers no.\<close>

definition read_file :: "'n \<Rightarrow> 'n fs_world \<Rightarrow> bytes option \<times> 'n fs_world" where
  "read_file n w = (case fs_call w of (e, w) \<Rightarrow>
     (if e = None then (case fw_disk w n of Some (RegularFile f) \<Rightarrow> Some (f_cache f) | _ \<Rightarrow> None) else None, w))"

definition path_exists :: "'n \<Rightarrow> 'n fs_world \<Rightarrow> bool \<times> 'n fs_world" where
  "path_exists n w = (case fs_call w of (e, w) \<Rightarrow>
     (e = None \<and> (case fw_disk w n of Some (RegularFile _) \<Rightarrow> True | _ \<Rightarrow> False), w))"

definition path_is_symlink :: "'n \<Rightarrow> 'n fs_world \<Rightarrow> bool \<times> 'n fs_world" where
  "path_is_symlink n w = (case fs_call w of (e, w) \<Rightarrow> (e = None \<and> fw_disk w n = Some DanglingLink, w))"

section \<open>Initialisation\<close>

datatype 'p anchor_init_error =
    AnchorExists 'p "book_id option" bool
  | SamePath 'p
  | InitUnsupportedFilesystem 'p
  | InitIo 'p
  | VerifyFailed 'p
  | CleanupFailed 'p

definition exists_err ::
  "(bytes \<Rightarrow> bytes) \<Rightarrow> ('p \<Rightarrow> 'n) \<Rightarrow> 'p \<Rightarrow> book_id \<Rightarrow> 'n fs_world \<Rightarrow> 'p anchor_init_error \<times> 'n fs_world" where
  "exists_err sha at p expected w = (case read_file (at p) w of (bs, w) \<Rightarrow>
     let existing = (case bs of None \<Rightarrow> None
       | Some b \<Rightarrow> (case decode_and_verify sha b of Inl _ \<Rightarrow> None | Inr r \<Rightarrow> Some (ar_book_id r))) in
     (AnchorExists p existing (case existing of None \<Rightarrow> False | Some i \<Rightarrow> i \<noteq> expected), w))"

text \<open>\<open>write_one\<close>: create exclusively, write in full, sync the file and its directory.\<close>

definition put_file :: "'n \<Rightarrow> os_file \<Rightarrow> script \<Rightarrow> 'n fs_world \<Rightarrow> 'n fs_world" where
  "put_file n f sc w = w\<lparr>fw_disk := (fw_disk w)(n \<mapsto> RegularFile f), fw_script := sc\<rparr>"

definition write_one ::
  "(bytes \<Rightarrow> bytes) \<Rightarrow> ('p \<Rightarrow> 'n) \<Rightarrow> 'p \<Rightarrow> bytes \<Rightarrow> book_id \<Rightarrow> 'n fs_world \<Rightarrow>
    ('p anchor_init_error + unit) \<times> 'n fs_world" where
  "write_one sha at p bs expected w = (case fs_call w of
     (Some _, w) \<Rightarrow> (Inl (InitIo p), w)
   | (None, w) \<Rightarrow>
     if fw_disk w (at p) \<noteq> None then (case exists_err sha at p expected w of (e, w) \<Rightarrow> (Inl e, w))
     else (case write_full bs (fw_script w) (file_of []) of
       (Inl _, sc, f) \<Rightarrow> (Inl (InitIo p), put_file (at p) f sc w)
     | (Inr _, sc, f) \<Rightarrow> (case fsync_file sc f of
         (Inl _, sc, f) \<Rightarrow> (Inl (InitIo p), put_file (at p) f sc w)
       | (Inr _, sc, f) \<Rightarrow> (case fs_call (put_file (at p) f sc w) of
           (Some _, w) \<Rightarrow> (Inl (InitIo p), w)
         | (None, w) \<Rightarrow> (Inr (), w\<lparr>fw_synced := (fw_synced w)(at p := True)\<rparr>)))))"

text \<open>The outcome of syncing the directory is ignored.\<close>

definition anchor_cleanup :: "('p \<Rightarrow> 'n) \<Rightarrow> 'p \<Rightarrow> 'n fs_world \<Rightarrow> ('p anchor_init_error + unit) \<times> 'n fs_world" where
  "anchor_cleanup at p w = (case fs_call w of (e, w) \<Rightarrow>
     if e = None \<and> fw_disk w (at p) \<noteq> None
     then (Inr (), snd (fs_call (w\<lparr>fw_disk := (fw_disk w)(at p := None), fw_synced := (fw_synced w)(at p := False)\<rparr>)))
     else (case path_exists (at p) w of
       (False, w) \<Rightarrow> (Inr (), snd (fs_call w))
     | (True, w) \<Rightarrow> (Inl (CleanupFailed p), w)))"

text \<open>The loops over the two paths of \<open>init_anchor_pair\<close>.\<close>

fun check_absent ::
  "(bytes \<Rightarrow> bytes) \<Rightarrow> ('p \<Rightarrow> 'n) \<Rightarrow> book_id \<Rightarrow> 'p list \<Rightarrow> 'n fs_world \<Rightarrow>
    ('p anchor_init_error + unit) \<times> 'n fs_world" where
  "check_absent sha at bid [] w = (Inr (), w)"
| "check_absent sha at bid (p # ps) w = (case path_exists (at p) w of
     (True, w) \<Rightarrow> (case exists_err sha at p bid w of (e, w) \<Rightarrow> (Inl e, w))
   | (False, w) \<Rightarrow> (case path_is_symlink (at p) w of
       (True, w) \<Rightarrow> (case exists_err sha at p bid w of (e, w) \<Rightarrow> (Inl e, w))
     | (False, w) \<Rightarrow> check_absent sha at bid ps w))"

fun read_back ::
  "(bytes \<Rightarrow> bytes) \<Rightarrow> ('p \<Rightarrow> 'n) \<Rightarrow> anchor_record \<Rightarrow> 'p list \<Rightarrow> 'n fs_world \<Rightarrow> 'p option \<times> 'n fs_world" where
  "read_back sha at r [] w = (None, w)"
| "read_back sha at r (p # ps) w = (case read_file (at p) w of (bs, w) \<Rightarrow>
     if (\<exists>b \<in> set_option bs. decode_and_verify sha b = Inr r) then read_back sha at r ps w else (Some p, w))"

definition unsupported :: "('p \<Rightarrow> platform_error + int) \<Rightarrow> 'p \<Rightarrow> bool" where
  "unsupported statfs p \<longleftrightarrow> is_err (require_supported_filesystem (statfs p))"

definition init_anchor_pair ::
  "(bytes \<Rightarrow> bytes) \<Rightarrow> ('p \<Rightarrow> 'n) \<Rightarrow> ('p \<Rightarrow> platform_error + int) \<Rightarrow> book_id \<Rightarrow> 'p \<Rightarrow> 'p \<Rightarrow> 'n fs_world \<Rightarrow>
    ('p anchor_init_error + anchor_record) \<times> 'n fs_world" where
  "init_anchor_pair sha at statfs bid a b w =
    (if a = b then (Inl (SamePath a), w)
     else if unsupported statfs a then (Inl (InitUnsupportedFilesystem a), w)
     else if unsupported statfs b then (Inl (InitUnsupportedFilesystem b), w)
     else (case check_absent sha at bid [a, b] w of
       (Inl e, w) \<Rightarrow> (Inl e, w)
     | (Inr _, w) \<Rightarrow>
       (let record = anchor_init bid; bs = encode_record sha record in
        case write_one sha at a bs bid w of
          (Inl e, w) \<Rightarrow> (Inl e, w)
        | (Inr _, w) \<Rightarrow> (case write_one sha at b bs bid w of
            (Inl e, w) \<Rightarrow> (case anchor_cleanup at a w of
                (Inl e', w) \<Rightarrow> (Inl e', w)
              | (Inr _, w) \<Rightarrow> (Inl e, w))
          | (Inr _, w) \<Rightarrow> (case read_back sha at record [a, b] w of
              (None, w) \<Rightarrow> (Inr record, w)
            | (Some p, w) \<Rightarrow> (case anchor_cleanup at a w of
                (Inl e', w) \<Rightarrow> (Inl e', w)
              | (Inr _, w) \<Rightarrow> (case anchor_cleanup at b w of
                  (Inl e', w) \<Rightarrow> (Inl e', w)
                | (Inr _, w) \<Rightarrow> (Inl (VerifyFailed p), w))))))))"

section \<open>Inspection\<close>

record anchor_status =
  as_record :: "anchor_record option"
  as_failure :: "string option"

definition inspect_anchor :: "(bytes \<Rightarrow> bytes) \<Rightarrow> 'n \<Rightarrow> 'n fs_world \<Rightarrow> anchor_status \<times> 'n fs_world" where
  "inspect_anchor sha n w = (case read_file n w of
     (None, w) \<Rightarrow> (\<lparr>as_record = None, as_failure = Some ''unreadable''\<rparr>, w)
   | (Some bs, w) \<Rightarrow> (case decode_and_verify sha bs of
       Inr r \<Rightarrow> (\<lparr>as_record = Some r, as_failure = None\<rparr>, w)
     | Inl _ \<Rightarrow> (\<lparr>as_record = None, as_failure = Some ''corrupt''\<rparr>, w)))"

definition anchor_relation :: "anchor_status \<Rightarrow> anchor_status \<Rightarrow> string option" where
  "anchor_relation a b = (case (as_record a, as_record b) of
     (Some ra, Some rb) \<Rightarrow> Some (case decide (Inr ra) (Inr rb) of
         Consistent _ \<Rightarrow> ''consistent''
       | AdoptHigher _ _ \<Rightarrow> ''adopt-higher (stale copy repairable)''
       | QuarantineCorrupt _ _ \<Rightarrow> ''quarantine''
       | BothUnreadable \<Rightarrow> ''both-unreadable''
       | CannotProveSafe _ \<Rightarrow> ''cannot-prove-safe'')
   | _ \<Rightarrow> None)"

definition payload_name :: "anchor_record \<Rightarrow> string" where
  "payload_name r = (case ar_payload r of
     Init \<Rightarrow> ''init''
   | Intent i \<Rightarrow> ''intent(reserved='' @ dec (unat i) @ '')''
   | Commit h \<Rightarrow> ''commit(prev_hash='' @ hex_bytes h @ '')'')"

definition record_line :: "string \<Rightarrow> anchor_record \<Rightarrow> string" where
  "record_line label r = label @ '': book_id='' @ hex_bytes (ar_book_id r) @ '' next='' @ dec (unat (ar_next r))
     @ '' generation='' @ dec (unat (gen_get (ar_generation r))) @ '' payload='' @ payload_name r"

definition status_line :: "string \<Rightarrow> anchor_status \<Rightarrow> string" where
  "status_line path s = (case as_record s of
     Some r \<Rightarrow> record_line path r
   | None \<Rightarrow> path @ '': FAILED('' @ (case as_failure s of None \<Rightarrow> ''unknown'' | Some f \<Rightarrow> f) @ '')'') @ [newline]"

definition anchor_summary :: "string \<Rightarrow> string option \<Rightarrow> anchor_status \<Rightarrow> anchor_status \<Rightarrow> string" where
  "anchor_summary pa pb a b = status_line pa a @ (case pb of
     None \<Rightarrow> []
   | Some pb \<Rightarrow> status_line pb b @ (case anchor_relation a b of
       Some rel \<Rightarrow> ''relation: '' @ rel @ [newline]
     | None \<Rightarrow> ''relation: unreadable/corrupt copy present'' @ [newline]))"

definition anchors_ok :: "anchor_status \<Rightarrow> anchor_status \<Rightarrow> bool" where
  "anchors_ok a b \<longleftrightarrow> as_record a \<noteq> None \<and> as_record b \<noteq> None"

definition anchor_json :: "string \<Rightarrow> string \<Rightarrow> anchor_status \<Rightarrow> string" where
  "anchor_json key path s = quoted key @ '':{'' @ quoted ''path'' @ '':'' @ quoted path @ (case as_record s of
     Some r \<Rightarrow> '','' @ quoted ''book_id'' @ '':'' @ quoted (hex_bytes (ar_book_id r))
       @ '','' @ quoted ''next'' @ '':'' @ dec (unat (ar_next r))
       @ '','' @ quoted ''generation'' @ '':'' @ dec (unat (gen_get (ar_generation r)))
       @ '','' @ quoted ''payload'' @ '':'' @ quoted (payload_name r) @ ''}''
   | None \<Rightarrow> '','' @ quoted ''error'' @ '':''
       @ quoted (case as_failure s of None \<Rightarrow> ''unknown'' | Some f \<Rightarrow> f) @ ''}'')"

definition anchors_to_json :: "string \<Rightarrow> string option \<Rightarrow> anchor_status \<Rightarrow> anchor_status \<Rightarrow> string" where
  "anchors_to_json pa pb a b = ''{'' @ anchor_json ''a'' pa a @ (case pb of
     None \<Rightarrow> []
   | Some pb \<Rightarrow> '','' @ anchor_json ''b'' pb b @ '','' @ quoted ''relation'' @ '':''
       @ quoted (case anchor_relation a b of None \<Rightarrow> ''unreadable-or-corrupt'' | Some r \<Rightarrow> r)) @ ''}''"

section \<open>The command\<close>

text \<open>The error is the exit code: 2 for what policy refuses, 1 for everything else.\<close>

definition run_anchor_init ::
  "(bytes \<Rightarrow> bytes) \<Rightarrow> ('p \<Rightarrow> 'n) \<Rightarrow> ('p \<Rightarrow> platform_error + int) \<Rightarrow> book_error + book \<Rightarrow> 'p \<Rightarrow> 'p \<Rightarrow> 'n fs_world \<Rightarrow>
    (nat + anchor_record) \<times> 'n fs_world" where
  "run_anchor_init sha at statfs book a b w = (case book of
     Inl _ \<Rightarrow> (Inl 1, w)
   | Inr bk \<Rightarrow> (case init_anchor_pair sha at statfs (bh_book_id (bk_header bk)) a b w of
       (Inl e, w) \<Rightarrow> (Inl (case e of
           AnchorExists _ _ _ \<Rightarrow> 2 | SamePath _ \<Rightarrow> 2 | InitUnsupportedFilesystem _ \<Rightarrow> 2 | _ \<Rightarrow> 1), w)
     | (Inr record, w) \<Rightarrow> (case inspect_anchor sha (at a) w of (sa, w) \<Rightarrow>
         (case inspect_anchor sha (at b) w of (sb, w) \<Rightarrow>
           (if anchors_ok sa sb \<and> anchor_relation sa sb = Some ''consistent'' then Inr record else Inl 1, w)))))"

section \<open>What initialisation leaves on the disk\<close>

lemma fs_call_frame [simp]:
  "fw_disk (snd (fs_call w)) = fw_disk w" "fw_synced (snd (fs_call w)) = fw_synced w"
  by (simp_all add: fs_call_def split: prod.splits)

lemma fs_call_eq: "fs_call w = (e, w') \<Longrightarrow> fw_disk w' = fw_disk w \<and> fw_synced w' = fw_synced w"
  using fs_call_frame [of w] by simp

lemma read_file_eq:
  "read_file n w = (bs, w') \<Longrightarrow> fw_disk w' = fw_disk w \<and> fw_synced w' = fw_synced w \<and>
    (\<forall>b. bs = Some b \<longrightarrow> (\<exists>f. fw_disk w n = Some (RegularFile f) \<and> f_cache f = b))"
  by (auto simp: read_file_def dest!: fs_call_eq split: prod.splits if_splits option.splits dir_entry.splits)

lemma exists_err_eq:
  "exists_err sha at p bid w = (e, w') \<Longrightarrow> fw_disk w' = fw_disk w \<and> fw_synced w' = fw_synced w"
  by (auto simp: exists_err_def Let_def dest!: read_file_eq split: prod.splits)

lemma check_absent_eq:
  "check_absent sha at bid ps w = (r, w') \<Longrightarrow> fw_disk w' = fw_disk w \<and> fw_synced w' = fw_synced w"
  by (induction ps arbitrary: w)
    (auto simp: path_exists_def path_is_symlink_def dest!: exists_err_eq fs_call_eq split: prod.splits bool.splits)

lemma read_back_eq:
  "read_back sha at r ps w = (x, w') \<Longrightarrow> fw_disk w' = fw_disk w \<and> fw_synced w' = fw_synced w \<and>
    (x = None \<longrightarrow> (\<forall>p \<in> set ps. \<exists>f. fw_disk w (at p) = Some (RegularFile f) \<and>
      decode_and_verify sha (f_cache f) = Inr r))"
proof (induction ps arbitrary: w)
  case (Cons p ps)
  obtain bs w1 where 1: "read_file (at p) w = (bs, w1)" by fastforce
  show ?case using Cons.prems Cons.IH [of w1] read_file_eq [OF 1] by (auto simp: 1 split: if_splits)
qed simp

lemma anchor_cleanup_eq:
  "anchor_cleanup at p w = (r, w') \<Longrightarrow>
    fw_disk w' = fw_disk w \<or> fw_disk w' = (fw_disk w)(at p := None)"
  by (auto simp: anchor_cleanup_def path_exists_def dest!: fs_call_eq split: prod.splits if_splits bool.splits)

lemma write_one_eq:
  assumes "write_one sha at p bs bid w = (r, w')"
  shows "case r of
      Inr _ \<Rightarrow> fw_disk w (at p) = None \<and> fw_synced w' = (fw_synced w)(at p := True) \<and>
        (\<exists>f. fw_disk w' = (fw_disk w)(at p \<mapsto> RegularFile f) \<and> f_cache f = bs \<and> f_durable f = bs)
    | Inl _ \<Rightarrow> fw_disk w' = fw_disk w \<or>
        (fw_disk w (at p) = None \<and> (\<exists>f. fw_disk w' = (fw_disk w)(at p \<mapsto> RegularFile f)))"
proof -
  obtain x w1 where 1: "fs_call w = (x, w1)" by fastforce
  note w1 = fs_call_eq [OF 1]
  consider "x \<noteq> None" | "x = None" "fw_disk w1 (at p) \<noteq> None" | "x = None" "fw_disk w1 (at p) = None" by blast
  then show ?thesis
  proof cases
    case 3
    obtain y sc f where 2: "write_full bs (fw_script w1) (file_of []) = (y, sc, f)" by (metis prod_cases3)
    show ?thesis
    proof (cases y)
      case (Inr u)
      then have c: "f_cache f = bs"
        using write_full_fresh [of bs "fw_script w1" "file_of []" sc f] 2 by (simp add: file_of_def)
      obtain z sc2 f2 where s: "fsync_file sc f = (z, sc2, f2)" by (metis prod_cases3)
      have "f_cache f2 = bs \<and> (z = Inr () \<longrightarrow> f_durable f2 = bs)"
        using s c by (auto simp: fsync_file_def file_sync_def split: prod.splits option.splits)
      then show ?thesis
        using assms 1 3 2 Inr s w1
        by (cases z) (auto simp: write_one_def put_file_def dest!: fs_call_eq split: prod.splits option.splits)
    qed (use assms 1 3 2 w1 in \<open>auto simp: write_one_def put_file_def\<close>)
  qed (use assms 1 w1 in \<open>auto simp: write_one_def dest!: exists_err_eq split: prod.splits\<close>)
qed

text \<open>The five ways a run can end.\<close>

lemma init_anchor_pair_cases:
  assumes run: "init_anchor_pair sha at statfs bid a b w = (r, w')"
  obtains
    (refused) "fw_disk w' = fw_disk w" "is_err r"
  | (first) w1 e where "fw_disk w1 = fw_disk w" "r = Inl e"
      "write_one sha at a (encode_record sha (anchor_init bid)) bid w1 = (Inl e, w')"
  | (second) w1 w2 w3 e c where "fw_disk w1 = fw_disk w" "is_err r"
      "write_one sha at a (encode_record sha (anchor_init bid)) bid w1 = (Inr (), w2)"
      "write_one sha at b (encode_record sha (anchor_init bid)) bid w2 = (Inl e, w3)"
      "anchor_cleanup at a w3 = (c, w')"
  | (third) w1 w2 w3 q w4 where "fw_disk w1 = fw_disk w" 
      "write_one sha at a (encode_record sha (anchor_init bid)) bid w1 = (Inr (), w2)"
      "write_one sha at b (encode_record sha (anchor_init bid)) bid w2 = (Inr (), w3)"
      "read_back sha at (anchor_init bid) [a, b] w3 = (q, w4)"
      "q = None \<and> r = Inr (anchor_init bid) \<and> w' = w4 \<or>
       q \<noteq> None \<and> is_err r \<and> (\<exists>c w5 c'. anchor_cleanup at a w4 = (c, w5) \<and>
         (w' = w5 \<or> anchor_cleanup at b w5 = (c', w')))"
proof -
  let ?bs = "encode_record sha (anchor_init bid)"
  obtain x w1 where 1: "check_absent sha at bid [a, b] w = (x, w1)" by fastforce
  show thesis
  proof (cases "a \<noteq> b \<and> \<not> unsupported statfs a \<and> \<not> unsupported statfs b \<and> x = Inr ()")
    case False
    then have "fw_disk w' = fw_disk w \<and> is_err r"
      using run 1 check_absent_eq [OF 1] by (cases x) (auto simp: init_anchor_pair_def split: if_splits)
    then show thesis using refused by blast
  next
    case True
    obtain y w2 where 2: "write_one sha at a ?bs bid w1 = (y, w2)" by fastforce
    obtain z w3 where 3: "write_one sha at b ?bs bid w2 = (z, w3)" by fastforce
    obtain q w4 where 4: "read_back sha at (anchor_init bid) [a, b] w3 = (q, w4)" by fastforce
    obtain c w5 where 5: "anchor_cleanup at a w3 = (c, w5)" by fastforce
    obtain d w6 where 6: "anchor_cleanup at a w4 = (d, w6)" by fastforce
    obtain d' w7 where 7: "anchor_cleanup at b w6 = (d', w7)" by fastforce
    note run' = run [unfolded init_anchor_pair_def Let_def, simplified 1, simplified True, simplified]
    note w1 = check_absent_eq [OF 1, THEN conjunct1]
    show thesis
    proof (cases y)
      case (Inl e)
      then show thesis using first [OF w1, of e] run' 2 by simp
    next
      case y: (Inr u)
      show thesis
      proof (cases z)
        case (Inl e)
        then have "w' = w5 \<and> is_err r" using run' 2 3 5 y by (cases c) auto
        then show thesis using second [of w1 w2 e w3 c] w1 2 3 5 y Inl by simp
      next
        case (Inr v)
        then show thesis using third [OF w1 _ _ 4] run' 2 3 4 6 7 y by (cases q; cases d; cases d') auto
      qed
    qed
  qed
qed

lemma both_written:
  assumes "fw_disk w1 = fw_disk w"
    and "write_one sha at a bs bid w1 = (Inr (), w2)" "write_one sha at b bs bid w2 = (Inr (), w3)"
  obtains fa fb where "fw_disk w3 = (fw_disk w)(at a \<mapsto> RegularFile fa, at b \<mapsto> RegularFile fb)"
    "at a \<noteq> at b" "fw_disk w (at a) = None" "fw_disk w (at b) = None"
    "f_durable fa = f_cache fa" "f_durable fb = f_cache fb" "fw_synced w3 (at a)" "fw_synced w3 (at b)"
  using assms(1) write_one_eq [OF assms(2)] write_one_eq [OF assms(3)] by (auto split: if_splits)

lemma init_ok:
  assumes "init_anchor_pair sha at statfs bid a b w = (Inr rec, w')"
  shows "rec = anchor_init bid \<and> at a \<noteq> at b \<and> fw_disk w (at a) = None \<and> fw_disk w (at b) = None \<and>
    fw_synced w' (at a) \<and> fw_synced w' (at b) \<and>
    (\<exists>fa fb. fw_disk w' = (fw_disk w)(at a \<mapsto> RegularFile fa, at b \<mapsto> RegularFile fb) \<and>
      decode_and_verify sha (f_durable fa) = Inr rec \<and> f_cache fa = f_durable fa \<and>
      decode_and_verify sha (f_durable fb) = Inr rec \<and> f_cache fb = f_durable fb)"
  using assms
proof (cases rule: init_anchor_pair_cases)
  case (third w1 w2 w3 q w4)
  obtain fa fb where d: "fw_disk w3 = (fw_disk w)(at a \<mapsto> RegularFile fa, at b \<mapsto> RegularFile fb)"
    "at a \<noteq> at b" "fw_disk w (at a) = None" "fw_disk w (at b) = None"
    "f_durable fa = f_cache fa" "f_durable fb = f_cache fb" "fw_synced w3 (at a)" "fw_synced w3 (at b)"
    by (rule both_written [OF third(1-3)])
  have q: "q = None" "rec = anchor_init bid" "w' = w4" using third(5) by auto
  then have "decode_and_verify sha (f_durable fa) = Inr rec" "decode_and_verify sha (f_durable fb) = Inr rec"
    using read_back_eq [OF third(4)] d by auto
  moreover have "fw_disk w' = fw_disk w3 \<and> fw_synced w' = fw_synced w3"
    using read_back_eq [OF third(4)] q(3) by simp
  ultimately show ?thesis using d q(2) by metis
qed simp_all

lemma init_frame:
  assumes "init_anchor_pair sha at statfs bid a b w = (r, w')"
  shows "fw_disk w \<subseteq>\<^sub>m fw_disk w' \<and> dom (fw_disk w') \<subseteq> insert (at a) (insert (at b) (dom (fw_disk w)))"
  using assms
proof (cases rule: init_anchor_pair_cases)
  case (first w1 e)
  then show ?thesis using write_one_eq [OF first(3)] by (auto simp: map_le_def)
next
  case (second w1 w2 w3 e c)
  then show ?thesis
    using write_one_eq [OF second(3)] write_one_eq [OF second(4)] anchor_cleanup_eq [OF second(5)]
    by (auto simp: map_le_def dom_def split: if_splits)
next
  case (third w1 w2 w3 q w4)
  obtain fa fb where d: "fw_disk w3 = (fw_disk w)(at a \<mapsto> RegularFile fa, at b \<mapsto> RegularFile fb)"
    "fw_disk w (at a) = None" "fw_disk w (at b) = None"
    by (rule both_written [OF third(1-3)])
  have w4: "fw_disk w4 = fw_disk w3" using read_back_eq [OF third(4)] by blast
  have "fw_disk w' = fw_disk w3 \<or> fw_disk w' = (fw_disk w3)(at a := None) \<or>
      fw_disk w' = (fw_disk w3)(at b := None) \<or> fw_disk w' = (fw_disk w3)(at a := None, at b := None)"
    using third(5) w4 anchor_cleanup_eq by metis
  then show ?thesis using d by (auto simp: map_le_def dom_def split: if_splits)
qed auto

text \<open>
  C6. Initialising the anchors never changes or removes anything that is there, whatever fails on the
  way, and touches no entry but the two it is asked for. When it succeeds, the two paths named different
  entries, both were free, and both now hold, on the disk and with their directory entries synced,
  the initial record of the book.
\<close>

theorem init_never_overwrites:
  "case init_anchor_pair sha at statfs bid a b w of (r, w') \<Rightarrow>
    fw_disk w \<subseteq>\<^sub>m fw_disk w' \<and> dom (fw_disk w') \<subseteq> insert (at a) (insert (at b) (dom (fw_disk w))) \<and>
    (case r of Inl _ \<Rightarrow> True
     | Inr rec \<Rightarrow> rec = anchor_init bid \<and> at a \<noteq> at b \<and> fw_disk w (at a) = None \<and> fw_disk w (at b) = None \<and>
        fw_synced w' (at a) \<and> fw_synced w' (at b) \<and>
        (\<exists>fa fb. fw_disk w' = (fw_disk w)(at a \<mapsto> RegularFile fa, at b \<mapsto> RegularFile fb) \<and>
          decode_and_verify sha (f_durable fa) = Inr rec \<and> f_cache fa = f_durable fa \<and>
          decode_and_verify sha (f_durable fb) = Inr rec \<and> f_cache fb = f_durable fb))"
proof -
  obtain r w' where run: "init_anchor_pair sha at statfs bid a b w = (r, w')" by fastforce
  then show ?thesis using init_frame [OF run] init_ok [of sha at statfs bid a b w _ w'] by (cases r) simp_all
qed

section \<open>A failed initialisation\<close>

lemma write_full_stops:
  assumes "0 < n" and "n < length d"
  shows "write_full d (OsOk n # OsNoSpace # sc) (file_of []) =
    (Inl PlNoSpace, sc, \<lparr>f_cache = take n d, f_durable = [], f_since = [], f_pos = n\<rparr>)"
proof -
  have "d \<noteq> []" "drop n d \<noteq> []" using assms by auto
  then show ?thesis
    using assms by (simp add: write_full.simps [of d] write_full.simps [of "drop n d"] file_write_def from_io_def
        file_put_def file_of_def)
qed

lemma write_full_at_once:
  "d \<noteq> [] \<Longrightarrow> write_full d (OsOk (length d) # sc) (file_of []) =
    (Inr (), sc, \<lparr>f_cache = d, f_durable = [], f_since = [], f_pos = length d\<rparr>)"
  by (simp add: write_full.simps [of d] write_full.simps [of "[]"] file_write_def file_put_def file_of_def)

lemmas init_run_simps = init_anchor_pair_def Let_def path_exists_def path_is_symlink_def fs_call_def os_call_def
  write_one_def put_file_def read_file_def exists_err_def anchor_cleanup_def unsupported_def

text \<open>
  C7. A failed initialisation does not clean up what it created when the disk fills up during the write:
  the half-written file stays, the first anchor's in the one case and the second's in the other, and
  every later initialisation, with nothing failing any more, is refused because the anchor exists.
\<close>

theorem failed_init_blocks_the_next:
  assumes "\<not> unsupported statfs a" "\<not> unsupported statfs b" and "at a \<noteq> at b"
    and "fw_disk w (at a) = None" "fw_disk w (at b) = None"
    and "digest32 sha" "length bid = 16" and "0 < n" "n < 104"
  shows "\<exists>w1 w2.
    init_anchor_pair sha at statfs bid a b (w\<lparr>fw_script := [OsOk 0, OsOk 0, OsOk 0, OsOk 0, OsOk 0, OsOk n, OsNoSpace]\<rparr>) =
      (Inl (InitIo a), w1) \<and>
    fst (init_anchor_pair sha at statfs bid a b w1) = Inl (AnchorExists a None False) \<and>
    init_anchor_pair sha at statfs bid a b (w\<lparr>fw_script := 
        [OsOk 0, OsOk 0, OsOk 0, OsOk 0, OsOk 0, OsOk 104, OsOk 0, OsOk 0, OsOk 0, OsOk n, OsNoSpace]\<rparr>) = (Inl (InitIo b), w2) \<and>
    fst (init_anchor_pair sha at statfs bid a b w2) = Inl (AnchorExists b None False)"
proof -
  define bs where "bs = encode_record sha (anchor_init bid)"
  have len: "length bs = 104"
    using assms(6,7) by (simp add: bs_def length_encode_record wf_anchor_def anchor_init_def ANCHOR_RECORD_LEN_def)
  then have ne: "bs \<noteq> []" "n < length bs" using assms(9) by auto
  have half: "\<exists>e. decode_and_verify sha (take n bs) = Inl e"
    using assms(9) len by (simp add: decode_and_verify_def ANCHOR_RECORD_LEN_def)
  note stops = write_full_stops [OF assms(8) ne(2)] and at_once = write_full_at_once [OF ne(1), unfolded len]
  have neq: "a \<noteq> b" using assms(3) by blast
  show ?thesis
    using assms(1-5) neq half
    by (auto simp: init_run_simps bs_def [symmetric] stops at_once fsync_file_def file_sync_def)
qed

lemma init_undisturbed:
  assumes "\<not> unsupported statfs a" "\<not> unsupported statfs b" and "at a \<noteq> at b"
    and "fw_disk w (at a) = None" "fw_disk w (at b) = None" "fw_script w = []"
    and "digest32 sha" "length bid = 16"
  shows "\<exists>w'. init_anchor_pair sha at statfs bid a b w = (Inr (anchor_init bid), w') \<and> fw_script w' = []"
proof -
  have "wf_anchor (anchor_init bid)" "canonical_anchor (anchor_init bid)"
    using assms(8) by (simp_all add: wf_anchor_def anchor_init_def canonical_anchor_def)
  from decode_encode_record [OF assms(7) this] have
    d: "decode_and_verify sha (encode_record sha (anchor_init bid)) = Inr (anchor_init bid)" .
  have ne: "encode_record sha (anchor_init bid) \<noteq> []"
    using assms(7,8) by (auto simp: encode_record_def record_prefix_def ANCHOR_MAGIC_def)
  have w: "write_full (encode_record sha (anchor_init bid)) [] (file_of []) = (Inr (), [],
      \<lparr>f_cache = encode_record sha (anchor_init bid), f_durable = [], f_since = [],
        f_pos = length (encode_record sha (anchor_init bid))\<rparr>)"
    using ne by (simp add: write_full.simps [of "encode_record _ _"] write_full.simps [of "[]"] file_write_def
        file_put_def file_of_def)
  have neq: "a \<noteq> b" using assms(3) by blast
  show ?thesis
    using assms(1-6) neq by (simp add: init_run_simps w d fsync_file_def file_sync_def)
qed

section \<open>Examples\<close>

definition empty_disk :: "nat fs_world" where
  "empty_disk = \<lparr>fw_disk = (\<lambda>_. None), fw_synced = (\<lambda>_. False), fw_script = []\<rparr>"

lemma ext4_supported: "\<not> unsupported (\<lambda>_. Inr 0xEF53) p"
  by (simp add: unsupported_def require_supported_filesystem_def rbind_def)

theorem failed_init_blocks_the_next_witness:
  "\<exists>w1. init_anchor_pair sum_digest id (\<lambda>_. Inr 0xEF53) (replicate 16 7) 0 1
      (empty_disk\<lparr>fw_script := [OsOk 0, OsOk 0, OsOk 0, OsOk 0, OsOk 0, OsOk 50, OsNoSpace]\<rparr>) = (Inl (InitIo 0), w1) \<and>
    fst (init_anchor_pair sum_digest id (\<lambda>_. Inr 0xEF53) (replicate 16 7) 0 1 w1) = Inl (AnchorExists 0 None False)"
  using failed_init_blocks_the_next [where at = id and a = "0 :: nat" and b = 1 and w = empty_disk and n = 50
      and bid = "replicate 16 7" and statfs = "\<lambda>_. Inr 0xEF53", OF ext4_supported ext4_supported _ _ _ digest32_sum_digest]
  by (simp add: empty_disk_def) blast

end
