(* ===== verification/Commands.thy ===== *)
theory Commands
  imports BookTools AnchorCli
begin

text \<open>
  The commands beside the two programs (\<open>run\<close>, \<open>run_book\<close>, \<open>run_anchor\<close> and the argument of
  \<open>--book-id\<close> in \<open>crates/otp-cli/src/main.rs\<close>): what they do and their exit code, an error being a code
  other than 0. What they print is left out.
\<close>

section \<open>The identity of a book as an argument\<close>

text \<open>Arguments are texts of bytes; the code looks at ASCII digits only.\<close>

definition hex_digit :: "char \<Rightarrow> nat option" where
  "hex_digit c = (let n = of_char c :: nat in
     if 48 \<le> n \<and> n \<le> 57 then Some (n - 48)
     else if 97 \<le> n \<and> n \<le> 102 then Some (n - 87)
     else if 65 \<le> n \<and> n \<le> 70 then Some (n - 55)
     else None)"

definition is_ascii_hexdigit :: "char \<Rightarrow> bool" where
  "is_ascii_hexdigit c \<longleftrightarrow> hex_digit c \<noteq> None"

text \<open>\<open>u8::from_str_radix\<close> on two digits, for every pair.\<close>

fun hex_pairs :: "string \<Rightarrow> bytes option" where
  "hex_pairs [] = Some []"
| "hex_pairs [c] = None"
| "hex_pairs (c # d # s) = (case (hex_digit c, hex_digit d) of
     (Some h, Some l) \<Rightarrow> map_option (\<lambda>bs. word_of_nat (16 * h + l) # bs) (hex_pairs s)
   | _ \<Rightarrow> None)"

definition hex_parse :: "string \<Rightarrow> bytes option" where
  "hex_parse s = (if length s \<noteq> 32 \<or> \<not> list_all is_ascii_hexdigit s then None else hex_pairs s)"

definition parse_book_id :: "string \<Rightarrow> nat + book_id" where
  "parse_book_id s = ok_or 2 (hex_parse s)"

section \<open>The commands\<close>

definition run_book_generate ::
  "(bytes \<Rightarrow> bytes) \<Rightarrow> (nat \<Rightarrow> 'g \<Rightarrow> bytes option \<times> 'g) \<Rightarrow> u64 \<Rightarrow> string option \<Rightarrow> create_outcome \<Rightarrow>
    os_file option \<Rightarrow> 'g \<Rightarrow> script \<Rightarrow> (nat + book_header) \<times> os_file option" where
  "run_book_generate sha fill segments book_id co old g sc =
    (case (case book_id of
        Some s \<Rightarrow> (parse_book_id s, g)
      | None \<Rightarrow> (case random_book_id fill g of (r, g) \<Rightarrow> (map_err (\<lambda>_. 1) r, g))) of
       (Inl code, _) \<Rightarrow> (Inl code, old)
     | (Inr bid, g) \<Rightarrow> (case generate_book sha fill segments bid co old g sc of
         (r, f) \<Rightarrow> (map_err (\<lambda>_. 1) r, f)))"

definition run_book_inspect ::
  "(bytes \<Rightarrow> bytes) \<Rightarrow> (nat \<Rightarrow> nat \<Rightarrow> bool) \<Rightarrow> open_outcome \<Rightarrow> script \<Rightarrow> nat + inspect_report" where
  "run_book_inspect sha in_band oc sc = (case inspect_book sha in_band oc sc of
     Inl _ \<Rightarrow> Inl 1
   | Inr rep \<Rightarrow> if ir_ok rep then Inr rep else Inl 1)"

definition run_anchor_inspect ::
  "(bytes \<Rightarrow> bytes) \<Rightarrow> ('p \<Rightarrow> 'n) \<Rightarrow> 'p \<Rightarrow> 'p option \<Rightarrow> 'n fs_world \<Rightarrow> (nat + unit) \<times> 'n fs_world" where
  "run_anchor_inspect sha at path path_b w =
    (case inspect_anchor sha (at path) w of (a, w) \<Rightarrow>
     (case (case path_b of
          Some p \<Rightarrow> inspect_anchor sha (at p) w
        | None \<Rightarrow> (\<lparr>as_record = None, as_failure = None\<rparr>, w)) of (b, w) \<Rightarrow>
       (if path_b \<noteq> None \<and> \<not> anchors_ok a b then Inl 1
        else if path_b = None \<and> as_record a = None then Inl 1
        else Inr (), w)))"

text \<open>The three paths are given together or not at all.\<close>

definition run_doctor_command ::
  "bool \<Rightarrow> bool \<Rightarrow> bool \<Rightarrow> bool \<Rightarrow> script \<times> process \<Rightarrow> code_points option \<Rightarrow> doctor_probes \<Rightarrow> nat + doctor_finding list" where
  "run_doctor_command book anchor_a anchor_b allow_swap proc status p =
    (if \<not> (book \<and> anchor_a \<and> anchor_b) \<and> (book \<or> anchor_a \<or> anchor_b) then Inl 2
     else (case fst (harden_process (fst proc) (snd proc)) of
       Inl _ \<Rightarrow> Inl EXIT_POLICY_REFUSED
     | Inr _ \<Rightarrow> (let fs = doctor_run book allow_swap status p in
         if refuse_startup fs then Inl EXIT_POLICY_REFUSED else Inr fs)))"

section \<open>The printed identity reads back\<close>

definition lower :: "char \<Rightarrow> char" where
  "lower c = (if 65 \<le> (of_char c :: nat) \<and> (of_char c :: nat) \<le> 70 then char_of (of_char c + 32 :: nat) else c)"

lemma lower_code: "(of_char (lower c) :: nat) = (if 65 \<le> (of_char c :: nat) \<and> (of_char c :: nat) \<le> 70 then of_char c + 32 else of_char c)"
  by (auto simp: lower_def)

lemma hex_digit_Some: "hex_digit c = Some d \<longleftrightarrow> d < 16 \<and> digit_char d = lower c"
proof -
  have inj: "x = y \<longleftrightarrow> (of_char x :: nat) = of_char y" for x y :: char by simp
  show ?thesis
    unfolding inj [of "digit_char d"] lower_code
    by (cases "d < 16") (auto simp: hex_digit_def Let_def digit_char_of split: if_splits)
qed

lemma nat_digits: "l < 16 \<Longrightarrow> 16 * h + l = n \<longleftrightarrow> h = n div 16 \<and> l = n mod (16 :: nat)"
  by auto

lemma hex_pairs_Some: "hex_pairs s = Some b \<longleftrightarrow> hex_bytes b = map lower s"
proof (induction s arbitrary: b rule: hex_pairs.induct)
  case 1
  then show ?case by (cases b) (simp_all add: hex_bytes_def hex2_def)
next
  case (2 c)
  then show ?case by (cases b) (simp_all add: hex_bytes_def hex2_def)
next
  case (3 c d s)
  have e: "hex_bytes b = map lower (c # d # s) \<longleftrightarrow> (\<exists>x bs. b = x # bs \<and> hex_digit c = Some (unat x div 16) \<and>
      hex_digit d = Some (unat x mod 16) \<and> hex_bytes bs = map lower s)"
  proof (cases b)
    case (Cons x bs)
    have "unat x div 16 < 16" using unat_lt2p_byte [of x] by (simp add: less_mult_imp_div_less)
    then show ?thesis by (auto simp: Cons hex_bytes_def hex2_def hex_digit_Some)
  qed (simp add: hex_bytes_def)
  have v: "word_of_nat (16 * h + l) = (x :: byte) \<longleftrightarrow> h = unat x div 16 \<and> l = unat x mod 16" if "h < 16" "l < 16" for h l x
  proof -
    have u: "unat (word_of_nat m :: byte) = m" if "m < 256" for m
      using that by (simp add: unsigned_of_nat take_bit_nat_eq_self)
    have "unat (word_of_nat (16 * h + l) :: byte) = 16 * h + l" by (rule u) (use that in simp)
    then have "word_of_nat (16 * h + l) = x \<longleftrightarrow> 16 * h + l = unat x" by (simp only: word_unat_eq_iff)
    also have "\<dots> \<longleftrightarrow> h = unat x div 16 \<and> l = unat x mod 16" by (rule nat_digits [OF that(2)])
    finally show ?thesis .
  qed
  show ?case
  proof (cases "\<exists>h l. hex_digit c = Some h \<and> hex_digit d = Some l")
    case True
    then obtain h l where hl: "hex_digit c = Some h" "hex_digit d = Some l" by blast
    then have lt: "h < 16" "l < 16" by (simp_all add: hex_digit_Some)
    show ?thesis
      unfolding e using hl "3.IH" [OF refl hl] v [OF lt] by (cases b) auto
  next
    case False
    then show ?thesis unfolding e by (auto split: option.splits)
  qed
qed

text \<open>
  The argument of \<open>--book-id\<close> is accepted exactly when it is 32 hexadecimal digits, and read as the 16 bytes that
  it is the printed form of, up to the case of the letters.
\<close>

lemma hex_parse_exact:
  "hex_parse s = Some b \<longleftrightarrow> length b = 16 \<and> hex_bytes b = map lower s"
proof -
  have d: "list_all is_ascii_hexdigit s" if "hex_pairs s = Some b"
    using that
    by (induction s arbitrary: b rule: hex_pairs.induct) (auto simp: is_ascii_hexdigit_def split: option.splits)
  have l: "length s = 2 * length b" if "hex_bytes b = map lower s"
    using arg_cong [OF that, of length] by simp
  show ?thesis using d l hex_pairs_Some by (auto simp: hex_parse_def)
qed

section \<open>From nothing to the first session\<close>

lemma run_anchor_init_ok:
  assumes "run_anchor_init sha at statfs (Inr bk) a b w = (Inr r, w')"
  shows "r = anchor_init (bh_book_id (bk_header bk)) \<and>
    (\<exists>fa fb. fw_disk w' (at a) = Some (RegularFile fa) \<and> fw_disk w' (at b) = Some (RegularFile fb) \<and>
      decode_and_verify sha (f_cache fa) = Inr r \<and> decode_and_verify sha (f_cache fb) = Inr r)"
proof -
  have keep: "inspect_anchor sha n v = (st, v') \<Longrightarrow> fw_disk v' = fw_disk v" for n v st v'
    by (auto simp: inspect_anchor_def dest!: read_file_eq split: prod.splits option.splits sum.splits)
  obtain x w1 where i: "init_anchor_pair sha at statfs (bh_book_id (bk_header bk)) a b w = (x, w1)" by fastforce
  then obtain r' where x: "x = Inr r'" using assms by (cases x) (auto simp: run_anchor_init_def)
  obtain sa w2 where sa: "inspect_anchor sha (at a) w1 = (sa, w2)" by fastforce
  obtain sb w3 where sb: "inspect_anchor sha (at b) w2 = (sb, w3)" by fastforce
  have "r' = r" "w' = w3" using assms i x sa sb by (auto simp: run_anchor_init_def split: if_splits)
  then show ?thesis using init_ok [OF i [unfolded x]] keep [OF sa] keep [OF sb] by auto
qed

text \<open>
  C4. A host set up by the commands serves: when \<open>book generate\<close> and \<open>anchor init\<close> have reported success, a start of
  either program in an environment that the doctor admits, where the files open, the lock is free and no call fails,
  succeeds with the book that was generated, from its first segment, under the identity that was asked for.
\<close>

theorem fresh_host_starts:
  assumes "digest32 sha" and "fills fill"
    and "run_book_generate sha fill count (Some name) co old g sc = (Inr h, Some f)"
    and "open_validated sha (OpenOk \<lparr>bf_regular = True, bf_data = f_cache f\<rparr>) [] = (book, sc')"
    and "run_anchor_init sha at statfs book a b w = (Inr rec, w')"
    and "fw_disk w' (at a) = Some (RegularFile fa)" and "fw_disk w' (at b) = Some (RegularFile fb)"
    and "sn_book n = (OpenOk \<lparr>bf_regular = True, bf_data = f_cache f\<rparr>, [])" and "al_book (sn_alloc n) = sn_book n"
    and "fst (harden_process (fst (sn_process n)) (snd (sn_process n))) = Inr ()"
    and "\<not> refuse_startup (doctor_run True (sn_allow_swap n) (sn_status n) (sn_probes n))"
    and "open_audit (sn_audit_log n) = Inr au"
    and "sn_a_opens n" "sn_b_opens n" "sn_a_script n = []" "sn_b_script n = []"
    and "al_a_opens (sn_alloc n)" "al_b_opens (sn_alloc n)" "al_lock (sn_alloc n) = Inr ()" "al_script (sn_alloc n) = []"
  shows "\<exists>rep s m' au'. start_up sha server n \<lparr>fm_a = fa, fm_b = fb, fm_script = []\<rparr> = (Inr (h, rep, s), m', Some au') \<and>
    bk_data (co_reader s) = f_cache f \<and> ar_next (co_current s) = 0 \<and> \<not> co_halted s \<and>
    bh_segment_count h = count \<and> hex_bytes (bh_book_id h) = map lower name"
proof -
  obtain bid g' where bid: "hex_parse name = Some bid" "generate_book sha fill count bid co old g' sc = (Inr h, Some f)"
    using assms(3)
    by (auto simp: run_book_generate_def parse_book_id_def ok_or_def map_err_def split: option.splits prod.splits sum.splits)
  then have id: "length bid = 16" "hex_bytes bid = map lower name" by (simp_all add: hex_parse_exact)
  note gen = generated_opens [OF assms(1,2) id(1) bid(2)]
  let ?bk = "\<lparr>bk_header = h, bk_data = f_cache f, bk_script = []\<rparr>"
  have "book = Inr ?bk" using gen assms(4) by simp
  from run_anchor_init_ok [OF assms(5) [unfolded this]] assms(6,7) have r: "rec = anchor_init bid"
    "decode_and_verify sha (f_cache fa) = Inr rec" "decode_and_verify sha (f_cache fb) = Inr rec" using gen by auto
  have op: "fst (open_validated sha (fst (sn_book n)) (snd (sn_book n))) = Inr ?bk" using gen assms(8) by simp
  from start_undisturbed [OF op assms(9-20) r(2,3), of server "[]"] show ?thesis
    using gen r(1) id(2) by (auto simp: anchor_init_def)
qed

lemma run_anchor_init_undisturbed:
  assumes "init_anchor_pair sha at statfs (bh_book_id (bk_header bk)) a b w = (Inr r, w')" "fw_script w' = []"
  shows "run_anchor_init sha at statfs (Inr bk) a b w = (Inr r, w')"
proof -
  obtain fa fb where f: "fw_disk w' (at a) = Some (RegularFile fa)" "fw_disk w' (at b) = Some (RegularFile fb)"
    "decode_and_verify sha (f_cache fa) = Inr r" "decode_and_verify sha (f_cache fb) = Inr r"
    using init_ok [OF assms(1)] by auto
  have "inspect_anchor sha (at a) w' = (\<lparr>as_record = Some r, as_failure = None\<rparr>, w')"
    "inspect_anchor sha (at b) w' = (\<lparr>as_record = Some r, as_failure = None\<rparr>, w')"
    using f assms(2) by (simp_all add: inspect_anchor_def read_file_def fs_call_def os_call_def)
  then show ?thesis
    using assms(1) by (simp add: run_anchor_init_def anchors_ok_def anchor_relation_def decide_same)
qed

theorem fresh_host_starts_witness:
  "\<exists>h f rec w' fa fb rep s m' au'.
    run_book_generate sum_digest ones_fill 3 (Some (concat (replicate 16 ''07''))) Created None 0 [] = (Inr h, Some f) \<and>
    run_anchor_init sum_digest id (\<lambda>_. Inr 0xEF53) (Inr \<lparr>bk_header = h, bk_data = f_cache f, bk_script = []\<rparr>) 0 1 empty_disk =
      (Inr rec, w') \<and> fw_disk w' 0 = Some (RegularFile fa) \<and> fw_disk w' 1 = Some (RegularFile fb) \<and>
    start_up sum_digest True (small_env\<lparr>sn_book := (OpenOk \<lparr>bf_regular = True, bf_data = f_cache f\<rparr>, []),
      sn_alloc := (sn_alloc small_env)\<lparr>al_book := (OpenOk \<lparr>bf_regular = True, bf_data = f_cache f\<rparr>, [])\<rparr>\<rparr>)
      \<lparr>fm_a = fa, fm_b = fb, fm_script = []\<rparr> = (Inr (h, rep, s), m', Some au') \<and> ar_next (co_current s) = 0"
proof -
  have p: "hex_parse (concat (replicate 16 ''07'')) = Some (replicate 16 7)"
    by (simp add: hex_parse_def numeral_eq_Suc is_ascii_hexdigit_def hex_digit_def Let_def)
  obtain h f where g: "generate_book sum_digest ones_fill 3 (replicate 16 7) Created None 0 [] = (Inr h, Some f)"
    and fl: "fills ones_fill" using small_generate by blast
  have rg: "run_book_generate sum_digest ones_fill 3 (Some (concat (replicate 16 ''07''))) Created None 0 [] = (Inr h, Some f)"
    using g by (simp add: run_book_generate_def parse_book_id_def p ok_or_def)
  let ?bk = "\<lparr>bk_header = h, bk_data = f_cache f, bk_script = []\<rparr>" and ?oc = "OpenOk \<lparr>bf_regular = True, bf_data = f_cache f\<rparr>"
  have op: "open_validated sum_digest ?oc [] = (Inr ?bk, [])" and bid: "bh_book_id h = replicate 16 7"
    using generated_opens [OF digest32_sum_digest fl _ g] by simp_all
  obtain w' where i: "init_anchor_pair sum_digest id (\<lambda>_. Inr 0xEF53) (bh_book_id (bk_header ?bk)) 0 1 empty_disk =
      (Inr (anchor_init (replicate 16 7)), w')" "fw_script w' = []"
    using init_undisturbed [where at = id and a = "0 :: nat" and b = 1 and w = empty_disk and bid = "replicate 16 7"
        and statfs = "\<lambda>_. Inr 0xEF53", OF ext4_supported ext4_supported _ _ _ _ digest32_sum_digest] bid
    by (auto simp: empty_disk_def)
  note ai = run_anchor_init_undisturbed [OF i]
  obtain fa fb where d: "fw_disk w' (id 0) = Some (RegularFile fa)" "fw_disk w' (id 1) = Some (RegularFile fb)"
    using init_ok [OF i(1)] by auto
  let ?n = "small_env\<lparr>sn_book := (?oc, []), sn_alloc := (sn_alloc small_env)\<lparr>al_book := (?oc, [])\<rparr>\<rparr>"
  have h: "fst (harden_process (fst (sn_process ?n)) (snd (sn_process ?n))) = Inr ()"
    by (simp add: harden_process_def small_env_def os_call_def collect_core_facts_def eval_core_def Let_def)
  have ad: "\<not> refuse_startup (doctor_run True (sn_allow_swap ?n) (sn_status ?n) (sn_probes ?n))"
    using small_admitted by (simp add: small_env_def Let_def)
  have au: "open_audit (sn_audit_log ?n) = Inr (audit_disabled [])" by (simp add: small_env_def Let_def open_audit_def)
  have "\<exists>rep s m' au'. start_up sum_digest True ?n \<lparr>fm_a = fa, fm_b = fb, fm_script = []\<rparr> = (Inr (h, rep, s), m', Some au') \<and>
    bk_data (co_reader s) = f_cache f \<and> ar_next (co_current s) = 0 \<and> \<not> co_halted s \<and>
    bh_segment_count h = 3 \<and> hex_bytes (bh_book_id h) = map lower (concat (replicate 16 ''07''))"
    by (rule fresh_host_starts [OF digest32_sum_digest fl rg op ai d _ _ h ad au])
       (simp_all add: small_env_def Let_def)
  then obtain rep s m' au' where st: "start_up sum_digest True ?n \<lparr>fm_a = fa, fm_b = fb, fm_script = []\<rparr> =
      (Inr (h, rep, s), m', Some au')" "ar_next (co_current s) = 0" by blast
  show ?thesis
    using rg ai d st unfolding id_apply by blast
qed

end
